(* ===== verification/Prelude.thy ===== *)
theory Prelude
  imports Main "HOL-Library.Word"
begin

text \<open>
  Shared vocabulary of the development: the machine integers of the Rust sources and their
  checked and saturating arithmetic, the result type and its sequencing, and the generic
  facts about lists and options that the component theories rely on.

  \<^item> \<open>u8\<close>, \<open>u16\<close>, \<open>u32\<close>, \<open>u64\<close>, \<open>usize\<close> and \<open>i32\<close> are words of their width (the
    supported targets are 64-bit, so \<open>usize\<close> has 64 bits; an \<open>i32\<close> is read with \<open>sint\<close>).
    Plain \<open>+\<close> and \<open>-\<close> wrap, as they do in a release build; the theorems show where they
    cannot.
  \<^item> A collection length is a \<open>nat\<close>, and \<open>len_u64\<close> is the cast \<open>len() as u64\<close>.  A Rust
    allocation holds at most \<open>isize::MAX\<close> bytes; theorems that need this say so with
    \<open>fits_isize\<close>.
  \<^item> A \<open>Waker\<close> is the identity of the task it wakes.
  \<^item> \<open>Duration\<close> is a number of nanoseconds below \<open>duration_max\<close>; its saturating
    operations are written out.
\<close>

section \<open>Named collections\<close>

named_theorems domain_defs "definitions of pure domain values, unfolded together"
named_theorems word_arith "reading word arithmetic as arithmetic of natural numbers"

section \<open>Machine integers\<close>

type_synonym u8 = "8 word"
type_synonym u16 = "16 word"
type_synonym u32 = "32 word"
type_synonym u64 = "64 word"
type_synonym usize = "64 word"
type_synonym i32 = "32 word"
type_synonym bytes = "u8 list"
type_synonym waker = nat

definition checked_add :: "'a::len word \<Rightarrow> 'a word \<Rightarrow> 'a word option" where
  "checked_add a b = (let c = a + b in if a \<le> c then Some c else None)"

definition checked_sub :: "'a::len word \<Rightarrow> 'a word \<Rightarrow> 'a word option" where
  "checked_sub a b = (if b \<le> a then Some (a - b) else None)"

definition checked_mul :: "'a::len word \<Rightarrow> 'a word \<Rightarrow> 'a word option" where
  "checked_mul a b = (if uint a * uint b < 2 ^ LENGTH('a) then Some (a * b) else None)"

definition saturating_add :: "'a::len word \<Rightarrow> 'a word \<Rightarrow> 'a word" where
  "saturating_add a b = (let c = a + b in if a \<le> c then c else - 1)"

definition saturating_sub :: "'a::len word \<Rightarrow> 'a word \<Rightarrow> 'a word" where
  "saturating_sub a b = (if b \<le> a then a - b else 0)"

definition len_u64 :: "'x list \<Rightarrow> u64" where
  "len_u64 xs = word_of_nat (length xs)"

definition isize_max :: nat where
  "isize_max = 2 ^ 63 - 1"

definition fits_isize :: "'x list \<Rightarrow> bool" where
  "fits_isize xs \<longleftrightarrow> length xs \<le> isize_max"

lemma checked_add_eq:
  "checked_add a b = (if unat a + unat b < 2 ^ LENGTH('a) then Some (a + b) else None)"
  for a :: "'a::len word"
  by (simp add: checked_add_def Let_def no_olen_add_nat)

lemma saturating_add_eq:
  "saturating_add a b = (if unat a + unat b < 2 ^ LENGTH('a) then a + b else - 1)"
  for a :: "'a::len word"
  by (simp add: saturating_add_def Let_def no_olen_add_nat)

lemma checked_add_Some_iff:
  "checked_add a b = Some c \<longleftrightarrow> unat a + unat b < 2 ^ LENGTH('a) \<and> c = a + b"
  for a :: "'a::len word"
  by (auto simp: checked_add_eq)

lemma checked_add_None_iff:
  "checked_add a b = None \<longleftrightarrow> 2 ^ LENGTH('a) \<le> unat a + unat b"
  for a :: "'a::len word"
  by (auto simp: checked_add_eq)

lemma unat_add_no_overflow [word_arith]:
  "unat a + unat b < 2 ^ LENGTH('a) \<Longrightarrow> unat (a + b) = unat a + unat b"
  for a :: "'a::len word"
  by (simp add: unat_word_ariths(1))

lemma checked_add_unat:
  "checked_add a b = Some c \<Longrightarrow> unat c = unat a + unat b"
  for a :: "'a::len word"
  by (simp add: checked_add_Some_iff word_arith)

lemma checked_add_one_None_iff [simp]:
  "checked_add a 1 = None \<longleftrightarrow> a = - 1" for a :: "'a::len word"
proof -
  have "unat a < 2 ^ LENGTH('a)" by (rule unsigned_less)
  then have "2 ^ LENGTH('a) \<le> unat a + 1 \<longleftrightarrow> unat a = 2 ^ LENGTH('a) - 1"
    by linarith
  also have "\<dots> \<longleftrightarrow> a = - 1"
    by (simp add: word_unat_eq_iff unsigned_minus_1_eq_mask mask_eq_exp_minus_1)
  finally show ?thesis
    by (simp add: checked_add_None_iff)
qed

lemma unat_sub_no_underflow [word_arith]:
  "b \<le> a \<Longrightarrow> unat (a - b) = unat a - unat b" for a :: "'a::len word"
  by (simp add: unat_sub)

lemma checked_sub_Some_iff:
  "checked_sub a b = Some c \<longleftrightarrow> b \<le> a \<and> c = a - b"
  by (auto simp: checked_sub_def)

lemma saturating_sub_unat [word_arith]:
  "unat (saturating_sub a b) = unat a - unat b" for a :: "'a::len word"
  by (auto simp: saturating_sub_def word_arith word_le_nat_alt)

lemma unat_len_u64 [word_arith]:
  "fits_isize xs \<Longrightarrow> unat (len_u64 xs) = length xs"
  by (simp add: len_u64_def fits_isize_def isize_max_def unat_of_nat take_bit_nat_eq_self)

lemma unat_u64_less: "unat (w :: u64) < 2 ^ 64"
  using unsigned_less [of w] by simp

lemma unat_u32_less: "unat (w :: u32) < 2 ^ 32"
  using unsigned_less [of w] by simp

lemma unat_of_nat_u64: "n < 2 ^ 64 \<Longrightarrow> unat (word_of_nat n :: u64) = n"
  by (simp add: unat_of_nat take_bit_nat_eq_self)

lemma unat_ucast_up:
  fixes x :: "'a::len word"
  assumes "LENGTH('a) \<le> LENGTH('b)"
  shows "unat (ucast x :: 'b::len word) = unat x"
proof -
  have "unat x < 2 ^ LENGTH('a)" by (rule unsigned_less)
  also have "(2 :: nat) ^ LENGTH('a) \<le> 2 ^ LENGTH('b)" using assms by (rule power_increasing) simp
  finally show ?thesis by (simp add: unsigned_ucast_eq take_bit_nat_eq_self)
qed

section \<open>Results\<close>

text \<open>
  A Rust \<open>Result<T, E>\<close> is a value of the sum \<open>'e + 'a\<close>; \<open>bind_result\<close> is the question-mark
  operator.
\<close>

type_synonym ('e, 'a) result = "'e + 'a"

abbreviation Err :: "'e \<Rightarrow> ('e, 'a) result" where
  "Err \<equiv> Inl"

abbreviation Ok :: "'a \<Rightarrow> ('e, 'a) result" where
  "Ok \<equiv> Inr"

fun bind_result :: "('e, 'a) result \<Rightarrow> ('a \<Rightarrow> ('e, 'b) result) \<Rightarrow> ('e, 'b) result" where
  "bind_result (Err e) f = Err e"
| "bind_result (Ok x) f = f x"

fun map_err :: "('e \<Rightarrow> 'f) \<Rightarrow> ('e, 'a) result \<Rightarrow> ('f, 'a) result" where
  "map_err g (Err e) = Err (g e)"
| "map_err g (Ok x) = Ok x"

fun is_ok :: "('e, 'a) result \<Rightarrow> bool" where
  "is_ok (Err e) = False"
| "is_ok (Ok x) = True"

fun ok_or :: "'a option \<Rightarrow> 'e \<Rightarrow> ('e, 'a) result" where
  "ok_or None e = Err e"
| "ok_or (Some x) e = Ok x"

lemma bind_result_Ok_iff:
  "bind_result r f = Ok y \<longleftrightarrow> (\<exists>x. r = Ok x \<and> f x = Ok y)"
  by (cases r) auto

lemma bind_result_Err_iff:
  "bind_result r f = Err e \<longleftrightarrow> r = Err e \<or> (\<exists>x. r = Ok x \<and> f x = Err e)"
  by (cases r) auto

lemma map_err_Ok_iff [simp]: "map_err g r = Ok x \<longleftrightarrow> r = Ok x"
  by (cases r) auto

lemma map_err_Err_iff: "map_err g r = Err e \<longleftrightarrow> (\<exists>d. r = Err d \<and> e = g d)"
  by (cases r) auto

lemma ok_or_Ok_iff [simp]: "ok_or v e = Ok x \<longleftrightarrow> v = Some x"
  by (cases v) auto

lemma ok_or_Err_iff [simp]: "ok_or v e = Err d \<longleftrightarrow> v = None \<and> d = e"
  by (cases v) auto

lemma is_ok_iff: "is_ok r \<longleftrightarrow> (\<exists>x. r = Ok x)"
  by (cases r) auto

section \<open>Durations\<close>

type_synonym duration = nat

definition duration_max :: duration where
  "duration_max = 2 ^ 64 * 1000000000 - 1"

definition from_secs :: "nat \<Rightarrow> duration" where
  "from_secs s = s * 1000000000"

definition from_millis :: "nat \<Rightarrow> duration" where
  "from_millis ms = ms * 1000000"

definition dur_add :: "duration \<Rightarrow> duration \<Rightarrow> duration" where
  "dur_add a b = min (a + b) duration_max"

lemma dur_add_le: "dur_add a b \<le> duration_max"
  by (simp add: dur_add_def)

lemma dur_add_mono: "a \<le> a' \<Longrightarrow> dur_add a b \<le> dur_add a' b"
  by (simp add: dur_add_def)

section \<open>Lists\<close>

lemma take_then_drop:
  "take m (drop k xs) @ drop (k + length (take m (drop k xs))) xs = drop k xs"
proof -
  have "take m ys @ drop (length (take m ys)) ys = ys" for ys :: "'a list"
    by (cases "m \<le> length ys") auto
  from this [of "drop k xs"] show ?thesis
    unfolding drop_drop by (simp only: add.commute)
qed

lemma find_None_not_in:
  "List.find P xs = None \<Longrightarrow> x \<in> set xs \<Longrightarrow> \<not> P x"
  by (auto simp: find_None_iff)

lemma sum_list_le_bound:
  "(\<And>x. x \<in> set xs \<Longrightarrow> f x \<le> (b::nat)) \<Longrightarrow> sum_list (map f xs) \<le> length xs * b"
  by (induction xs) (auto simp: add_mono)

section \<open>Ordered maps\<close>

text \<open>
  A \<open>BTreeMap\<close> is its list of entries in ascending key order.  \<open>map_of\<close> is \<open>get\<close>,
  \<open>bt_insert\<close> is \<open>insert\<close>, \<open>bt_remove\<close> is \<open>remove\<close>, the head is what \<open>pop_first\<close> takes and
  \<open>bt_update\<close> writes through \<open>get_mut\<close>.
\<close>

type_synonym ('k, 'v) btree_map = "('k \<times> 'v) list"

fun bt_insert :: "'k::linorder \<Rightarrow> 'v \<Rightarrow> ('k, 'v) btree_map \<Rightarrow> ('k, 'v) btree_map" where
  "bt_insert k v [] = [(k, v)]"
| "bt_insert k v ((a, w) # m) =
     (if k < a then (k, v) # (a, w) # m
      else if k = a then (k, v) # m
      else (a, w) # bt_insert k v m)"

definition bt_remove :: "'k \<Rightarrow> ('k, 'v) btree_map \<Rightarrow> ('k, 'v) btree_map" where
  "bt_remove k m = filter (\<lambda>e. fst e \<noteq> k) m"

definition bt_update :: "'k \<Rightarrow> ('v \<Rightarrow> 'v) \<Rightarrow> ('k, 'v) btree_map \<Rightarrow> ('k, 'v) btree_map" where
  "bt_update k f m = map (\<lambda>(a, v). (a, if a = k then f v else v)) m"

definition bt_ok :: "('k::linorder, 'v) btree_map \<Rightarrow> bool" where
  "bt_ok m \<longleftrightarrow> sorted_wrt (<) (map fst m)"

lemma bt_insert_get: "map_of (bt_insert k v m) = (map_of m)(k \<mapsto> v)"
  by (induction k v m rule: bt_insert.induct) auto

lemma bt_insert_keys: "fst ` set (bt_insert k v m) = insert k (fst ` set m)"
  by (induction k v m rule: bt_insert.induct) auto

lemma bt_insert_ok: "bt_ok m \<Longrightarrow> bt_ok (bt_insert k v m)"
proof (induction k v m rule: bt_insert.induct)
  case (2 k v a w m)
  have "set (map fst (bt_insert k v m)) = insert k (set (map fst m))"
    using bt_insert_keys [of k v m] by simp
  with 2 show ?case by (auto simp: bt_ok_def)
qed (simp add: bt_ok_def)

lemma bt_remove_get: "map_of (bt_remove k m) = (map_of m)(k := None)"
  by (induction m) (auto simp: bt_remove_def)

lemma bt_remove_ok: "bt_ok m \<Longrightarrow> bt_ok (bt_remove k m)"
  unfolding bt_ok_def bt_remove_def by (induction m) auto

lemma bt_update_keys [simp]: "map fst (bt_update k f m) = map fst m"
  by (induction m) (auto simp: bt_update_def)

lemma bt_update_get: "map_of (bt_update k f m) = (map_of m)(k := map_option f (map_of m k))"
  by (induction m) (auto simp: bt_update_def fun_eq_iff)

lemma bt_update_Nil_iff [simp]: "bt_update k f m = [] \<longleftrightarrow> m = []"
  by (simp add: bt_update_def)

lemma bt_insert_Nil_iff [simp]: "bt_insert k v m \<noteq> []"
  by (cases m) (auto split: if_splits)

lemma bt_insert_last:
  "(\<And>e. e \<in> set m \<Longrightarrow> fst e < k) \<Longrightarrow> bt_insert k v m = m @ [(k, v)]"
proof (induction k v m rule: bt_insert.induct)
  case (2 k v a w m)
  have "a < k" using 2(2) [of "(a, w)"] by simp
  moreover have "bt_insert k v m = m @ [(k, v)]"
    using \<open>a < k\<close> 2(2) by (intro 2(1)) auto
  ultimately show ?case by auto
qed simp

section \<open>Positional digits\<close>

text \<open>Least significant digit first; \<open>to_le_bytes\<close> and fixed-width hexadecimal are instances.\<close>

fun le_digits :: "nat \<Rightarrow> nat \<Rightarrow> nat \<Rightarrow> nat list" where
  "le_digits b 0 k = []"
| "le_digits b (Suc n) k = k mod b # le_digits b n (k div b)"

fun le_value :: "nat \<Rightarrow> nat list \<Rightarrow> nat" where
  "le_value b [] = 0"
| "le_value b (d # ds) = d + b * le_value b ds"

lemma length_le_digits [simp]: "length (le_digits b n k) = n"
  by (induction n arbitrary: k) auto

lemma le_digits_less: "0 < b \<Longrightarrow> d \<in> set (le_digits b n k) \<Longrightarrow> d < b"
  by (induction n arbitrary: k) auto

lemma le_value_digits: "0 < b \<Longrightarrow> le_value b (le_digits b n k) = k mod b ^ n"
proof (induction n arbitrary: k)
  case (Suc n)
  then show ?case by (simp add: mod_mult2_eq)
qed simp

lemma le_value_less: "\<forall>d\<in>set ds. d < b \<Longrightarrow> le_value b ds < b ^ length ds"
proof (induction ds)
  case (Cons d ds)
  then have "le_value b ds + 1 \<le> b ^ length ds" "d < b" by auto
  then have "b * (le_value b ds + 1) \<le> b * b ^ length ds" using mult_le_mono2 by blast
  with \<open>d < b\<close> show ?case by simp
qed simp

lemma le_digits_value:
  "\<forall>d\<in>set ds. d < b \<Longrightarrow> le_digits b (length ds) (le_value b ds) = ds"
  by (induction ds) auto

lemma le_digits_inj:
  assumes "0 < b" "le_digits b n k = le_digits b n m" "k < b ^ n" "m < b ^ n"
  shows "k = m"
  by (metis assms le_value_digits mod_less)

definition to_le_bytes :: "nat \<Rightarrow> 'a::len word \<Rightarrow> bytes" where
  "to_le_bytes n w = map word_of_nat (le_digits 256 n (unat w))"

definition from_le_bytes :: "bytes \<Rightarrow> 'a::len word" where
  "from_le_bytes bs = word_of_nat (le_value 256 (map unat bs))"

lemma unat_u8_bound: "unat (b :: u8) < 256"
  using unsigned_less [of b] by simp

lemma length_to_le_bytes [simp]: "length (to_le_bytes n w) = n"
  by (simp add: to_le_bytes_def)

lemma from_to_le_bytes:
  fixes w :: "'a::len word"
  assumes "LENGTH('a) = 8 * n"
  shows "from_le_bytes (to_le_bytes n w) = w"
proof -
  have "unat (word_of_nat d :: u8) = d" if "d < 256" for d using that by (simp add: unat_of_nat)
  then have "map unat (map (word_of_nat :: nat \<Rightarrow> u8) (le_digits 256 n (unat w))) = le_digits 256 n (unat w)"
    using le_digits_less [of 256 _ n "unat w"] by (simp add: map_idI)
  moreover have "unat w < 256 ^ n" using unsigned_less [of w] by (simp add: assms power_mult)
  ultimately show ?thesis
    by (simp add: from_le_bytes_def to_le_bytes_def le_value_digits del: map_map)
qed

lemma to_from_le_bytes:
  assumes "LENGTH('a) = 8 * n" "length bs = n"
  shows "to_le_bytes n (from_le_bytes bs :: 'a::len word) = bs"
proof -
  have small: "\<forall>d\<in>set (map unat bs). d < 256" using unat_u8_bound by auto
  then have "le_value 256 (map unat bs) < 256 ^ n" using le_value_less [of "map unat bs" 256] assms(2) by simp
  also have "(256::nat) ^ n = 2 ^ LENGTH('a)" by (simp add: assms(1) power_mult)
  finally have "unat (from_le_bytes bs :: 'a word) = le_value 256 (map unat bs)"
    by (simp add: from_le_bytes_def unat_of_nat)
  then show ?thesis
    using le_digits_value [OF small] assms(2) by (simp add: to_le_bytes_def map_idI)
qed

end
