(* ===== verification/Text.thy ===== *)
theory Text
  imports Prelude
begin

text \<open>
  The part of Rust's text types that the sources use.  A \<open>str\<close> or \<open>String\<close> is its byte
  sequence (\<open>rust_str\<close>), which the language guarantees to be well-formed UTF-8
  (\<open>is_utf8\<close>); \<open>chars\<close> lists its Unicode scalar values.  The decoder follows the table of
  well-formed sequences that \<open>std::str::from_utf8\<close> implements.  The theorems show that
  decoding and encoding are inverse to each other, so a \<open>rust_str\<close> and its list of scalar
  values carry the same information.  The byte predicates are those of \<open>u8\<close>.
\<close>

type_synonym rust_str = bytes
type_synonym scalar = nat

section \<open>Byte classes\<close>

definition ascii :: "char \<Rightarrow> u8" where
  "ascii c = word_of_nat (of_char c)"

definition bstr :: "string \<Rightarrow> bytes" where
  "bstr s = map ascii s"

definition is_ascii_digit :: "u8 \<Rightarrow> bool" where
  "is_ascii_digit b \<longleftrightarrow> 48 \<le> b \<and> b \<le> 57"

definition is_ascii_lowercase :: "u8 \<Rightarrow> bool" where
  "is_ascii_lowercase b \<longleftrightarrow> 97 \<le> b \<and> b \<le> 122"

definition is_ascii_uppercase :: "u8 \<Rightarrow> bool" where
  "is_ascii_uppercase b \<longleftrightarrow> 65 \<le> b \<and> b \<le> 90"

definition is_ascii_alphanumeric :: "u8 \<Rightarrow> bool" where
  "is_ascii_alphanumeric b \<longleftrightarrow>
     is_ascii_digit b \<or> is_ascii_lowercase b \<or> is_ascii_uppercase b"

text \<open>ASCII whitespace in the sense of \<open>trim_ascii\<close>: tab, line feed, form feed, carriage
  return and space.\<close>

definition is_ascii_whitespace :: "u8 \<Rightarrow> bool" where
  "is_ascii_whitespace b \<longleftrightarrow> b \<in> {9, 10, 12, 13, 32}"

definition trim_ascii :: "bytes \<Rightarrow> bytes" where
  "trim_ascii bs =
     rev (dropWhile is_ascii_whitespace (rev (dropWhile is_ascii_whitespace bs)))"

section \<open>Slices\<close>

text \<open>\<open>slice.split(|b| *b == sep)\<close>: always at least one piece.\<close>

fun split_on :: "'a \<Rightarrow> 'a list \<Rightarrow> 'a list list" where
  "split_on s [] = [[]]"
| "split_on s (x # xs) =
     (if x = s then [] # split_on s xs
      else (case split_on s xs of [] \<Rightarrow> [[x]] | p # ps \<Rightarrow> (x # p) # ps))"

fun position :: "('a \<Rightarrow> bool) \<Rightarrow> 'a list \<Rightarrow> nat option" where
  "position P [] = None"
| "position P (x # xs) = (if P x then Some 0 else map_option Suc (position P xs))"

fun strip_prefix :: "'a list \<Rightarrow> 'a list \<Rightarrow> 'a list option" where
  "strip_prefix [] xs = Some xs"
| "strip_prefix (p # ps) [] = None"
| "strip_prefix (p # ps) (x # xs) = (if p = x then strip_prefix ps xs else None)"

text \<open>\<open>s.rsplit_once(sep)\<close> keeps the part before the last separator.\<close>

definition rsplit_once_parent :: "'a \<Rightarrow> 'a list \<Rightarrow> 'a list option" where
  "rsplit_once_parent s xs =
     (case position ((=) s) (rev xs) of
        None \<Rightarrow> None
      | Some i \<Rightarrow> Some (take (length xs - Suc i) xs))"

lemma split_on_not_Nil [simp]: "split_on s xs \<noteq> []"
  by (cases xs) (auto split: list.splits)

lemma position_None_iff: "position P xs = None \<longleftrightarrow> (\<forall>x\<in>set xs. \<not> P x)"
  by (induction xs) auto

lemma position_Some_iff:
  "position P xs = Some i \<longleftrightarrow> i < length xs \<and> P (xs ! i) \<and> (\<forall>j<i. \<not> P (xs ! j))"
proof (induction xs arbitrary: i)
  case Nil
  then show ?case by simp
next
  case (Cons x xs)
  then show ?case
    by (cases i) (auto simp: All_less_Suc2)
qed

lemma position_less: "position P xs = Some i \<Longrightarrow> i < length xs"
  by (simp add: position_Some_iff)

lemma position_takeWhile:
  "position P xs = Some i \<Longrightarrow> take i xs = takeWhile (\<lambda>x. \<not> P x) xs"
  by (induction xs arbitrary: i) (auto split: if_splits)

lemma strip_prefix_Some_iff: "strip_prefix ps xs = Some r \<longleftrightarrow> xs = ps @ r"
  by (induction ps xs rule: strip_prefix.induct) auto

lemma strip_prefix_append [simp]: "strip_prefix ps (ps @ r) = Some r"
  by (simp add: strip_prefix_Some_iff)

lemma rsplit_once_parent_shorter:
  "rsplit_once_parent s xs = Some p \<Longrightarrow> length p < length xs"
  by (auto simp: rsplit_once_parent_def split: option.splits dest: position_less)

lemma rsplit_once_parent_Some_iff:
  "rsplit_once_parent s xs = Some p \<longleftrightarrow> (\<exists>q. xs = p @ s # q \<and> s \<notin> set q)"
proof
  assume "rsplit_once_parent s xs = Some p"
  then obtain i where i: "position ((=) s) (rev xs) = Some i"
    and p: "p = take (length xs - Suc i) xs"
    by (auto simp: rsplit_once_parent_def split: option.splits)
  let ?k = "length xs - Suc i"
  have len: "i < length xs" and si: "rev xs ! i = s"
    and nj: "\<forall>j<i. rev xs ! j \<noteq> s"
    using i by (auto simp: position_Some_iff)
  have "xs ! ?k = s" using len si by (simp add: rev_nth)
  then have "xs = p @ s # drop (Suc ?k) xs"
    using len p by (metis Suc_diff_Suc diff_less id_take_nth_drop length_greater_0_conv
        length_pos_if_in_set list.size(3) nth_mem rev_nth zero_less_Suc)
  moreover have "s \<notin> set (drop (Suc ?k) xs)"
  proof
    assume "s \<in> set (drop (Suc ?k) xs)"
    then obtain m where m: "m < length xs - Suc ?k" "xs ! (Suc ?k + m) = s"
      by (auto simp: in_set_conv_nth)
    let ?j = "length xs - Suc (Suc ?k + m)"
    have "?j < i" "rev xs ! ?j = s"
      using m len by (auto simp: rev_nth Suc_diff_Suc)
    with nj show False by blast
  qed
  ultimately show "\<exists>q. xs = p @ s # q \<and> s \<notin> set q" by blast
next
  assume "\<exists>q. xs = p @ s # q \<and> s \<notin> set q"
  then obtain q where q: "xs = p @ s # q" "s \<notin> set q" by blast
  have "position ((=) s) (rev q @ s # r) = Some (length q)" for r
    using q(2) by (auto simp: position_Some_iff nth_append rev_nth)
  then show "rsplit_once_parent s xs = Some p"
    by (simp add: rsplit_once_parent_def q(1))
qed

section \<open>UTF-8\<close>

definition is_scalar :: "scalar \<Rightarrow> bool" where
  "is_scalar c \<longleftrightarrow> c < 0xD800 \<or> 0xE000 \<le> c \<and> c < 0x110000"

definition utf8_char :: "scalar \<Rightarrow> bytes" where
  "utf8_char c = map word_of_nat
     (if c < 0x80 then [c]
      else if c < 0x800 then [0xC0 + c div 64, 0x80 + c mod 64]
      else if c < 0x10000
        then [0xE0 + c div 4096, 0x80 + c div 64 mod 64, 0x80 + c mod 64]
      else [0xF0 + c div 262144, 0x80 + c div 4096 mod 64,
            0x80 + c div 64 mod 64, 0x80 + c mod 64])"

definition utf8_encode :: "scalar list \<Rightarrow> bytes" where
  "utf8_encode cs = concat (map utf8_char cs)"

definition cont_in :: "nat \<Rightarrow> nat \<Rightarrow> u8 \<Rightarrow> bool" where
  "cont_in lo hi b \<longleftrightarrow> lo \<le> unat b \<and> unat b \<le> hi"

definition low6 :: "u8 \<Rightarrow> nat" where
  "low6 b = unat b - 0x80"

fun utf8_decode :: "bytes \<Rightarrow> scalar list option" where
  "utf8_decode [] = Some []"
| "utf8_decode (a # bs) =
     (let n = unat a in
      if n < 0x80 then map_option ((#) n) (utf8_decode bs)
      else if 0xC2 \<le> n \<and> n \<le> 0xDF then
        (case bs of
           b # r \<Rightarrow> if cont_in 0x80 0xBF b
             then map_option ((#) ((n - 0xC0) * 64 + low6 b)) (utf8_decode r) else None
         | _ \<Rightarrow> None)
      else if 0xE0 \<le> n \<and> n \<le> 0xEF then
        (case bs of
           b # c # r \<Rightarrow>
             if cont_in (if n = 0xE0 then 0xA0 else 0x80) (if n = 0xED then 0x9F else 0xBF) b
                \<and> cont_in 0x80 0xBF c
             then map_option ((#) ((n - 0xE0) * 4096 + low6 b * 64 + low6 c)) (utf8_decode r)
             else None
         | _ \<Rightarrow> None)
      else if 0xF0 \<le> n \<and> n \<le> 0xF4 then
        (case bs of
           b # c # d # r \<Rightarrow>
             if cont_in (if n = 0xF0 then 0x90 else 0x80) (if n = 0xF4 then 0x8F else 0xBF) b
                \<and> cont_in 0x80 0xBF c \<and> cont_in 0x80 0xBF d
             then map_option
                    ((#) ((n - 0xF0) * 262144 + low6 b * 4096 + low6 c * 64 + low6 d))
                    (utf8_decode r)
             else None
         | _ \<Rightarrow> None)
      else None)"

declare utf8_decode.simps(2) [simp del]

definition is_utf8 :: "bytes \<Rightarrow> bool" where
  "is_utf8 bs \<longleftrightarrow> utf8_decode bs \<noteq> None"

definition chars :: "rust_str \<Rightarrow> scalar list" where
  "chars s = (case utf8_decode s of Some cs \<Rightarrow> cs | None \<Rightarrow> [])"

text \<open>\<open>char::is_control\<close>: the general category Cc.\<close>

definition is_control :: "scalar \<Rightarrow> bool" where
  "is_control c \<longleftrightarrow> c \<le> 0x1F \<or> 0x7F \<le> c \<and> c \<le> 0x9F"

subsection \<open>Decoding and encoding are inverse\<close>

lemma unat_byte [simp]: "n < 256 \<Longrightarrow> unat (word_of_nat n :: u8) = n"
  by (simp add: unat_of_nat take_bit_nat_eq_self)

lemma byte_of_unat: "word_of_nat (unat b) = (b :: u8)"
  by simp

lemma unat_u8_less: "unat (b :: u8) < 256"
  using unsigned_less [of b] by simp

lemma utf8_decode_1:
  assumes "unat a < 0x80"
  shows "utf8_decode (a # r) = map_option ((#) (unat a)) (utf8_decode r)"
  using assms by (simp add: utf8_decode.simps(2) Let_def)

lemma utf8_decode_2:
  assumes "unat a = 0xC0 + h" "unat b = 0x80 + l" "2 \<le> h" "h < 32" "l < 64"
  shows "utf8_decode (a # b # r) = map_option ((#) (h * 64 + l)) (utf8_decode r)"
  using assms by (simp add: utf8_decode.simps(2) cont_in_def low6_def Let_def)

lemma utf8_decode_3:
  assumes "unat a = 0xE0 + h" "unat b = 0x80 + m" "unat c = 0x80 + l" "h < 16" "l < 64"
    "m < 64" "h = 0 \<Longrightarrow> 32 \<le> m" "h = 13 \<Longrightarrow> m < 32"
  shows "utf8_decode (a # b # c # r) = map_option ((#) (h * 4096 + m * 64 + l)) (utf8_decode r)"
  using assms by (auto simp add: utf8_decode.simps(2) cont_in_def low6_def Let_def)

lemma utf8_decode_4:
  assumes "unat a = 0xF0 + h" "unat b = 0x80 + m" "unat c = 0x80 + k" "unat d = 0x80 + l"
    "h \<le> 4" "m < 64" "k < 64" "l < 64" "h = 0 \<Longrightarrow> 16 \<le> m" "h = 4 \<Longrightarrow> m < 16"
  shows "utf8_decode (a # b # c # d # r) =
     map_option ((#) (h * 262144 + m * 4096 + k * 64 + l)) (utf8_decode r)"
  using assms by (auto simp add: utf8_decode.simps(2) cont_in_def low6_def Let_def)

lemma base64_digits_2: "c div 4096 * 4096 + c div 64 mod 64 * 64 + c mod 64 = (c :: nat)"
proof -
  have "c div 4096 = c div 64 div 64" by (simp flip: div_mult2_eq)
  moreover have "c div 64 div 64 * 64 + c div 64 mod 64 = c div 64" by (rule div_mult_mod_eq)
  moreover have "c div 64 * 64 + c mod 64 = c" by (rule div_mult_mod_eq)
  ultimately show ?thesis by linarith
qed

lemma base64_digits_3:
  "c div 262144 * 262144 + c div 4096 mod 64 * 4096 + c div 64 mod 64 * 64 + c mod 64 = (c :: nat)"
proof -
  have "c div 262144 = c div 4096 div 64" by (simp flip: div_mult2_eq)
  moreover have "c div 4096 div 64 * 64 + c div 4096 mod 64 = c div 4096"
    by (rule div_mult_mod_eq)
  ultimately show ?thesis using base64_digits_2 [of c] by linarith
qed

lemma utf8_char_2:
  assumes "0x80 \<le> c" "c < 0x800"
  shows "utf8_decode (utf8_char c @ r) = map_option ((#) c) (utf8_decode r)"
proof -
  have "utf8_char c = [word_of_nat (0xC0 + c div 64), word_of_nat (0x80 + c mod 64)]"
    using assms by (simp add: utf8_char_def del: of_nat_add)
  moreover have "2 \<le> c div 64" "c div 64 < 32" "c div 64 * 64 + c mod 64 = c"
    using assms by auto
  ultimately show ?thesis
    using utf8_decode_2 [OF unat_byte unat_byte, of "c div 64" "c mod 64" r]
    by (simp del: of_nat_add)
qed

lemma utf8_char_3:
  assumes "0x800 \<le> c" "c < 0x10000" "is_scalar c"
  shows "utf8_decode (utf8_char c @ r) = map_option ((#) c) (utf8_decode r)"
proof -
  have "utf8_char c = [word_of_nat (0xE0 + c div 4096), word_of_nat (0x80 + c div 64 mod 64),
      word_of_nat (0x80 + c mod 64)]"
    using assms by (simp add: utf8_char_def del: of_nat_add)
  moreover have "c div 4096 < 16" using assms by auto
  moreover have sum: "c div 4096 * 4096 + c div 64 mod 64 * 64 + c mod 64 = c"
    by (rule base64_digits_2)
  moreover have "c mod 64 < 64" "c div 64 mod 64 < 64" by auto
  with sum have "c div 4096 = 0 \<Longrightarrow> 32 \<le> c div 64 mod 64"
    and "c div 4096 = 13 \<Longrightarrow> c div 64 mod 64 < 32"
    using assms(1,3) unfolding is_scalar_def by linarith+
  ultimately show ?thesis
    using utf8_decode_3 [OF unat_byte unat_byte unat_byte,
        of "c div 4096" "c div 64 mod 64" "c mod 64" r]
    by (simp del: of_nat_add)
qed

lemma utf8_char_4:
  assumes "0x10000 \<le> c" "c < 0x110000"
  shows "utf8_decode (utf8_char c @ r) = map_option ((#) c) (utf8_decode r)"
proof -
  have "utf8_char c = [word_of_nat (0xF0 + c div 262144), word_of_nat (0x80 + c div 4096 mod 64),
      word_of_nat (0x80 + c div 64 mod 64), word_of_nat (0x80 + c mod 64)]"
    using assms by (simp add: utf8_char_def del: of_nat_add)
  moreover have "c div 262144 \<le> 4" using assms by auto
  moreover have sum: "c div 262144 * 262144 + c div 4096 mod 64 * 4096 + c div 64 mod 64 * 64
      + c mod 64 = c" by (rule base64_digits_3)
  moreover have "c mod 64 < 64" "c div 64 mod 64 < 64" "c div 4096 mod 64 < 64" by auto
  with sum have "c div 262144 = 0 \<Longrightarrow> 16 \<le> c div 4096 mod 64"
    and "c div 262144 = 4 \<Longrightarrow> c div 4096 mod 64 < 16"
    using assms by linarith+
  ultimately show ?thesis
    using utf8_decode_4 [OF unat_byte unat_byte unat_byte unat_byte,
        of "c div 262144" "c div 4096 mod 64" "c div 64 mod 64" "c mod 64" r]
    by (simp del: of_nat_add)
qed

lemma utf8_decode_char:
  assumes "is_scalar c"
  shows "utf8_decode (utf8_char c @ r) = map_option ((#) c) (utf8_decode r)"
proof -
  consider "c < 0x80" | "0x80 \<le> c" "c < 0x800" | "0x800 \<le> c" "c < 0x10000"
    | "0x10000 \<le> c" "c < 0x110000"
    using assms by (fastforce simp: is_scalar_def)
  then show ?thesis
  proof cases
    case 1
    then show ?thesis by (simp add: utf8_char_def utf8_decode_1)
  qed (use assms utf8_char_2 utf8_char_3 utf8_char_4 in blast)+
qed

lemma utf8_decode_encode:
  "list_all is_scalar cs \<Longrightarrow> utf8_decode (utf8_encode cs) = Some cs"
  by (induction cs) (simp_all add: utf8_encode_def utf8_decode_char)

lemma byte_eqI: "unat b = n \<Longrightarrow> word_of_nat n = (b :: u8)"
  by auto

lemma digit64: "l < 64 \<Longrightarrow> (q * 64 + l) div 64 = q \<and> (q * 64 + l) mod 64 = (l :: nat)"
  by simp

lemma utf8_char_of_1: "unat a < 0x80 \<Longrightarrow> utf8_char (unat a) = [a] \<and> is_scalar (unat a)"
  by (simp add: utf8_char_def is_scalar_def)

lemma utf8_char_of_2:
  assumes "unat a = 0xC0 + h" "unat b = 0x80 + l" "2 \<le> h" "h < 32" "l < 64"
  shows "utf8_char (h * 64 + l) = [a, b] \<and> is_scalar (h * 64 + l)"
proof -
  have "(h * 64 + l) div 64 = h" "(h * 64 + l) mod 64 = l" using assms by auto
  then show ?thesis
    using assms byte_eqI [OF assms(1)] byte_eqI [OF assms(2)]
    by (simp add: utf8_char_def is_scalar_def)
qed

lemma utf8_char_of_3:
  assumes "unat a = 0xE0 + h" "unat b = 0x80 + m" "unat c = 0x80 + l" "h < 16" "l < 64"
    "m < 64" "h = 0 \<Longrightarrow> 32 \<le> m" "h = 13 \<Longrightarrow> m < 32"
  shows "utf8_char (h * 4096 + m * 64 + l) = [a, b, c] \<and> is_scalar (h * 4096 + m * 64 + l)"
proof -
  let ?x = "h * 4096 + m * 64 + l"
  have e: "?x = (h * 64 + m) * 64 + l" by simp
  have d: "?x div 64 = h * 64 + m" "?x mod 64 = l"
    unfolding e using assms digit64 by blast+
  have "?x div 4096 = ?x div 64 div 64" by (simp flip: div_mult2_eq)
  then have d': "?x div 4096 = h" "?x div 64 mod 64 = m" using d assms by auto
  have "\<not> ?x < 0x800" "?x < 0x10000" using assms by (cases "h = 0"; simp)+
  moreover have "is_scalar ?x"
    using assms unfolding is_scalar_def
    by (cases "h < 13"; cases "h = 13") auto
  ultimately show ?thesis
    using d d' byte_eqI [OF assms(1)] byte_eqI [OF assms(2)] byte_eqI [OF assms(3)]
    by (simp add: utf8_char_def)
qed

lemma utf8_char_of_4:
  assumes "unat a = 0xF0 + h" "unat b = 0x80 + m" "unat c = 0x80 + k" "unat d = 0x80 + l"
    "h \<le> 4" "m < 64" "k < 64" "l < 64" "h = 0 \<Longrightarrow> 16 \<le> m" "h = 4 \<Longrightarrow> m < 16"
  shows "utf8_char (h * 262144 + m * 4096 + k * 64 + l) = [a, b, c, d]
     \<and> is_scalar (h * 262144 + m * 4096 + k * 64 + l)"
proof -
  let ?x = "h * 262144 + m * 4096 + k * 64 + l"
  have e: "?x = ((h * 64 + m) * 64 + k) * 64 + l" by simp
  have d: "?x div 64 = (h * 64 + m) * 64 + k" "?x mod 64 = l"
    unfolding e using assms digit64 by blast+
  have "?x div 4096 = ?x div 64 div 64" "?x div 262144 = ?x div 64 div 64 div 64"
    by (simp_all flip: div_mult2_eq)
  then have d': "?x div 64 mod 64 = k" "?x div 4096 mod 64 = m" "?x div 262144 = h"
    unfolding d using assms digit64 by presburger+
  have lo: "\<not> ?x < 0x10000" using assms by (cases "h = 0"; simp)
  have "?x < 0x110000" using assms by (cases "h = 4"; simp)
  with lo have "is_scalar ?x" unfolding is_scalar_def by linarith
  then show ?thesis
    using lo d d' byte_eqI [OF assms(1)] byte_eqI [OF assms(2)] byte_eqI [OF assms(3)]
      byte_eqI [OF assms(4)]
    by (simp add: utf8_char_def)
qed

lemma low6_split: "cont_in lo hi b \<Longrightarrow> 0x80 \<le> lo \<Longrightarrow> hi \<le> 0xBF \<Longrightarrow>
    unat b = 0x80 + low6 b \<and> low6 b < 64 \<and> lo \<le> 0x80 + low6 b \<and> 0x80 + low6 b \<le> hi"
  by (auto simp: cont_in_def low6_def)

lemma utf8_decode_step:
  assumes "utf8_decode (a # bs) = Some cs"
  shows "\<exists>c r ds. bs = r @ ds \<and> utf8_char c = a # r \<and> is_scalar c
     \<and> length ds \<le> length bs \<and> (\<exists>cs'. utf8_decode ds = Some cs' \<and> cs = c # cs')"
proof -
  let ?n = "unat a"
  consider (one) "?n < 0x80" | (two) "0xC2 \<le> ?n" "?n \<le> 0xDF"
    | (three) "0xE0 \<le> ?n" "?n \<le> 0xEF" | (four) "0xF0 \<le> ?n" "?n \<le> 0xF4"
    using assms by (fastforce simp: utf8_decode.simps(2) Let_def split: if_splits)
  then show ?thesis
  proof cases
    case one
    with assms utf8_char_of_1 [of a] show ?thesis
      by (auto simp: utf8_decode_1)
  next
    case two
    with assms obtain b r where bs: "bs = b # r" "cont_in 0x80 0xBF b"
      and cs: "\<exists>cs'. utf8_decode r = Some cs' \<and> cs = ((?n - 0xC0) * 64 + low6 b) # cs'"
      by (auto simp: utf8_decode.simps(2) Let_def split: list.splits if_splits)
    have "utf8_char ((?n - 0xC0) * 64 + low6 b) = [a, b]
        \<and> is_scalar ((?n - 0xC0) * 64 + low6 b)"
      by (rule utf8_char_of_2) (use two low6_split [OF bs(2)] in auto)
    with bs cs show ?thesis by auto
  next
    case three
    with assms obtain b c r where bs: "bs = b # c # r" "cont_in 0x80 0xBF c"
      "cont_in (if ?n = 0xE0 then 0xA0 else 0x80) (if ?n = 0xED then 0x9F else 0xBF) b"
      and cs: "\<exists>cs'. utf8_decode r = Some cs'
        \<and> cs = ((?n - 0xE0) * 4096 + low6 b * 64 + low6 c) # cs'"
      by (simp add: utf8_decode.simps(2) Let_def split: list.splits if_split_asm)
    obtain h where h: "?n = 0xE0 + h" using three(1) le_Suc_ex by blast
    have "utf8_char ((?n - 0xE0) * 4096 + low6 b * 64 + low6 c) = [a, b, c]
        \<and> is_scalar ((?n - 0xE0) * 4096 + low6 b * 64 + low6 c)"
      by (rule utf8_char_of_3)
        (use three h low6_split [OF bs(2)] low6_split [OF bs(3)] in \<open>auto split: if_splits\<close>)
    with bs cs show ?thesis by auto
  next
    case four
    with assms obtain b c d r where bs: "bs = b # c # d # r" "cont_in 0x80 0xBF c"
      "cont_in 0x80 0xBF d"
      "cont_in (if ?n = 0xF0 then 0x90 else 0x80) (if ?n = 0xF4 then 0x8F else 0xBF) b"
      and cs: "\<exists>cs'. utf8_decode r = Some cs'
        \<and> cs = ((?n - 0xF0) * 262144 + low6 b * 4096 + low6 c * 64 + low6 d) # cs'"
      by (simp add: utf8_decode.simps(2) Let_def split: list.splits if_split_asm)
    obtain h where h: "?n = 0xF0 + h" using four(1) le_Suc_ex by blast
    have "utf8_char ((?n - 0xF0) * 262144 + low6 b * 4096 + low6 c * 64 + low6 d) = [a, b, c, d]
        \<and> is_scalar ((?n - 0xF0) * 262144 + low6 b * 4096 + low6 c * 64 + low6 d)"
      by (rule utf8_char_of_4)
        (use four h low6_split [OF bs(2)] low6_split [OF bs(3)] low6_split [OF bs(4)]
          in \<open>auto split: if_splits\<close>)
    with bs cs show ?thesis by auto
  qed
qed

lemma utf8_decode_sound:
  "utf8_decode bs = Some cs \<Longrightarrow> utf8_encode cs = bs \<and> list_all is_scalar cs"
proof (induction bs arbitrary: cs rule: length_induct)
  case (1 bs)
  show ?case
  proof (cases bs)
    case Nil
    with "1.prems" show ?thesis by (simp add: utf8_encode_def)
  next
    case (Cons a bs')
    with "1.prems" obtain c r ds cs' where split: "bs' = r @ ds" "utf8_char c = a # r"
      "is_scalar c" "utf8_decode ds = Some cs'" "cs = c # cs'"
      using utf8_decode_step by blast
    then have "utf8_encode cs' = ds \<and> list_all is_scalar cs'"
      using "1.IH" Cons by (metis length_append less_add_Suc2 list.size(4) add_Suc_right add.right_neutral)
    with split Cons show ?thesis by (simp add: utf8_encode_def)
  qed
qed

lemma utf8_encode_chars: "is_utf8 s \<Longrightarrow> utf8_encode (chars s) = s"
  by (auto simp: is_utf8_def chars_def dest: utf8_decode_sound)

lemma chars_scalar: "c \<in> set (chars s) \<Longrightarrow> is_scalar c"
  by (cases "utf8_decode s") (auto simp: chars_def list_all_iff dest: utf8_decode_sound)

lemma utf8_decode_ascii:
  "\<forall>b\<in>set s. unat b < 0x80 \<Longrightarrow> utf8_decode s = Some (map unat s)"
  by (induction s) (auto simp: utf8_decode_1)

lemma is_utf8_ascii: "\<forall>b\<in>set s. unat b < 0x80 \<Longrightarrow> is_utf8 s"
  by (simp add: is_utf8_def utf8_decode_ascii)

section \<open>Fixed-width hexadecimal\<close>

definition hex_digit :: "nat \<Rightarrow> u8" where
  "hex_digit d = (if d < 10 then 48 + word_of_nat d else 87 + word_of_nat d)"

text \<open>\<open>{:016x}\<close> of a \<open>u64\<close>.\<close>

definition hex16 :: "u64 \<Rightarrow> bytes" where
  "hex16 w = map hex_digit (rev (le_digits 16 16 (unat w)))"

lemma unat_hex_digit: "d < 16 \<Longrightarrow> unat (hex_digit d) = (if d < 10 then 48 + d else 87 + d)"
  by (simp add: hex_digit_def unat_word_ariths unat_of_nat)

lemma hex_digit_inj: "inj_on hex_digit {..<16}"
  by (rule inj_onI) (auto dest!: arg_cong [where f = unat] simp: unat_hex_digit split: if_splits)

lemma length_hex16 [simp]: "length (hex16 w) = 16"
  by (simp add: hex16_def)

lemma hex16_inj: "hex16 v = hex16 w \<Longrightarrow> v = w"
proof -
  assume e: "hex16 v = hex16 w"
  have "set (le_digits 16 16 (unat u)) \<subseteq> {..<16}" for u :: u64 using le_digits_less [of 16] by auto
  then have "rev (le_digits 16 16 (unat v)) = rev (le_digits 16 16 (unat w))"
    using e map_inj_on [of hex_digit "rev (le_digits 16 16 (unat v))" "rev (le_digits 16 16 (unat w))"]
      inj_on_subset [OF hex_digit_inj] by (auto simp: hex16_def)
  then have "le_digits 16 16 (unat v) = le_digits 16 16 (unat w)" by simp
  moreover have "unat v < 16 ^ 16" "unat w < 16 ^ 16" using unat_u64_less [of v] unat_u64_less [of w] by simp_all
  ultimately show "v = w" using le_digits_inj [of 16 16 "unat v" "unat w"] by (simp add: word_unat_eq_iff)
qed

lemma hex16_digits: "b \<in> set (hex16 w) \<Longrightarrow> is_ascii_digit b \<or> (97 \<le> b \<and> b \<le> 102)"
proof -
  assume "b \<in> set (hex16 w)"
  then obtain d where "d < 16" "b = hex_digit d" using le_digits_less [of 16 _ 16 "unat w"] by (auto simp: hex16_def)
  then show ?thesis by (cases "d < 10") (auto simp: is_ascii_digit_def word_le_nat_alt unat_hex_digit)
qed

end
