(* ===== verification/Process_Values.thy ===== *)
theory Process_Values
  imports Text
begin

text \<open>
  Process values of the domain layer: the stable error and outcome enums and the per-process
  limits (\<^verbatim>\<open>crates/domain/src/process/outcome.rs\<close>), and the validated command
  description (\<^verbatim>\<open>crates/domain/src/process/command.rs\<close>).  An \<open>OsStr\<close> is its encoded bytes; a
  Unix path is absolute when it starts with a slash.  The theorems give a declarative
  reading of the two validators, which check field by field and stop at the first
  violation, and the ordering of the two cancellation deadlines.
\<close>

section \<open>Outcomes\<close>

datatype process_error =
    PInvalidCommand | POutsideRoots | PCapacity | PClosed | PPermissionDenied | PNotFound
  | PTimeout | PUnsupported | PIo | PInternal

datatype exit_status = Code i32 | Signal i32

datatype drain_outcome = Eof | Truncated | DrainFailed process_error

record write_outcome =
  wo_written :: usize
  wo_error :: "process_error option"

section \<open>Limits\<close>

record process_limits =
  pl_input_slots :: usize
  pl_input_bytes :: usize
  pl_input_chunk :: usize
  pl_read_chunk :: usize
  pl_reader_stack_bytes :: usize
  pl_terminate_grace :: duration
  pl_drain_timeout :: duration
  pl_write_timeout :: duration

definition process_limits_default :: process_limits where
  "process_limits_default =
     \<lparr>pl_input_slots = 16, pl_input_bytes = 65536, pl_input_chunk = 4096, pl_read_chunk = 4096,
      pl_reader_stack_bytes = 128 * 1024, pl_terminate_grace = from_millis 250,
      pl_drain_timeout = from_millis 250, pl_write_timeout = from_secs 5\<rparr>"

definition guardian_grace :: "process_limits \<Rightarrow> duration" where
  "guardian_grace l =
     (let ceiling = from_secs 86400; floor = from_millis 250; cap = from_secs 5;
          margin = min (max (pl_terminate_grace l div 2) floor) cap
      in min (dur_add (pl_terminate_grace l) margin) ceiling)"

definition process_limits_validate :: "process_limits \<Rightarrow> (process_error, unit) result" where
  "process_limits_validate l =
     (if pl_input_slots l = 0
         \<or> pl_input_chunk l = 0
         \<or> pl_input_bytes l < pl_input_chunk l
         \<or> pl_read_chunk l = 0
         \<or> pl_read_chunk l > 65536
         \<or> pl_reader_stack_bytes l < 65536
         \<or> pl_write_timeout l = 0
         \<or> pl_drain_timeout l = 0
         \<or> pl_terminate_grace l > from_secs 86400
         \<or> pl_drain_timeout l > from_secs 86400
         \<or> pl_write_timeout l > from_secs 86400
         \<or> pl_reader_stack_bytes l > 8 * 1024 * 1024
      then Err PCapacity else Ok ())"

section \<open>Commands\<close>

datatype environment_policy = EnvEmpty | EnvInherit

record command_spec =
  cs_executable :: bytes
  cs_cwd :: bytes
  cs_arguments :: "bytes list"
  cs_environment :: environment_policy
  cs_overrides :: "(bytes \<times> bytes) list"
  cs_removals :: "bytes list"

definition is_absolute :: "bytes \<Rightarrow> bool" where
  "is_absolute p = (case p of [] \<Rightarrow> False | b # _ \<Rightarrow> b = 47)"

text \<open>Both validators return the new running total in place of the mutable reference.\<close>

definition validate_field :: "bytes \<Rightarrow> usize \<Rightarrow> (process_error, usize) result" where
  "validate_field v tot =
     bind_result (ok_or (checked_add tot (len_u64 v)) PInvalidCommand) (\<lambda>t.
       if length v > 8192 \<or> t > 65536 \<or> 0 \<in> set v then Err PInvalidCommand else Ok t)"

definition validate_name :: "bytes \<Rightarrow> usize \<Rightarrow> (process_error, usize) result" where
  "validate_name v tot =
     bind_result (validate_field v tot) (\<lambda>t.
       if v = [] \<or> 61 \<in> set v then Err PInvalidCommand else Ok t)"

fun validate_all ::
  "('a \<Rightarrow> usize \<Rightarrow> (process_error, usize) result) \<Rightarrow> 'a list \<Rightarrow> usize \<Rightarrow> (process_error, usize) result"
where
  "validate_all f [] t = Ok t"
| "validate_all f (v # vs) t = bind_result (f v t) (validate_all f vs)"

definition command_new ::
  "bytes \<Rightarrow> bytes \<Rightarrow> bytes list \<Rightarrow> (process_error, command_spec) result" where
  "command_new executable cwd arguments =
     (if \<not> is_absolute executable \<or> \<not> is_absolute cwd \<or> length arguments > 128
      then Err PInvalidCommand
      else bind_result (validate_all validate_field (executable # cwd # arguments) 0) (\<lambda>_.
        Ok \<lparr>cs_executable = executable, cs_cwd = cwd, cs_arguments = arguments,
            cs_environment = EnvEmpty, cs_overrides = [], cs_removals = []\<rparr>))"

definition with_environment ::
  "command_spec \<Rightarrow> environment_policy \<Rightarrow> bytes list \<Rightarrow> (bytes \<times> bytes) list
    \<Rightarrow> (process_error, command_spec) result" where
  "with_environment c policy removals overrides =
     (if length removals > 128 \<or> length overrides > 128 then Err PInvalidCommand
      else
        let tot = len_u64 (cs_executable c) + len_u64 (cs_cwd c)
                    + sum_list (map len_u64 (cs_arguments c))
        in bind_result (validate_all validate_name removals tot) (\<lambda>t.
           bind_result
             (validate_all (\<lambda>(name, value) t.
                bind_result (validate_name name t) (validate_field value)) overrides t) (\<lambda>_.
           Ok (c\<lparr>cs_environment := policy, cs_removals := removals, cs_overrides := overrides\<rparr>))))"

section \<open>Deadlines\<close>

lemma guardian_grace_bounds:
  assumes "pl_terminate_grace l \<le> from_secs 86400"
  shows "pl_terminate_grace l \<le> guardian_grace l" "guardian_grace l \<le> from_secs 86400"
    "guardian_grace l \<le> pl_terminate_grace l + from_secs 5"
    "pl_terminate_grace l < from_secs 86400 \<Longrightarrow> pl_terminate_grace l < guardian_grace l"
    "pl_terminate_grace l + from_secs 5 \<le> from_secs 86400 \<Longrightarrow>
       pl_terminate_grace l + from_millis 250 \<le> guardian_grace l"
  using assms
  by (auto simp: guardian_grace_def Let_def dur_add_def from_secs_def from_millis_def
      duration_max_def min_def max_def)

section \<open>Validators, declaratively\<close>

definition field_ok :: "bytes \<Rightarrow> bool" where
  "field_ok v \<longleftrightarrow> length v \<le> 8192 \<and> 0 \<notin> set v"

definition name_ok :: "bytes \<Rightarrow> bool" where
  "name_ok v \<longleftrightarrow> field_ok v \<and> v \<noteq> [] \<and> 61 \<notin> set v"

lemma unat_65536_less: "t \<le> (65536 :: usize) \<longleftrightarrow> unat t \<le> 65536"
  by (simp add: word_le_nat_alt)

lemma validate_field_Ok:
  assumes "unat t \<le> 65536" "fits_isize v"
  shows "validate_field v t = Ok t' \<longleftrightarrow>
     field_ok v \<and> unat t + length v \<le> 65536 \<and> t' = t + len_u64 v"
proof -
  have "unat t + unat (len_u64 v) < 2 ^ 64"
    using assms by (simp add: word_arith fits_isize_def isize_max_def)
  then have add: "checked_add t (len_u64 v) = Some (t + len_u64 v)"
    and un: "unat (t + len_u64 v) = unat t + length v"
    using assms(2) by (simp_all add: checked_add_eq word_arith)
  have "65536 < t + len_u64 v \<longleftrightarrow> 65536 < unat t + length v"
    using un by (simp add: word_less_nat_alt)
  then show ?thesis by (auto simp: validate_field_def add field_ok_def)
qed

lemma validate_name_Ok:
  assumes "unat t \<le> 65536" "fits_isize v"
  shows "validate_name v t = Ok t' \<longleftrightarrow>
     name_ok v \<and> unat t + length v \<le> 65536 \<and> t' = t + len_u64 v"
  by (auto simp: validate_name_def bind_result_Ok_iff validate_field_Ok [OF assms] name_ok_def)

text \<open>A running-total validator that adds the size of each item and refuses a total above
  the bound accepts a list exactly when every item is fine and the sum is within it.\<close>

lemma validate_all_Ok:
  assumes f: "\<And>v t t'. v \<in> set vs \<Longrightarrow> unat t \<le> 65536 \<Longrightarrow>
      f v t = Ok t' \<longleftrightarrow> good v \<and> unat t + sz v \<le> 65536 \<and> t' = t + word_of_nat (sz v)"
    and "unat t \<le> 65536"
  shows "(\<exists>t'. validate_all f vs t = Ok t' \<and> unat t' \<le> 65536 \<and> unat t' = unat t + sum_list (map sz vs))
      = (list_all good vs \<and> unat t + sum_list (map sz vs) \<le> 65536)
    \<and> (is_ok (validate_all f vs t) \<longleftrightarrow>
        list_all good vs \<and> unat t + sum_list (map sz vs) \<le> 65536)"
  using assms
proof (induction vs arbitrary: t)
  case Nil
  then show ?case by simp
next
  case (Cons v vs)
  show ?case
  proof (cases "good v \<and> unat t + sz v \<le> 65536")
    case True
    let ?t = "t + word_of_nat (sz v)"
    have eq: "f v t = Ok ?t" using Cons.prems True by simp
    have "unat (word_of_nat (sz v) :: usize) = sz v"
      using True by (simp add: unat_of_nat take_bit_nat_eq_self)
    then have t: "unat ?t = unat t + sz v" using True by (simp add: word_arith)
    then have "unat ?t \<le> 65536" using True by simp
    from Cons.IH [OF Cons.prems(1) this] show ?thesis
      using eq t True by (simp add: add.assoc)
  next
    case False
    then have "\<exists>e. f v t = Err e"
      using Cons.prems(1) [of v t] Cons.prems(2) by (cases "f v t") auto
    then show ?thesis using False by auto
  qed
qed


lemma validate_all_is_ok:
  assumes "\<And>v t t'. v \<in> set vs \<Longrightarrow> unat t \<le> 65536 \<Longrightarrow>
      f v t = Ok t' \<longleftrightarrow> good v \<and> unat t + sz v \<le> 65536 \<and> t' = t + word_of_nat (sz v)"
    and "unat t \<le> 65536"
  shows "is_ok (validate_all f vs t) \<longleftrightarrow>
    list_all good vs \<and> unat t + sum_list (map sz vs) \<le> 65536"
  using validate_all_Ok [where f = f and vs = vs and good = good and sz = sz and t = t] assms by blast

lemma validate_all_total:
  assumes "\<And>v t t'. v \<in> set vs \<Longrightarrow> unat t \<le> 65536 \<Longrightarrow>
      f v t = Ok t' \<longleftrightarrow> good v \<and> unat t + sz v \<le> 65536 \<and> t' = t + word_of_nat (sz v)"
    and "unat t \<le> 65536" "validate_all f vs t = Ok t'"
  shows "unat t' = unat t + sum_list (map sz vs) \<and> unat t' \<le> 65536"
proof -
  have "is_ok (validate_all f vs t)" using assms(3) by simp
  with validate_all_Ok [where f = f and vs = vs and good = good and sz = sz and t = t] assms
  show ?thesis by fastforce
qed

lemma validate_fields_law:
  assumes "list_all fits_isize vs" "v \<in> set vs" "unat t \<le> 65536"
  shows "validate_field v t = Ok t' \<longleftrightarrow>
    field_ok v \<and> unat t + length v \<le> 65536 \<and> t' = t + word_of_nat (length v)"
  using assms validate_field_Ok [of t v t'] by (simp add: list_all_iff len_u64_def)

lemma validate_names_law:
  assumes "list_all fits_isize vs" "v \<in> set vs" "unat t \<le> 65536"
  shows "validate_name v t = Ok t' \<longleftrightarrow>
    name_ok v \<and> unat t + length v \<le> 65536 \<and> t' = t + word_of_nat (length v)"
  using assms validate_name_Ok [of t v t'] by (simp add: list_all_iff len_u64_def)

lemma validate_pairs_law:
  assumes "list_all (\<lambda>(n, v). fits_isize n \<and> fits_isize v) vs" "p \<in> set vs" "unat t \<le> 65536"
  shows "(case p of (n, v) \<Rightarrow> \<lambda>t. bind_result (validate_name n t) (validate_field v)) t = Ok t' \<longleftrightarrow>
    (case p of (n, v) \<Rightarrow> name_ok n \<and> field_ok v)
      \<and> unat t + (length (fst p) + length (snd p)) \<le> 65536
      \<and> t' = t + word_of_nat (length (fst p) + length (snd p))"
proof (cases p)
  case (Pair n v)
  have fits: "fits_isize n" "fits_isize v" using assms Pair by (auto simp: list_all_iff)
  show ?thesis
  proof (cases "name_ok n \<and> unat t + length n \<le> 65536")
    case True
    let ?t = "t + len_u64 n"
    have "validate_name n t = Ok ?t"
      using True validate_name_Ok [OF assms(3) fits(1)] by blast
    moreover have "unat ?t = unat t + length n"
      using True fits by (simp add: word_arith)
    ultimately show ?thesis
      using True validate_field_Ok [of ?t v t'] fits Pair
      by (auto simp: len_u64_def add.assoc)
  next
    case False
    then have "\<forall>t'. validate_name n t \<noteq> Ok t'"
      using validate_name_Ok [OF assms(3) fits(1)] by blast
    then show ?thesis using False Pair by (cases "validate_name n t") auto
  qed
qed

definition command_size :: "command_spec \<Rightarrow> nat" where
  "command_size c = sum_list (map length (cs_executable c # cs_cwd c # cs_arguments c))"

text \<open>What a command built by \<open>new\<close> guarantees to every later reader.\<close>

definition command_base_ok :: "bytes \<Rightarrow> bytes \<Rightarrow> bytes list \<Rightarrow> bool" where
  "command_base_ok e c a \<longleftrightarrow>
     is_absolute e \<and> is_absolute c \<and> length a \<le> 128 \<and> list_all field_ok (e # c # a) \<and>
     sum_list (map length (e # c # a)) \<le> 65536"

lemma command_new_Ok:
  assumes "list_all fits_isize (e # c # a)"
  shows "command_new e c a = Ok s \<longleftrightarrow> command_base_ok e c a \<and>
     s = \<lparr>cs_executable = e, cs_cwd = c, cs_arguments = a,
          cs_environment = EnvEmpty, cs_overrides = [], cs_removals = []\<rparr>"
proof -
  have "(\<exists>t. validate_all validate_field (e # c # a) 0 = Ok t) \<longleftrightarrow>
      list_all field_ok (e # c # a) \<and> sum_list (map length (e # c # a)) \<le> 65536"
    using validate_all_is_ok [of "e # c # a" validate_field field_ok length 0,
        OF validate_fields_law [OF assms]]
    unfolding is_ok_iff by simp
  then show ?thesis
    by (auto simp: command_new_def command_base_ok_def bind_result_Ok_iff
        simp del: validate_all.simps)
qed

lemma len_sum_word:
  assumes "length a + length b + sum_list (map length vs) \<le> 65536"
  shows "unat (len_u64 a + len_u64 b + sum_list (map len_u64 vs)) =
    length a + length b + sum_list (map length vs)"
proof -
  have "len_u64 a + len_u64 b + sum_list (map len_u64 vs) =
      word_of_nat (length a + length b + sum_list (map length vs))"
    by (induction vs) (simp_all add: len_u64_def algebra_simps)
  then show ?thesis
    using assms by (simp only: unat_of_nat) (simp add: take_bit_nat_eq_self)
qed

definition environment_ok :: "bytes list \<Rightarrow> (bytes \<times> bytes) list \<Rightarrow> bool" where
  "environment_ok r w \<longleftrightarrow> length r \<le> 128 \<and> length w \<le> 128 \<and> list_all name_ok r \<and>
     list_all (\<lambda>(n, v). name_ok n \<and> field_ok v) w"

definition environment_size :: "bytes list \<Rightarrow> (bytes \<times> bytes) list \<Rightarrow> nat" where
  "environment_size r w = sum_list (map length r) + sum_list (map (\<lambda>(n, v). length n + length v) w)"

lemma with_environment_Ok:
  assumes "list_all fits_isize r" "list_all (\<lambda>(n, v). fits_isize n \<and> fits_isize v) w"
    "command_size c \<le> 65536"
  shows "with_environment c p r w = Ok s \<longleftrightarrow>
    environment_ok r w \<and> command_size c + environment_size r w \<le> 65536 \<and>
    s = c\<lparr>cs_environment := p, cs_removals := r, cs_overrides := w\<rparr>"
proof -
  define t where "t = len_u64 (cs_executable c) + len_u64 (cs_cwd c)
    + sum_list (map len_u64 (cs_arguments c))"
  define pair where "pair = (\<lambda>(n :: bytes, v) t. bind_result (validate_name n t) (validate_field v))"
  define good where "good = (\<lambda>(n, v). name_ok n \<and> field_ok v)"
  define sz where "sz = (\<lambda>(n :: bytes, v :: bytes). length n + length v)"
  have t: "unat t = command_size c"
    using assms(3) len_sum_word by (simp add: t_def command_size_def add.assoc)
  have names: "is_ok (validate_all validate_name r t) \<longleftrightarrow>
      list_all name_ok r \<and> command_size c + sum_list (map length r) \<le> 65536"
    using validate_all_is_ok [of r validate_name name_ok length t,
        OF validate_names_law [OF assms(1)]] t assms(3) by simp
  have pair_law: "pair q u = Ok u' \<longleftrightarrow> good q \<and> unat u + sz q \<le> 65536 \<and> u' = u + word_of_nat (sz q)"
    if "q \<in> set w" "unat u \<le> 65536" for q u u'
    using validate_pairs_law [OF assms(2) that, of u']
    by (cases q) (simp add: pair_def good_def sz_def)
  have pairs: "is_ok (validate_all pair w u) \<longleftrightarrow> list_all good w \<and>
      command_size c + sum_list (map length r) + sum_list (map sz w) \<le> 65536"
    if "validate_all validate_name r t = Ok u" for u
  proof -
    have u: "unat u = command_size c + sum_list (map length r)" "unat u \<le> 65536"
      using validate_all_total [of r validate_name name_ok length t,
          OF validate_names_law [OF assms(1)] _ that] t assms(3) by auto
    show ?thesis using validate_all_is_ok [OF pair_law u(2)] u(1) by simp
  qed
  have eq: "with_environment c p r w =
      (if length r > 128 \<or> length w > 128 then Err PInvalidCommand
       else bind_result (validate_all validate_name r t) (\<lambda>t. bind_result (validate_all pair w t)
         (\<lambda>_. Ok (c\<lparr>cs_environment := p, cs_removals := r, cs_overrides := w\<rparr>))))"
    by (simp add: with_environment_def t_def pair_def Let_def)
  show ?thesis
  proof (cases "is_ok (validate_all validate_name r t)")
    case True
    then obtain u where u: "validate_all validate_name r t = Ok u" by (auto simp: is_ok_iff)
    have "(\<exists>x. validate_all pair w u = Ok x) \<longleftrightarrow> list_all good w \<and>
        command_size c + sum_list (map length r) + sum_list (map sz w) \<le> 65536"
      using pairs [OF u] by (simp add: is_ok_iff)
    then show ?thesis
      using True names u
      by (auto simp: eq bind_result_Ok_iff environment_ok_def environment_size_def good_def sz_def)
  next
    case False
    then show ?thesis
      using names by (cases "validate_all validate_name r t")
        (auto simp: eq environment_ok_def environment_size_def)
  qed
qed

section \<open>Properties\<close>

text \<open>
  A command with an explicit environment is accepted exactly when both paths are
  absolute, no collection has more than 128 entries, every field has at most 8 KiB and no
  NUL byte, every environment name is nonempty and has no equals sign, and all explicit
  data together, environment included, has at most 64 KiB; and the accepted command
  carries the fields unchanged.
\<close>

theorem command_accepted_iff:
  assumes "list_all fits_isize (e # c # a)" "list_all fits_isize r"
    "list_all (\<lambda>(n, v). fits_isize n \<and> fits_isize v) w"
  shows "bind_result (command_new e c a) (\<lambda>s. with_environment s p r w) = Ok s \<longleftrightarrow>
    command_base_ok e c a \<and> environment_ok r w \<and>
    sum_list (map length (e # c # a)) + environment_size r w \<le> 65536 \<and>
    s = \<lparr>cs_executable = e, cs_cwd = c, cs_arguments = a,
         cs_environment = p, cs_overrides = w, cs_removals = r\<rparr>"
proof (cases "command_base_ok e c a")
  case True
  let ?s = "\<lparr>cs_executable = e, cs_cwd = c, cs_arguments = a,
    cs_environment = EnvEmpty, cs_overrides = [], cs_removals = []\<rparr>"
  have "command_new e c a = Ok ?s" using True command_new_Ok [OF assms(1)] by blast
  moreover have size: "command_size ?s = sum_list (map length (e # c # a))"
    by (simp add: command_size_def)
  moreover have "command_size ?s \<le> 65536" using True size by (simp add: command_base_ok_def)
  ultimately show ?thesis
    using True with_environment_Ok [OF assms(2,3), of ?s p s] by (simp only: bind_result.simps) auto
next
  case False
  then have "\<forall>s. command_new e c a \<noteq> Ok s" using command_new_Ok [OF assms(1)] by blast
  then show ?thesis using False by (cases "command_new e c a") auto
qed

theorem command_accepted_iff_witness:
  "\<exists>s. bind_result (command_new [47, 97] [47] [[98]])
      (\<lambda>s. with_environment s EnvInherit [[99]] [([100], [])]) = Ok s \<and> cs_arguments s = [[98]]"
  using command_accepted_iff [of "[47, 97]" "[47]" "[[98]]" "[[99]]" "[([100], [])]" EnvInherit]
  by (simp add: command_base_ok_def environment_ok_def environment_size_def field_ok_def
      name_ok_def is_absolute_def fits_isize_def isize_max_def)

text \<open>
  Accepted limits keep the two cancellation deadlines staged: the guardian's own
  deadline is never before the configured grace, at most five seconds and never more than
  a day after it, strictly later whenever the grace is below the one-day ceiling, and at
  least 250 ms later whenever the largest margin fits below the ceiling.
\<close>

theorem guardian_backstop_staged:
  assumes "process_limits_validate l = Ok ()"
  shows "pl_terminate_grace l \<le> guardian_grace l \<and> guardian_grace l \<le> from_secs 86400
    \<and> guardian_grace l \<le> pl_terminate_grace l + from_secs 5
    \<and> (pl_terminate_grace l < from_secs 86400 \<longrightarrow> pl_terminate_grace l < guardian_grace l)
    \<and> (pl_terminate_grace l + from_secs 5 \<le> from_secs 86400 \<longrightarrow>
        pl_terminate_grace l + from_millis 250 \<le> guardian_grace l)"
proof -
  have "pl_terminate_grace l \<le> from_secs 86400"
    using assms by (auto simp: process_limits_validate_def split: if_splits)
  from guardian_grace_bounds [OF this] show ?thesis by blast
qed

theorem guardian_backstop_staged_witness:
  "process_limits_validate process_limits_default = Ok () \<and>
   from_millis 500 \<le> guardian_grace process_limits_default"
proof -
  have v: "process_limits_validate process_limits_default = Ok ()"
    by (simp add: process_limits_validate_def process_limits_default_def from_secs_def from_millis_def)
  from guardian_backstop_staged [OF this] v show ?thesis
    by (simp add: process_limits_default_def from_secs_def from_millis_def)
qed

end
