(* ===== verification/Identity.thy ===== *)
theory Identity
  imports Text
begin

text \<open>
  Session identities and lifetime-bound positions
  (\<^verbatim>\<open>crates/domain/src/identity.rs\<close>): the validated registry key \<open>SessionId\<close>, the
  runtime-issued \<open>SessionLifetime\<close> and the \<open>ReplayCursor\<close>, an absolute byte offset that
  belongs to exactly one lifetime.
\<close>

section \<open>Registry keys\<close>

datatype invalid_session_id = InvalidSessionId

datatype session_id = SessionId rust_str

definition session_id_new :: "rust_str \<Rightarrow> (invalid_session_id, session_id) result" where
  "session_id_new value =
     (if value = [] \<or> length value > 128 \<or> list_ex is_control (chars value)
      then Err InvalidSessionId else Ok (SessionId value))"

section \<open>Lifetimes and cursors\<close>

record session_lifetime =
  lt_owner :: u64
  lt_sequence :: u64

definition lifetime_new :: "u64 \<Rightarrow> u64 \<Rightarrow> session_lifetime" where
  "lifetime_new owner sequence = \<lparr>lt_owner = owner, lt_sequence = sequence\<rparr>"

record replay_cursor =
  rc_lifetime :: session_lifetime
  rc_offset :: u64

abbreviation cursor_at :: "session_lifetime \<Rightarrow> u64 \<Rightarrow> replay_cursor" where
  "cursor_at l n \<equiv> \<lparr>rc_lifetime = l, rc_offset = n\<rparr>"

lemma session_id_new_Ok_iff:
  "session_id_new v = Ok i \<longleftrightarrow>
     i = SessionId v \<and> v \<noteq> [] \<and> length v \<le> 128 \<and> \<not> list_ex is_control (chars v)"
  by (auto simp: session_id_new_def)

lemma replay_cursor_eq_iff:
  "c = d \<longleftrightarrow> rc_lifetime c = rc_lifetime d \<and> rc_offset c = rc_offset d"
  for c d :: replay_cursor
  by (cases c; cases d) auto

end
