(* ===== verification/Terminal_Values.thy ===== *)
theory Terminal_Values
  imports Identity
begin

text \<open>
  Engine-neutral terminal values (\<^verbatim>\<open>crates/domain/src/terminal/mod.rs\<close>,
  \<^verbatim>\<open>checkpoint.rs\<close> and \<^verbatim>\<open>view.rs\<close>) and the protected checkpoint
  values (\<^verbatim>\<open>crates/domain/src/checkpoint\<close>): control generations, admitted sizes and
  configurations, restoration progress, checkpoint descriptors and the copied view.
\<close>

section \<open>Failures\<close>

datatype terminal_error =
    TInvalidConfiguration | TBudgetExceeded | TEngineFailure | TCorruptCheckpoint
  | TIncompatibleCheckpoint | TStaleControl | THistoryIncomplete | TUnsupported

datatype checkpoint_error =
    CInvalidConfiguration | CCapacityExceeded | CAlreadyExists | CNotFound | CUnavailable
  | CAuthenticationFailed | CEntropyUnavailable | CCancelled

section \<open>Control generations\<close>

datatype control_generation = ControlGeneration u64

fun control_get :: "control_generation \<Rightarrow> u64" where
  "control_get (ControlGeneration n) = n"

definition control_initial :: control_generation where
  "control_initial = ControlGeneration 0"

fun control_next :: "control_generation \<Rightarrow> control_generation option" where
  "control_next (ControlGeneration n) = map_option ControlGeneration (checked_add n 1)"

lemma control_next_Some:
  "control_next g = Some g' \<longleftrightarrow> unat (control_get g') = Suc (unat (control_get g))"
proof (cases g; cases g')
  fix n m assume g: "g = ControlGeneration n" "g' = ControlGeneration m"
  have "checked_add n 1 = Some m \<longleftrightarrow> unat m = Suc (unat n)"
  proof
    assume "checked_add n 1 = Some m"
    then show "unat m = Suc (unat n)" using checked_add_unat [of n 1 m] by simp
  next
    assume m: "unat m = Suc (unat n)"
    then have "unat n + unat (1 :: u64) < 2 ^ 64" using unat_u64_less [of m] by simp
    moreover from this have "m = n + 1" using m
      by (simp add: word_unat_eq_iff unat_add_no_overflow)
    ultimately show "checked_add n 1 = Some m" by (simp add: checked_add_eq)
  qed
  then show "control_next g = Some g' \<longleftrightarrow> unat (control_get g') = Suc (unat (control_get g))"
    using g by auto
qed

section \<open>Sizes and configuration\<close>

record terminal_size =
  ts_cols :: u16
  ts_rows :: u16

definition terminal_size_new :: "u16 \<Rightarrow> u16 \<Rightarrow> (terminal_error, terminal_size) result" where
  "terminal_size_new cols rows =
     (if cols = 0 \<or> rows = 0 \<or> (ucast cols :: u32) * ucast rows > 1048576
      then Err TInvalidConfiguration else Ok \<lparr>ts_cols = cols, ts_rows = rows\<rparr>)"

record terminal_config =
  tc_size :: terminal_size
  tc_history_bytes :: usize
  tc_continuation_bytes :: usize
  tc_reply_bytes :: usize
  tc_checkpoint_bytes :: usize
  tc_native_bytes :: usize
  tc_view_bytes :: usize
  tc_feed_bytes :: usize

definition terminal_config_new :: "terminal_size \<Rightarrow> terminal_config" where
  "terminal_config_new sz =
     \<lparr>tc_size = sz, tc_history_bytes = 1024 * 1024, tc_continuation_bytes = 65536,
      tc_reply_bytes = 4096, tc_checkpoint_bytes = 8 * 1024 * 1024,
      tc_native_bytes = 8 * 1024 * 1024, tc_view_bytes = 1024 * 1024, tc_feed_bytes = 4096\<rparr>"

definition terminal_config_validate :: "terminal_config \<Rightarrow> (terminal_error, terminal_config) result"
where
  "terminal_config_validate c =
     (if tc_native_bytes c = 0
         \<or> tc_native_bytes c > 1024 * 1024 * 1024
         \<or> tc_view_bytes c = 0
         \<or> tc_view_bytes c > 64 * 1024 * 1024
         \<or> tc_history_bytes c > 256 * 1024 * 1024
         \<or> tc_continuation_bytes c = 0
         \<or> tc_continuation_bytes c > 1024 * 1024
         \<or> tc_reply_bytes c = 0
         \<or> tc_reply_bytes c > 1024 * 1024
         \<or> tc_checkpoint_bytes c = 0
         \<or> tc_checkpoint_bytes c > 512 * 1024 * 1024
         \<or> tc_feed_bytes c = 0
         \<or> tc_feed_bytes c > 1024 * 1024
      then Err TInvalidConfiguration else Ok c)"

record terminal_capabilities =
  cap_checkpoints :: bool
  cap_incremental_restore :: bool
  cap_mutation_during_restore :: bool
  cap_history_compression :: bool

datatype terminal_effects = TerminalEffects bytes

text \<open>The product of two \<open>u16\<close> never overflows the \<open>u32\<close> it is computed in, so the admitted
  grid really has at most 1,048,576 cells.\<close>

lemma unat_mul_u16: "unat ((ucast a :: u32) * ucast b) = unat a * unat b" for a b :: u16
proof -
  have "unat a < 2 ^ 16" "unat b < 2 ^ 16" using unsigned_less [of a] unsigned_less [of b] by auto
  then have "unat a * unat b < 2 ^ 16 * 2 ^ 16" by (intro mult_strict_mono) auto
  then have "unat a * unat b < 2 ^ 32" by simp
  moreover have "unat (ucast x :: u32) = unat x" for x :: u16
    by (simp add: unat_ucast_up)
  ultimately show ?thesis by (simp add: unat_word_ariths(2))
qed

lemma terminal_size_new_Ok:
  "terminal_size_new c r = Ok s \<longleftrightarrow>
     s = \<lparr>ts_cols = c, ts_rows = r\<rparr> \<and> c \<noteq> 0 \<and> r \<noteq> 0 \<and> unat c * unat r \<le> 1048576"
proof -
  have "(ucast c :: u32) * ucast r > 1048576 \<longleftrightarrow> unat c * unat r > 1048576"
    by (simp add: word_less_nat_alt unat_mul_u16)
  then show ?thesis by (auto simp: terminal_size_new_def)
qed

section \<open>Restoration\<close>

datatype restoration_progress =
    ProgressUsable
  | ProgressComplete
  | UsableWithSkippedHistory u64
  | FinishedWithSkippedHistory u64

fun is_finished :: "restoration_progress \<Rightarrow> bool" where
  "is_finished ProgressComplete = True"
| "is_finished (FinishedWithSkippedHistory n) = True"
| "is_finished _ = False"

fun skipped_pages :: "restoration_progress \<Rightarrow> u64" where
  "skipped_pages ProgressUsable = 0"
| "skipped_pages ProgressComplete = 0"
| "skipped_pages (UsableWithSkippedHistory n) = n"
| "skipped_pages (FinishedWithSkippedHistory n) = n"

datatype compatibility_id = CompatibilityId rust_str

definition compatibility_max_bytes :: nat where
  "compatibility_max_bytes = 4096"

definition compatibility_new :: "rust_str \<Rightarrow> (terminal_error, compatibility_id) result" where
  "compatibility_new value =
     (if value = [] \<or> length value > compatibility_max_bytes
      then Err TInvalidConfiguration else Ok (CompatibilityId value))"

fun compatibility_str :: "compatibility_id \<Rightarrow> rust_str" where
  "compatibility_str (CompatibilityId s) = s"

record checkpoint_descriptor =
  cd_compatibility :: compatibility_id
  cd_processed :: replay_cursor
  cd_control_generation :: control_generation

record terminal_checkpoint =
  tk_descriptor :: checkpoint_descriptor
  tk_bytes :: bytes

section \<open>Protected checkpoints\<close>

record checkpoint_key =
  ck_lifetime :: session_lifetime
  ck_generation :: u64

record protected_checkpoint =
  pc_key :: checkpoint_key
  pc_descriptor :: checkpoint_descriptor
  pc_ciphertext :: bytes

definition protected_new ::
  "checkpoint_key \<Rightarrow> checkpoint_descriptor \<Rightarrow> bytes \<Rightarrow> protected_checkpoint" where
  "protected_new key descriptor ciphertext =
     \<lparr>pc_key = key, pc_descriptor = descriptor, pc_ciphertext = ciphertext\<rparr>"

record checkpoint_ref =
  cr_object_id :: bytes
  cr_key :: checkpoint_key
  cr_bytes :: usize

record checkpoint_capacity =
  cc_limit_bytes :: usize
  cc_committed_bytes :: usize
  cc_abandoned_bytes :: usize
  cc_inflight_bytes :: usize

record checkpoint_cleanup_limits =
  cl_namespaces :: usize
  cl_entries :: usize
  cl_bytes :: u64

definition cleanup_limits_default :: checkpoint_cleanup_limits where
  "cleanup_limits_default =
     \<lparr>cl_namespaces = 256, cl_entries = 4096, cl_bytes = 1024 * 1024 * 1024\<rparr>"

definition cleanup_limits_validate :: "checkpoint_cleanup_limits \<Rightarrow> (checkpoint_error, unit) result"
where
  "cleanup_limits_validate l =
     (if cl_namespaces l = 0
         \<or> cl_namespaces l > 65536
         \<or> cl_entries l = 0
         \<or> cl_entries l > 1000000
         \<or> cl_bytes l = 0
         \<or> cl_bytes l > push_bit 50 1
      then Err CInvalidConfiguration else Ok ())"

record checkpoint_cleanup_report =
  cp_examined_entries :: usize
  cp_examined_namespaces :: usize
  cp_live_namespaces :: usize
  cp_reclaimed_namespaces :: usize
  cp_reclaimed_objects :: usize
  cp_reclaimed_bytes :: u64
  cp_failed_namespaces :: usize
  cp_scan_complete :: bool
  cp_abandoned_incomplete :: bool
  cp_failure :: "checkpoint_error option"

section \<open>Copied views\<close>

datatype terminal_color = DefaultColor | Palette u8 | Rgb u8 u8 u8

datatype underline = UlNone | UlSingle | UlDouble | UlCurly | UlDotted | UlDashed

record terminal_style =
  st_foreground :: terminal_color
  st_background :: terminal_color
  st_underline_color :: terminal_color
  st_underline :: underline
  st_bold :: bool
  st_italic :: bool
  st_faint :: bool
  st_blink :: bool
  st_inverse :: bool
  st_invisible :: bool
  st_strikethrough :: bool
  st_overline :: bool

record terminal_cell =
  cell_text :: rust_str
  cell_width :: u8
  cell_style :: terminal_style

record terminal_cursor =
  cur_col :: u16
  cur_row :: u16
  cur_visible :: bool
  cur_pending_wrap :: bool

datatype mouse_tracking = MtNone | MtPress | MtPressRelease | MtButtonMotion | MtAnyMotion

datatype mouse_encoding = MeLegacy | MeSgr

record terminal_history =
  th_start :: u64
  th_cols :: u16
  th_cells :: "terminal_cell list"
  th_total :: u64
  th_scrollback :: u64

record terminal_modes =
  tm_alternate_screen :: bool
  tm_bracketed_paste :: bool
  tm_application_cursor :: bool
  tm_mouse :: mouse_tracking
  tm_mouse_encoding :: mouse_encoding

definition mouse_reporting :: "terminal_modes \<Rightarrow> bool" where
  "mouse_reporting m = (tm_mouse m \<noteq> MtNone)"

record terminal_palette =
  tp_foreground :: "(u8 \<times> u8 \<times> u8) option"
  tp_background :: "(u8 \<times> u8 \<times> u8) option"
  tp_cursor :: "(u8 \<times> u8 \<times> u8) option"
  tp_indexed :: "(u8 \<times> u8 \<times> u8) list"

record terminal_view =
  tv_size :: terminal_size
  tv_cursor :: terminal_cursor
  tv_modes :: terminal_modes
  tv_palette :: terminal_palette
  tv_cells :: "terminal_cell list"

end
