(* ===== verification/Projection_Values.thy ===== *)
theory Projection_Values
  imports Process_Values Terminal_Values
begin

text \<open>
  Values of the projection domain (\<^verbatim>\<open>crates/domain/src/projection/mod.rs\<close> and
  \<^verbatim>\<open>options.rs\<close>): residency, failures, status, and the global and per-session
  admission bounds with their validators.  \<open>size_of::<TerminalCell>()\<close> is fixed by the
  compiler's layout, so it is the argument \<open>cell_size\<close>.
\<close>

section \<open>Residency and status\<close>

datatype residency = Resident | Parking | Parked | Restoring | Usable | Failed | Closing | Closed

datatype projection_error =
    JCapacity | JInvalidConfiguration | JClosed | JTerminal terminal_error
  | JStorage checkpoint_error | JProcess process_error | JWorker

record projection_status =
  ps_published :: replay_cursor
  ps_processed :: replay_cursor
  ps_control_generation :: control_generation
  ps_residency :: residency
  ps_history :: restoration_progress
  ps_skipped_history_pages :: u64
  ps_failure :: "projection_error option"
  ps_parking_failure :: "projection_error option"

record resize_outcome =
  ro_generation :: control_generation
  ro_os :: "(process_error, unit) result"
  ro_model :: "(projection_error, unit) result"

section \<open>Global limits\<close>

record projection_limits =
  jl_journal_bytes :: usize
  jl_journal_slots :: usize
  jl_transfer_observers :: usize
  jl_staging_bytes :: usize
  jl_staging_slots :: usize
  jl_resident_bytes :: usize
  jl_checkpoint_bytes :: usize
  jl_stored_bytes :: usize
  jl_stored_slots :: usize
  jl_view_bytes :: usize
  jl_request_slots :: usize

definition projection_limits_default :: projection_limits where
  "projection_limits_default =
     \<lparr>jl_journal_bytes = 16 * 1024 * 1024, jl_journal_slots = 4096,
      jl_transfer_observers = 2048, jl_staging_bytes = 64 * 1024 * 1024,
      jl_staging_slots = 16384, jl_resident_bytes = 1024 * 1024 * 1024,
      jl_checkpoint_bytes = 512 * 1024 * 1024, jl_stored_bytes = 1024 * 1024 * 1024,
      jl_stored_slots = 4096, jl_view_bytes = 128 * 1024 * 1024, jl_request_slots = 4096\<rparr>"

definition isize_max_word :: usize where
  "isize_max_word = 0x7FFFFFFFFFFFFFFF"

definition projection_limits_validate ::
  "projection_limits \<Rightarrow> (projection_error, projection_limits) result" where
  "projection_limits_validate l =
     (let limits = [jl_journal_bytes l, jl_journal_slots l, jl_transfer_observers l,
                    jl_staging_bytes l, jl_staging_slots l, jl_resident_bytes l,
                    jl_checkpoint_bytes l, jl_stored_bytes l, jl_stored_slots l,
                    jl_view_bytes l, jl_request_slots l]
      in if jl_stored_slots l > 65536 \<or> list_ex (\<lambda>v. v = 0 \<or> v > isize_max_word) limits
         then Err JInvalidConfiguration else Ok l)"

section \<open>Session options\<close>

record projection_options =
  po_journal_bytes :: usize
  po_journal_slots :: usize
  po_transfer_observers :: usize
  po_terminal :: terminal_config
  po_program_status_records :: usize
  po_staging_bytes :: usize
  po_staging_slots :: usize
  po_request_slots :: usize
  po_park_after :: duration
  po_retry_after :: duration
  po_max_park_attempts :: u32
  po_max_delete_attempts :: u32

definition projection_options_new :: "terminal_config \<Rightarrow> projection_options" where
  "projection_options_new terminal =
     \<lparr>po_journal_bytes = 1024 * 1024, po_journal_slots = 256, po_transfer_observers = 32,
      po_terminal = terminal, po_program_status_records = 256,
      po_staging_bytes = 2 * 1024 * 1024, po_staging_slots = 256, po_request_slots = 32,
      po_park_after = from_secs 60, po_retry_after = from_secs 5,
      po_max_park_attempts = 3, po_max_delete_attempts = 3\<rparr>"

definition view_reservation :: "usize \<Rightarrow> projection_options \<Rightarrow> (projection_error, usize) result"
where
  "view_reservation cell_size opt =
     (let sz = tc_size (po_terminal opt);
          cells = (ucast (ts_cols sz) :: usize) * ucast (ts_rows sz)
      in ok_or (Option.bind (checked_mul cells cell_size)
                  (\<lambda>v. checked_add v (tc_view_bytes (po_terminal opt))))
               JInvalidConfiguration)"

definition projection_options_validate ::
  "usize \<Rightarrow> projection_options \<Rightarrow> (projection_error, projection_options) result" where
  "projection_options_validate cell_size opt =
     bind_result (map_err JTerminal (terminal_config_validate (po_terminal opt))) (\<lambda>_.
     if \<not> (64 \<le> po_program_status_records opt \<and> po_program_status_records opt \<le> 256)
        \<or> po_journal_bytes opt = 0
        \<or> po_journal_bytes opt > isize_max_word
        \<or> po_journal_slots opt = 0
        \<or> po_journal_slots opt > 1048576
        \<or> po_transfer_observers opt = 0
        \<or> po_transfer_observers opt > 1048576
        \<or> po_staging_bytes opt < tc_feed_bytes (po_terminal opt)
        \<or> po_staging_bytes opt > isize_max_word
        \<or> po_staging_slots opt = 0
        \<or> po_staging_slots opt > 1048576
        \<or> po_request_slots opt = 0
        \<or> po_request_slots opt > 1048576
        \<or> po_park_after opt = 0
        \<or> po_retry_after opt = 0
        \<or> po_park_after opt > from_secs (86400 * 365)
        \<or> po_retry_after opt > from_secs (86400 * 365)
        \<or> po_max_park_attempts opt = 0
        \<or> po_max_park_attempts opt > 100
        \<or> po_max_delete_attempts opt = 0
        \<or> po_max_delete_attempts opt > 100
     then Err JInvalidConfiguration
     else bind_result (view_reservation cell_size opt) (\<lambda>_. Ok opt))"

lemma projection_options_validate_Ok:
  assumes "projection_options_validate cs opt = Ok opt'"
  shows "opt' = opt" "terminal_config_validate (po_terminal opt) = Ok (po_terminal opt)"
    "0 < po_max_park_attempts opt" "po_max_park_attempts opt \<le> 100"
    "0 < po_park_after opt" "0 < po_retry_after opt"
    "po_park_after opt \<le> from_secs (86400 * 365)" "po_retry_after opt \<le> from_secs (86400 * 365)"
    "tc_feed_bytes (po_terminal opt) \<le> po_staging_bytes opt"
    "\<exists>n. view_reservation cs opt = Ok n"
  using assms
  by (auto simp: projection_options_validate_def bind_result_Ok_iff terminal_config_validate_def
      map_err_Ok_iff word_neq_0_conv not_less split: if_splits)

text \<open>The copied-view accounting of an admitted size and configuration is exact and never
  overflows, for any cell layout below one TiB.\<close>

lemma view_reservation_exact:
  assumes "terminal_size_new c r = Ok (tc_size (po_terminal opt))"
    "terminal_config_validate (po_terminal opt) = Ok cfg" "unat cs \<le> 2 ^ 40"
  shows "\<exists>n. view_reservation cs opt = Ok n \<and>
     unat n = unat c * unat r * unat cs + unat (tc_view_bytes (po_terminal opt))"
proof -
  let ?s = "tc_size (po_terminal opt)" and ?v = "tc_view_bytes (po_terminal opt)"
  have s: "ts_cols ?s = c" "ts_rows ?s = r" and cells: "unat c * unat r \<le> 1048576"
    using assms(1) by (auto simp: terminal_size_new_Ok)
  have v: "unat ?v \<le> 64 * 1024 * 1024"
    using assms(2) by (auto simp: terminal_config_validate_def not_less word_le_nat_alt split: if_splits)
  have u: "unat (ucast x :: usize) = unat x" for x :: u16
    by (simp add: unat_ucast_up)
  have m1: "unat ((ucast c :: usize) * ucast r) = unat c * unat r"
    using cells by (simp add: unat_word_ariths(2) u)
  have "unat c * unat r * unat cs \<le> 1048576 * 2 ^ 40"
    using cells assms(3) by (rule mult_le_mono)
  then have b: "unat c * unat r * unat cs \<le> 2 ^ 60" by simp
  let ?p = "(ucast c :: usize) * ucast r * cs"
  have m2: "unat ?p = unat c * unat r * unat cs"
    using b unat_word_ariths(2) [of "(ucast c :: usize) * ucast r" cs] by (simp only: m1) simp
  have "uint ((ucast c :: usize) * ucast r) * uint cs = int (unat c * unat r * unat cs)"
    by (simp only: uint_nat m1 of_nat_mult)
  also have "\<dots> \<le> int (2 ^ 60)" using b by (simp only: of_nat_le_iff)
  finally have "uint ((ucast c :: usize) * ucast r) * uint cs < 2 ^ LENGTH(64)" by simp
  then have "checked_mul ((ucast c :: usize) * ucast r) cs = Some ?p"
    by (simp only: checked_mul_def if_True)
  moreover have sm: "unat ?p + unat ?v < 2 ^ 64" using b v m2 by simp
  ultimately show ?thesis
    using m2 by (simp add: view_reservation_def Let_def s checked_add_eq unat_add_no_overflow)
qed

end
