(* ===== verification/Replay.thy ===== *)
theory Replay
  imports Identity
begin

text \<open>
  Bounded retention of produced output (\<^verbatim>\<open>crates/domain/src/replay.rs\<close>).

  A \<open>replay_buffer\<close> keeps the newest bytes of a stream, at most \<open>limit\<close> of them, together
  with the absolute position \<open>end\<close> after everything ever produced.  Capacity, limit and
  retention arguments are only compared, bounded with \<open>min\<close> or subtracted with saturation,
  so they are natural numbers here; absolute positions are \<open>u64\<close> words.
  \<open>VecDeque::drain(..n)\<close> is \<open>drop n\<close>, \<open>extend\<close> is append, \<open>range(n..).take(m)\<close> is
  \<open>take m \<circ> drop n\<close>.

  The specification is the whole stream: \<open>replay_repr b s\<close> says that \<open>b\<close> represents the
  produced stream \<open>s\<close>, that is, \<open>b\<close> holds a suffix of \<open>s\<close> and its end is the length of \<open>s\<close>.
\<close>

section \<open>Data\<close>

datatype replay_error =
    ForeignLifetime | FutureCursor | OffsetExhausted | EmptyPageLimit | AllocationFailed

datatype replay_page =
    Gap replay_cursor replay_cursor
  | PageBytes replay_cursor replay_cursor bytes
  | Pending

record replay_buffer =
  rb_lifetime :: session_lifetime
  rb_limit :: nat
  rb_end :: u64
  rb_bytes :: bytes

section \<open>Operations\<close>

definition replay_new :: "session_lifetime \<Rightarrow> nat \<Rightarrow> replay_buffer" where
  "replay_new l limit = \<lparr>rb_lifetime = l, rb_limit = limit, rb_end = 0, rb_bytes = []\<rparr>"

definition replay_len :: "replay_buffer \<Rightarrow> nat" where
  "replay_len b = length (rb_bytes b)"

definition replay_is_empty :: "replay_buffer \<Rightarrow> bool" where
  "replay_is_empty b = (rb_bytes b = [])"

definition replay_floor :: "replay_buffer \<Rightarrow> replay_cursor" where
  "replay_floor b = cursor_at (rb_lifetime b) (rb_end b - len_u64 (rb_bytes b))"

definition replay_end :: "replay_buffer \<Rightarrow> replay_cursor" where
  "replay_end b = cursor_at (rb_lifetime b) (rb_end b)"

definition append_with_limit ::
  "replay_buffer \<Rightarrow> bytes \<Rightarrow> nat \<Rightarrow> (replay_error, replay_buffer) result" where
  "append_with_limit b bs retention =
     (let limit = min (rb_limit b) retention in
      bind_result (ok_or (checked_add (rb_end b) (len_u64 bs)) OffsetExhausted) (\<lambda>e.
        let suffix = drop (length bs - limit) bs;
            keep_old = limit - length suffix;
            discard = length (rb_bytes b) - keep_old
        in Ok (b\<lparr>rb_bytes := drop discard (rb_bytes b) @ suffix, rb_end := e\<rparr>)))"

definition replay_append :: "replay_buffer \<Rightarrow> bytes \<Rightarrow> (replay_error, replay_buffer) result" where
  "replay_append b bs = append_with_limit b bs (rb_limit b)"

definition release_storage :: "replay_buffer \<Rightarrow> replay_buffer" where
  "release_storage b = b\<lparr>rb_bytes := []\<rparr>"

definition retain_at_most :: "replay_buffer \<Rightarrow> nat \<Rightarrow> replay_buffer" where
  "retain_at_most b n =
     (let discard = length (rb_bytes b) - n in b\<lparr>rb_bytes := drop discard (rb_bytes b)\<rparr>)"

text \<open>
  \<open>reserve_capacity\<close> asks the allocator for room.  The capacity it sees and whether the
  allocation succeeds are the allocator's; the logical content does not change.
\<close>

definition reserve_capacity ::
  "replay_buffer \<Rightarrow> nat \<Rightarrow> nat \<Rightarrow> (nat \<Rightarrow> nat option) \<Rightarrow> (replay_error, nat) result" where
  "reserve_capacity b current capacity try_reserve_exact =
     (let target = min capacity (rb_limit b) in
      if target > current then
        ok_or (try_reserve_exact (target - length (rb_bytes b))) AllocationFailed
      else Ok current)"

definition replay_read ::
  "replay_buffer \<Rightarrow> replay_cursor \<Rightarrow> nat \<Rightarrow> (replay_error, replay_page) result" where
  "replay_read b c max_bytes =
     (if rc_lifetime c \<noteq> rb_lifetime b then Err ForeignLifetime
      else if rc_offset c > rb_end b then Err FutureCursor
      else if max_bytes = 0 then Err EmptyPageLimit
      else
        let floor = replay_floor b in
        if rc_offset c < rc_offset floor then Ok (Gap c floor)
        else if rc_offset c = rb_end b then Ok Pending
        else
          let start = unat (rc_offset c - rc_offset floor);
              bs = take max_bytes (drop start (rb_bytes b));
              nxt = cursor_at (rb_lifetime b) (rc_offset c + len_u64 bs)
          in Ok (PageBytes c nxt bs))"

section \<open>Specification: the produced stream\<close>

definition replay_repr :: "replay_buffer \<Rightarrow> bytes \<Rightarrow> bool" where
  "replay_repr b s \<longleftrightarrow>
     unat (rb_end b) = length s \<and>
     length (rb_bytes b) \<le> length s \<and>
     length (rb_bytes b) \<le> rb_limit b \<and>
     rb_bytes b = drop (length s - length (rb_bytes b)) s"

text \<open>What a read of a stream must answer, stated on the whole stream and the retention
  floor only.\<close>

definition page_spec ::
  "session_lifetime \<Rightarrow> bytes \<Rightarrow> nat \<Rightarrow> replay_cursor \<Rightarrow> nat \<Rightarrow> (replay_error, replay_page) result" where
  "page_spec l s floor c m =
     (if rc_lifetime c \<noteq> l then Err ForeignLifetime
      else if unat (rc_offset c) > length s then Err FutureCursor
      else if m = 0 then Err EmptyPageLimit
      else if unat (rc_offset c) < floor then Ok (Gap c (cursor_at l (word_of_nat floor)))
      else if unat (rc_offset c) = length s then Ok Pending
      else let bs = take m (drop (unat (rc_offset c)) s)
           in Ok (PageBytes c (cursor_at l (word_of_nat (unat (rc_offset c) + length bs))) bs))"

lemma replay_reprD:
  assumes "replay_repr b s"
  shows "unat (rb_end b) = length s" "length (rb_bytes b) \<le> length s"
    "length (rb_bytes b) \<le> rb_limit b"
    "rb_bytes b = drop (length s - length (rb_bytes b)) s" "length s < 2 ^ 64"
  using assms unat_u64_less [of "rb_end b"] by (auto simp: replay_repr_def)

lemma replay_repr_upd:
  assumes "unat e = length s" "length n \<le> length s" "length n \<le> rb_limit b"
    "n = drop (length s - length n) s"
  shows "replay_repr (b\<lparr>rb_bytes := n, rb_end := e\<rparr>) s"
  using assms(1-3) by (simp add: replay_repr_def) (rule assms(4))

lemma replay_repr_new: "replay_repr (replay_new l n) []"
  by (simp add: replay_repr_def replay_new_def)

lemma replay_floor_offset:
  assumes "replay_repr b s"
  shows "unat (rc_offset (replay_floor b)) = length s - length (rb_bytes b)"
proof -
  have n: "length (rb_bytes b) < 2 ^ 64" using replay_reprD [OF assms] by linarith
  then have len: "unat (len_u64 (rb_bytes b)) = length (rb_bytes b)"
    by (simp add: len_u64_def unat_of_nat_u64)
  then have "len_u64 (rb_bytes b) \<le> rb_end b"
    using replay_reprD [OF assms] by (simp add: word_le_nat_alt)
  then show ?thesis
    using len replay_reprD(1) [OF assms] by (simp add: replay_floor_def word_arith)
qed

lemma suffix_append:
  assumes "old = drop (length s - length old) s" "length old \<le> length s"
  shows "drop (length old - (L - length (drop (length bs - L) bs))) old @ drop (length bs - L) bs
    = drop (length (s @ bs) - min L (length old + length bs)) (s @ bs)"
proof (cases "L \<le> length bs")
  case True
  then show ?thesis by simp
next
  case False
  let ?d = "length old - (L - length bs)"
  have "drop ?d old = drop (?d + (length s - length old)) s"
    by (subst assms(1)) simp
  moreover have "?d + (length s - length old) = length s + length bs - min L (length old + length bs)"
    using False assms(2) by (auto simp: min_def)
  ultimately show ?thesis using False by simp
qed

lemma replay_append_suffix:
  assumes "replay_repr b s" "length s + length bs < 2 ^ 64"
  shows "\<exists>b'. append_with_limit b bs r = Ok b' \<and> replay_repr b' (s @ bs) \<and>
     rb_limit b' = rb_limit b \<and> rb_lifetime b' = rb_lifetime b \<and>
     length (rb_bytes b') =
       min (min (rb_limit b) r) (length (rb_bytes b) + length bs)"
proof -
  define L where "L = min (rb_limit b) r"
  let ?old = "rb_bytes b"
  note b = replay_reprD [OF assms(1)]
  have len: "unat (len_u64 bs) = length bs"
    using assms(2) by (simp add: len_u64_def unat_of_nat_u64)
  have add: "checked_add (rb_end b) (len_u64 bs) = Some (rb_end b + len_u64 bs)"
    using assms(2) b(1) len by (simp add: checked_add_eq)
  have e: "unat (rb_end b + len_u64 bs) = length s + length bs"
    using assms(2) b(1) len by (simp add: word_arith)
  define new where "new = drop (length ?old - (L - length (drop (length bs - L) bs))) ?old
    @ drop (length bs - L) bs"
  have n: "length new = min L (length ?old + length bs)"
    by (simp add: new_def min_def)
  have new: "new = drop (length (s @ bs) - length new) (s @ bs)"
    unfolding n unfolding new_def by (rule suffix_append [OF b(4) b(2)])
  let ?b = "b\<lparr>rb_bytes := new, rb_end := rb_end b + len_u64 bs\<rparr>"
  have "length new \<le> rb_limit b" "length new \<le> length (s @ bs)"
    unfolding n using b(2) by (auto simp: L_def)
  then have "replay_repr ?b (s @ bs)"
    using e by (intro replay_repr_upd new) (simp_all only: length_append)
  moreover have "append_with_limit b bs r = Ok ?b"
    by (simp add: append_with_limit_def Let_def add new_def L_def)
  ultimately show ?thesis
    using n by (intro exI [of _ ?b]) (simp add: L_def)
qed

lemma replay_append_exhausted:
  assumes "replay_repr b s" "2 ^ 64 \<le> length s + length bs" "length bs < 2 ^ 64"
  shows "append_with_limit b bs r = Err OffsetExhausted"
  using assms replay_reprD(1) [OF assms(1)]
  by (simp add: append_with_limit_def Let_def checked_add_eq len_u64_def unat_of_nat_u64)

lemma replay_retain_repr:
  assumes "replay_repr b s"
  shows "replay_repr (retain_at_most b n) s \<and>
     length (rb_bytes (retain_at_most b n)) = min n (length (rb_bytes b))"
proof -
  note b = replay_reprD [OF assms]
  let ?d = "length (rb_bytes b) - n"
  have "drop ?d (rb_bytes b) = drop (?d + (length s - length (rb_bytes b))) s"
    by (subst b(4)) simp
  moreover have "?d + (length s - length (rb_bytes b)) = length s - (length (rb_bytes b) - ?d)"
    using b(2) by linarith
  ultimately show ?thesis
    using b by (auto simp: retain_at_most_def replay_repr_def Let_def)
qed

lemma replay_release_repr: "replay_repr b s \<Longrightarrow> replay_repr (release_storage b) s"
  by (simp add: replay_repr_def release_storage_def)

lemma replay_read_spec:
  assumes "replay_repr b s"
  shows "replay_read b c m = page_spec (rb_lifetime b) s (length s - length (rb_bytes b)) c m"
proof -
  note b = replay_reprD [OF assms]
  let ?f = "rc_offset (replay_floor b)" and ?o = "rc_offset c"
  have f: "unat ?f = length s - length (rb_bytes b)" by (rule replay_floor_offset [OF assms])
  have fl: "replay_floor b = cursor_at (rb_lifetime b) (word_of_nat (length s - length (rb_bytes b)))"
    by (simp add: replay_floor_def flip: f)
  have page: "take m (drop (unat (?o - ?f)) (rb_bytes b)) = take m (drop (unat ?o) s)"
    if "\<not> ?o < ?f"
  proof -
    have "unat (?o - ?f) = unat ?o - unat ?f" using that by (simp add: word_arith)
    moreover have "unat ?f \<le> unat ?o" using that by (simp add: word_less_nat_alt)
    ultimately have "drop (unat (?o - ?f)) (drop (length s - length (rb_bytes b)) s) =
        drop (unat ?o) s"
      by (simp add: f)
    then show ?thesis using b(4) by simp
  qed
  have nxt: "?o + len_u64 bs = word_of_nat (unat ?o + length bs)" for bs :: bytes
    by (simp add: len_u64_def)
  show ?thesis
    using b(1) f fl page nxt
    by (simp add: replay_read_def page_spec_def Let_def word_less_nat_alt word_unat_eq_iff)
qed

section \<open>Histories of a buffer\<close>

text \<open>
  The calls that change a buffer, in any order.  A failed append leaves the buffer as it
  was, since the error is returned before any field is written.
\<close>

datatype replay_op = OpAppend bytes nat | OpRetain nat | OpRelease

fun replay_step :: "replay_buffer \<Rightarrow> replay_op \<Rightarrow> replay_buffer" where
  "replay_step b (OpAppend bs r) = (case append_with_limit b bs r of Ok b' \<Rightarrow> b' | Err _ \<Rightarrow> b)"
| "replay_step b (OpRetain n) = retain_at_most b n"
| "replay_step b OpRelease = release_storage b"

fun op_output :: "replay_op \<Rightarrow> bytes" where
  "op_output (OpAppend bs r) = bs"
| "op_output _ = []"

definition produced :: "replay_op list \<Rightarrow> bytes" where
  "produced ops = concat (map op_output ops)"

abbreviation replay_run :: "replay_buffer \<Rightarrow> replay_op list \<Rightarrow> replay_buffer" where
  "replay_run b ops \<equiv> foldl replay_step b ops"

lemma replay_step_repr:
  assumes "replay_repr b s" "length s + length (op_output x) < 2 ^ 64"
  shows "replay_repr (replay_step b x) (s @ op_output x) \<and>
     rb_limit (replay_step b x) = rb_limit b \<and> rb_lifetime (replay_step b x) = rb_lifetime b"
proof (cases x)
  case (OpAppend bs r)
  with replay_append_suffix [of b s bs r] assms show ?thesis by auto
next
  case (OpRetain n)
  with replay_retain_repr [of b s n] assms show ?thesis
    by (simp add: retain_at_most_def Let_def)
next
  case OpRelease
  with replay_release_repr [of b s] assms show ?thesis by (simp add: release_storage_def)
qed

lemma replay_run_repr:
  assumes "replay_repr b s" "length s + length (produced ops) < 2 ^ 64"
  shows "replay_repr (replay_run b ops) (s @ produced ops) \<and>
     rb_limit (replay_run b ops) = rb_limit b \<and> rb_lifetime (replay_run b ops) = rb_lifetime b"
  using assms
proof (induction ops arbitrary: b s)
  case Nil
  then show ?case by (simp add: produced_def)
next
  case (Cons x ops)
  have "replay_repr (replay_step b x) (s @ op_output x)"
    and same: "rb_limit (replay_step b x) = rb_limit b"
      "rb_lifetime (replay_step b x) = rb_lifetime b"
    using replay_step_repr [of b s x] Cons.prems by (auto simp: produced_def)
  moreover have "length (s @ op_output x) + length (produced ops) < 2 ^ 64"
    using Cons.prems(2) by (simp add: produced_def)
  ultimately show ?case
    using Cons.IH [of "replay_step b x" "s @ op_output x"] by (simp add: produced_def)
qed

section \<open>The retention contract\<close>

text \<open>
  What an observer of a stream relies on: a state represents a stream, reads answer as
  \<open>page_spec\<close> says for some floor, and the floor never passes the end.  From this alone,
  following the returned cursor visits every retained byte exactly once and ends at
  \<open>Pending\<close>.
\<close>

fun follow :: "(replay_cursor \<Rightarrow> (replay_error, replay_page) result) \<Rightarrow> nat \<Rightarrow> replay_cursor
    \<Rightarrow> bytes \<Rightarrow> (bytes \<times> replay_cursor) option" where
  "follow rd 0 c acc = None"
| "follow rd (Suc fuel) c acc =
     (case rd c of
        Ok (PageBytes f nxt bs) \<Rightarrow> follow rd fuel nxt (acc @ bs)
      | Ok (Gap f t) \<Rightarrow> follow rd fuel t acc
      | Ok Pending \<Rightarrow> Some (acc, c)
      | Err e \<Rightarrow> None)"

locale retained_stream =
  fixes repr :: "'b \<Rightarrow> bytes \<Rightarrow> bool"
    and kept :: "'b \<Rightarrow> nat"
    and life :: "'b \<Rightarrow> session_lifetime"
    and rd :: "'b \<Rightarrow> replay_cursor \<Rightarrow> nat \<Rightarrow> (replay_error, replay_page) result"
  assumes rd_spec: "repr b s \<Longrightarrow> rd b c m = page_spec (life b) s (length s - kept b) c m"
    and kept_le: "repr b s \<Longrightarrow> kept b \<le> length s"
    and stream_bound: "repr b s \<Longrightarrow> length s < 2 ^ 64"
begin

lemma follow_from_kept:
  assumes "repr b s" "0 < m" "rc_lifetime c = life b"
    "length s - kept b \<le> unat (rc_offset c)" "unat (rc_offset c) \<le> length s"
    "length s - unat (rc_offset c) < fuel"
  shows "follow (\<lambda>c. rd b c m) fuel c acc =
     Some (acc @ drop (unat (rc_offset c)) s, cursor_at (life b) (word_of_nat (length s)))"
  using assms
proof (induction fuel arbitrary: c acc)
  case 0
  then show ?case by simp
next
  case (Suc fuel)
  let ?o = "unat (rc_offset c)"
  show ?case
  proof (cases "?o = length s")
    case True
    then have "c = cursor_at (life b) (word_of_nat (length s))"
      using Suc.prems(3) by (simp add: replay_cursor_eq_iff flip: True)
    moreover have "rd b c m = Ok Pending"
      using True Suc.prems by (simp add: rd_spec page_spec_def)
    ultimately show ?thesis using True by simp
  next
    case False
    let ?bs = "take m (drop ?o s)"
    let ?c = "cursor_at (life b) (word_of_nat (?o + length ?bs))"
    have "?o + length ?bs < 2 ^ 64"
      using Suc.prems(5) stream_bound [OF Suc.prems(1)] by auto
    then have o: "unat (rc_offset ?c) = ?o + length ?bs"
      by (simp only: replay_cursor.select_convs unat_of_nat_u64)
    have step: "follow (\<lambda>c. rd b c m) (Suc fuel) c acc = follow (\<lambda>c. rd b c m) fuel ?c (acc @ ?bs)"
      using False Suc.prems by (simp add: rd_spec page_spec_def Let_def)
    have "0 < length ?bs" using False Suc.prems by auto
    then have "follow (\<lambda>c. rd b c m) fuel ?c (acc @ ?bs) =
        Some ((acc @ ?bs) @ drop (?o + length ?bs) s, cursor_at (life b) (word_of_nat (length s)))"
      using Suc.IH [of ?c "acc @ ?bs"] Suc.prems o by auto
    moreover have "?bs @ drop (?o + length ?bs) s = drop ?o s"
      by (rule take_then_drop)
    ultimately show ?thesis using step by simp
  qed
qed

lemma follow_from_any:
  assumes "repr b s" "0 < m" "rc_lifetime c = life b" "unat (rc_offset c) \<le> length s"
    "length s - unat (rc_offset c) + 1 < fuel"
  shows "follow (\<lambda>c. rd b c m) fuel c acc =
     Some (acc @ drop (max (unat (rc_offset c)) (length s - kept b)) s,
           cursor_at (life b) (word_of_nat (length s)))"
proof (cases "length s - kept b \<le> unat (rc_offset c)")
  case True
  with follow_from_kept [OF assms(1-3) True assms(4)] assms(5) show ?thesis
    by (simp add: max_def)
next
  case False
  obtain n where n: "fuel = Suc n" using assms(5) by (cases fuel) auto
  let ?t = "cursor_at (life b) (word_of_nat (length s - kept b))"
  have "length s - kept b < 2 ^ 64" using stream_bound [OF assms(1)] by linarith
  then have o: "unat (rc_offset ?t) = length s - kept b"
    by (simp only: replay_cursor.select_convs unat_of_nat_u64)
  have "rd b c m = Ok (Gap c ?t)"
    using False assms by (simp add: rd_spec page_spec_def)
  then have "follow (\<lambda>c. rd b c m) fuel c acc = follow (\<lambda>c. rd b c m) n ?t acc"
    using n by simp
  also have "\<dots> = Some (acc @ drop (length s - kept b) s, cursor_at (life b) (word_of_nat (length s)))"
    using follow_from_kept [OF assms(1,2), of ?t n acc] o assms(5) n False by simp
  finally show ?thesis using False by (simp add: max_def)
qed

end

interpretation replay_stream: retained_stream replay_repr replay_len rb_lifetime replay_read
proof unfold_locales
  show "replay_read b c m = page_spec (rb_lifetime b) s (length s - replay_len b) c m"
    if "replay_repr b s" for b s c m
    using replay_read_spec [OF that] by (simp add: replay_len_def)
  show "replay_len b \<le> length s" if "replay_repr b s" for b s
    using replay_reprD(2) [OF that] by (simp add: replay_len_def)
  show "length s < 2 ^ 64" if "replay_repr b s" for b s
    by (rule replay_reprD(5) [OF that])
qed

section \<open>Properties\<close>

text \<open>
  C3. Whatever sequence of appends, external evictions and storage releases a fresh buffer
  goes through, every read answers exactly as the specification does on the whole produced
  stream: foreign and future cursors and empty page limits are refused in that order, a
  cursor below the floor gets the exact gap, a cursor at the end is pending, and any other
  cursor gets the stream's own bytes from there; and never more than the limit is kept.
\<close>

theorem replay_history_reads:
  assumes "length (produced ops) < 2 ^ 64"
  shows "replay_read (replay_run (replay_new l n) ops) c m =
      page_spec l (produced ops)
        (length (produced ops) - replay_len (replay_run (replay_new l n) ops)) c m
    \<and> replay_len (replay_run (replay_new l n) ops) \<le> n"
proof -
  have r: "replay_repr (replay_run (replay_new l n) ops) (produced ops)"
    and l: "rb_limit (replay_run (replay_new l n) ops) = n"
      "rb_lifetime (replay_run (replay_new l n) ops) = l"
    using replay_run_repr [OF replay_repr_new, of ops l n] assms
    by (auto simp: replay_new_def)
  from replay_stream.rd_spec [OF r] replay_reprD(3) [OF r] l show ?thesis
    by (simp add: replay_len_def)
qed

theorem replay_history_reads_witness:
  "replay_read
     (replay_run (replay_new (lifetime_new 1 1) 3) [OpAppend [1, 2] 3, OpAppend [3, 4] 3])
     (cursor_at (lifetime_new 1 1) 2) 8
   = Ok (PageBytes (cursor_at (lifetime_new 1 1) 2) (cursor_at (lifetime_new 1 1) 4) [3, 4])"
proof -
  let ?ops = "[OpAppend [1, 2] 3, OpAppend [3, 4] 3] :: replay_op list"
  have p: "produced ?ops = [1, 2, 3, 4]" by (simp add: produced_def)
  then have "length (produced ?ops) < 2 ^ 64" by simp
  note reads = replay_history_reads [OF this, of "lifetime_new 1 1" 3
      "cursor_at (lifetime_new 1 1) 2" 8]
  have len: "replay_len (replay_run (replay_new (lifetime_new 1 1) 3) ?ops) = 3"
    by code_simp
  have "page_spec (lifetime_new 1 1) [1, 2, 3, 4] (length [1, 2, 3, 4 :: u8] - 3)
      (cursor_at (lifetime_new 1 1) 2) 8 =
    Ok (PageBytes (cursor_at (lifetime_new 1 1) 2) (cursor_at (lifetime_new 1 1) 4) [3, 4])"
    by (simp add: page_spec_def)
  then show ?thesis
    by (rule trans [OF conjunct1 [OF reads [unfolded p len]]])
qed

text \<open>
  C26. An observer that starts at any cursor of the stream and follows the returned
  positions, with any nonzero page limit, reaches \<open>Pending\<close> after finitely many reads and
  has then received exactly the retained bytes from its cursor on, each once and in order.
\<close>

theorem replay_follow_complete:
  assumes "replay_repr b s" "0 < m" "rc_lifetime c = rb_lifetime b"
    "unat (rc_offset c) \<le> length s" "length s - unat (rc_offset c) + 1 < fuel"
  shows "follow (\<lambda>c. replay_read b c m) fuel c [] =
     Some (drop (max (unat (rc_offset c)) (length s - replay_len b)) s, replay_end b)"
proof -
  have "cursor_at (rb_lifetime b) (word_of_nat (length s)) = replay_end b"
    unfolding replay_end_def by (subst replay_reprD(1) [OF assms(1), symmetric]) simp
  then show ?thesis
    using replay_stream.follow_from_any [OF assms, of "[]"] by simp
qed

theorem replay_follow_complete_witness:
  "follow (\<lambda>c. replay_read
       \<lparr>rb_lifetime = lifetime_new 1 1, rb_limit = 3, rb_end = 4, rb_bytes = [2, 3, 4]\<rparr> c 2)
     9 (cursor_at (lifetime_new 1 1) 0) [] =
   Some ([2, 3, 4], cursor_at (lifetime_new 1 1) 4)"
proof -
  let ?b = "\<lparr>rb_lifetime = lifetime_new 1 1, rb_limit = 3, rb_end = 4, rb_bytes = [2, 3, 4]\<rparr>"
  have "replay_repr ?b [1, 2, 3, 4]" by (simp add: replay_repr_def)
  from replay_follow_complete [OF this, of 2 "cursor_at (lifetime_new 1 1) 0" 9]
  show ?thesis by (simp add: replay_len_def replay_end_def)
qed

text \<open>
  One append keeps exactly the newest bytes: as many as the smaller of the two ceilings
  and of what there is, and the position advances by the whole chunk; when the position
  cannot represent the chunk, the append is refused.
\<close>

theorem append_with_limit_exact:
  assumes "replay_repr b s" "length bs < 2 ^ 64"
  shows "(length s + length bs < 2 ^ 64 \<longrightarrow>
      (\<exists>b'. append_with_limit b bs r = Ok b' \<and> unat (rb_end b') = length s + length bs \<and>
        rb_bytes b' =
          drop (length s + length bs - min (min (rb_limit b) r) (replay_len b + length bs)) (s @ bs)))
    \<and> (2 ^ 64 \<le> length s + length bs \<longrightarrow> append_with_limit b bs r = Err OffsetExhausted)"
proof (intro conjI impI)
  assume "length s + length bs < 2 ^ 64"
  from replay_append_suffix [OF assms(1) this] obtain b' where b':
    "append_with_limit b bs r = Ok b'" "replay_repr b' (s @ bs)"
    "length (rb_bytes b') = min (min (rb_limit b) r) (length (rb_bytes b) + length bs)"
    by blast
  from replay_reprD(1) [OF b'(2)] trans [OF replay_reprD(4) [OF b'(2)]
      arg_cong [where f = "\<lambda>k. drop (length (s @ bs) - k) (s @ bs)", OF b'(3)]] b'(1)
  show "\<exists>b'. append_with_limit b bs r = Ok b' \<and> unat (rb_end b') = length s + length bs \<and>
        rb_bytes b' =
          drop (length s + length bs - min (min (rb_limit b) r) (replay_len b + length bs)) (s @ bs)"
    by (intro exI [of _ b']) (simp only: length_append replay_len_def simp_thms)
next
  assume "2 ^ 64 \<le> length s + length bs"
  then show "append_with_limit b bs r = Err OffsetExhausted"
    by (rule replay_append_exhausted [OF assms(1) _ assms(2)])
qed

theorem append_with_limit_exact_witness:
  "\<exists>b'. append_with_limit (replay_new (lifetime_new 1 1) 2) [7, 8, 9] 5 = Ok b' \<and>
     rb_bytes b' = [8, 9]"
  using append_with_limit_exact [OF replay_repr_new, of "[7, 8, 9]" "lifetime_new 1 1" 2 5]
  by (auto simp: replay_len_def replay_new_def)

end
