(* ===== verification/Session_Values.thy ===== *)
theory Session_Values
  imports Projection_Values Replay
begin

text \<open>
  Session policies and lifecycle facts (\<^verbatim>\<open>crates/domain/src/session/mod.rs\<close>): the
  runtime and session options with their validators, the separate process, drain and
  cancellation facts of \<open>SessionStatus\<close>, and the observation events.
\<close>

section \<open>Failures and options\<close>

datatype runtime_error =
    RExistingSession | RMissingSession | RCapacity | RClosed | RNotFinished | RInvalidCursor
  | RProcess process_error | RProjection projection_error | RInternal

record runtime_options =
  ru_max_sessions :: usize
  ru_max_observers :: usize
  ru_replay_bytes :: usize
  ru_output_page_bytes :: usize
  ru_input_bytes :: usize
  ru_input_slots :: usize
  ru_projection :: projection_limits

definition runtime_options_default :: runtime_options where
  "runtime_options_default =
     \<lparr>ru_max_sessions = 512, ru_max_observers = 2048, ru_replay_bytes = 16 * 1024 * 1024,
      ru_output_page_bytes = 16384, ru_input_bytes = 4 * 1024 * 1024, ru_input_slots = 512,
      ru_projection = projection_limits_default\<rparr>"

definition runtime_options_validate :: "runtime_options \<Rightarrow> (runtime_error, unit) result" where
  "runtime_options_validate o' =
     (if ru_max_sessions o' = 0
         \<or> ru_max_observers o' = 0
         \<or> ru_output_page_bytes o' = 0
         \<or> ru_output_page_bytes o' > 65536
         \<or> ru_input_slots o' = 0
         \<or> ru_input_bytes o' = 0
      then Err RCapacity
      else bind_result (map_err RProjection (projection_limits_validate (ru_projection o'))) (\<lambda>_. Ok ()))"

record session_options =
  so_size :: terminal_size
  so_replay_bytes :: usize
  so_max_observers :: usize
  so_process :: process_limits
  so_projection :: "projection_options option"

definition session_options_validate ::
  "usize \<Rightarrow> session_options \<Rightarrow> runtime_options \<Rightarrow> (runtime_error, unit) result" where
  "session_options_validate cell_size s runtime =
     bind_result (map_err RProcess (process_limits_validate (so_process s))) (\<lambda>_.
     if so_max_observers s = 0 then Err RCapacity
     else case so_projection s of
       None \<Rightarrow> Ok ()
     | Some j \<Rightarrow>
         bind_result (map_err RProjection (projection_options_validate cell_size j)) (\<lambda>_.
         if tc_size (po_terminal j) \<noteq> so_size s
            \<or> pl_read_chunk (so_process s) > tc_feed_bytes (po_terminal j)
            \<or> pl_read_chunk (so_process s) > po_staging_bytes j
            \<or> pl_read_chunk (so_process s) > jl_staging_bytes (ru_projection runtime)
            \<or> tc_reply_bytes (po_terminal j) > jl_view_bytes (ru_projection runtime)
            \<or> tc_reply_bytes (po_terminal j) > ru_input_bytes runtime
            \<or> tc_reply_bytes (po_terminal j) > pl_input_chunk (so_process s)
         then Err (RProjection JInvalidConfiguration) else Ok ()))"

definition session_raw :: "terminal_size \<Rightarrow> session_options" where
  "session_raw sz =
     \<lparr>so_size = sz, so_replay_bytes = 65536, so_max_observers = 16,
      so_process = process_limits_default, so_projection = None\<rparr>"

definition session_projected :: "terminal_config \<Rightarrow> session_options" where
  "session_projected terminal =
     (session_raw (tc_size terminal))\<lparr>so_projection := Some (projection_options_new terminal)\<rparr>"

datatype attach_position = AttachOldest | AttachTail | AttachCursor replay_cursor

section \<open>Lifecycle facts\<close>

record session_status =
  ss_exit :: "exit_status option"
  ss_drain :: "drain_outcome option"
  ss_supervision_error :: "process_error option"
  ss_admission_error :: "runtime_error option"
  ss_cancellation_requested :: bool

definition session_status_default :: session_status where
  "session_status_default =
     \<lparr>ss_exit = None, ss_drain = None, ss_supervision_error = None, ss_admission_error = None,
      ss_cancellation_requested = False\<rparr>"

datatype completion = Completion session_status

datatype output_event = EvReplay replay_page | EvComplete completion

definition record_exit :: "session_status \<Rightarrow> exit_status \<Rightarrow> (runtime_error, session_status) result" where
  "record_exit s x =
     (if (case ss_exit s of None \<Rightarrow> False | Some existing \<Rightarrow> existing \<noteq> x) then Err RInternal
      else Ok (s\<lparr>ss_exit := Some x\<rparr>))"

definition record_drain :: "session_status \<Rightarrow> drain_outcome \<Rightarrow> (runtime_error, session_status) result" where
  "record_drain s x =
     (if (case ss_drain s of None \<Rightarrow> False | Some existing \<Rightarrow> existing \<noteq> x) then Err RInternal
      else Ok (s\<lparr>ss_drain := Some x\<rparr>))"

definition get_or_insert :: "'a option \<Rightarrow> 'a \<Rightarrow> 'a option" where
  "get_or_insert v x = (case v of None \<Rightarrow> Some x | Some y \<Rightarrow> Some y)"

definition record_failure :: "session_status \<Rightarrow> process_error \<Rightarrow> session_status" where
  "record_failure s e = s\<lparr>ss_supervision_error := get_or_insert (ss_supervision_error s) e\<rparr>"

definition record_admission_failure :: "session_status \<Rightarrow> runtime_error \<Rightarrow> session_status" where
  "record_admission_failure s e = s\<lparr>ss_admission_error := get_or_insert (ss_admission_error s) e\<rparr>"

definition status_completion :: "session_status \<Rightarrow> completion option" where
  "status_completion s =
     (if (ss_exit s \<noteq> None \<or> ss_supervision_error s \<noteq> None \<or> ss_admission_error s \<noteq> None)
         \<and> ss_drain s \<noteq> None
      then Some (Completion s) else None)"

definition admit_cancel :: "session_status \<Rightarrow> (runtime_error, session_status) result" where
  "admit_cancel s =
     (if status_completion s \<noteq> None then Err RClosed
      else Ok (s\<lparr>ss_cancellation_requested := True\<rparr>))"

text \<open>The process callbacks of \<open>SessionEventSink\<close>
  (\<^verbatim>\<open>crates/application/src/runtime/context.rs\<close>), which turn a contradictory report
  into a supervision failure.\<close>

datatype lifecycle_event =
    LExited exit_status | LDrained drain_outcome | LSupervisionFailed process_error
  | LAdmissionFailed runtime_error | LCancel

fun lifecycle_step :: "session_status \<Rightarrow> lifecycle_event \<Rightarrow> session_status" where
  "lifecycle_step s (LExited x) =
     (case record_exit s x of Ok s' \<Rightarrow> s' | Err _ \<Rightarrow> record_failure s PInternal)"
| "lifecycle_step s (LDrained x) =
     (case record_drain s x of Ok s' \<Rightarrow> s' | Err _ \<Rightarrow> record_failure s PInternal)"
| "lifecycle_step s (LSupervisionFailed e) = record_failure s e"
| "lifecycle_step s (LAdmissionFailed e) = record_admission_failure s e"
| "lifecycle_step s LCancel = (case admit_cancel s of Ok s' \<Rightarrow> s' | Err _ \<Rightarrow> s)"

abbreviation lifecycle_run :: "session_status \<Rightarrow> lifecycle_event list \<Rightarrow> session_status" where
  "lifecycle_run s es \<equiv> foldl lifecycle_step s es"

lemmas lifecycle_defs = record_exit_def record_drain_def record_failure_def get_or_insert_def
  record_admission_failure_def admit_cancel_def

text \<open>The declarative reading: a fact is the first report of its kind.\<close>

fun first_exit :: "lifecycle_event list \<Rightarrow> exit_status option" where
  "first_exit [] = None"
| "first_exit (LExited x # es) = Some x"
| "first_exit (_ # es) = first_exit es"

fun first_drain :: "lifecycle_event list \<Rightarrow> drain_outcome option" where
  "first_drain [] = None"
| "first_drain (LDrained x # es) = Some x"
| "first_drain (_ # es) = first_drain es"

definition or_first :: "'a option \<Rightarrow> 'a option \<Rightarrow> 'a option" where
  "or_first v w = (case v of None \<Rightarrow> w | Some y \<Rightarrow> Some y)"

lemma or_first_simps [simp]: "or_first None w = w" "or_first (Some y) w = Some y" "or_first v None = v"
  by (auto simp: or_first_def split: option.splits)

lemma lifecycle_step_facts:
  "ss_exit (lifecycle_step s e) = or_first (ss_exit s) (first_exit [e])"
  "ss_drain (lifecycle_step s e) = or_first (ss_drain s) (first_drain [e])"
  by (cases e; auto simp: lifecycle_defs or_first_def split: option.splits)+

lemma first_exit_Cons: "first_exit (e # es) = or_first (first_exit [e]) (first_exit es)"
  by (cases e) auto

lemma first_drain_Cons: "first_drain (e # es) = or_first (first_drain [e]) (first_drain es)"
  by (cases e) auto

lemma or_first_assoc: "or_first (or_first a b) c = or_first a (or_first b c)"
  by (cases a) auto

lemma lifecycle_run_facts:
  "ss_exit (lifecycle_run s es) = or_first (ss_exit s) (first_exit es) \<and>
   ss_drain (lifecycle_run s es) = or_first (ss_drain s) (first_drain es)"
proof (induction es arbitrary: s)
  case (Cons e es)
  show ?case
    using Cons [of "lifecycle_step s e"]
    by (simp add: lifecycle_step_facts or_first_assoc first_exit_Cons [of e es] first_drain_Cons [of e es])
qed simp

lemma lifecycle_step_mono:
  "status_completion s \<noteq> None \<Longrightarrow>
     status_completion (lifecycle_step s e) \<noteq> None \<and>
     ss_cancellation_requested (lifecycle_step s e) = ss_cancellation_requested s"
  by (cases e) (auto simp: lifecycle_defs status_completion_def split: option.splits if_splits)

section \<open>Properties\<close>

text \<open>
  Exit and drain are recorded independently and never overwritten: whatever reports
  arrive and in whatever order, the status holds exactly the first reported exit and the
  first reported drain, so a failure or a contradicting later report never manufactures or
  replaces an exit status.
\<close>

theorem lifecycle_first_facts:
  "ss_exit (lifecycle_run session_status_default es) = first_exit es
   \<and> ss_drain (lifecycle_run session_status_default es) = first_drain es"
  using lifecycle_run_facts [of session_status_default es] by (simp add: session_status_default_def)

text \<open>
  Completion is final: once some supervision outcome and a drain are known, every later
  report leaves the session complete, with the same exit and drain, and cancellation is
  refused from then on.
\<close>

theorem lifecycle_completion_final:
  assumes "status_completion s \<noteq> None"
  shows "status_completion (lifecycle_run s es) \<noteq> None
    \<and> ss_drain (lifecycle_run s es) = ss_drain s
    \<and> (ss_exit s \<noteq> None \<longrightarrow> ss_exit (lifecycle_run s es) = ss_exit s)
    \<and> ss_cancellation_requested (lifecycle_run s es) = ss_cancellation_requested s
    \<and> admit_cancel (lifecycle_run s es) = Err RClosed"
proof -
  have c: "status_completion (lifecycle_run s es) \<noteq> None
      \<and> ss_cancellation_requested (lifecycle_run s es) = ss_cancellation_requested s"
    using assms
  proof (induction es rule: rev_induct)
    case (snoc e es)
    then show ?case using lifecycle_step_mono [of "lifecycle_run s es" e] by simp
  qed simp
  moreover have "ss_drain s \<noteq> None" using assms by (auto simp: status_completion_def split: if_splits)
  ultimately show ?thesis
    using lifecycle_run_facts [of s es] by (auto simp: admit_cancel_def)
qed

theorem lifecycle_completion_final_witness:
  "ss_exit (lifecycle_run (lifecycle_run session_status_default [LExited (Code 3), LDrained Eof])
     [LExited (Signal 9), LCancel]) = Some (Code 3)"
proof -
  let ?s = "lifecycle_run session_status_default [LExited (Code 3), LDrained Eof]"
  have e: "ss_exit ?s = Some (Code 3)" "status_completion ?s \<noteq> None"
    by (simp_all add: session_status_default_def lifecycle_defs status_completion_def)
  from lifecycle_completion_final [OF e(2), of "[LExited (Signal 9), LCancel]"] e(1)
  show ?thesis by simp
qed

lemma runtime_default_ok [simp]: "runtime_options_validate runtime_options_default = Ok ()"
proof -
  have "projection_limits_validate projection_limits_default = Ok projection_limits_default"
    by (simp add: projection_limits_validate_def projection_limits_default_def isize_max_word_def)
  then show ?thesis
    by (simp add: runtime_options_default_def runtime_options_validate_def process_limits_default_def)
qed

text \<open>
  A projected session with the default options of an admitted size is accepted by a
  runtime with default options: one PTY read always fits one native feed, the staging
  budgets admit it, and a full reply fits one input chunk.
\<close>

theorem default_projected_accepted:
  assumes "terminal_size_new c r = Ok sz" "unat cell_size \<le> 2 ^ 40"
  shows "session_options_validate cell_size (session_projected (terminal_config_new sz))
      runtime_options_default = Ok ()
    \<and> runtime_options_validate runtime_options_default = Ok ()"
proof -
  let ?cfg = "terminal_config_new sz"
  have cfg: "terminal_config_validate ?cfg = Ok ?cfg"
    by (simp add: terminal_config_validate_def terminal_config_new_def)
  have sz: "tc_size ?cfg = sz" by (simp add: terminal_config_new_def)
  obtain n where "view_reservation cell_size (projection_options_new ?cfg) = Ok n"
    using view_reservation_exact [of c r "projection_options_new ?cfg" ?cfg cell_size] assms cfg sz
    by (auto simp: projection_options_new_def)
  then have "projection_options_validate cell_size (projection_options_new ?cfg) =
      Ok (projection_options_new ?cfg)"
    using cfg by (simp add: projection_options_validate_def projection_options_new_def
        isize_max_word_def from_secs_def) (simp add: terminal_config_new_def)
  moreover have "process_limits_validate process_limits_default = Ok ()"
    by (simp add: process_limits_validate_def process_limits_default_def from_secs_def from_millis_def)
  moreover have "projection_limits_validate projection_limits_default = Ok projection_limits_default"
    by (simp add: projection_limits_validate_def projection_limits_default_def isize_max_word_def)
  ultimately show ?thesis
    by (simp add: session_options_validate_def session_projected_def session_raw_def sz
        runtime_options_default_def runtime_options_validate_def projection_options_new_def
        process_limits_default_def projection_limits_default_def terminal_config_new_def)
qed

theorem default_projected_accepted_witness:
  "session_options_validate 64 (session_projected (terminal_config_new \<lparr>ts_cols = 80, ts_rows = 24\<rparr>))
     runtime_options_default = Ok ()"
  using default_projected_accepted [of 80 24 "\<lparr>ts_cols = 80, ts_rows = 24\<rparr>" 64]
  by (simp add: terminal_size_new_Ok)

end
