(* ===== verification/Quota.thy ===== *)
theory Quota
  imports Session_Values "HOL-Library.Multiset"
begin

text \<open>
  Lock-free admission quotas: the conditional atomic update
  (\<^verbatim>\<open>crates/atomic_update.rs\<close>), the counter \<open>Quota\<close> and the paired input lease
  (\<^verbatim>\<open>crates/application/src/runtime/quota.rs\<close>).

  \<open>try_update\<close> is the load followed by the weak compare-exchange loop; the argument
  \<open>seen\<close> lists, per compare-exchange, the value in memory and whether the exchange fails
  spuriously, so every interference by other threads is some \<open>seen\<close>.  The sequential
  operations are the loop without interference.  \<open>quota_exec\<close> interleaves any number of
  acquiring and releasing threads at the granularity of single atomic operations.
\<close>

section \<open>Conditional atomic update\<close>

text \<open>
  \<open>Some (Ok v, Some n)\<close>: returned \<open>Ok v\<close> after storing \<open>n\<close> over \<open>v\<close>; \<open>Some (Err v, None)\<close>:
  returned \<open>Err v\<close> and stored nothing; \<open>None\<close>: still looping after these exchanges.
\<close>

fun try_update ::
  "('w::len word \<Rightarrow> 'w word option) \<Rightarrow> 'w word \<Rightarrow> ('w word \<times> bool) list
    \<Rightarrow> (('w word, 'w word) result \<times> 'w word option) option" where
  "try_update update previous seen =
     (case update previous of
        None \<Rightarrow> Some (Err previous, None)
      | Some nxt \<Rightarrow>
          (case seen of
             [] \<Rightarrow> None
           | (mem, spurious) # rest \<Rightarrow>
               if mem = previous \<and> \<not> spurious then Some (Ok previous, Some nxt)
               else try_update update mem rest))"

declare try_update.simps [simp del]

text \<open>A success stored the update of exactly the value it returns, which was in memory at
  that exchange; a refusal is for a value that was really loaded.\<close>

lemma try_update_Nil:
  "try_update upd v [] = (case upd v of None \<Rightarrow> Some (Err v, None) | Some _ \<Rightarrow> None)"
  by (subst try_update.simps) (simp split: option.splits)

lemma try_update_Cons:
  "try_update upd v ((m, sp) # seen) =
     (case upd v of None \<Rightarrow> Some (Err v, None)
      | Some n \<Rightarrow> if m = v \<and> \<not> sp then Some (Ok v, Some n) else try_update upd m seen)"
  by (subst try_update.simps) (simp split: option.splits)

lemma try_update_Ok:
  "try_update upd v seen = Some (Ok w, st) \<Longrightarrow>
     \<exists>n. st = Some n \<and> upd w = Some n \<and> (w, False) \<in> set seen"
proof (induction seen arbitrary: v)
  case Nil
  then show ?case by (simp add: try_update_Nil split: option.splits)
next
  case (Cons x seen)
  then show ?case
    by (cases x; cases "upd v") (auto simp: try_update_Cons split: if_splits intro: sym)
qed

lemma try_update_Err:
  "try_update upd v seen = Some (Err w, st) \<Longrightarrow>
     st = None \<and> upd w = None \<and> w \<in> insert v (fst ` set seen)"
proof (induction seen arbitrary: v)
  case Nil
  then show ?case by (simp add: try_update_Nil split: option.splits)
next
  case (Cons x seen)
  then show ?case
    by (cases x) (fastforce simp: try_update_Cons split: option.splits if_splits)
qed

section \<open>Quotas\<close>

record quota =
  q_limit :: usize
  q_used :: usize

record budget_usage =
  bu_used :: usize
  bu_limit :: usize

definition quota_new :: "usize \<Rightarrow> quota" where
  "quota_new limit = \<lparr>q_limit = limit, q_used = 0\<rparr>"

definition quota_usage :: "quota \<Rightarrow> budget_usage" where
  "quota_usage q = \<lparr>bu_used = q_used q, bu_limit = q_limit q\<rparr>"

definition quota_update :: "usize \<Rightarrow> usize \<Rightarrow> usize \<Rightarrow> usize option" where
  "quota_update limit n used =
     (case checked_add used n of None \<Rightarrow> None | Some nxt \<Rightarrow> if nxt \<le> limit then Some nxt else None)"

definition quota_acquire :: "quota \<Rightarrow> usize \<Rightarrow> bool \<times> quota" where
  "quota_acquire q n =
     (case try_update (quota_update (q_limit q) n) (q_used q) [(q_used q, False)] of
        Some (Ok _, Some nxt) \<Rightarrow> (True, q\<lparr>q_used := nxt\<rparr>)
      | _ \<Rightarrow> (False, q))"

definition quota_release :: "quota \<Rightarrow> usize \<Rightarrow> quota" where
  "quota_release q n = q\<lparr>q_used := q_used q - n\<rparr>"

lemma quota_update_Some:
  "quota_update L n u = Some v \<longleftrightarrow> v = u + n \<and> unat u + unat n \<le> unat L"
proof -
  have "unat L < 2 ^ 64" by (rule unat_u64_less)
  then show ?thesis
    by (auto simp: quota_update_def checked_add_eq word_le_nat_alt unat_add_no_overflow
        split: option.splits if_splits)
qed

lemma quota_acquire_eq:
  "quota_acquire q n =
     (if unat (q_used q) + unat n \<le> unat (q_limit q) then (True, q\<lparr>q_used := q_used q + n\<rparr>)
      else (False, q))"
proof (cases "quota_update (q_limit q) n (q_used q)")
  case None
  then have "\<not> unat (q_used q) + unat n \<le> unat (q_limit q)"
    using quota_update_Some [of "q_limit q" n "q_used q" "q_used q + n"] by auto
  with None show ?thesis by (simp add: quota_acquire_def try_update_Cons)
next
  case (Some v)
  then show ?thesis
    using quota_update_Some [of "q_limit q" n "q_used q" v]
    by (simp add: quota_acquire_def try_update_Cons)
qed

definition quota_ok :: "quota \<Rightarrow> bool" where
  "quota_ok q \<longleftrightarrow> q_used q \<le> q_limit q"

lemma quota_new_ok: "quota_ok (quota_new n)"
  by (simp add: quota_ok_def quota_new_def)

lemma unat_bounded_add:
  fixes u n :: u64
  assumes "unat u + unat n \<le> unat (L :: u64)"
  shows "unat (u + n) = unat u + unat n"
  using assms unat_u64_less [of L] by (simp add: unat_add_no_overflow)

lemma quota_acquire_True:
  assumes "quota_acquire q n = (True, q')"
  shows "q_limit q' = q_limit q" "unat (q_used q') = unat (q_used q) + unat n"
    "unat (q_used q) + unat n \<le> unat (q_limit q)" "quota_release q' n = q" "quota_ok q'"
  using assms
  by (auto simp: quota_acquire_eq quota_release_def quota_ok_def word_le_nat_alt unat_bounded_add
      split: if_splits)

lemma quota_acquire_False:
  "quota_acquire q n = (False, q') \<longleftrightarrow> q' = q \<and> unat (q_limit q) < unat (q_used q) + unat n"
  by (auto simp: quota_acquire_eq)

section \<open>Input leases\<close>

text \<open>State is the pair of byte and slot quotas; the lease carries its byte count.\<close>

definition input_lease_acquire ::
  "quota \<Rightarrow> quota \<Rightarrow> usize \<Rightarrow> (runtime_error, usize) result \<times> quota \<times> quota" where
  "input_lease_acquire bs slots cnt =
     (case quota_acquire slots 1 of
        (False, slots) \<Rightarrow> (Err RCapacity, bs, slots)
      | (True, slots) \<Rightarrow>
          (case quota_acquire bs cnt of
             (False, bs) \<Rightarrow> (Err RCapacity, bs, quota_release slots 1)
           | (True, bs) \<Rightarrow> (Ok cnt, bs, slots)))"

definition input_lease_drop :: "usize \<Rightarrow> quota \<Rightarrow> quota \<Rightarrow> quota \<times> quota" where
  "input_lease_drop cnt bs slots = (quota_release bs cnt, quota_release slots 1)"

section \<open>Interleaved threads\<close>

text \<open>
  A thread inside \<open>acquire\<close> holds its request and the value it last saw; the leases granted
  and not yet dropped are a multiset.
\<close>

record quota_sys =
  qs_quota :: quota
  qs_threads :: "(nat \<times> usize \<times> usize) list"
  qs_leases :: "usize multiset"

datatype quota_event =
    QStart nat usize          \<comment> \<open>a thread enters \<open>acquire\<close> and loads the counter\<close>
  | QExchange nat bool        \<comment> \<open>it evaluates the closure and, if it may, tries the exchange\<close>
  | QRelease usize            \<comment> \<open>the owner of a granted lease drops it\<close>

fun quota_exec :: "quota_sys \<Rightarrow> quota_event \<Rightarrow> quota_sys option" where
  "quota_exec s (QStart t n) =
     (if map_of (qs_threads s) t \<noteq> None then None
      else Some (s\<lparr>qs_threads := (t, n, q_used (qs_quota s)) # qs_threads s\<rparr>))"
| "quota_exec s (QExchange t spurious) =
     (case map_of (qs_threads s) t of
        None \<Rightarrow> None
      | Some (n, previous) \<Rightarrow>
          (let others = filter (\<lambda>x. fst x \<noteq> t) (qs_threads s); mem = q_used (qs_quota s) in
           case quota_update (q_limit (qs_quota s)) n previous of
             None \<Rightarrow> Some (s\<lparr>qs_threads := others\<rparr>)
           | Some nxt \<Rightarrow>
               if mem = previous \<and> \<not> spurious
               then Some (s\<lparr>qs_quota := (qs_quota s)\<lparr>q_used := nxt\<rparr>, qs_threads := others,
                            qs_leases := add_mset n (qs_leases s)\<rparr>)
               else Some (s\<lparr>qs_threads := (t, n, mem) # others\<rparr>)))"
| "quota_exec s (QRelease n) =
     (if n \<in># qs_leases s
      then Some (s\<lparr>qs_quota := quota_release (qs_quota s) n, qs_leases := qs_leases s - {#n#}\<rparr>)
      else None)"

fun quota_run :: "quota_sys \<Rightarrow> quota_event list \<Rightarrow> quota_sys option" where
  "quota_run s [] = Some s"
| "quota_run s (e # es) = Option.bind (quota_exec s e) (\<lambda>s'. quota_run s' es)"

definition quota_start :: "usize \<Rightarrow> quota_sys" where
  "quota_start limit = \<lparr>qs_quota = quota_new limit, qs_threads = [], qs_leases = {#}\<rparr>"

definition lease_total :: "usize multiset \<Rightarrow> nat" where
  "lease_total m = sum_mset (image_mset unat m)"

definition quota_sys_inv :: "usize \<Rightarrow> quota_sys \<Rightarrow> bool" where
  "quota_sys_inv limit s \<longleftrightarrow>
     q_limit (qs_quota s) = limit \<and>
     unat (q_used (qs_quota s)) = lease_total (qs_leases s) \<and>
     lease_total (qs_leases s) \<le> unat limit"

lemma quota_exec_inv:
  assumes "quota_sys_inv L s" "quota_exec s e = Some s'"
  shows "quota_sys_inv L s'"
proof (cases e)
  case (QRelease n)
  then have n: "n \<in># qs_leases s"
    and s': "s' = s\<lparr>qs_quota := quota_release (qs_quota s) n, qs_leases := qs_leases s - {#n#}\<rparr>"
    using assms(2) by (auto split: if_splits)
  have "lease_total (qs_leases s) = unat n + lease_total (qs_leases s - {#n#})"
    using n by (metis lease_total_def image_mset_add_mset insert_DiffM sum_mset.insert)
  moreover from this have "n \<le> q_used (qs_quota s)"
    using assms(1) by (simp add: quota_sys_inv_def word_le_nat_alt)
  ultimately show ?thesis
    using assms(1) s' by (auto simp: quota_sys_inv_def quota_release_def unat_sub_no_underflow)
next
  case (QExchange t spurious)
  with assms show ?thesis
    by (auto simp: quota_sys_inv_def lease_total_def Let_def quota_update_Some unat_bounded_add
        split: option.splits if_splits)
qed (use assms in \<open>auto simp: quota_sys_inv_def split: if_splits\<close>)

lemma quota_run_inv:
  "quota_sys_inv L s \<Longrightarrow> quota_run s es = Some s' \<Longrightarrow> quota_sys_inv L s'"
proof (induction es arbitrary: s)
  case (Cons e es)
  then obtain r where r: "quota_exec s e = Some r" "quota_run r es = Some s'"
    by (cases "quota_exec s e") auto
  from Cons.IH [OF quota_exec_inv [OF Cons.prems(1) r(1)] r(2)] show ?case .
qed simp

section \<open>Properties\<close>

text \<open>
  C16. Whatever way any number of threads acquire and release one quota, interleaved at
  every single atomic operation and with spurious compare-exchange failures, the counter
  always equals the sum of the leases granted and not yet dropped, and never exceeds the
  limit: no admission is lost, counted twice or over-committed, and no release wraps.
\<close>

theorem quota_never_overcommits:
  assumes "quota_run (quota_start limit) events = Some s"
  shows "unat (q_used (qs_quota s)) = lease_total (qs_leases s) \<and> lease_total (qs_leases s) \<le> unat limit"
proof -
  have "quota_sys_inv limit (quota_start limit)"
    by (simp add: quota_sys_inv_def quota_start_def quota_new_def lease_total_def)
  from quota_run_inv [OF this assms] show ?thesis by (simp add: quota_sys_inv_def)
qed

theorem quota_never_overcommits_witness:
  "\<exists>s. quota_run (quota_start 5)
        [QStart 1 3, QStart 2 3, QExchange 1 False, QExchange 2 False, QExchange 2 False] = Some s
     \<and> unat (q_used (qs_quota s)) = lease_total (qs_leases s) \<and> lease_total (qs_leases s) \<le> 5"
proof -
  let ?es = "[QStart 1 3, QStart 2 3, QExchange 1 False, QExchange 2 False, QExchange 2 False]"
  obtain s where s: "quota_run (quota_start 5) ?es = Some s"
    by (simp add: quota_start_def quota_new_def quota_update_def checked_add_def Let_def)
  from quota_never_overcommits [OF s] s show ?thesis by auto
qed

text \<open>An input lease takes one slot and its bytes or nothing, and dropping it restores both.\<close>

lemma input_lease_exact:
  "(case input_lease_acquire bs slots n of
      (Ok k, bs', slots') \<Rightarrow>
        k = n \<and> unat (q_used slots) + 1 \<le> unat (q_limit slots)
        \<and> unat (q_used bs) + unat n \<le> unat (q_limit bs)
        \<and> unat (q_used bs') = unat (q_used bs) + unat n
        \<and> unat (q_used slots') = unat (q_used slots) + 1
        \<and> input_lease_drop k bs' slots' = (bs, slots)
    | (Err e, bs', slots') \<Rightarrow>
        bs' = bs \<and> slots' = slots
        \<and> (unat (q_limit slots) < unat (q_used slots) + 1
           \<or> unat (q_limit bs) < unat (q_used bs) + unat n))"
  by (auto simp: input_lease_acquire_def input_lease_drop_def quota_acquire_eq quota_release_def
      unat_bounded_add unat_bounded_add [where n = 1, simplified] split: sum.splits)

end
