(* ===== verification/Budgets.thy ===== *)
theory Budgets
  imports Quota
begin

text \<open>
  Projection reservations (\<^verbatim>\<open>crates/application/src/projection/budgets.rs\<close>): the
  runtime-wide quotas, the leases that charge one or two of them, the session's own halves
  and the sources that could not be deleted.  A lease of the source points at its quotas;
  here the acquiring functions take the quotas they charge and return them updated, and a
  granted lease is its count.  Dropping is explicit.
\<close>

section \<open>Leases\<close>

definition lease_shared :: "quota \<Rightarrow> usize \<Rightarrow> (projection_error, usize) result \<times> quota" where
  "lease_shared first cnt =
     (case quota_acquire first cnt of
        (False, first) \<Rightarrow> (Err JCapacity, first)
      | (True, first) \<Rightarrow> (Ok cnt, first))"

text \<open>When the second quota refuses, the half-built lease is dropped: it has no second quota
  yet, so only the first is released.\<close>

definition lease_shared_and_local ::
  "quota \<Rightarrow> quota \<Rightarrow> usize \<Rightarrow> (projection_error, usize) result \<times> quota \<times> quota" where
  "lease_shared_and_local first second cnt =
     (case lease_shared first cnt of
        (Err e, first) \<Rightarrow> (Err e, first, second)
      | (Ok n, first) \<Rightarrow>
          (case quota_acquire second cnt of
             (False, second) \<Rightarrow> (Err JCapacity, quota_release first n, second)
           | (True, second) \<Rightarrow> (Ok n, first, second)))"

definition lease_drop :: "usize \<Rightarrow> quota \<Rightarrow> quota" where
  "lease_drop cnt first = quota_release first cnt"

definition lease_drop2 :: "usize \<Rightarrow> quota \<Rightarrow> quota \<Rightarrow> quota \<times> quota" where
  "lease_drop2 cnt first second = (quota_release first cnt, quota_release second cnt)"

definition has_room :: "quota \<Rightarrow> usize \<Rightarrow> bool" where
  "has_room q n \<longleftrightarrow> unat (q_used q) + unat n \<le> unat (q_limit q)"

lemma lease_shared_eq:
  "lease_shared q n = (if has_room q n then (Ok n, q\<lparr>q_used := q_used q + n\<rparr>) else (Err JCapacity, q))"
  by (simp add: lease_shared_def quota_acquire_eq has_room_def)

lemma lease_shared_and_local_eq:
  "lease_shared_and_local g l n =
     (if has_room g n \<and> has_room l n
      then (Ok n, g\<lparr>q_used := q_used g + n\<rparr>, l\<lparr>q_used := q_used l + n\<rparr>)
      else (Err JCapacity, g, l))"
  by (simp add: lease_shared_and_local_def lease_shared_eq quota_acquire_eq has_room_def
      quota_release_def)

section \<open>Runtime-wide budgets\<close>

text \<open>An unreclaimed source keeps its stored-byte lease and its slot lease; the model records
  the bytes.\<close>

record projection_budgets =
  pb_limits :: projection_limits
  pb_journal_bytes :: quota
  pb_journal_slots :: quota
  pb_transfer_observers :: quota
  pb_staging_bytes :: quota
  pb_staging_slots :: quota
  pb_resident :: quota
  pb_checkpoints :: quota
  pb_stored :: quota
  pb_stored_slots :: quota
  pb_unreclaimed :: "usize list"
  pb_views :: quota
  pb_requests :: quota

text \<open>\<open>reserved\<close> is whether the allocator grants the unreclaimed table.\<close>

definition budgets_new :: "bool \<Rightarrow> projection_limits \<Rightarrow> (projection_error, projection_budgets) result" where
  "budgets_new reserved limits =
     bind_result (projection_limits_validate limits) (\<lambda>limits.
       if \<not> reserved then Err JCapacity
       else Ok \<lparr>pb_limits = limits,
           pb_journal_bytes = quota_new (jl_journal_bytes limits),
           pb_journal_slots = quota_new (jl_journal_slots limits),
           pb_transfer_observers = quota_new (jl_transfer_observers limits),
           pb_staging_bytes = quota_new (jl_staging_bytes limits),
           pb_staging_slots = quota_new (jl_staging_slots limits),
           pb_resident = quota_new (jl_resident_bytes limits),
           pb_checkpoints = quota_new (jl_checkpoint_bytes limits),
           pb_stored = quota_new (jl_stored_bytes limits),
           pb_stored_slots = quota_new (jl_stored_slots limits),
           pb_unreclaimed = [],
           pb_views = quota_new (jl_view_bytes limits),
           pb_requests = quota_new (jl_request_slots limits)\<rparr>)"

record projection_resources =
  pr_journal_bytes :: budget_usage
  pr_journal_slots :: budget_usage
  pr_transfer_observers :: budget_usage
  pr_staging_bytes :: budget_usage
  pr_staging_slots :: budget_usage
  pr_native_reservations :: budget_usage
  pr_checkpoint_buffers :: budget_usage
  pr_stored_bytes :: budget_usage
  pr_stored_slots :: budget_usage
  pr_views :: budget_usage
  pr_requests :: budget_usage

definition budgets_resources :: "projection_budgets \<Rightarrow> projection_resources" where
  "budgets_resources b =
     \<lparr>pr_journal_bytes = quota_usage (pb_journal_bytes b),
      pr_journal_slots = quota_usage (pb_journal_slots b),
      pr_transfer_observers = quota_usage (pb_transfer_observers b),
      pr_staging_bytes = quota_usage (pb_staging_bytes b),
      pr_staging_slots = quota_usage (pb_staging_slots b),
      pr_native_reservations = quota_usage (pb_resident b),
      pr_checkpoint_buffers = quota_usage (pb_checkpoints b),
      pr_stored_bytes = quota_usage (pb_stored b),
      pr_stored_slots = quota_usage (pb_stored_slots b),
      pr_views = quota_usage (pb_views b),
      pr_requests = quota_usage (pb_requests b)\<rparr>"

definition record_unreclaimed :: "projection_budgets \<Rightarrow> usize \<Rightarrow> projection_budgets" where
  "record_unreclaimed b source = b\<lparr>pb_unreclaimed := pb_unreclaimed b @ [source]\<rparr>"

definition absorb_unreclaimed :: "projection_budgets \<Rightarrow> usize list \<Rightarrow> projection_budgets" where
  "absorb_unreclaimed b sources = b\<lparr>pb_unreclaimed := pb_unreclaimed b @ sources\<rparr>"

definition unreclaimed_sources :: "projection_budgets \<Rightarrow> nat" where
  "unreclaimed_sources b = length (pb_unreclaimed b)"

definition unreclaimed_reserved_bytes :: "projection_budgets \<Rightarrow> usize" where
  "unreclaimed_reserved_bytes b = sum_list (pb_unreclaimed b)"

section \<open>Compound leases\<close>

definition io_memory_acquire ::
  "projection_budgets \<Rightarrow> usize \<Rightarrow> usize \<Rightarrow> (projection_error, usize \<times> usize) result \<times> projection_budgets"
where
  "io_memory_acquire b plain protected =
     (case lease_shared (pb_checkpoints b) plain of
        (Err e, q) \<Rightarrow> (Err e, b\<lparr>pb_checkpoints := q\<rparr>)
      | (Ok p, q) \<Rightarrow>
          (case lease_shared q protected of
             (Err e, q) \<Rightarrow> (Err e, b\<lparr>pb_checkpoints := lease_drop p q\<rparr>)
           | (Ok r, q) \<Rightarrow> (Ok (p, r), b\<lparr>pb_checkpoints := q\<rparr>)))"

definition disk_lease_acquire ::
  "projection_budgets \<Rightarrow> usize \<Rightarrow> (projection_error, usize) result \<times> projection_budgets" where
  "disk_lease_acquire b n =
     (case lease_shared (pb_stored_slots b) 1 of
        (Err e, q) \<Rightarrow> (Err e, b\<lparr>pb_stored_slots := q\<rparr>)
      | (Ok s, q) \<Rightarrow>
          (case lease_shared (pb_stored b) n of
             (Err e, r) \<Rightarrow> (Err e, b\<lparr>pb_stored_slots := lease_drop s q, pb_stored := r\<rparr>)
           | (Ok k, r) \<Rightarrow> (Ok k, b\<lparr>pb_stored_slots := q, pb_stored := r\<rparr>)))"

definition disk_lease_drop :: "usize \<Rightarrow> projection_budgets \<Rightarrow> projection_budgets" where
  "disk_lease_drop n b =
     b\<lparr>pb_stored := lease_drop n (pb_stored b), pb_stored_slots := lease_drop 1 (pb_stored_slots b)\<rparr>"

section \<open>Session halves\<close>

record session_quotas =
  sq_shared :: projection_budgets
  sq_staging_bytes :: quota
  sq_staging_slots :: quota
  sq_requests :: quota

definition session_quotas_new :: "projection_budgets \<Rightarrow> projection_options \<Rightarrow> session_quotas" where
  "session_quotas_new shared options =
     \<lparr>sq_shared = shared, sq_staging_bytes = quota_new (po_staging_bytes options),
      sq_staging_slots = quota_new (po_staging_slots options),
      sq_requests = quota_new (po_request_slots options)\<rparr>"

definition sq_staging_slot :: "session_quotas \<Rightarrow> (projection_error, usize) result \<times> session_quotas" where
  "sq_staging_slot s =
     (case lease_shared_and_local (pb_staging_slots (sq_shared s)) (sq_staging_slots s) 1 of
        (r, g, l) \<Rightarrow> (r, s\<lparr>sq_shared := (sq_shared s)\<lparr>pb_staging_slots := g\<rparr>, sq_staging_slots := l\<rparr>))"

definition sq_staging_bytes_lease ::
  "session_quotas \<Rightarrow> usize \<Rightarrow> (projection_error, usize) result \<times> session_quotas" where
  "sq_staging_bytes_lease s n =
     (case lease_shared_and_local (pb_staging_bytes (sq_shared s)) (sq_staging_bytes s) n of
        (r, g, l) \<Rightarrow> (r, s\<lparr>sq_shared := (sq_shared s)\<lparr>pb_staging_bytes := g\<rparr>, sq_staging_bytes := l\<rparr>))"

definition sq_request_slot :: "session_quotas \<Rightarrow> (projection_error, usize) result \<times> session_quotas" where
  "sq_request_slot s =
     (case lease_shared_and_local (pb_requests (sq_shared s)) (sq_requests s) 1 of
        (r, g, l) \<Rightarrow> (r, s\<lparr>sq_shared := (sq_shared s)\<lparr>pb_requests := g\<rparr>, sq_requests := l\<rparr>))"

text \<open>A staging lease drops its byte lease, then its slot lease, each if present; the capacity
  signal that follows is the scheduler's.\<close>

definition staging_lease_drop :: "usize option \<Rightarrow> usize option \<Rightarrow> session_quotas \<Rightarrow> session_quotas" where
  "staging_lease_drop bs slots s =
     (let s = (case bs of None \<Rightarrow> s | Some n \<Rightarrow>
           (case lease_drop2 n (pb_staging_bytes (sq_shared s)) (sq_staging_bytes s) of (g, l) \<Rightarrow>
              s\<lparr>sq_shared := (sq_shared s)\<lparr>pb_staging_bytes := g\<rparr>, sq_staging_bytes := l\<rparr>))
      in case slots of None \<Rightarrow> s | Some n \<Rightarrow>
           (case lease_drop2 n (pb_staging_slots (sq_shared s)) (sq_staging_slots s) of (g, l) \<Rightarrow>
              s\<lparr>sq_shared := (sq_shared s)\<lparr>pb_staging_slots := g\<rparr>, sq_staging_slots := l\<rparr>))"

section \<open>Properties\<close>

text \<open>
  Every compound reservation is atomic: a two-quota lease is granted exactly when both
  halves have room; a refused two-quota, buffer-pair or disk reservation leaves every quota
  as it was; and dropping what was granted restores every quota.
\<close>

theorem compound_leases_atomic:
  "(case lease_shared_and_local g l n of
      (Ok k, g', l') \<Rightarrow> k = n \<and> has_room g n \<and> has_room l n \<and> lease_drop2 k g' l' = (g, l)
    | (Err e, g', l') \<Rightarrow> e = JCapacity \<and> g' = g \<and> l' = l \<and> \<not> (has_room g n \<and> has_room l n))
   \<and> (case io_memory_acquire b x y of
      (Ok (p, r), b') \<Rightarrow> (p, r) = (x, y) \<and>
        b'\<lparr>pb_checkpoints := lease_drop p (lease_drop r (pb_checkpoints b'))\<rparr> = b
    | (Err e, b') \<Rightarrow> e = JCapacity \<and> b' = b)
   \<and> (case disk_lease_acquire b x of
      (Ok k, b') \<Rightarrow> k = x \<and> disk_lease_drop k b' = b
    | (Err e, b') \<Rightarrow> e = JCapacity \<and> b' = b)"
  by (auto simp: lease_shared_and_local_eq io_memory_acquire_def disk_lease_acquire_def
      disk_lease_drop_def lease_shared_eq lease_drop_def lease_drop2_def quota_release_def
      split: sum.splits)

end
