(* ===== verification/Session_Context.thy ===== *)
theory Session_Context
  imports Quota
begin

text \<open>
  One session's application state and its observers
  (\<^verbatim>\<open>crates/application/src/runtime/context.rs\<close>, \<^verbatim>\<open>attachment.rs\<close> and the waits of
  \<^verbatim>\<open>session.rs\<close>).  Every method runs under the session's state mutex, so each is one
  function on the context.  The quotas are shared by all sessions: the functions take their
  current value from the context and return it updated.

  Allocation is a parameter: \<open>alloc n\<close> is the capacity after the collection is asked for
  room for \<open>n\<close> bytes in all, or \<open>None\<close> when the allocator refuses.  The answer of the
  projection's staging is a parameter too; a raw session has none.  A waker is its identity.
  The process collaborator is kept as whether it is bound; its answers are arguments.
\<close>

section \<open>State\<close>

datatype output_acceptance = OutAccepted | OutBackpressure | OutClosed

record context_state =
  cx_replay :: replay_buffer
  cx_capacity :: nat
  cx_status :: session_status
  cx_watchers :: "(u64, waker option) btree_map"
  cx_next_watcher :: u64
  cx_metric_active :: bool

record session_context =
  sx_lifetime :: session_lifetime
  sx_options :: session_options
  sx_state :: context_state
  sx_observers :: quota
  sx_replay_quota :: quota
  sx_page_bytes :: nat
  sx_input_bytes :: quota
  sx_input_slots :: quota
  sx_process :: bool
  sx_diagnostics :: bool

definition context_new ::
  "session_lifetime \<Rightarrow> session_options \<Rightarrow> quota \<Rightarrow> quota \<Rightarrow> nat \<Rightarrow> quota \<Rightarrow> quota \<Rightarrow> session_context" where
  "context_new l options observers replay_quota page_bytes input_bytes input_slots =
     \<lparr>sx_lifetime = l, sx_options = options,
      sx_state = \<lparr>cx_replay = replay_new l (unat (so_replay_bytes options)), cx_capacity = 0,
        cx_status = session_status_default, cx_watchers = [], cx_next_watcher = 0,
        cx_metric_active = False\<rparr>,
      sx_observers = observers, sx_replay_quota = replay_quota, sx_page_bytes = page_bytes,
      sx_input_bytes = input_bytes, sx_input_slots = input_slots,
      sx_process = False, sx_diagnostics = False\<rparr>"

definition context_with_diagnostics :: "session_context \<Rightarrow> bool \<Rightarrow> session_context" where
  "context_with_diagnostics x diagnostics =
     x\<lparr>sx_state := (sx_state x)\<lparr>cx_metric_active := diagnostics\<rparr>, sx_diagnostics := diagnostics\<rparr>"

definition context_completion :: "session_context \<Rightarrow> completion option" where
  "context_completion x = status_completion (cx_status (sx_state x))"

section \<open>Watchers\<close>

definition register_watcher :: "session_context \<Rightarrow> (runtime_error, u64) result \<times> session_context" where
  "register_watcher x =
     (case quota_acquire (sx_observers x) 1 of
        (False, q) \<Rightarrow> (Err RCapacity, x\<lparr>sx_observers := q\<rparr>)
      | (True, q) \<Rightarrow>
          let st = sx_state x; i = cx_next_watcher st in
          if len_u64 (cx_watchers st) \<ge> so_max_observers (sx_options x)
          then (Err RCapacity, x\<lparr>sx_observers := quota_release q 1\<rparr>)
          else (case checked_add i 1 of
                  None \<Rightarrow> (Err RCapacity, x\<lparr>sx_observers := quota_release q 1\<rparr>)
                | Some n \<Rightarrow>
                    (Ok i, x\<lparr>sx_observers := q,
                            sx_state := st\<lparr>cx_next_watcher := n,
                                           cx_watchers := bt_insert i None (cx_watchers st)\<rparr>\<rparr>)))"

definition remove_watcher :: "session_context \<Rightarrow> u64 \<Rightarrow> session_context" where
  "remove_watcher x i =
     (let st = sx_state x in
      if map_of (cx_watchers st) i \<noteq> None
      then x\<lparr>sx_state := st\<lparr>cx_watchers := bt_remove i (cx_watchers st)\<rparr>,
             sx_observers := quota_release (sx_observers x) 1\<rparr>
      else x)"

definition clear_waker :: "session_context \<Rightarrow> u64 \<Rightarrow> session_context" where
  "clear_waker x i =
     (let st = sx_state x in
      x\<lparr>sx_state := st\<lparr>cx_watchers := bt_update i (\<lambda>_. None) (cx_watchers st)\<rparr>\<rparr>)"

definition take_all_wakers :: "context_state \<Rightarrow> waker list \<times> context_state" where
  "take_all_wakers st =
     (List.map_filter snd (cx_watchers st), st\<lparr>cx_watchers := map (\<lambda>(i, w). (i, None)) (cx_watchers st)\<rparr>)"

text \<open>Apply a change under the lock, retire the activity metric once, hand out the wakers.\<close>

definition update_and_notify ::
  "session_context \<Rightarrow> (context_state \<Rightarrow> context_state) \<Rightarrow> waker list \<times> session_context" where
  "update_and_notify x change =
     (let st = change (sx_state x);
          st = (if cx_metric_active st \<and> status_completion (cx_status st) \<noteq> None
                then st\<lparr>cx_metric_active := False\<rparr> else st);
          (ws, st) = take_all_wakers st
      in (ws, x\<lparr>sx_state := st\<rparr>))"

definition change_status :: "(session_status \<Rightarrow> session_status) \<Rightarrow> context_state \<Rightarrow> context_state" where
  "change_status f st = st\<lparr>cx_status := f (cx_status st)\<rparr>"

definition context_exited :: "session_context \<Rightarrow> exit_status \<Rightarrow> waker list \<times> session_context" where
  "context_exited x e =
     update_and_notify x (change_status (\<lambda>s. lifecycle_step s (LExited e)))"

definition context_drained :: "session_context \<Rightarrow> drain_outcome \<Rightarrow> waker list \<times> session_context" where
  "context_drained x e =
     update_and_notify x (change_status (\<lambda>s. lifecycle_step s (LDrained e)))"

definition context_supervision_failed :: "session_context \<Rightarrow> process_error \<Rightarrow> waker list \<times> session_context" where
  "context_supervision_failed x e =
     update_and_notify x (change_status (\<lambda>s. lifecycle_step s (LSupervisionFailed e)))"

section \<open>Output\<close>

definition usize_max :: nat where
  "usize_max = 2 ^ 64 - 1"

definition replay_target :: "nat \<Rightarrow> nat \<Rightarrow> nat \<Rightarrow> nat" where
  "replay_target len n replay_bytes =
     (let needed = min (min (len + n) usize_max) replay_bytes
      in min (min (min (needed + 4095) usize_max div 4096 * 4096) usize_max) replay_bytes)"

definition charge_replay ::
  "session_context \<Rightarrow> nat \<Rightarrow> (nat \<Rightarrow> nat option) \<Rightarrow> session_context" where
  "charge_replay x target alloc =
     (let st = sx_state x; capacity = cx_capacity st in
      if target > capacity then
        (case quota_acquire (sx_replay_quota x) (word_of_nat (target - capacity)) of
           (False, q) \<Rightarrow> x\<lparr>sx_replay_quota := q\<rparr>
         | (True, q) \<Rightarrow>
             (case reserve_capacity (cx_replay st) capacity target (\<lambda>n. alloc (length (rb_bytes (cx_replay st)) + n)) of
                Err _ \<Rightarrow> x\<lparr>sx_replay_quota := quota_release q (word_of_nat (target - capacity))\<rparr>
              | Ok actual \<Rightarrow>
                  if actual = target then x\<lparr>sx_state := st\<lparr>cx_capacity := actual\<rparr>, sx_replay_quota := q\<rparr>
                  else if actual > target then
                    (case quota_acquire q (word_of_nat (actual - target)) of
                       (True, q) \<Rightarrow> x\<lparr>sx_state := st\<lparr>cx_capacity := actual\<rparr>, sx_replay_quota := q\<rparr>
                     | (False, q) \<Rightarrow>
                         x\<lparr>sx_state := st\<lparr>cx_replay := release_storage (cx_replay st), cx_capacity := 0\<rparr>,
                           sx_replay_quota := quota_release q (word_of_nat target)\<rparr>)
                  else x\<lparr>sx_state := st\<lparr>cx_capacity := actual\<rparr>,
                         sx_replay_quota := quota_release q (word_of_nat (target - actual))\<rparr>))
      else x)"

definition output_observed ::
  "session_context \<Rightarrow> bytes \<Rightarrow> output_acceptance option \<Rightarrow> (nat \<Rightarrow> nat option)
    \<Rightarrow> output_acceptance \<times> waker list \<times> session_context" where
  "output_observed x bs staged alloc =
     (if staged \<noteq> None \<and> staged \<noteq> Some OutAccepted then (the staged, [], x)
      else
        let target = replay_target (replay_len (cx_replay (sx_state x))) (length bs)
                       (unat (so_replay_bytes (sx_options x)));
            x = charge_replay x target alloc;
            st = sx_state x
        in case append_with_limit (cx_replay st) bs (cx_capacity st) of
             Err _ \<Rightarrow> (OutClosed, [], x)
           | Ok r \<Rightarrow>
               let (ws, st) = take_all_wakers (st\<lparr>cx_replay := r\<rparr>)
               in (OutAccepted, ws, x\<lparr>sx_state := st\<rparr>))"

definition context_drop :: "session_context \<Rightarrow> quota \<times> quota" where
  "context_drop x =
     (quota_release (sx_replay_quota x) (word_of_nat (cx_capacity (sx_state x))),
      quota_release (sx_observers x) (len_u64 (cx_watchers (sx_state x))))"

section \<open>Observation\<close>

definition context_read ::
  "context_state \<Rightarrow> replay_cursor \<Rightarrow> nat \<Rightarrow> (runtime_error, output_event option) result" where
  "context_read st c page_bytes =
     (case replay_read (cx_replay st) c page_bytes of
        Err _ \<Rightarrow> Err RInvalidCursor
      | Ok Pending \<Rightarrow> Ok (map_option EvComplete (status_completion (cx_status st)))
      | Ok page \<Rightarrow> Ok (Some (EvReplay page)))"

record attachment =
  at_id :: u64
  at_cursor :: replay_cursor

definition attachment_new ::
  "session_context \<Rightarrow> attach_position \<Rightarrow> (runtime_error, attachment) result \<times> session_context" where
  "attachment_new x pos =
     (case register_watcher x of
        (Err e, x) \<Rightarrow> (Err e, x)
      | (Ok i, x) \<Rightarrow>
          let r = cx_replay (sx_state x);
              c = (case pos of AttachOldest \<Rightarrow> replay_floor r | AttachTail \<Rightarrow> replay_end r
                   | AttachCursor c \<Rightarrow> c)
          in case replay_read r c (sx_page_bytes x) of
               Ok _ \<Rightarrow> (Ok \<lparr>at_id = i, at_cursor = c\<rparr>, x)
             | Err _ \<Rightarrow> (Err RInvalidCursor, remove_watcher x i))"

fun attachment_advance :: "attachment \<Rightarrow> output_event \<Rightarrow> attachment" where
  "attachment_advance a (EvReplay (Gap f t)) = a\<lparr>at_cursor := t\<rparr>"
| "attachment_advance a (EvReplay (PageBytes f n bs)) = a\<lparr>at_cursor := n\<rparr>"
| "attachment_advance a _ = a"

definition try_next ::
  "session_context \<Rightarrow> attachment \<Rightarrow> (runtime_error, output_event option) result \<times> attachment" where
  "try_next x a =
     (let result = context_read (sx_state x) (at_cursor a) (sx_page_bytes x)
      in (result, case result of Ok (Some e) \<Rightarrow> attachment_advance a e | _ \<Rightarrow> a))"

datatype 'a poll = Ready 'a | NotReady

definition poll_next ::
  "session_context \<Rightarrow> attachment \<Rightarrow> waker
    \<Rightarrow> (runtime_error, output_event) result poll \<times> attachment \<times> session_context" where
  "poll_next x a w =
     (let st = sx_state x;
          result = context_read st (at_cursor a) (sx_page_bytes x);
          st = st\<lparr>cx_watchers :=
                 bt_update (at_id a) (\<lambda>_. if result = Ok None then Some w else None) (cx_watchers st)\<rparr>;
          x = x\<lparr>sx_state := st\<rparr>
      in case result of
           Ok (Some e) \<Rightarrow> (Ready (Ok e), attachment_advance a e, x)
         | Err e \<Rightarrow> (Ready (Err e), a, x)
         | Ok None \<Rightarrow> (NotReady, a, x))"

definition completion_poll :: "session_context \<Rightarrow> u64 \<Rightarrow> waker \<Rightarrow> completion poll \<times> session_context" where
  "completion_poll x i w =
     (let st = sx_state x; done = status_completion (cx_status st);
          st = st\<lparr>cx_watchers :=
                 bt_update i (\<lambda>_. if done = None then Some w else None) (cx_watchers st)\<rparr>
      in (case done of None \<Rightarrow> NotReady | Some d \<Rightarrow> Ready d, x\<lparr>sx_state := st\<rparr>))"

section \<open>Controls of the session handle\<close>

text \<open>
  A write reserves a slot and its bytes before the process sees it.  The lease moves into the
  process call: a refusal drops it (the documented contract of \<open>write_reserved\<close>), an
  admitted write keeps it until \<open>write_completed\<close>.
\<close>

definition session_write ::
  "session_context \<Rightarrow> bytes \<Rightarrow> (process_error, unit) result \<Rightarrow> (runtime_error, usize) result \<times> session_context" where
  "session_write x bs answer =
     (case input_lease_acquire (sx_input_bytes x) (sx_input_slots x) (len_u64 bs) of
        (Err e, b, s) \<Rightarrow> (Err e, x\<lparr>sx_input_bytes := b, sx_input_slots := s\<rparr>)
      | (Ok lease, b, s) \<Rightarrow>
          let (b', s') = input_lease_drop lease b s in
          if \<not> sx_process x then (Err RClosed, x\<lparr>sx_input_bytes := b', sx_input_slots := s'\<rparr>)
          else case answer of
            Err e \<Rightarrow> (Err (RProcess e), x\<lparr>sx_input_bytes := b', sx_input_slots := s'\<rparr>)
          | Ok _ \<Rightarrow> (Ok lease, x\<lparr>sx_input_bytes := b, sx_input_slots := s\<rparr>))"

definition write_completed :: "session_context \<Rightarrow> usize \<Rightarrow> session_context" where
  "write_completed x lease =
     (let (b, s) = input_lease_drop lease (sx_input_bytes x) (sx_input_slots x)
      in x\<lparr>sx_input_bytes := b, sx_input_slots := s\<rparr>)"

text \<open>Cancellation is recorded first, so that a spawn still in flight sees it.\<close>

definition session_cancel ::
  "session_context \<Rightarrow> (process_error, unit) result \<Rightarrow> (runtime_error, unit) result \<times> session_context" where
  "session_cancel x answer =
     (case admit_cancel (cx_status (sx_state x)) of
        Err e \<Rightarrow> (Err e, x)
      | Ok status \<Rightarrow>
          let x = x\<lparr>sx_state := (sx_state x)\<lparr>cx_status := status\<rparr>\<rparr> in
          if sx_process x then (case answer of Err e \<Rightarrow> Err (RProcess e) | Ok _ \<Rightarrow> Ok (), x)
          else (Ok (), x))"

definition session_resize ::
  "session_context \<Rightarrow> (process_error, unit) result \<Rightarrow> (runtime_error, unit) result" where
  "session_resize x answer =
     (if so_projection (sx_options x) \<noteq> None then Err (RProjection (JTerminal TUnsupported))
      else if \<not> sx_process x then Err RClosed
      else case answer of Err e \<Rightarrow> Err (RProcess e) | Ok _ \<Rightarrow> Ok ())"

section \<open>Accounting\<close>

text \<open>What a growable collection documents: it has at least the room asked for and never
  more than \<open>isize::MAX\<close> bytes.\<close>

definition alloc_ok :: "(nat \<Rightarrow> nat option) \<Rightarrow> bool" where
  "alloc_ok alloc \<longleftrightarrow> (\<forall>n c. alloc n = Some c \<longrightarrow> n \<le> c \<and> c \<le> isize_max)"

definition context_inv :: "session_context \<Rightarrow> bool" where
  "context_inv x \<longleftrightarrow>
     rb_limit (cx_replay (sx_state x)) = unat (so_replay_bytes (sx_options x)) \<and>
     rb_lifetime (cx_replay (sx_state x)) = sx_lifetime x \<and>
     replay_len (cx_replay (sx_state x)) \<le> cx_capacity (sx_state x) \<and>
     cx_capacity (sx_state x) \<le> isize_max \<and>
     cx_capacity (sx_state x) \<le> unat (q_used (sx_replay_quota x)) \<and>
     q_used (sx_replay_quota x) \<le> q_limit (sx_replay_quota x) \<and>
     bt_ok (cx_watchers (sx_state x)) \<and>
     (\<forall>i \<in> fst ` set (cx_watchers (sx_state x)). i < cx_next_watcher (sx_state x)) \<and>
     length (cx_watchers (sx_state x)) \<le> unat (q_used (sx_observers x)) \<and>
     length (cx_watchers (sx_state x)) \<le> unat (so_max_observers (sx_options x))"

lemma isize_word: "n \<le> isize_max \<Longrightarrow> unat (word_of_nat n :: u64) = n"
  by (rule unat_of_nat_u64) (simp add: isize_max_def)

lemma quota_release_used:
  "n \<le> q_used q \<Longrightarrow> unat (q_used (quota_release q n)) = unat (q_used q) - unat n"
  by (simp add: quota_release_def unat_sub_no_underflow)

lemma quota_release_simps [simp]: "q_limit (quota_release q n) = q_limit q"
  by (simp add: quota_release_def)

text \<open>Sessions that share a quota each hold their own part; \<open>charged\<close> says that one step moved
  the counter by exactly the change of this session's part.\<close>

definition charged :: "quota \<Rightarrow> nat \<Rightarrow> quota \<Rightarrow> nat \<Rightarrow> bool" where
  "charged q part q' part' \<longleftrightarrow>
     q_limit q' = q_limit q \<and> q_used q' \<le> q_limit q' \<and>
     unat (q_used q') + part = unat (q_used q) + part'"

lemma charged_refl: "q_used q \<le> q_limit q \<Longrightarrow> charged q n q n"
  by (simp add: charged_def)

lemma charged_acquire:
  assumes "quota_acquire q (word_of_nat n) = (True, q')" "n < 2 ^ 64"
  shows "charged q p q' (p + n)"
  using quota_acquire_True [OF assms(1)] unat_of_nat_u64 [OF assms(2)]
  by (auto simp: charged_def quota_ok_def)

lemma charged_release:
  assumes "n < 2 ^ 64" "n \<le> p" "p \<le> unat (q_used q)" "q_used q \<le> q_limit q"
  shows "charged q p (quota_release q (word_of_nat n)) (p - n)"
proof -
  have "word_of_nat n \<le> q_used q" using assms unat_of_nat_u64 [OF assms(1)] by (simp add: word_le_nat_alt)
  then have "unat (q_used (quota_release q (word_of_nat n))) = unat (q_used q) - n"
    using quota_release_used unat_of_nat_u64 [OF assms(1)] by simp
  then show ?thesis using assms by (simp add: charged_def word_le_nat_alt)
qed

lemma charged_trans:
  "charged q a r b \<Longrightarrow> charged r b t c \<Longrightarrow> charged q a t c"
  by (auto simp: charged_def)

lemma charged_part: "charged q a r b \<Longrightarrow> a \<le> unat (q_used q) \<Longrightarrow> b \<le> unat (q_used r)"
  by (auto simp: charged_def)

lemma charge_replay_exact:
  assumes "context_inv x" "alloc_ok alloc" "target \<le> unat (so_replay_bytes (sx_options x))"
  shows "charged (sx_replay_quota x) (cx_capacity (sx_state x))
      (sx_replay_quota (charge_replay x target alloc)) (cx_capacity (sx_state (charge_replay x target alloc)))
    \<and> cx_replay (sx_state (charge_replay x target alloc)) \<in>
        {cx_replay (sx_state x), release_storage (cx_replay (sx_state x))}
    \<and> replay_len (cx_replay (sx_state (charge_replay x target alloc)))
        \<le> cx_capacity (sx_state (charge_replay x target alloc))
    \<and> cx_capacity (sx_state (charge_replay x target alloc)) \<le> isize_max
    \<and> sx_options (charge_replay x target alloc) = sx_options x
    \<and> sx_lifetime (charge_replay x target alloc) = sx_lifetime x
    \<and> cx_watchers (sx_state (charge_replay x target alloc)) = cx_watchers (sx_state x)
    \<and> cx_next_watcher (sx_state (charge_replay x target alloc)) = cx_next_watcher (sx_state x)
    \<and> cx_status (sx_state (charge_replay x target alloc)) = cx_status (sx_state x)
    \<and> sx_observers (charge_replay x target alloc) = sx_observers x"
proof -
  let ?st = "sx_state x" and ?q = "sx_replay_quota x"
  let ?cap = "cx_capacity ?st" and ?r = "cx_replay ?st"
  have i: "rb_limit ?r = unat (so_replay_bytes (sx_options x))" "replay_len ?r \<le> ?cap" "?cap \<le> isize_max"
    "?cap \<le> unat (q_used ?q)" "q_used ?q \<le> q_limit ?q"
    using assms(1) by (auto simp: context_inv_def)
  have refl: "charged ?q ?cap ?q ?cap" using i(5) by (rule charged_refl)
  have small: "target < 2 ^ 64" using assms(3) unat_u64_less [of "so_replay_bytes (sx_options x)"] by linarith
  show ?thesis
  proof (cases "target > ?cap")
    case False
    then show ?thesis using refl i by (simp add: charge_replay_def Let_def)
  next
    case more: True
    obtain ok q where acq: "quota_acquire ?q (word_of_nat (target - ?cap)) = (ok, q)"
      by (cases "quota_acquire ?q (word_of_nat (target - ?cap))")
    show ?thesis
    proof (cases ok)
      case False
      then have "q = ?q" using acq quota_acquire_False by auto
      then show ?thesis using False acq more refl i by (simp add: charge_replay_def Let_def)
    next
      case True
      have q: "charged ?q ?cap q target"
        using charged_acquire [of ?q "target - ?cap" q ?cap] acq True more small by simp
      have qu: "target \<le> unat (q_used q)" "q_used q \<le> q_limit q"
        using charged_part [OF q i(4)] q by (auto simp: charged_def)
      have room: "reserve_capacity ?r ?cap target (\<lambda>n. alloc (length (rb_bytes ?r) + n)) = ok_or (alloc target) AllocationFailed"
        using more i assms(3) by (simp add: reserve_capacity_def Let_def replay_len_def min_def)
      show ?thesis
      proof (cases "alloc target")
        case None
        have "charged q target (quota_release q (word_of_nat (target - ?cap))) (target - (target - ?cap))"
          using small qu by (intro charged_release) auto
        then have "charged ?q ?cap (quota_release q (word_of_nat (target - ?cap))) ?cap"
          using charged_trans [OF q] more by simp
        then show ?thesis using None True acq more room i by (simp add: charge_replay_def Let_def)
      next
        case (Some actual)
        then have act: "target \<le> actual" "actual \<le> isize_max" using assms(2) by (auto simp: alloc_ok_def)
        then have asmall: "actual < 2 ^ 64" by (simp add: isize_max_def)
        show ?thesis
        proof (cases "actual = target")
          case True
          then show ?thesis
            using Some \<open>ok\<close> acq more room i q act by (simp add: charge_replay_def Let_def)
        next
          case False
          obtain ok2 q2 where acq2: "quota_acquire q (word_of_nat (actual - target)) = (ok2, q2)"
            by (cases "quota_acquire q (word_of_nat (actual - target))")
          show ?thesis
          proof (cases ok2)
            case True
            have "charged q target q2 actual"
              using charged_acquire [of q "actual - target" q2 target] acq2 True act asmall by simp
            from charged_trans [OF q this] show ?thesis
              using True acq2 Some \<open>ok\<close> acq more room i act False by (simp add: charge_replay_def Let_def)
          next
            case no: False
            then have "q2 = q" using acq2 quota_acquire_False by auto
            moreover have "charged q target (quota_release q (word_of_nat target)) 0"
              using charged_release [of target target q] small qu by simp
            ultimately show ?thesis
              using charged_trans [OF q] no acq2 Some \<open>ok\<close> acq more room act False
              by (simp add: charge_replay_def Let_def release_storage_def replay_len_def)
          qed
        qed
      qed
    qed
  qed
qed

lemma replay_target_le: "replay_target len n L \<le> L"
  by (simp add: replay_target_def Let_def)

text \<open>The representation of the produced stream, together with the accounting.\<close>

definition context_repr :: "session_context \<Rightarrow> bytes \<Rightarrow> bool" where
  "context_repr x s \<longleftrightarrow> context_inv x \<and> replay_repr (cx_replay (sx_state x)) s"

lemma output_observed_step:
  assumes "context_repr x s" "alloc_ok alloc" "staged \<in> {None, Some OutAccepted}"
    "length s + length bs < 2 ^ 64" "output_observed x bs staged alloc = (acc, ws, x')"
  shows "acc = OutAccepted \<and> context_repr x' (s @ bs)
    \<and> charged (sx_replay_quota x) (cx_capacity (sx_state x)) (sx_replay_quota x') (cx_capacity (sx_state x'))"
proof -
  have inv: "context_inv x" and rep: "replay_repr (cx_replay (sx_state x)) s"
    using assms(1) by (auto simp: context_repr_def)
  define y where "y = charge_replay x (replay_target (replay_len (cx_replay (sx_state x))) (length bs)
    (unat (so_replay_bytes (sx_options x)))) alloc"
  have y: "charged (sx_replay_quota x) (cx_capacity (sx_state x)) (sx_replay_quota y) (cx_capacity (sx_state y))"
    "cx_replay (sx_state y) \<in> {cx_replay (sx_state x), release_storage (cx_replay (sx_state x))}"
    "replay_len (cx_replay (sx_state y)) \<le> cx_capacity (sx_state y)" "cx_capacity (sx_state y) \<le> isize_max"
    "sx_options y = sx_options x" "sx_lifetime y = sx_lifetime x"
    "cx_watchers (sx_state y) = cx_watchers (sx_state x)"
    "cx_next_watcher (sx_state y) = cx_next_watcher (sx_state x)" "sx_observers y = sx_observers x"
    using charge_replay_exact [OF inv assms(2) replay_target_le] unfolding y_def by blast+
  have ry: "replay_repr (cx_replay (sx_state y)) s"
    using y(2) rep replay_release_repr by auto
  have same: "rb_limit (cx_replay (sx_state y)) = rb_limit (cx_replay (sx_state x))"
    "rb_lifetime (cx_replay (sx_state y)) = rb_lifetime (cx_replay (sx_state x))"
    using y(2) by (auto simp: release_storage_def)
  obtain b where b: "append_with_limit (cx_replay (sx_state y)) bs (cx_capacity (sx_state y)) = Ok b"
    "replay_repr b (s @ bs)" "rb_limit b = rb_limit (cx_replay (sx_state y))"
    "rb_lifetime b = rb_lifetime (cx_replay (sx_state y))"
    "length (rb_bytes b) = min (min (rb_limit (cx_replay (sx_state y))) (cx_capacity (sx_state y)))
       (length (rb_bytes (cx_replay (sx_state y))) + length bs)"
    using replay_append_suffix [OF ry assms(4)] by blast
  have out: "acc = OutAccepted" "x' = y\<lparr>sx_state := (sx_state y)\<lparr>cx_replay := b,
      cx_watchers := map (\<lambda>(i, w). (i, None)) (cx_watchers (sx_state y))\<rparr>\<rparr>"
    using assms(3,5) b(1) unfolding output_observed_def y_def [symmetric]
    by (auto simp: Let_def take_all_wakers_def y_def [symmetric])
  have keys: "fst \<circ> (\<lambda>(i, w). (i, None)) = (fst :: u64 \<times> waker option \<Rightarrow> u64)"
    by (auto simp: fun_eq_iff)
  have "cx_capacity (sx_state x) \<le> unat (q_used (sx_replay_quota x))" using inv by (simp add: context_inv_def)
  from charged_part [OF y(1) this] have "context_inv x'"
    using inv y same b(3-5) unfolding out(2)
    by (auto simp: context_inv_def bt_ok_def keys replay_len_def charged_def)
  then show ?thesis
    using out b(2,3,5) y(1) same inv by (simp add: context_repr_def replay_len_def context_inv_def)
qed

section \<open>Watchers keep the observer quota exact\<close>

lemma bt_fresh_last:
  assumes "\<forall>i \<in> fst ` set m. i < k"
  shows "bt_insert k v m = m @ [(k, v)]"
  using assms by (intro bt_insert_last) auto

lemma bt_ok_distinct: "bt_ok m \<Longrightarrow> distinct (map fst m)"
  by (simp add: bt_ok_def strict_sorted_iff)

lemma bt_remove_length:
  assumes "distinct (map fst m)" "map_of m i \<noteq> None"
  shows "length m = Suc (length (bt_remove i m))"
  using assms
proof (induction m)
  case (Cons e m)
  show ?case
  proof (cases "fst e = i")
    case True
    have "\<forall>e'\<in>set m. fst e' \<noteq> fst e" using Cons.prems(1) by (metis distinct.simps(2) image_eqI list.set_map list.simps(9))
    with True have "\<forall>e'\<in>set m. fst e' \<noteq> i" by simp
    then have "bt_remove i m = m" by (simp add: bt_remove_def)
    then show ?thesis using True by (simp add: bt_remove_def)
  qed (use Cons in \<open>auto simp: bt_remove_def\<close>)
qed simp

definition watcher_part :: "session_context \<Rightarrow> nat" where
  "watcher_part x = length (cx_watchers (sx_state x))"

lemma register_watcher_exact:
  assumes "context_repr x s" "q_used (sx_observers x) \<le> q_limit (sx_observers x)"
    "register_watcher x = (r, x')" "unat (so_max_observers (sx_options x)) \<le> isize_max"
  shows "context_repr x' s \<and> charged (sx_observers x) (watcher_part x) (sx_observers x') (watcher_part x')
    \<and> (case r of Ok i \<Rightarrow> map_of (cx_watchers (sx_state x)) i = None \<and> map_of (cx_watchers (sx_state x')) i = Some None
       | Err e \<Rightarrow> e = RCapacity \<and> x' = x)"
proof -
  let ?st = "sx_state x"
  have inv: "context_inv x" using assms(1) by (simp add: context_repr_def)
  obtain ok q where acq: "quota_acquire (sx_observers x) 1 = (ok, q)" by (cases "quota_acquire (sx_observers x) 1")
  have undo: "ok \<Longrightarrow> quota_release q 1 = sx_observers x" using acq quota_acquire_True(4) by auto
  show ?thesis
  proof (cases "\<exists>i. r = Ok i")
    case False
    then have "x' = x" "\<exists>e. r = Err e \<and> e = RCapacity"
      using assms(3) acq undo quota_acquire_False [of "sx_observers x" 1 q]
      by (auto simp: register_watcher_def Let_def split: bool.splits if_splits option.splits)
    then show ?thesis using assms(1) charged_refl [OF assms(2)] by auto
  next
    case True
    then obtain n where ok: "ok" and n: "checked_add (cx_next_watcher ?st) 1 = Some n"
      and lt: "\<not> len_u64 (cx_watchers ?st) \<ge> so_max_observers (sx_options x)"
      and r: "r = Ok (cx_next_watcher ?st)"
      and x': "x' = x\<lparr>sx_observers := q, sx_state := ?st\<lparr>cx_next_watcher := n,
          cx_watchers := bt_insert (cx_next_watcher ?st) None (cx_watchers ?st)\<rparr>\<rparr>"
      using assms(3) acq
      by (auto simp: register_watcher_def Let_def split: bool.splits if_splits option.splits)
    have below: "\<forall>i \<in> fst ` set (cx_watchers ?st). i < cx_next_watcher ?st" using inv by (simp add: context_inv_def)
    have ins: "bt_insert (cx_next_watcher ?st) None (cx_watchers ?st) = cx_watchers ?st @ [(cx_next_watcher ?st, None)]"
      by (rule bt_fresh_last [OF below])
    have "unat n = unat (cx_next_watcher ?st) + 1" using checked_add_unat [OF n] by simp
    then have nn: "cx_next_watcher ?st < n" by (simp add: word_less_nat_alt)
    have fresh: "map_of (cx_watchers ?st) (cx_next_watcher ?st) = None"
      using below by (force simp: map_of_eq_None_iff)
    have len: "length (cx_watchers ?st) < unat (so_max_observers (sx_options x))"
    proof -
      have "length (cx_watchers ?st) \<le> isize_max" using inv assms(4) by (simp add: context_inv_def)
      then have "unat (len_u64 (cx_watchers ?st)) = length (cx_watchers ?st)" by (simp add: len_u64_def isize_word)
      with lt show ?thesis by (simp add: word_le_nat_alt)
    qed
    have ch: "charged (sx_observers x) (watcher_part x) q (watcher_part x + 1)"
      using charged_acquire [of "sx_observers x" 1 q "watcher_part x"] acq ok by simp
    have ok': "bt_ok (cx_watchers ?st @ [(cx_next_watcher ?st, None)])"
      using inv below bt_insert_ok [of "cx_watchers ?st" "cx_next_watcher ?st" None] ins by (simp add: context_inv_def)
    have "context_repr x' s"
      using assms(1) inv ins ok' len nn below ch
      by (auto simp: x' context_repr_def context_inv_def charged_def watcher_part_def)
    then show ?thesis
      using ch fresh ins by (simp add: x' r watcher_part_def map_add_def)
  qed
qed

lemma remove_watcher_exact:
  assumes "context_repr x s" "q_used (sx_observers x) \<le> q_limit (sx_observers x)"
  shows "context_repr (remove_watcher x i) s
    \<and> charged (sx_observers x) (watcher_part x) (sx_observers (remove_watcher x i)) (watcher_part (remove_watcher x i))
    \<and> map_of (cx_watchers (sx_state (remove_watcher x i))) i = None"
proof (cases "map_of (cx_watchers (sx_state x)) i")
  case None
  then show ?thesis using assms charged_refl by (simp add: remove_watcher_def Let_def)
next
  case (Some w)
  let ?ws = "cx_watchers (sx_state x)"
  have inv: "context_inv x" using assms(1) by (simp add: context_repr_def)
  have len: "length ?ws = Suc (length (bt_remove i ?ws))"
    using inv Some by (intro bt_remove_length) (auto simp: context_inv_def bt_ok_distinct)
  have "charged (sx_observers x) (length ?ws) (quota_release (sx_observers x) 1) (length ?ws - 1)"
    using charged_release [of 1 "length ?ws" "sx_observers x"] inv len assms(2) by (simp add: context_inv_def)
  moreover from this have "length ?ws - 1 \<le> unat (q_used (quota_release (sx_observers x) 1))"
    using charged_part inv by (auto simp: context_inv_def)
  moreover have "context_repr (remove_watcher x i) s"
    using assms(1) inv Some len calculation(2) bt_remove_ok [of ?ws i]
    by (auto simp: remove_watcher_def Let_def context_repr_def context_inv_def bt_remove_def)
  ultimately show ?thesis
    using Some len by (simp add: remove_watcher_def Let_def watcher_part_def bt_remove_get)
qed

section \<open>Draining an attachment\<close>

fun attachment_drain ::
  "session_context \<Rightarrow> nat \<Rightarrow> attachment \<Rightarrow> bytes \<Rightarrow> (bytes \<times> completion option \<times> attachment) option" where
  "attachment_drain x 0 a acc = None"
| "attachment_drain x (Suc fuel) a acc =
     (case try_next x a of
        (Ok (Some (EvReplay (PageBytes f n bs))), a') \<Rightarrow> attachment_drain x fuel a' (acc @ bs)
      | (Ok (Some (EvReplay page)), a') \<Rightarrow> attachment_drain x fuel a' acc
      | (Ok (Some (EvComplete d)), a') \<Rightarrow> Some (acc, Some d, a')
      | (Ok None, a') \<Rightarrow> Some (acc, None, a')
      | (Err e, a') \<Rightarrow> None)"

lemma attachment_drain_follow:
  "attachment_drain x fuel a acc =
     (case follow (\<lambda>c. replay_read (cx_replay (sx_state x)) c (sx_page_bytes x)) fuel (at_cursor a) acc of
        None \<Rightarrow> None
      | Some (bs, c) \<Rightarrow> Some (bs, status_completion (cx_status (sx_state x)), a\<lparr>at_cursor := c\<rparr>))"
proof (induction fuel arbitrary: a acc)
  case (Suc fuel)
  show ?case
  proof (cases "replay_read (cx_replay (sx_state x)) (at_cursor a) (sx_page_bytes x)")
    case (Inr page)
    then show ?thesis
      using Suc.IH
      by (cases page; cases "status_completion (cx_status (sx_state x))")
        (auto simp: try_next_def context_read_def split: option.splits)
  qed (simp add: try_next_def context_read_def)
qed simp

section \<open>Properties\<close>

text \<open>
  C17. A chunk of process output that the projection stages (or a raw session receives) is
  accepted in full exactly once: the session then represents the whole stream with the
  chunk appended, never keeps more than its allocation and its limit, and the shared replay
  quota has moved by exactly the change of this session's allocation, whatever the
  allocator grants or refuses and however full the quota is; a chunk under backpressure or
  after closing changes nothing.
\<close>

theorem session_output_exact:
  assumes "context_repr x s" "alloc_ok alloc" "length s + length bs < 2 ^ 64"
    "output_observed x bs staged alloc = (acc, ws, x')"
  shows "(staged \<in> {None, Some OutAccepted} \<longrightarrow> acc = OutAccepted \<and> context_repr x' (s @ bs)
      \<and> charged (sx_replay_quota x) (cx_capacity (sx_state x)) (sx_replay_quota x') (cx_capacity (sx_state x'))
      \<and> replay_len (cx_replay (sx_state x')) \<le> min (cx_capacity (sx_state x')) (rb_limit (cx_replay (sx_state x'))))
    \<and> (staged \<in> {Some OutBackpressure, Some OutClosed} \<longrightarrow> Some acc = staged \<and> x' = x \<and> ws = [])"
proof (intro conjI impI)
  assume st: "staged \<in> {None, Some OutAccepted}"
  note o = output_observed_step [OF assms(1,2) st assms(3,4)]
  show "acc = OutAccepted" "context_repr x' (s @ bs)"
    "charged (sx_replay_quota x) (cx_capacity (sx_state x)) (sx_replay_quota x') (cx_capacity (sx_state x'))"
    using o by auto
  from o have "context_inv x'" "replay_repr (cx_replay (sx_state x')) (s @ bs)"
    by (auto simp: context_repr_def)
  then show "replay_len (cx_replay (sx_state x'))
      \<le> min (cx_capacity (sx_state x')) (rb_limit (cx_replay (sx_state x')))"
    using replay_reprD(3) [of "cx_replay (sx_state x')" "s @ bs"] by (simp add: context_inv_def replay_len_def)
next
  assume "staged \<in> {Some OutBackpressure, Some OutClosed}"
  then show "Some acc = staged" "x' = x" "ws = []"
    using assms(4) by (auto simp: output_observed_def)
qed

definition sample_context :: session_context where
  "sample_context = context_new (lifetime_new 1 1)
     (session_raw \<lparr>ts_cols = 80, ts_rows = 24\<rparr>) (quota_new 4) (quota_new 10000) 100 (quota_new 64) (quota_new 2)"

lemma sample_context_repr: "context_repr sample_context []"
  using replay_repr_new
  by (simp add: context_repr_def context_inv_def sample_context_def context_new_def session_raw_def
      quota_new_def replay_new_def replay_len_def bt_ok_def isize_max_def)

theorem session_output_exact_witness:
  "\<exists>acc ws x'. output_observed sample_context [1, 2, 3] None (\<lambda>n. if n \<le> isize_max then Some n else None)
       = (acc, ws, x') \<and> acc = OutAccepted \<and> context_repr x' [1, 2, 3]"
proof -
  let ?alloc = "\<lambda>n. if n \<le> isize_max then Some n else None"
  obtain acc ws x' where o: "output_observed sample_context [1, 2, 3] None ?alloc = (acc, ws, x')"
    by (cases "output_observed sample_context [1, 2, 3] None ?alloc")
  have a: "alloc_ok ?alloc" by (auto simp: alloc_ok_def split: if_splits)
  from session_output_exact [OF sample_context_repr a _ o] o show ?thesis by auto
qed

text \<open>
  The observer quota counts exactly the registered observers: registering takes one unit
  and a fresh identity or nothing at all, removing gives the unit back once however often
  it is called, and an attachment refused for its cursor leaves observers and quota as they
  were.
\<close>

theorem observer_quota_exact:
  assumes "context_repr x s" "q_used (sx_observers x) \<le> q_limit (sx_observers x)"
    "unat (so_max_observers (sx_options x)) \<le> isize_max" "attachment_new x pos = (r, x')"
  shows "context_repr x' s
    \<and> charged (sx_observers x) (watcher_part x) (sx_observers x') (watcher_part x')
    \<and> (case r of
         Ok a \<Rightarrow> map_of (cx_watchers (sx_state x)) (at_id a) = None \<and> watcher_part x' = watcher_part x + 1
           \<and> remove_watcher (remove_watcher x' (at_id a)) (at_id a) = remove_watcher x' (at_id a)
           \<and> watcher_part (remove_watcher x' (at_id a)) = watcher_part x
       | Err e \<Rightarrow> watcher_part x' = watcher_part x \<and> sx_observers x' = sx_observers x)"
proof -
  obtain r1 x1 where reg: "register_watcher x = (r1, x1)" by (cases "register_watcher x")
  note e = register_watcher_exact [OF assms(1,2) reg assms(3)]
  show ?thesis
  proof (cases r1)
    case (Inl err)
    then show ?thesis using assms(4) reg e by (auto simp: attachment_new_def)
  next
    case (Inr i)
    have u: "q_used (sx_observers x1) \<le> q_limit (sx_observers x1)" using e by (auto simp: charged_def)
    have rep1: "context_repr x1 s" using e by simp
    note d = remove_watcher_exact [OF rep1 u, of i]
    have q1: "quota_acquire (sx_observers x) 1 = (True, sx_observers x1)"
      and w1: "watcher_part x1 = watcher_part x + 1"
    proof -
      show "quota_acquire (sx_observers x) 1 = (True, sx_observers x1)"
        using reg Inr by (auto simp: register_watcher_def Let_def split: prod.splits bool.splits if_splits option.splits)
      then show "watcher_part x1 = watcher_part x + 1"
        using e quota_acquire_True(2) by (fastforce simp: charged_def)
    qed
    have some: "map_of (cx_watchers (sx_state x1)) i \<noteq> None" using e Inr by simp
    have len: "length (cx_watchers (sx_state x1)) = Suc (length (bt_remove i (cx_watchers (sx_state x1))))"
      using rep1 some by (intro bt_remove_length bt_ok_distinct) (auto simp: context_repr_def context_inv_def)
    have back1: "sx_observers (remove_watcher x1 i) = sx_observers x"
      "watcher_part (remove_watcher x1 i) = watcher_part x"
      using quota_acquire_True(4) [OF q1] some w1 len
      by (auto simp: remove_watcher_def Let_def watcher_part_def)
    have idem: "remove_watcher (remove_watcher x1 i) i = remove_watcher x1 i"
      using d by (simp add: remove_watcher_def [of "remove_watcher x1 i"])
    have ch: "charged (sx_observers x) (watcher_part x) (sx_observers (remove_watcher x1 i)) (watcher_part (remove_watcher x1 i))"
      using back1 charged_refl [OF assms(2)] by simp
    show ?thesis
      using assms(4) reg Inr e d back1 idem w1 ch
      by (auto simp: attachment_new_def Let_def split: sum.splits)
  qed
qed

theorem observer_quota_exact_witness:
  "\<exists>a x'. attachment_new sample_context AttachTail = (Ok a, x') \<and> watcher_part x' = watcher_part sample_context + 1"
proof -
  obtain r x' where n: "attachment_new sample_context AttachTail = (r, x')" by (cases "attachment_new sample_context AttachTail")
  obtain a where r: "r = Ok a"
    using n by (auto simp: attachment_new_def register_watcher_def sample_context_def context_new_def session_raw_def
        quota_new_def quota_acquire_eq len_u64_def checked_add_def replay_read_def replay_end_def replay_new_def
        replay_floor_def Let_def)
  have l: "q_used (sx_observers sample_context) \<le> q_limit (sx_observers sample_context)"
    "unat (so_max_observers (sx_options sample_context)) \<le> isize_max"
    by (simp_all add: sample_context_def context_new_def quota_new_def session_raw_def isize_max_def)
  from observer_quota_exact [OF sample_context_repr l n] n r show ?thesis by auto
qed

text \<open>
  C30. An attachment that keeps asking reads everything and then learns the outcome: from any
  cursor of the stream it receives exactly the retained bytes from there, each once and in
  order, in finitely many reads, and then the completion if process and drain are finished
  and nothing otherwise, with its cursor at the end of the stream.
\<close>

theorem attachment_reads_everything:
  assumes "context_repr x s" "0 < sx_page_bytes x" "rc_lifetime (at_cursor a) = sx_lifetime x"
    "unat (rc_offset (at_cursor a)) \<le> length s" "length s - unat (rc_offset (at_cursor a)) + 1 < fuel"
  shows "attachment_drain x fuel a [] =
    Some (drop (max (unat (rc_offset (at_cursor a))) (length s - replay_len (cx_replay (sx_state x)))) s,
          context_completion x, a\<lparr>at_cursor := cursor_at (sx_lifetime x) (word_of_nat (length s))\<rparr>)"
proof -
  have r: "replay_repr (cx_replay (sx_state x)) s" and l: "rb_lifetime (cx_replay (sx_state x)) = sx_lifetime x"
    using assms(1) by (auto simp: context_repr_def context_inv_def)
  from replay_stream.follow_from_any [OF r assms(2) _ assms(4,5), of "[]"] assms(3) l
  show ?thesis by (simp add: attachment_drain_follow context_completion_def)
qed

theorem attachment_reads_everything_witness:
  "attachment_drain sample_context 3 \<lparr>at_id = 0, at_cursor = cursor_at (lifetime_new 1 1) 0\<rparr> [] =
     Some ([], None, \<lparr>at_id = 0, at_cursor = cursor_at (lifetime_new 1 1) 0\<rparr>)"
  using attachment_reads_everything [OF sample_context_repr, of "\<lparr>at_id = 0, at_cursor = cursor_at (lifetime_new 1 1) 0\<rparr>" 3]
  by (simp add: sample_context_def context_new_def context_completion_def status_completion_def
      session_status_default_def replay_new_def replay_len_def)

text \<open>
  A write is admitted exactly when a slot and all of its bytes fit the shared input
  quotas and the process takes it; every refusal leaves both quotas as they were, and the
  completion of an admitted write gives back exactly what it took.
\<close>

theorem session_write_exact:
  assumes "length bs < 2 ^ 64" "session_write x bs answer = (result, x')"
  shows "((\<exists>lease. result = Ok lease) \<longleftrightarrow>
      unat (q_used (sx_input_slots x)) + 1 \<le> unat (q_limit (sx_input_slots x))
      \<and> unat (q_used (sx_input_bytes x)) + length bs \<le> unat (q_limit (sx_input_bytes x))
      \<and> sx_process x \<and> answer = Ok ())
    \<and> (case result of Err _ \<Rightarrow> x' = x
       | Ok lease \<Rightarrow> write_completed x' lease = x
           \<and> unat (q_used (sx_input_bytes x')) = unat (q_used (sx_input_bytes x)) + length bs
           \<and> unat (q_used (sx_input_slots x')) = unat (q_used (sx_input_slots x)) + 1)"
proof -
  let ?b = "sx_input_bytes x" and ?s = "sx_input_slots x"
  have n: "unat (len_u64 bs) = length bs" using assms(1) by (simp add: len_u64_def unat_of_nat_u64)
  show ?thesis
  proof (cases "input_lease_acquire ?b ?s (len_u64 bs)")
    case (fields r b s)
    note lease = input_lease_exact [of ?b ?s "len_u64 bs", unfolded fields n]
    show ?thesis
    proof (cases r)
      case (Inl e)
      then show ?thesis using lease fields assms(2) by (auto simp: session_write_def)
    next
      case (Inr k)
      then show ?thesis
        using lease fields assms(2)
        by (auto simp: session_write_def write_completed_def split: if_splits sum.splits)
    qed
  qed
qed

theorem session_write_exact_witness:
  "\<exists>x'. session_write (sample_context\<lparr>sx_process := True\<rparr>) [1, 2, 3] (Ok ()) = (Ok 3, x')
     \<and> write_completed x' 3 = sample_context\<lparr>sx_process := True\<rparr>"
proof -
  let ?x = "sample_context\<lparr>sx_process := True\<rparr>"
  obtain x' where s: "session_write ?x [1, 2, 3] (Ok ()) = (Ok 3, x')"
    by (simp add: session_write_def input_lease_acquire_def quota_acquire_eq quota_new_def
        sample_context_def context_new_def len_u64_def input_lease_drop_def Let_def)
  from session_write_exact [OF _ s] s show ?thesis by auto
qed

end
