(* ===== verification/Runtime_Owner.thy ===== *)
theory Runtime_Owner
  imports Session_Context
begin

text \<open>
  The application owner: admission of new sessions
  (\<^verbatim>\<open>crates/application/src/runtime/lifecycle.rs\<close>), the in-memory registry
  (\<^verbatim>\<open>crates/infrastructure/src/registry/mod.rs\<close>) and the spawn, forget and shutdown
  flows (\<^verbatim>\<open>crates/application/src/runtime/owner.rs\<close>).

  A shared context (\<open>Arc<SessionContext>\<close>) is identified by its lifetime, which the gate
  issues once; its lifecycle facts live in the status table of the runtime.  The process
  backend and the projection owner are external: their answers are arguments.  Mutex
  poisoning, which only a panic causes, is not modelled.
\<close>

section \<open>Admission gate\<close>

record admission_gate =
  ag_closing :: bool
  ag_sequence :: u64
  ag_spawns :: usize

definition gate_new :: admission_gate where
  "gate_new = \<lparr>ag_closing = False, ag_sequence = 0, ag_spawns = 0\<rparr>"

definition gate_admit ::
  "admission_gate \<Rightarrow> u64 \<Rightarrow> (runtime_error, session_lifetime \<times> admission_gate) result" where
  "gate_admit g owner =
     (if ag_closing g then Err RClosed
      else bind_result (ok_or (checked_add (ag_sequence g) 1) RCapacity) (\<lambda>sq.
           bind_result (ok_or (checked_add (ag_spawns g) 1) RCapacity) (\<lambda>sp.
             Ok (lifetime_new owner sq, g\<lparr>ag_sequence := sq, ag_spawns := sp\<rparr>))))"

definition gate_begin_shutdown :: "admission_gate \<Rightarrow> admission_gate" where
  "gate_begin_shutdown g = g\<lparr>ag_closing := True\<rparr>"

definition admission_drop :: "admission_gate \<Rightarrow> admission_gate" where
  "admission_drop g = g\<lparr>ag_spawns := ag_spawns g - 1\<rparr>"

text \<open>\<open>wait_for_spawns\<close> returns exactly when its loop condition fails.\<close>

definition spawns_idle :: "admission_gate \<Rightarrow> bool" where
  "spawns_idle g \<longleftrightarrow> ag_spawns g = 0"

section \<open>Registry\<close>

type_synonym registry = "(session_id \<times> session_lifetime) list"

definition registry_register ::
  "registry \<Rightarrow> session_id \<Rightarrow> session_lifetime \<Rightarrow> usize \<Rightarrow> (runtime_error, registry) result" where
  "registry_register entries i ctx capacity =
     (if map_of entries i \<noteq> None then Err RExistingSession
      else if len_u64 entries \<ge> capacity then Err RCapacity
      else Ok ((i, ctx) # entries))"

definition registry_lookup :: "registry \<Rightarrow> session_id \<Rightarrow> (runtime_error, session_lifetime) result" where
  "registry_lookup entries i = ok_or (map_of entries i) RMissingSession"

definition registry_delete :: "registry \<Rightarrow> session_id \<Rightarrow> registry" where
  "registry_delete entries i = filter (\<lambda>e. fst e \<noteq> i) entries"

text \<open>The lock is taken twice: \<open>entries\<close> is the table at the lookup, \<open>entries'\<close> at the removal.\<close>

definition remove_finished ::
  "registry \<Rightarrow> registry \<Rightarrow> (session_lifetime \<Rightarrow> session_status) \<Rightarrow> session_id \<Rightarrow> session_lifetime
    \<Rightarrow> (runtime_error, registry) result" where
  "remove_finished entries entries' status i l =
     bind_result (registry_lookup entries i) (\<lambda>ctx.
       if ctx \<noteq> l then Err RMissingSession
       else if status_completion (status ctx) = None then Err RNotFinished
       else if map_of entries' i = Some l then Ok (registry_delete entries' i)
       else Err RMissingSession)"

definition rollback_spawn :: "registry \<Rightarrow> session_id \<Rightarrow> session_lifetime \<Rightarrow> registry" where
  "rollback_spawn entries i l =
     (if map_of entries i = Some l then registry_delete entries i else entries)"

section \<open>Owner\<close>

record runtime =
  rt_owner :: u64
  rt_options :: runtime_options
  rt_gate :: admission_gate
  rt_projection :: bool
  rt_entries :: registry
  rt_status :: "session_lifetime \<Rightarrow> session_status"

definition runtime_new :: "u64 \<Rightarrow> runtime_options \<Rightarrow> (runtime_error, runtime) result" where
  "runtime_new owner options =
     bind_result (runtime_options_validate options) (\<lambda>_.
       Ok \<lparr>rt_owner = owner, rt_options = options, rt_gate = gate_new, rt_projection = False,
           rt_entries = [], rt_status = (\<lambda>_. session_status_default)\<rparr>)"

definition with_projection :: "runtime \<Rightarrow> (runtime_error, runtime) result" where
  "with_projection r =
     (if rt_projection r then Err (RProjection JInvalidConfiguration)
      else Ok (r\<lparr>rt_projection := True\<rparr>))"

definition set_status ::
  "session_lifetime \<Rightarrow> (session_status \<Rightarrow> session_status) \<Rightarrow> runtime \<Rightarrow> runtime" where
  "set_status l f r = r\<lparr>rt_status := (rt_status r)(l := f (rt_status r l))\<rparr>"

definition record_drain_if :: "drain_outcome \<Rightarrow> session_status \<Rightarrow> session_status" where
  "record_drain_if d s = (case record_drain s d of Ok s' \<Rightarrow> s' | Err _ \<Rightarrow> s)"

text \<open>
  \<open>create\<close> is the projection owner's answer (consulted for a projected session only) and
  \<open>backend\<close> the process backend's.  The admission is held to the end of the function and
  dropped on every path after it was granted.  While the backend spawns, callbacks may
  already change the registered context (\<open>early\<close>) and another thread may begin shutdown
  (\<open>closing\<close>).  \<open>Ok (l, cancel)\<close> is a running session and whether its cancellation was
  requested at once.
\<close>

definition runtime_spawn ::
  "runtime \<Rightarrow> usize \<Rightarrow> session_id \<Rightarrow> session_options \<Rightarrow> (runtime_error, unit) result
    \<Rightarrow> (process_error, unit) result \<Rightarrow> (session_status \<Rightarrow> session_status) \<Rightarrow> bool
    \<Rightarrow> (runtime_error, session_lifetime \<times> bool) result \<times> runtime" where
  "runtime_spawn r cell_size i options create backend early closing =
     (case session_options_validate cell_size options (rt_options r) of
        Err e \<Rightarrow> (Err e, r)
      | Ok _ \<Rightarrow>
          if so_projection options \<noteq> None \<and> \<not> rt_projection r
          then (Err (RProjection (JTerminal TUnsupported)), r)
          else (case gate_admit (rt_gate r) (rt_owner r) of
             Err e \<Rightarrow> (Err e, r)
           | Ok (l, gate) \<Rightarrow>
               let r = set_status l (\<lambda>_. session_status_default) (r\<lparr>rt_gate := gate\<rparr>);
                   finish = (\<lambda>r. r\<lparr>rt_gate := admission_drop (rt_gate r)\<rparr>)
               in case registry_register (rt_entries r) i l (ru_max_sessions (rt_options r)) of
                    Err e \<Rightarrow> (Err e, finish r)
                  | Ok entries \<Rightarrow>
                      let r = r\<lparr>rt_entries := entries\<rparr> in
                      case (if so_projection options \<noteq> None then create else Ok ()) of
                        Err e \<Rightarrow>
                          (Err e, finish ((set_status l (record_drain_if Eof \<circ> (\<lambda>s. record_admission_failure s e)) r)
                                    \<lparr>rt_entries := rollback_spawn (rt_entries r) i l\<rparr>))
                      | Ok _ \<Rightarrow>
                          let r = set_status l early r;
                              r = (if closing then r\<lparr>rt_gate := gate_begin_shutdown (rt_gate r)\<rparr> else r)
                          in (case backend of
                             Err e \<Rightarrow>
                               (Err (RProcess e),
                                finish ((set_status l (record_drain_if (DrainFailed e) \<circ> (\<lambda>s. record_failure s e)) r)
                                  \<lparr>rt_entries := rollback_spawn (rt_entries r) i l\<rparr>))
                           | Ok _ \<Rightarrow>
                               (Ok (l, ag_closing (rt_gate r) \<or> ss_cancellation_requested (rt_status r l)),
                                finish r))))"

definition runtime_lookup :: "runtime \<Rightarrow> session_id \<Rightarrow> (runtime_error, session_lifetime) result" where
  "runtime_lookup r i = registry_lookup (rt_entries r) i"

text \<open>\<open>closed\<close> is the projection owner's answer when the session has a projection.\<close>

definition runtime_forget ::
  "runtime \<Rightarrow> session_id \<Rightarrow> (runtime_error, unit) result \<Rightarrow> (runtime_error, unit) result \<times> runtime" where
  "runtime_forget r i closed =
     (case registry_lookup (rt_entries r) i of
        Err e \<Rightarrow> (Err e, r)
      | Ok l \<Rightarrow>
          if status_completion (rt_status r l) = None then (Err RNotFinished, r)
          else case closed of
            Err e \<Rightarrow> (Err e, r)
          | Ok _ \<Rightarrow>
              (case remove_finished (rt_entries r) (rt_entries r) (rt_status r) i l of
                 Err e \<Rightarrow> (Err e, r)
               | Ok entries \<Rightarrow> (Ok (), r\<lparr>rt_entries := entries\<rparr>)))"

definition runtime_shutdown :: "runtime \<Rightarrow> runtime" where
  "runtime_shutdown r = r\<lparr>rt_gate := gate_begin_shutdown (rt_gate r)\<rparr>"

section \<open>Lifetimes\<close>

datatype gate_event = GAdmit u64 | GDrop | GShutdown

fun gate_exec :: "admission_gate \<Rightarrow> gate_event \<Rightarrow> session_lifetime list \<times> admission_gate" where
  "gate_exec g (GAdmit owner) = (case gate_admit g owner of Ok (l, g') \<Rightarrow> ([l], g') | Err _ \<Rightarrow> ([], g))"
| "gate_exec g GDrop = ([], admission_drop g)"
| "gate_exec g GShutdown = ([], gate_begin_shutdown g)"

fun gate_run :: "admission_gate \<Rightarrow> gate_event list \<Rightarrow> session_lifetime list \<times> admission_gate" where
  "gate_run g [] = ([], g)"
| "gate_run g (e # es) =
     (let (ls, g1) = gate_exec g e; (ms, g2) = gate_run g1 es in (ls @ ms, g2))"

lemma gate_admit_Ok:
  assumes "gate_admit g owner = Ok (l, g')"
  shows "l = lifetime_new owner (ag_sequence g')" "unat (ag_sequence g') = unat (ag_sequence g) + 1"
    "unat (ag_spawns g') = unat (ag_spawns g) + 1" "\<not> ag_closing g" "ag_closing g' = ag_closing g"
    "admission_drop g' = g\<lparr>ag_sequence := ag_sequence g'\<rparr>"
  using assms
  by (auto simp: gate_admit_def bind_result_Ok_iff admission_drop_def checked_add_eq
      unat_add_no_overflow split: if_splits)

lemma gate_run_fresh:
  "distinct (map lt_sequence (fst (gate_run g es))) \<and>
   (\<forall>l \<in> set (fst (gate_run g es)). ag_sequence g < lt_sequence l)"
proof (induction es arbitrary: g)
  case (Cons e es)
  obtain ls g1 where e: "gate_exec g e = (ls, g1)" by (cases "gate_exec g e")
  have step: "ag_sequence g \<le> ag_sequence g1 \<and> (\<forall>l\<in>set ls. ag_sequence g < lt_sequence l \<and> lt_sequence l \<le> ag_sequence g1)
      \<and> length ls \<le> 1"
  proof (cases e)
    case (GAdmit owner)
    then show ?thesis
      using e gate_admit_Ok by (fastforce simp: lifetime_new_def word_le_nat_alt word_less_nat_alt split: sum.splits)
  qed (use e in \<open>auto simp: admission_drop_def gate_begin_shutdown_def\<close>)
  then have "distinct (map lt_sequence ls)" by (cases ls) auto
  moreover have "\<forall>l\<in>set ls. \<forall>k\<in>set (fst (gate_run g1 es)). lt_sequence l < lt_sequence k"
    using step Cons.IH [of g1] by fastforce
  ultimately show ?case
    using Cons.IH [of g1] step e by (fastforce simp: split_beta Let_def)
qed simp

section \<open>Registry laws\<close>

definition registry_ok :: "usize \<Rightarrow> registry \<Rightarrow> bool" where
  "registry_ok capacity entries \<longleftrightarrow> distinct (map fst entries) \<and> length entries \<le> unat capacity"

lemma map_of_delete: "map_of (registry_delete entries i) = (map_of entries)(i := None)"
  by (induction entries) (auto simp: registry_delete_def)

lemma registry_delete_ok: "registry_ok c entries \<Longrightarrow> registry_ok c (registry_delete entries i)"
proof -
  assume ok: "registry_ok c entries"
  have "distinct (map fst (filter P xs))" if "distinct (map fst xs)" for P and xs :: registry
    using that by (induction xs) auto
  then show ?thesis
    using ok by (auto simp: registry_ok_def registry_delete_def intro: order_trans [OF length_filter_le])
qed

lemma registry_register_Ok:
  assumes "registry_register entries i l c = Ok entries'" "registry_ok c entries"
  shows "registry_ok c entries'" "map_of entries i = None" "map_of entries' = (map_of entries)(i \<mapsto> l)"
    "registry_delete entries' i = entries"
proof -
  have e: "map_of entries i = None" "\<not> len_u64 entries \<ge> c" "entries' = (i, l) # entries"
    using assms(1) by (auto simp: registry_register_def split: if_splits)
  have "length entries < 2 ^ 64" using assms(2) unat_u64_less [of c] by (simp add: registry_ok_def)
  then have "length entries < unat c" using e(2) by (simp add: word_le_nat_alt len_u64_def unat_of_nat_u64)
  then show "registry_ok c entries'"
    using e assms(2) by (auto simp: registry_ok_def map_of_eq_None_iff)
  show "map_of entries i = None" "map_of entries' = (map_of entries)(i \<mapsto> l)" using e by auto
  have "\<forall>e\<in>set entries. fst e \<noteq> i" using e(1) by (force simp: map_of_eq_None_iff)
  then show "registry_delete entries' i = entries" by (simp add: e(3) registry_delete_def)
qed

section \<open>Properties\<close>

text \<open>
  C36. Lifetimes are never reused: whatever admissions, completions and shutdowns happen, all
  lifetimes a gate issues are distinct, and after shutdown begins none is issued.
\<close>

theorem lifetimes_never_reused:
  "distinct (fst (gate_run gate_new (before @ GShutdown # later)))
   \<and> fst (gate_run gate_new (before @ GShutdown # later)) = fst (gate_run gate_new before)"
proof -
  have closed: "fst (gate_run g es) = []" if "ag_closing g" for g es
    using that
  proof (induction es arbitrary: g)
    case (Cons e es)
    then show ?case
      by (cases e) (auto simp: gate_admit_def admission_drop_def gate_begin_shutdown_def split_beta Let_def)
  qed simp
  have "fst (gate_run g (xs @ GShutdown # ys)) = fst (gate_run g xs)" for g xs ys
  proof (induction xs arbitrary: g)
    case Nil
    then show ?case by (simp add: closed gate_begin_shutdown_def split_beta Let_def)
  qed (simp add: split_beta Let_def)
  moreover have "distinct (fst (gate_run gate_new es))" for es
    using gate_run_fresh [of gate_new es] by (metis distinct_map)
  ultimately show ?thesis by blast
qed

text \<open>
  C19. Spawning is all or nothing: a successful spawn adds exactly its fresh identifier with
  the issued lifetime and keeps the registry within its capacity; every refused spawn (bad
  options, closing, duplicate, full, failed projection, failed process) leaves the registry
  as it was; and on every path the admission is given back, so shutdown cannot wait forever
  for it.
\<close>

theorem runtime_spawn_atomic:
  assumes "registry_ok (ru_max_sessions (rt_options r)) (rt_entries r)"
    "runtime_spawn r cell_size i options create backend early closing = (result, r')"
  shows "ag_spawns (rt_gate r') = ag_spawns (rt_gate r)
    \<and> registry_ok (ru_max_sessions (rt_options r')) (rt_entries r')
    \<and> (case result of
         Err e \<Rightarrow> rt_entries r' = rt_entries r
       | Ok (l, cancel) \<Rightarrow> map_of (rt_entries r) i = None \<and> map_of (rt_entries r') = (map_of (rt_entries r))(i \<mapsto> l)
           \<and> lt_sequence l = ag_sequence (rt_gate r')
           \<and> unat (ag_sequence (rt_gate r')) = unat (ag_sequence (rt_gate r)) + 1)"
proof (cases "session_options_validate cell_size options (rt_options r)")
  case (Inl e)
  then show ?thesis using assms by (auto simp: runtime_spawn_def)
next
  case (Inr u)
  show ?thesis
  proof (cases "so_projection options \<noteq> None \<and> \<not> rt_projection r")
    case True
    then show ?thesis using assms Inr by (auto simp: runtime_spawn_def)
  next
    case supported: False
    show ?thesis
    proof (cases "gate_admit (rt_gate r) (rt_owner r)")
      case (Inl e)
      then show ?thesis using assms Inr supported by (auto simp: runtime_spawn_def split: if_splits)
    next
      case adm: (Inr x)
      obtain l g where x: "x = (l, g)" by (cases x)
      note a = gate_admit_Ok [OF adm [unfolded x]]
      have sp: "ag_spawns (admission_drop g) = ag_spawns (rt_gate r)"
        "ag_spawns (admission_drop (gate_begin_shutdown g)) = ag_spawns (rt_gate r)"
        "ag_sequence (admission_drop g) = ag_sequence g"
        "ag_sequence (admission_drop (gate_begin_shutdown g)) = ag_sequence g"
        using a(6) by (auto simp: admission_drop_def gate_begin_shutdown_def dest: arg_cong [where f = ag_spawns])
      have lt: "lt_sequence l = ag_sequence g" using a(1) by (simp add: lifetime_new_def)
      show ?thesis
      proof (cases "registry_register (rt_entries r) i l (ru_max_sessions (rt_options r))")
        case (Inl e)
        then show ?thesis
          using assms Inr supported adm x sp by (auto simp: runtime_spawn_def set_status_def Let_def split: if_splits)
      next
        case reg: (Inr entries)
        note e = registry_register_Ok [OF reg assms(1)]
        have roll: "rollback_spawn entries i l = rt_entries r" using e by (simp add: rollback_spawn_def)
        show ?thesis
          using assms Inr supported adm x sp reg e roll lt a(2)
          by (auto simp: runtime_spawn_def set_status_def Let_def split: if_splits sum.splits)
      qed
    qed
  qed
qed

theorem runtime_spawn_atomic_witness:
  "\<exists>r result r'. runtime_new 7 runtime_options_default = Ok r
     \<and> runtime_spawn r 64 (SessionId [97]) (session_raw \<lparr>ts_cols = 80, ts_rows = 24\<rparr>) (Ok ()) (Err PNotFound) id False = (result, r')
     \<and> rt_entries r' = []"
proof -
  obtain r where r: "runtime_new 7 runtime_options_default = Ok r" "rt_entries r = []"
    by (simp add: runtime_new_def)
  obtain result r' where s: "runtime_spawn r 64 (SessionId [97]) (session_raw \<lparr>ts_cols = 80, ts_rows = 24\<rparr>) (Ok ()) (Err PNotFound) id False = (result, r')"
    by (cases "runtime_spawn r 64 (SessionId [97]) (session_raw \<lparr>ts_cols = 80, ts_rows = 24\<rparr>) (Ok ()) (Err PNotFound) id False")
  have ok: "registry_ok (ru_max_sessions (rt_options r)) (rt_entries r)" using r(2) by (simp add: registry_ok_def)
  have "\<exists>e. result = Err e"
    using s by (auto simp: runtime_spawn_def Let_def split: sum.splits if_splits)
  with runtime_spawn_atomic [OF ok s] r s show ?thesis by auto
qed

text \<open>
  Forgetting only removes what it checked: an entry disappears from the registry only
  when it still belongs to the lifetime that was looked up and found complete, even if the
  identifier was removed and registered again in between, and no other entry changes.
\<close>

theorem remove_finished_exact:
  "(case remove_finished entries entries' status i l of
      Ok entries'' \<Rightarrow> map_of entries' i = Some l \<and> status_completion (status l) \<noteq> None
        \<and> map_of entries'' = (map_of entries')(i := None)
    | Err e \<Rightarrow> e \<in> {RMissingSession, RNotFinished}
        \<and> (e = RNotFinished \<longleftrightarrow> map_of entries i = Some l \<and> status_completion (status l) = None))"
proof (cases "map_of entries i")
  case None
  then show ?thesis by (simp add: remove_finished_def registry_lookup_def)
next
  case (Some k)
  then show ?thesis
    by (cases "map_of entries' i")
      (auto simp: remove_finished_def registry_lookup_def map_of_delete split: if_splits)
qed

end
