(* ===== verification/Projection_Inventory.thy ===== *)
theory Projection_Inventory
  imports Runtime_Owner
begin

text \<open>
  The ownership inventory of projected sessions
  (\<^verbatim>\<open>crates/application/src/runtime/projected.rs\<close>): a fixed vector of slots, one reserved
  before any native allocation, published once the coordinator exists, and given back when
  creation fails.  A coordinator is an identity of type \<open>'m\<close>; its residency, which other
  threads change, is a function from coordinators, and its answers are arguments.
\<close>

datatype 'm slot = Vacant | Reserved | Owned 'm

record 'm inventory =
  iv_open :: bool
  iv_owned :: "'m slot list"

definition inventory_new :: "usize \<Rightarrow> 'm inventory" where
  "inventory_new max_sessions = \<lparr>iv_open = True, iv_owned = replicate (unat max_sessions) Vacant\<rparr>"

fun sweep_slot :: "('m \<Rightarrow> residency) \<Rightarrow> 'm slot \<Rightarrow> 'm slot" where
  "sweep_slot res (Owned m) = (if res m = Closed then Vacant else Owned m)"
| "sweep_slot res s = s"

fun first_vacant :: "'m slot list \<Rightarrow> nat option" where
  "first_vacant [] = None"
| "first_vacant (s # ss) = (if s = Vacant then Some 0 else map_option Suc (first_vacant ss))"

definition inventory_reserve ::
  "('m \<Rightarrow> residency) \<Rightarrow> 'm inventory \<Rightarrow> (runtime_error, nat) result \<times> 'm inventory" where
  "inventory_reserve res v =
     (let owned = map (sweep_slot res) (iv_owned v) in
      case first_vacant owned of
        None \<Rightarrow> (Err RCapacity, v\<lparr>iv_owned := owned\<rparr>)
      | Some i \<Rightarrow> (Ok i, v\<lparr>iv_owned := owned[i := Reserved]\<rparr>))"

definition reservation_publish :: "nat \<Rightarrow> 'm \<Rightarrow> 'm inventory \<Rightarrow> 'm inventory" where
  "reservation_publish i m v = v\<lparr>iv_owned := (iv_owned v)[i := Owned m]\<rparr>"

definition reservation_drop :: "nat \<Rightarrow> 'm inventory \<Rightarrow> 'm inventory" where
  "reservation_drop i v = v\<lparr>iv_owned := (iv_owned v)[i := Vacant]\<rparr>"

text \<open>\<open>made\<close> is what \<open>ProjectionCoordinator::create\<close> answers.\<close>

definition inventory_create ::
  "('m \<Rightarrow> residency) \<Rightarrow> (projection_error, 'm) result \<Rightarrow> 'm inventory
    \<Rightarrow> (runtime_error, 'm) result \<times> 'm inventory" where
  "inventory_create res made v =
     (case inventory_reserve res v of
        (Err e, v) \<Rightarrow> (Err e, v)
      | (Ok i, v) \<Rightarrow>
          if \<not> iv_open v then (Err RClosed, reservation_drop i v)
          else case made of
            Err e \<Rightarrow> (Err (RProjection e), reservation_drop i v)
          | Ok m \<Rightarrow> (Ok m, reservation_publish i m v))"

text \<open>
  Closing one coordinator.  \<open>outcomes n\<close> is the recorded close outcome when it is read for the
  \<open>n\<close>-th time; between two reads the caller waits for a capacity generation, so the loop may
  wait forever and is a function of its fuel.
\<close>

fun close_wait :: "nat \<Rightarrow> nat \<Rightarrow> (nat \<Rightarrow> (projection_error, unit) result option)
    \<Rightarrow> (runtime_error, unit) result option" where
  "close_wait 0 n outcomes = None"
| "close_wait (Suc fuel) n outcomes =
     (case outcomes n of
        Some (Err e) \<Rightarrow> Some (Err (RProjection e))
      | Some (Ok _) \<Rightarrow> Some (Ok ())
      | None \<Rightarrow> close_wait fuel (Suc n) outcomes)"

definition inventory_close ::
  "nat \<Rightarrow> bool \<Rightarrow> (projection_error, unit) result \<Rightarrow> (nat \<Rightarrow> (projection_error, unit) result option)
    \<Rightarrow> (runtime_error, unit) result option" where
  "inventory_close fuel is_open closed outcomes =
     (case outcomes 0 of
        Some (Err e) \<Rightarrow> Some (Err (RProjection e))
      | Some (Ok _) \<Rightarrow> Some (Ok ())
      | None \<Rightarrow>
          if \<not> is_open then Some (Err RClosed)
          else case closed of
            Err e \<Rightarrow> if e = JCapacity then close_wait fuel 1 outcomes else Some (Err (RProjection e))
          | Ok _ \<Rightarrow> close_wait fuel 1 outcomes)"

text \<open>
  Shutdown takes the slots, closes every owned coordinator, takes the services and, once the
  pools have joined, finishes the coordinators that are still not closed.  The result lists
  the coordinators asked to close and those finished by force.
\<close>

fun owned_models :: "'m slot list \<Rightarrow> 'm list" where
  "owned_models [] = []"
| "owned_models (Owned m # ss) = m # owned_models ss"
| "owned_models (_ # ss) = owned_models ss"

definition inventory_shutdown ::
  "('m \<Rightarrow> residency) \<Rightarrow> 'm inventory \<Rightarrow> 'm list \<times> 'm list \<times> 'm inventory" where
  "inventory_shutdown after v =
     (let owned = owned_models (iv_owned v)
      in (owned, if iv_open v then filter (\<lambda>m. after m \<noteq> Closed) owned else [],
          \<lparr>iv_open = False, iv_owned = []\<rparr>))"

section \<open>Laws\<close>

lemma first_vacant_Some: "first_vacant ss = Some i \<Longrightarrow> i < length ss \<and> ss ! i = Vacant"
  by (induction ss arbitrary: i) (auto split: if_splits)

lemma first_vacant_None: "first_vacant ss = None \<longleftrightarrow> Vacant \<notin> set ss"
  by (induction ss) auto

lemma owned_models_fill:
  "i < length ss \<Longrightarrow> ss ! i = Vacant \<Longrightarrow> mset (owned_models (ss[i := Owned m])) = add_mset m (mset (owned_models ss))"
  by (induction ss arbitrary: i rule: owned_models.induct) (auto simp: nth_Cons split: nat.splits)

lemma count_list_update_other:
  "i < length ss \<Longrightarrow> ss ! i \<noteq> x \<Longrightarrow> s \<noteq> x \<Longrightarrow> count_list (ss[i := s]) x = count_list ss x"
  by (induction ss arbitrary: i) (auto simp: nth_Cons split: nat.splits)

lemma count_reserved_sweep: "count_list (map (sweep_slot res) ss) Reserved = count_list ss Reserved"
proof (induction ss)
  case (Cons s ss)
  then show ?case by (cases s) auto
qed simp

lemma owned_models_sweep: "owned_models (map (sweep_slot res) ss) = filter (\<lambda>m. res m \<noteq> Closed) (owned_models ss)"
  by (induction ss rule: owned_models.induct) auto

lemma close_wait_fuel:
  assumes "\<forall>k<d. outcomes (n + k) = None" "outcomes (n + d) = Some r" "d < fuel"
  shows "close_wait fuel n outcomes = Some (case r of Err e \<Rightarrow> Err (RProjection e) | Ok _ \<Rightarrow> Ok ())"
  using assms
proof (induction d arbitrary: n fuel)
  case 0
  then show ?case by (cases fuel) (auto split: sum.splits)
next
  case (Suc d)
  then obtain f where f: "fuel = Suc f" by (cases fuel) auto
  have "outcomes n = None" using Suc.prems(1) by (metis add_0_right zero_less_Suc)
  moreover have "close_wait f (Suc n) outcomes = Some (case r of Err e \<Rightarrow> Err (RProjection e) | Ok _ \<Rightarrow> Ok ())"
  proof (rule Suc.IH)
    show "\<forall>k<d. outcomes (Suc n + k) = None" using Suc.prems(1) by (metis Suc_less_eq add_Suc_shift)
  qed (use Suc.prems f in auto)
  ultimately show ?case by (simp add: f)
qed

text \<open>
  C38. The inventory never loses or leaks a projection: creating one adds exactly the new
  coordinator, a refused creation adds none and leaves no slot reserved, the coordinators
  that stay are those not yet closed, the number of slots never changes, and creation is
  refused for capacity only when every slot is reserved or owned by a coordinator that is
  still open.
\<close>

theorem inventory_create_exact:
  assumes "inventory_create res made v = (result, v')"
  shows "length (iv_owned v') = length (iv_owned v) \<and> iv_open v' = iv_open v
    \<and> count_list (iv_owned v') Reserved = count_list (iv_owned v) Reserved
    \<and> mset (owned_models (iv_owned v')) = filter_mset (\<lambda>m. res m \<noteq> Closed) (mset (owned_models (iv_owned v)))
        + (case result of Ok m \<Rightarrow> {#m#} | Err _ \<Rightarrow> {#})
    \<and> (result = Err RCapacity \<longrightarrow>
        (\<forall>s\<in>set (iv_owned v). s = Reserved \<or> (\<exists>m. s = Owned m \<and> res m \<noteq> Closed)))"
proof -
  let ?ss = "map (sweep_slot res) (iv_owned v)"
  have swept: "mset (owned_models ?ss) = filter_mset (\<lambda>m. res m \<noteq> Closed) (mset (owned_models (iv_owned v)))"
    by (simp add: owned_models_sweep)
  have open_slot: "s = Reserved \<or> (\<exists>m. s = Owned m \<and> res m \<noteq> Closed)"
    if "sweep_slot res s \<noteq> Vacant" for s
    using that by (cases s) (auto split: if_splits)
  show ?thesis
  proof (cases "first_vacant ?ss")
    case None
    then have "\<forall>s\<in>set (iv_owned v). sweep_slot res s \<noteq> Vacant" by (force simp: first_vacant_None)
    then show ?thesis
      using assms None swept open_slot
      by (auto simp: inventory_create_def inventory_reserve_def count_reserved_sweep)
  next
    case (Some i)
    note i = first_vacant_Some [OF Some]
    have same: "?ss[i := Vacant] = ?ss" using i by (metis list_update_id)
    have "v' = v\<lparr>iv_owned := case result of Ok m \<Rightarrow> ?ss[i := Owned m] | Err _ \<Rightarrow> ?ss\<rparr> \<and> result \<noteq> Err RCapacity"
      using assms Some same
      by (auto simp: inventory_create_def inventory_reserve_def reservation_drop_def
          reservation_publish_def Let_def split: if_splits sum.splits)
    then show ?thesis
      using i swept owned_models_fill [of i ?ss] count_list_update_other [of i ?ss Reserved]
      by (auto simp: count_reserved_sweep split: sum.splits)
  qed
qed

theorem inventory_create_exact_witness:
  "\<exists>v'. inventory_create (\<lambda>m. if m = (1::nat) then Closed else Resident) (Ok 7)
         \<lparr>iv_open = True, iv_owned = [Owned 1, Owned 2]\<rparr> = (Ok 7, v')
     \<and> mset (owned_models (iv_owned v')) = {#2, 7#}"
proof -
  let ?res = "\<lambda>m. if m = (1::nat) then Closed else Resident"
  let ?v = "\<lparr>iv_open = True, iv_owned = [Owned 1, Owned 2]\<rparr>"
  obtain v' where v': "inventory_create ?res (Ok 7) ?v = (Ok 7, v')"
    by (simp add: inventory_create_def inventory_reserve_def Let_def)
  from inventory_create_exact [OF v'] v' show ?thesis by auto
qed

text \<open>
  Closing a projection returns as soon as its outcome is recorded: if the outcome appears
  at the \<open>d\<close>-th read after the request was accepted, or refused only for capacity, the call
  returns exactly that outcome, whatever the number of capacity wakeups before it.
\<close>

theorem inventory_close_returns:
  assumes "\<forall>k<d. outcomes (1 + k) = None" "outcomes (1 + d) = Some r" "d < fuel"
    "outcomes 0 = None" "closed \<in> {Ok (), Err JCapacity}"
  shows "inventory_close fuel True closed outcomes = Some (case r of Err e \<Rightarrow> Err (RProjection e) | Ok _ \<Rightarrow> Ok ())"
  using assms close_wait_fuel [of d outcomes 1 r fuel] by (auto simp: inventory_close_def)

theorem inventory_close_returns_witness:
  "inventory_close 5 True (Err JCapacity) (\<lambda>n. if n = 3 then Some (Ok ()) else None) = Some (Ok ())"
  using inventory_close_returns [of 2 "\<lambda>n. if n = 3 then Some (Ok ()) else None" "Ok ()" 5 "Err JCapacity"] by simp

end
