(* ===== verification/Event_Codec.thy ===== *)
theory Event_Codec
  imports Session_Values
begin

text \<open>
  The versioned wire format of published observations
  (\<^verbatim>\<open>crates/infrastructure/src/event_stream/codec.rs\<close>, \<^verbatim>\<open>status.rs\<close> and
  \<^verbatim>\<open>errors.rs\<close>).  The event store's record is external: the fields the decoder looks at
  are a record here, and the store's cursor version is an argument.  The cursor reader
  \<open>Input\<close> is the list of unread bytes, threaded through the reading functions.
\<close>

section \<open>Errors and stable codes\<close>

datatype sink_failure = SinkCapacity | SinkCommitUnknown | SinkIdempotencyConflict | SinkUnavailable | SinkOther

datatype publication_error = PubSource runtime_error | PubCapacity | PubInvalidRecord | PubSink sink_failure

definition process_codes :: "(u16 \<times> process_error) list" where
  "process_codes =
     [(1, PInvalidCommand), (2, POutsideRoots), (3, PCapacity), (4, PClosed), (5, PPermissionDenied),
      (6, PNotFound), (7, PTimeout), (8, PUnsupported), (9, PIo), (10, PInternal)]"

fun process_code :: "process_error \<Rightarrow> u16" where
  "process_code PInvalidCommand = 1" | "process_code POutsideRoots = 2" | "process_code PCapacity = 3"
| "process_code PClosed = 4" | "process_code PPermissionDenied = 5" | "process_code PNotFound = 6"
| "process_code PTimeout = 7" | "process_code PUnsupported = 8" | "process_code PIo = 9"
| "process_code PInternal = 10"

definition process_from :: "u16 \<Rightarrow> (publication_error, process_error) result" where
  "process_from c = ok_or (map_of process_codes c) PubInvalidRecord"

definition terminal_codes :: "(u16 \<times> terminal_error) list" where
  "terminal_codes =
     [(1, TInvalidConfiguration), (2, TBudgetExceeded), (3, TEngineFailure), (4, TCorruptCheckpoint),
      (5, TIncompatibleCheckpoint), (6, TStaleControl), (7, THistoryIncomplete), (8, TUnsupported)]"

fun terminal_code :: "terminal_error \<Rightarrow> u16" where
  "terminal_code TInvalidConfiguration = 1" | "terminal_code TBudgetExceeded = 2"
| "terminal_code TEngineFailure = 3" | "terminal_code TCorruptCheckpoint = 4"
| "terminal_code TIncompatibleCheckpoint = 5" | "terminal_code TStaleControl = 6"
| "terminal_code THistoryIncomplete = 7" | "terminal_code TUnsupported = 8"

definition terminal_from :: "u16 \<Rightarrow> (publication_error, terminal_error) result" where
  "terminal_from c = ok_or (map_of terminal_codes c) PubInvalidRecord"

definition checkpoint_codes :: "(u16 \<times> checkpoint_error) list" where
  "checkpoint_codes =
     [(1, CInvalidConfiguration), (2, CCapacityExceeded), (3, CAlreadyExists), (4, CNotFound),
      (5, CUnavailable), (6, CAuthenticationFailed), (7, CEntropyUnavailable), (8, CCancelled)]"

fun checkpoint_code :: "checkpoint_error \<Rightarrow> u16" where
  "checkpoint_code CInvalidConfiguration = 1" | "checkpoint_code CCapacityExceeded = 2"
| "checkpoint_code CAlreadyExists = 3" | "checkpoint_code CNotFound = 4"
| "checkpoint_code CUnavailable = 5" | "checkpoint_code CAuthenticationFailed = 6"
| "checkpoint_code CEntropyUnavailable = 7" | "checkpoint_code CCancelled = 8"

definition checkpoint_from :: "u16 \<Rightarrow> (publication_error, checkpoint_error) result" where
  "checkpoint_from c = ok_or (map_of checkpoint_codes c) PubInvalidRecord"

fun projection_code :: "projection_error \<Rightarrow> u16" where
  "projection_code JCapacity = 201"
| "projection_code JInvalidConfiguration = 202"
| "projection_code JClosed = 203"
| "projection_code JWorker = 204"
| "projection_code (JTerminal e) = 300 + terminal_code e"
| "projection_code (JStorage e) = 400 + checkpoint_code e"
| "projection_code (JProcess e) = 500 + process_code e"

fun runtime_code :: "runtime_error \<Rightarrow> u16" where
  "runtime_code RExistingSession = 1"
| "runtime_code RMissingSession = 2"
| "runtime_code RCapacity = 3"
| "runtime_code RClosed = 4"
| "runtime_code RNotFinished = 5"
| "runtime_code RInvalidCursor = 6"
| "runtime_code RInternal = 7"
| "runtime_code (RProcess e) = 100 + process_code e"
| "runtime_code (RProjection e) = projection_code e"

definition runtime_from :: "u16 \<Rightarrow> (publication_error, runtime_error) result" where
  "runtime_from c =
     (if c = 1 then Ok RExistingSession else if c = 2 then Ok RMissingSession
      else if c = 3 then Ok RCapacity else if c = 4 then Ok RClosed
      else if c = 5 then Ok RNotFinished else if c = 6 then Ok RInvalidCursor
      else if c = 7 then Ok RInternal
      else if 101 \<le> c \<and> c \<le> 110 then bind_result (process_from (c - 100)) (\<lambda>e. Ok (RProcess e))
      else if c = 201 then Ok (RProjection JCapacity)
      else if c = 202 then Ok (RProjection JInvalidConfiguration)
      else if c = 203 then Ok (RProjection JClosed)
      else if c = 204 then Ok (RProjection JWorker)
      else if 301 \<le> c \<and> c \<le> 308 then bind_result (terminal_from (c - 300)) (\<lambda>e. Ok (RProjection (JTerminal e)))
      else if 401 \<le> c \<and> c \<le> 408 then bind_result (checkpoint_from (c - 400)) (\<lambda>e. Ok (RProjection (JStorage e)))
      else if 501 \<le> c \<and> c \<le> 510 then bind_result (process_from (c - 500)) (\<lambda>e. Ok (RProjection (JProcess e)))
      else Err PubInvalidRecord)"

section \<open>Reading bytes\<close>

type_synonym 'a reading = "(publication_error, 'a \<times> bytes) result"

definition input_take :: "nat \<Rightarrow> bytes \<Rightarrow> bytes reading" where
  "input_take n bs = (if length bs < n then Err PubInvalidRecord else Ok (take n bs, drop n bs))"

definition input_byte :: "bytes \<Rightarrow> u8 reading" where
  "input_byte bs = bind_result (input_take 1 bs) (\<lambda>(v, rest). Ok (v ! 0, rest))"

definition input_u16 :: "bytes \<Rightarrow> u16 reading" where
  "input_u16 bs = bind_result (input_take 2 bs) (\<lambda>(v, rest). Ok (from_le_bytes v, rest))"

definition input_i32 :: "bytes \<Rightarrow> i32 reading" where
  "input_i32 bs = bind_result (input_take 4 bs) (\<lambda>(v, rest). Ok (from_le_bytes v, rest))"

definition input_u64 :: "bytes \<Rightarrow> u64 reading" where
  "input_u64 bs = bind_result (input_take 8 bs) (\<lambda>(v, rest). Ok (from_le_bytes v, rest))"

section \<open>Completion\<close>

fun exit_code :: "exit_status option \<Rightarrow> u8 \<times> i32" where
  "exit_code None = (0, 0)"
| "exit_code (Some (Code n)) = (1, n)"
| "exit_code (Some (Signal n)) = (2, n)"

fun drain_code :: "drain_outcome option \<Rightarrow> u8 \<times> u16" where
  "drain_code None = (0, 0)"
| "drain_code (Some Eof) = (1, 0)"
| "drain_code (Some Truncated) = (2, 0)"
| "drain_code (Some (DrainFailed e)) = (3, process_code e)"

definition optional_code :: "('e \<Rightarrow> u16) \<Rightarrow> 'e option \<Rightarrow> u16" where
  "optional_code code e = (case e of None \<Rightarrow> 0 | Some e \<Rightarrow> code e)"

fun encode_completion :: "completion \<Rightarrow> bytes" where
  "encode_completion (Completion s) =
     (let (et, ec) = exit_code (ss_exit s); (dt, dc) = drain_code (ss_drain s) in
      et # to_le_bytes 4 ec @ dt # to_le_bytes 2 dc
        @ to_le_bytes 2 (optional_code process_code (ss_supervision_error s))
        @ to_le_bytes 2 (optional_code runtime_code (ss_admission_error s))
        @ [if ss_cancellation_requested s then 1 else 0])"

definition decode_exit :: "u8 \<Rightarrow> i32 \<Rightarrow> (publication_error, exit_status option) result" where
  "decode_exit tag code =
     (if tag = 0 \<and> code = 0 then Ok None
      else if tag = 1 then Ok (Some (Code code))
      else if tag = 2 then Ok (Some (Signal code))
      else Err PubInvalidRecord)"

definition decode_drain :: "u8 \<Rightarrow> u16 \<Rightarrow> (publication_error, drain_outcome option) result" where
  "decode_drain tag code =
     (if tag = 0 \<and> code = 0 then Ok None
      else if tag = 1 \<and> code = 0 then Ok (Some Eof)
      else if tag = 2 \<and> code = 0 then Ok (Some Truncated)
      else if tag = 3 then bind_result (process_from code) (\<lambda>e. Ok (Some (DrainFailed e)))
      else Err PubInvalidRecord)"

definition decode_bool :: "u8 \<Rightarrow> (publication_error, bool) result" where
  "decode_bool b = (if b = 0 then Ok False else if b = 1 then Ok True else Err PubInvalidRecord)"

definition decode_code :: "(u16 \<Rightarrow> (publication_error, 'e) result) \<Rightarrow> u16 \<Rightarrow> (publication_error, 'e option) result" where
  "decode_code from c = (if c = 0 then Ok None else bind_result (from c) (\<lambda>e. Ok (Some e)))"

definition decode_completion :: "bytes \<Rightarrow> completion reading" where
  "decode_completion bs =
     bind_result (input_byte bs) (\<lambda>(exit_tag, bs).
     bind_result (input_i32 bs) (\<lambda>(exit_code, bs).
     bind_result (decode_exit exit_tag exit_code) (\<lambda>exit.
     bind_result (input_byte bs) (\<lambda>(drain_tag, bs).
     bind_result (input_u16 bs) (\<lambda>(drain_code, bs).
     bind_result (decode_drain drain_tag drain_code) (\<lambda>drain.
     bind_result (input_u16 bs) (\<lambda>(supervision, bs).
     bind_result (input_u16 bs) (\<lambda>(admission, bs).
     bind_result (input_byte bs) (\<lambda>(flag, bs).
     bind_result (decode_bool flag) (\<lambda>cancellation.
     bind_result (decode_code process_from supervision) (\<lambda>supervision_error.
     bind_result (decode_code runtime_from admission) (\<lambda>admission_error.
     bind_result (ok_or (status_completion
         \<lparr>ss_exit = exit, ss_drain = drain, ss_supervision_error = supervision_error,
          ss_admission_error = admission_error, ss_cancellation_requested = cancellation\<rparr>)
         PubInvalidRecord) (\<lambda>c. Ok (c, bs))))))))))))))"

section \<open>Events\<close>

definition MAGIC :: bytes where "MAGIC = bstr ''PTYR''"
definition SCHEMA :: bytes where "SCHEMA = bstr ''nessalabs.pty-runtime.output''"
definition VERSION :: u32 where "VERSION = 1"
definition MAX_PAGE :: nat where "MAX_PAGE = 65536"
definition MAX_ENCODED :: nat where "MAX_ENCODED = MAX_PAGE + 64"

record stream_record =
  er_schema_id :: bytes
  er_schema_version :: u32
  er_cursor_version :: nat
  er_cursor_offset :: u64
  er_payload :: bytes

record decoded_output =
  do_byte_cursor :: replay_cursor
  do_output :: output_event

definition encode_head :: "u8 \<Rightarrow> replay_cursor \<Rightarrow> replay_cursor \<Rightarrow> bytes" where
  "encode_head tag c n =
     MAGIC @ tag # to_le_bytes 8 (lt_owner (rc_lifetime c)) @ to_le_bytes 8 (lt_sequence (rc_lifetime c))
       @ to_le_bytes 8 (rc_offset c) @ to_le_bytes 8 (rc_offset n)"

text \<open>\<open>alloc\<close> is whether the buffer could be reserved.\<close>

fun encode :: "bool \<Rightarrow> replay_cursor \<Rightarrow> output_event
    \<Rightarrow> (publication_error, bytes \<times> replay_cursor \<times> bool) result" where
  "encode alloc c (EvReplay (PageBytes start n bs)) =
     (if start = c \<and> rc_lifetime n = rc_lifetime c \<and> bs \<noteq> [] \<and> length bs \<le> MAX_PAGE
         \<and> checked_sub (rc_offset n) (rc_offset c) = Some (len_u64 bs)
      then if alloc then Ok (encode_head 1 c n @ bs, n, False) else Err PubCapacity
      else Err PubInvalidRecord)"
| "encode alloc c (EvReplay (Gap start n)) =
     (if start = c \<and> rc_lifetime n = rc_lifetime c \<and> rc_offset n > rc_offset c
      then if alloc then Ok (encode_head 2 c n, n, False) else Err PubCapacity
      else Err PubInvalidRecord)"
| "encode alloc c (EvComplete (Completion s)) =
     (if status_completion s \<noteq> None
      then if alloc then Ok (encode_head 3 c c @ encode_completion (Completion s), c, True) else Err PubCapacity
      else Err PubInvalidRecord)"
| "encode alloc c (EvReplay Pending) = Err PubInvalidRecord"

definition decode_payload :: "bytes \<Rightarrow> (publication_error, decoded_output) result" where
  "decode_payload bs =
     bind_result (input_take 4 bs) (\<lambda>(magic, bs).
     if magic \<noteq> MAGIC then Err PubInvalidRecord else
     bind_result (input_byte bs) (\<lambda>(tag, bs).
     bind_result (input_u64 bs) (\<lambda>(owner, bs).
     bind_result (input_u64 bs) (\<lambda>(sequence, bs).
     bind_result (input_u64 bs) (\<lambda>(c_offset, bs).
     bind_result (input_u64 bs) (\<lambda>(n_offset, bs).
       let l = lifetime_new owner sequence; c = cursor_at l c_offset; n = cursor_at l n_offset in
       bind_result
         (if tag = 1 then
            if bs = [] \<or> length bs > MAX_PAGE \<or> checked_sub n_offset c_offset \<noteq> Some (len_u64 bs)
            then Err PubInvalidRecord
            else bind_result (input_take (length bs) bs) (\<lambda>(page, bs). Ok (EvReplay (PageBytes c n page), bs))
          else if tag = 2 \<and> n_offset > c_offset then Ok (EvReplay (Gap c n), bs)
          else if tag = 3 \<and> n = c then bind_result (decode_completion bs) (\<lambda>(d, bs). Ok (EvComplete d, bs))
          else Err PubInvalidRecord)
         (\<lambda>(event, bs).
            if bs \<noteq> [] then Err PubInvalidRecord
            else Ok \<lparr>do_byte_cursor = n, do_output = event\<rparr>)))))))"

definition decode_record :: "nat \<Rightarrow> stream_record \<Rightarrow> (publication_error, decoded_output) result" where
  "decode_record cursor_version r =
     (if er_schema_id r \<noteq> SCHEMA \<or> er_schema_version r \<noteq> VERSION
         \<or> er_cursor_version r \<noteq> cursor_version \<or> er_cursor_offset r = 0
      then Err PubInvalidRecord
      else if length (er_payload r) > MAX_ENCODED then Err PubInvalidRecord
      else decode_payload (er_payload r))"

section \<open>Laws of the reader\<close>

lemma input_take_append [simp]: "length v = n \<Longrightarrow> input_take n (v @ rest) = Ok (v, rest)"
  by (simp add: input_take_def)

lemma input_byte_Cons [simp]: "input_byte (b # rest) = Ok (b, rest)"
  by (simp add: input_byte_def input_take_def)

lemma input_word [simp]:
  "input_u16 (to_le_bytes 2 (v :: u16) @ rest) = Ok (v, rest)"
  "input_i32 (to_le_bytes 4 (n :: i32) @ rest) = Ok (n, rest)"
  "input_u64 (to_le_bytes 8 (w :: u64) @ rest) = Ok (w, rest)"
  by (simp_all add: input_u16_def input_i32_def input_u64_def from_to_le_bytes)

lemma input_u64_last [simp]: "input_u64 (to_le_bytes 8 (w :: u64)) = Ok (w, [])"
  using input_word(3) [of w "[]"] by simp

lemma input_take_inv: "input_take n bs = Ok (v, rest) \<Longrightarrow> bs = v @ rest \<and> length v = n"
  by (auto simp: input_take_def split: if_splits)

lemma input_byte_inv: "input_byte bs = Ok (b, rest) \<Longrightarrow> bs = b # rest"
  by (cases bs) (auto simp: input_byte_def input_take_def split: if_splits)

lemma input_word_inv:
  "input_u16 bs = Ok (v, rest) \<Longrightarrow> bs = to_le_bytes 2 v @ rest"
  "input_i32 bs = Ok (n, rest) \<Longrightarrow> bs = to_le_bytes 4 n @ rest"
  "input_u64 bs = Ok (w, rest) \<Longrightarrow> bs = to_le_bytes 8 w @ rest"
  by (auto simp: input_u16_def input_i32_def input_u64_def bind_result_Ok_iff to_from_le_bytes
      dest!: input_take_inv)

lemmas input_inv = input_take_inv input_byte_inv input_word_inv

section \<open>Laws of the codes\<close>

lemma process_from_code [simp]: "process_from (process_code e) = Ok e"
  by (cases e) (simp_all add: process_from_def process_codes_def)

lemma terminal_from_code [simp]: "terminal_from (terminal_code e) = Ok e"
  by (cases e) (simp_all add: terminal_from_def terminal_codes_def)

lemma checkpoint_from_code [simp]: "checkpoint_from (checkpoint_code e) = Ok e"
  by (cases e) (simp_all add: checkpoint_from_def checkpoint_codes_def)

lemma process_code_from: "process_from c = Ok e \<Longrightarrow> process_code e = c"
  by (auto simp: process_from_def process_codes_def ok_or_Ok_iff split: if_splits)

lemma terminal_code_from: "terminal_from c = Ok e \<Longrightarrow> terminal_code e = c"
  by (auto simp: terminal_from_def terminal_codes_def ok_or_Ok_iff split: if_splits)

lemma checkpoint_code_from: "checkpoint_from c = Ok e \<Longrightarrow> checkpoint_code e = c"
  by (auto simp: checkpoint_from_def checkpoint_codes_def ok_or_Ok_iff split: if_splits)

lemma process_code_nonzero [simp]: "process_code e \<noteq> 0"
  by (cases e) simp_all

lemma runtime_from_code [simp]: "runtime_from (runtime_code e) = Ok e"
proof (cases e)
  case (RProcess p)
  then show ?thesis by (cases p) (simp_all add: runtime_from_def process_from_def process_codes_def)
next
  case (RProjection j)
  then show ?thesis
  proof (cases j)
    case (JTerminal t)
    with RProjection show ?thesis by (cases t) (simp_all add: runtime_from_def terminal_from_def terminal_codes_def)
  next
    case (JStorage c)
    with RProjection show ?thesis by (cases c) (simp_all add: runtime_from_def checkpoint_from_def checkpoint_codes_def)
  next
    case (JProcess p)
    with RProjection show ?thesis by (cases p) (simp_all add: runtime_from_def process_from_def process_codes_def)
  qed (simp_all add: runtime_from_def)
qed (simp_all add: runtime_from_def)

lemma runtime_code_from: "runtime_from c = Ok e \<Longrightarrow> runtime_code e = c"
  by (auto simp: runtime_from_def bind_result_Ok_iff dest!: process_code_from terminal_code_from
      checkpoint_code_from split: if_splits)

lemma runtime_code_nonzero [simp]: "runtime_code e \<noteq> 0"
proof
  assume "runtime_code e = 0"
  moreover have "runtime_from 0 = Err PubInvalidRecord" by (simp add: runtime_from_def)
  ultimately show False using runtime_from_code [of e] by simp
qed

section \<open>Laws of the completion\<close>

lemma decode_exit_code: "exit_code x = (t, c) \<Longrightarrow> decode_exit t c = Ok x"
  by (cases x rule: exit_code.cases) (auto simp: decode_exit_def)

lemma decode_drain_code: "drain_code x = (t, c) \<Longrightarrow> decode_drain t c = Ok x"
  by (cases x rule: drain_code.cases) (auto simp: decode_drain_def)

lemma exit_code_decode: "decode_exit t c = Ok x \<Longrightarrow> exit_code x = (t, c)"
  by (auto simp: decode_exit_def split: if_splits)

lemma drain_code_decode: "decode_drain t c = Ok x \<Longrightarrow> drain_code x = (t, c)"
  by (auto simp: decode_drain_def bind_result_Ok_iff process_code_from split: if_splits)

lemma decode_optional_code [simp]:
  "decode_code process_from (optional_code process_code e) = Ok e"
  "decode_code runtime_from (optional_code runtime_code f) = Ok f"
  by (cases e; cases f; simp add: decode_code_def optional_code_def)+

lemma optional_code_decode:
  "decode_code process_from c = Ok e \<Longrightarrow> optional_code process_code e = c"
  "decode_code runtime_from c = Ok f \<Longrightarrow> optional_code runtime_code f = c"
  by (auto simp: decode_code_def optional_code_def bind_result_Ok_iff process_code_from runtime_code_from
      split: if_splits)

lemma decode_flag [simp]: "decode_bool (if b then 1 else 0) = Ok b"
  by (simp add: decode_bool_def)

lemma flag_decode: "decode_bool x = Ok b \<Longrightarrow> x = (if b then 1 else 0)"
  by (auto simp: decode_bool_def split: if_splits)

lemma status_completion_Some: "status_completion s = Some c \<Longrightarrow> c = Completion s"
  by (auto simp: status_completion_def split: if_splits)

lemma decode_encode_completion:
  assumes "status_completion s \<noteq> None"
  shows "decode_completion (encode_completion (Completion s) @ rest) = Ok (Completion s, rest)"
proof -
  have c: "status_completion s = Some (Completion s)" using assms status_completion_Some by auto
  obtain et ec where e: "exit_code (ss_exit s) = (et, ec)" by force
  obtain dt dc where d: "drain_code (ss_drain s) = (dt, dc)" by force
  have eta: "\<lparr>ss_exit = ss_exit s, ss_drain = ss_drain s, ss_supervision_error = ss_supervision_error s,
      ss_admission_error = ss_admission_error s, ss_cancellation_requested = ss_cancellation_requested s\<rparr> = s"
    by simp
  show ?thesis
    using c by (simp add: e d decode_exit_code [OF e] decode_drain_code [OF d] decode_completion_def decode_flag eta
        del: session_status.surjective)
qed

lemma encode_decode_completion:
  assumes "decode_completion bs = Ok (c, rest)"
  shows "\<exists>s. c = Completion s \<and> status_completion s \<noteq> None \<and> bs = encode_completion c @ rest"
proof -
  from assms obtain et b1 ec b2 exit dt b3 dc b4 drain sc b5 ac b6 f b7 cancel se ae where
    steps: "input_byte bs = Ok (et, b1)" "input_i32 b1 = Ok (ec, b2)" "decode_exit et ec = Ok exit"
    "input_byte b2 = Ok (dt, b3)" "input_u16 b3 = Ok (dc, b4)" "decode_drain dt dc = Ok drain"
    "input_u16 b4 = Ok (sc, b5)" "input_u16 b5 = Ok (ac, b6)" "input_byte b6 = Ok (f, rest)"
    "decode_bool f = Ok cancel" "decode_code process_from sc = Ok se" "decode_code runtime_from ac = Ok ae"
    "status_completion \<lparr>ss_exit = exit, ss_drain = drain, ss_supervision_error = se,
      ss_admission_error = ae, ss_cancellation_requested = cancel\<rparr> = Some c"
    by (fastforce simp: decode_completion_def bind_result_Ok_iff ok_or_Ok_iff)
  note codes = exit_code_decode [OF steps(3)] drain_code_decode [OF steps(6)]
    optional_code_decode(1) [OF steps(11)] optional_code_decode(2) [OF steps(12)] flag_decode [OF steps(10)]
  note bytes = input_byte_inv [OF steps(1)] input_word_inv(2) [OF steps(2)] input_byte_inv [OF steps(4)]
    input_word_inv(1) [OF steps(5)] input_word_inv(1) [OF steps(7)] input_word_inv(1) [OF steps(8)]
    input_byte_inv [OF steps(9)]
  show ?thesis
    using status_completion_Some [OF steps(13)] steps(13) by (simp add: codes bytes)
qed

section \<open>Properties\<close>

lemma checked_sub_offset:
  "checked_sub n c = Some (len_u64 bs) \<Longrightarrow> length bs < 2 ^ 64 \<Longrightarrow> unat n = unat c + length bs"
  by (auto simp: checked_sub_Some_iff len_u64_def word_le_nat_alt unat_of_nat_u64 unat_sub
      dest!: arg_cong [where f = unat])

lemma length_encode_head [simp]: "length (encode_head t c n) = 37"
  by (simp add: encode_head_def MAGIC_def bstr_def)

lemma MAGIC_length: "length MAGIC = 4"
  by (simp add: MAGIC_def bstr_def)

lemma length_completion: "length (encode_completion (Completion s)) = 13"
  by (simp add: split_beta Let_def)

lemma lifetime_eta [simp]: "lifetime_new (lt_owner l) (lt_sequence l) = l"
  by (simp add: lifetime_new_def)

text \<open>
  C27. Everything the publisher encodes decodes to the same event and position, within the
  decoder's size bound: for every event an observer can encode from its cursor, a record with
  this adapter's schema is accepted and yields exactly that event and the cursor after it.
\<close>

theorem decode_encode_event:
  assumes "encode True c e = Ok (payload, n, complete)" "er_payload r = payload"
    "er_schema_id r = SCHEMA" "er_schema_version r = VERSION" "er_cursor_version r = v" "er_cursor_offset r \<noteq> 0"
  shows "decode_record v r = Ok \<lparr>do_byte_cursor = n, do_output = e\<rparr> \<and> length payload \<le> MAX_ENCODED
    \<and> complete = (\<exists>d. e = EvComplete d)"
proof -
  have p: "length payload \<le> MAX_ENCODED \<and> decode_payload payload = Ok \<lparr>do_byte_cursor = n, do_output = e\<rparr>
      \<and> complete = (\<exists>d. e = EvComplete d)"
    using assms(1)
  proof (cases "(True, c, e)" rule: encode.cases)
    case (1 _ c' start n' bs)
    have "input_take (length bs) bs = Ok (bs, [])" by (simp add: input_take_def)
    with 1 assms(1) show ?thesis
      by (auto simp: decode_payload_def encode_head_def MAGIC_length MAX_ENCODED_def MAX_PAGE_def Let_def
          split: if_splits)
  next
    case (2 _ c' start n')
    with assms(1) show ?thesis
      by (auto simp: decode_payload_def encode_head_def MAGIC_length MAX_ENCODED_def MAX_PAGE_def Let_def
          split: if_splits)
  next
    case (3 _ c' s)
    with assms(1) have s: "status_completion s \<noteq> None" by (auto split: if_splits)
    from decode_encode_completion [OF s, of "[]"] 3 assms(1) length_completion [of s] show ?thesis
      by (auto simp: decode_payload_def encode_head_def MAGIC_length MAX_ENCODED_def MAX_PAGE_def Let_def
          split: if_splits simp del: encode_completion.simps)
  qed simp
  with assms show ?thesis by (simp add: decode_record_def)
qed

definition sample_record :: "bytes \<Rightarrow> stream_record" where
  "sample_record payload =
     \<lparr>er_schema_id = SCHEMA, er_schema_version = VERSION, er_cursor_version = 1, er_cursor_offset = 1,
      er_payload = payload\<rparr>"

theorem decode_encode_event_witness:
  "let c = cursor_at (lifetime_new 91 72) 13; n = cursor_at (lifetime_new 91 72) 15;
       e = EvReplay (PageBytes c n [7, 9])
   in decode_record 1 (sample_record (encode_head 1 c n @ [7, 9])) = Ok \<lparr>do_byte_cursor = n, do_output = e\<rparr>"
proof -
  let ?c = "cursor_at (lifetime_new 91 72) 13" and ?n = "cursor_at (lifetime_new 91 72) 15"
  let ?e = "EvReplay (PageBytes ?c ?n [7, 9])"
  have e: "encode True ?c ?e = Ok (encode_head 1 ?c ?n @ [7, 9], ?n, False)"
    by (simp add: MAX_PAGE_def checked_sub_def len_u64_def)
  have r: "er_payload (sample_record (encode_head 1 ?c ?n @ [7, 9])) = encode_head 1 ?c ?n @ [7, 9]"
    by (simp add: sample_record_def)
  show ?thesis
    using decode_encode_event [OF e r, of 1] by (simp add: sample_record_def Let_def)
qed

lemma decode_payload_inv:
  assumes "decode_payload bs = Ok d"
  obtains tag c n body where "bs = encode_head tag c n @ body" "rc_lifetime n = rc_lifetime c" "do_byte_cursor d = n"
    "(tag = 1 \<and> body \<noteq> [] \<and> length body \<le> MAX_PAGE \<and> checked_sub (rc_offset n) (rc_offset c) = Some (len_u64 body)
        \<and> do_output d = EvReplay (PageBytes c n body))
     \<or> (tag = 2 \<and> body = [] \<and> rc_offset n > rc_offset c \<and> do_output d = EvReplay (Gap c n))
     \<or> (tag = 3 \<and> n = c \<and> (\<exists>e. decode_completion body = Ok (e, []) \<and> do_output d = EvComplete e))"
proof -
  from assms obtain b1 tag b2 owner b3 sq b4 co b5 no body event where
    steps: "input_take 4 bs = Ok (MAGIC, b1)" "input_byte b1 = Ok (tag, b2)" "input_u64 b2 = Ok (owner, b3)"
    "input_u64 b3 = Ok (sq, b4)" "input_u64 b4 = Ok (co, b5)" "input_u64 b5 = Ok (no, body)" and
    last: "(if tag = 1 then
            if body = [] \<or> length body > MAX_PAGE \<or> checked_sub no co \<noteq> Some (len_u64 body)
            then Err PubInvalidRecord
            else bind_result (input_take (length body) body)
              (\<lambda>(page, bs). Ok (EvReplay (PageBytes (cursor_at (lifetime_new owner sq) co) (cursor_at (lifetime_new owner sq) no) page), bs))
          else if tag = 2 \<and> no > co
            then Ok (EvReplay (Gap (cursor_at (lifetime_new owner sq) co) (cursor_at (lifetime_new owner sq) no)), body)
          else if tag = 3 \<and> cursor_at (lifetime_new owner sq) no = cursor_at (lifetime_new owner sq) co
            then bind_result (decode_completion body) (\<lambda>(d, bs). Ok (EvComplete d, bs))
          else Err PubInvalidRecord) = Ok (event, [])"
    and d: "d = \<lparr>do_byte_cursor = cursor_at (lifetime_new owner sq) no, do_output = event\<rparr>"
    by (fastforce simp: decode_payload_def bind_result_Ok_iff Let_def split: if_splits)
  let ?c = "cursor_at (lifetime_new owner sq) co" and ?n = "cursor_at (lifetime_new owner sq) no"
  have head: "bs = encode_head tag ?c ?n @ body"
    using input_take_inv [OF steps(1)] input_byte_inv [OF steps(2)] input_word_inv(3) [OF steps(3)]
      input_word_inv(3) [OF steps(4)] input_word_inv(3) [OF steps(5)] input_word_inv(3) [OF steps(6)]
    by (simp add: encode_head_def lifetime_new_def)
  show thesis
  proof (rule that [OF head])
    show "(tag = 1 \<and> body \<noteq> [] \<and> length body \<le> MAX_PAGE \<and> checked_sub (rc_offset ?n) (rc_offset ?c) = Some (len_u64 body)
        \<and> do_output d = EvReplay (PageBytes ?c ?n body))
     \<or> (tag = 2 \<and> body = [] \<and> rc_offset ?n > rc_offset ?c \<and> do_output d = EvReplay (Gap ?c ?n))
     \<or> (tag = 3 \<and> ?n = ?c \<and> (\<exists>e. decode_completion body = Ok (e, []) \<and> do_output d = EvComplete e))"
      using last d by (auto simp: bind_result_Ok_iff input_take_def split: if_splits)
  qed (simp_all add: d)
qed

text \<open>
  The wire format is canonical: whatever bytes the decoder accepts are exactly the
  encoding of what it returns, so no two payloads denote the same event and no truncated,
  padded or altered payload is accepted for another event.
\<close>

theorem encode_decode_event:
  assumes "decode_record v r = Ok d"
  shows "\<exists>c. encode True c (do_output d) = Ok (er_payload r, do_byte_cursor d, \<exists>e. do_output d = EvComplete e)"
proof -
  have "decode_payload (er_payload r) = Ok d" using assms by (auto simp: decode_record_def split: if_splits)
  then show ?thesis
  proof (rule decode_payload_inv)
    fix tag c n body
    assume p: "er_payload r = encode_head tag c n @ body" "rc_lifetime n = rc_lifetime c" "do_byte_cursor d = n"
      and cases: "(tag = 1 \<and> body \<noteq> [] \<and> length body \<le> MAX_PAGE \<and> checked_sub (rc_offset n) (rc_offset c) = Some (len_u64 body)
        \<and> do_output d = EvReplay (PageBytes c n body))
     \<or> (tag = 2 \<and> body = [] \<and> rc_offset n > rc_offset c \<and> do_output d = EvReplay (Gap c n))
     \<or> (tag = 3 \<and> n = c \<and> (\<exists>e. decode_completion body = Ok (e, []) \<and> do_output d = EvComplete e))"
    from cases show ?thesis
    proof (elim disjE conjE exE)
      fix e assume e: "decode_completion body = Ok (e, [])" "tag = 3" "n = c" "do_output d = EvComplete e"
      obtain s where "e = Completion s" "status_completion s \<noteq> None" "body = encode_completion e"
        using encode_decode_completion [OF e(1)] by auto
      with p e show ?thesis by (intro exI [of _ c]) auto
    qed (use p in \<open>intro exI [of _ c]; auto\<close>)+
  qed
qed

theorem encode_decode_event_witness:
  "\<exists>c. encode True c (EvReplay (Gap (cursor_at (lifetime_new 1 2) 3) (cursor_at (lifetime_new 1 2) 9)))
     = Ok (encode_head 2 (cursor_at (lifetime_new 1 2) 3) (cursor_at (lifetime_new 1 2) 9),
           cursor_at (lifetime_new 1 2) 9, False)"
proof -
  let ?c = "cursor_at (lifetime_new 1 2) 3" and ?n = "cursor_at (lifetime_new 1 2) 9"
  have "decode_record 1 (sample_record (encode_head 2 ?c ?n)) = Ok \<lparr>do_byte_cursor = ?n, do_output = EvReplay (Gap ?c ?n)\<rparr>"
    by (simp add: decode_record_def sample_record_def decode_payload_def encode_head_def MAGIC_length
        MAX_ENCODED_def MAX_PAGE_def lifetime_new_def Let_def)
  from encode_decode_event [OF this] show ?thesis by (simp add: sample_record_def)
qed

end
