(* ===== verification/Publisher.thy ===== *)
theory Publisher
  imports Event_Codec Session_Context
begin

text \<open>
  The caller-driven bridge from one attachment to an external event sink
  (\<^verbatim>\<open>crates/infrastructure/src/event_stream/publisher.rs\<close>).  \<open>publish_next\<close> suspends twice:
  while it waits for the attachment and while it waits for the sink.  What each wait returns
  is an argument, \<open>None\<close> standing for a wait the caller dropped.  The sink and the stream key
  (type \<open>'k\<close>) are external; \<open>id_ok\<close> is the event store's identifier check.
\<close>

section \<open>State\<close>

record new_event =
  ne_id :: bytes
  ne_schema :: "bytes \<times> u32"
  ne_payload :: bytes

record prepared =
  pd_event :: new_event
  pd_after :: replay_cursor
  pd_complete :: bool

datatype pending = PendSource replay_cursor output_event | PendPrepared prepared

record 'k receipt =
  rp_event :: new_event
  rp_stream :: 'k
  rp_version :: nat
  rp_offset :: u64

record publication =
  pu_event_offset :: u64
  pu_byte_cursor :: replay_cursor
  pu_complete :: bool

record 'k publisher =
  pb_attachment :: attachment
  pb_stream :: 'k
  pb_identity :: u64
  pb_sequence :: u64
  pb_acknowledged :: replay_cursor
  pb_last_event_offset :: u64
  pb_pending :: "pending option"
  pb_complete :: bool

definition publisher_new ::
  "attachment \<Rightarrow> 'k \<Rightarrow> (process_error, u64) result \<Rightarrow> (publication_error, 'k publisher) result" where
  "publisher_new a stream identity =
     bind_result (map_err (\<lambda>e. PubSource (RProcess e)) identity) (\<lambda>i.
       Ok \<lparr>pb_attachment = a, pb_stream = stream, pb_identity = i, pb_sequence = 0,
           pb_acknowledged = at_cursor a, pb_last_event_offset = 0, pb_pending = None, pb_complete = False\<rparr>)"

definition pending_event_id :: "'k publisher \<Rightarrow> bytes option" where
  "pending_event_id p = (case pb_pending p of Some (PendPrepared d) \<Rightarrow> Some (ne_id (pd_event d)) | _ \<Rightarrow> None)"

definition event_id :: "session_lifetime \<Rightarrow> u64 \<Rightarrow> u64 \<Rightarrow> bytes" where
  "event_id l identity n =
     bstr ''pty-'' @ hex16 (lt_owner l) @ bstr ''-'' @ hex16 (lt_sequence l) @ bstr ''-''
       @ hex16 identity @ bstr ''-'' @ hex16 n"

text \<open>\<open>prepare\<close> leaves the retained source in place when it fails.\<close>

definition prepare ::
  "(bytes \<Rightarrow> bool) \<Rightarrow> bool \<Rightarrow> 'k publisher \<Rightarrow> (publication_error, 'k publisher) result" where
  "prepare id_ok alloc p =
     (case pb_pending p of
        Some (PendSource c e) \<Rightarrow>
          bind_result (ok_or (checked_add (pb_sequence p) 1) PubCapacity) (\<lambda>n.
          bind_result (encode alloc c e) (\<lambda>(payload, after, complete).
            if \<not> id_ok (event_id (rc_lifetime c) (pb_identity p) n) then Err PubCapacity
            else Ok (p\<lparr>pb_pending := Some (PendPrepared
                        \<lparr>pd_event = \<lparr>ne_id = event_id (rc_lifetime c) (pb_identity p) n,
                                     ne_schema = (SCHEMA, VERSION), ne_payload = payload\<rparr>,
                         pd_after = after, pd_complete = complete\<rparr>),
                       pb_sequence := n\<rparr>)))
      | _ \<Rightarrow> Ok p)"

datatype publish_result = PubFailed publication_error | PubDropped | PubDone | PubAcknowledged publication

text \<open>The part before the sink is asked: at most one event is read and prepared.\<close>

definition publish_read ::
  "'k publisher \<Rightarrow> (runtime_error, output_event) result option \<Rightarrow> publish_result option \<times> 'k publisher" where
  "publish_read p observed =
     (if pb_pending p \<noteq> None then (None, p)
      else if checked_add (pb_sequence p) 1 = None then (Some (PubFailed PubCapacity), p)
      else case observed of
        None \<Rightarrow> (Some PubDropped, p)
      | Some (Err e) \<Rightarrow> (Some (PubFailed (PubSource e)), p)
      | Some (Ok e) \<Rightarrow>
          (None, p\<lparr>pb_pending := Some (PendSource (at_cursor (pb_attachment p)) e),
                   pb_attachment := attachment_advance (pb_attachment p) e\<rparr>))"

definition publish_acknowledge ::
  "nat \<Rightarrow> 'k publisher \<Rightarrow> prepared \<Rightarrow> 'k receipt \<Rightarrow> publish_result \<times> 'k publisher" where
  "publish_acknowledge version p d r =
     (if rp_event r \<noteq> pd_event d \<or> rp_stream r \<noteq> pb_stream p \<or> rp_version r \<noteq> version
         \<or> rp_offset r \<le> pb_last_event_offset p
      then (PubFailed PubInvalidRecord, p)
      else (PubAcknowledged \<lparr>pu_event_offset = rp_offset r, pu_byte_cursor = pd_after d, pu_complete = pd_complete d\<rparr>,
            p\<lparr>pb_last_event_offset := rp_offset r, pb_acknowledged := pd_after d,
              pb_complete := pd_complete d, pb_pending := None\<rparr>))"

text \<open>The third component is what was handed to the sink, if anything.\<close>

definition publish_next ::
  "nat \<Rightarrow> (bytes \<Rightarrow> bool) \<Rightarrow> bool \<Rightarrow> 'k publisher \<Rightarrow> (runtime_error, output_event) result option
    \<Rightarrow> (sink_failure, 'k receipt) result option \<Rightarrow> publish_result \<times> 'k publisher \<times> new_event option" where
  "publish_next version id_ok alloc p observed reply =
     (if pb_complete p then (PubDone, p, None)
      else case publish_read p observed of
        (Some r, p) \<Rightarrow> (r, p, None)
      | (None, p) \<Rightarrow>
          (case prepare id_ok alloc p of
             Err e \<Rightarrow> (PubFailed e, p, None)
           | Ok p \<Rightarrow>
               (case pb_pending p of
                  Some (PendPrepared d) \<Rightarrow>
                    (case reply of
                       None \<Rightarrow> (PubDropped, p, Some (pd_event d))
                     | Some (Err f) \<Rightarrow> (PubFailed (PubSink f), p, Some (pd_event d))
                     | Some (Ok r) \<Rightarrow>
                         (case publish_acknowledge version p d r of (res, p) \<Rightarrow> (res, p, Some (pd_event d))))
                | _ \<Rightarrow> (PubFailed PubInvalidRecord, p, None))))"

section \<open>Histories\<close>

text \<open>What the \<open>i\<close>-th observation (from zero) is published as.\<close>

definition made_event :: "u64 \<Rightarrow> nat \<Rightarrow> replay_cursor \<times> output_event \<Rightarrow> prepared option" where
  "made_event identity i x =
     (case encode True (fst x) (snd x) of
        Err _ \<Rightarrow> None
      | Ok (payload, after, complete) \<Rightarrow>
          Some \<lparr>pd_event = \<lparr>ne_id = event_id (rc_lifetime (fst x)) identity (word_of_nat (i + 1)),
                           ne_schema = (SCHEMA, VERSION), ne_payload = payload\<rparr>,
                pd_after = after, pd_complete = complete\<rparr>)"

definition events_read ::
  "'k publisher \<Rightarrow> (runtime_error, output_event) result option \<Rightarrow> (replay_cursor \<times> output_event) list" where
  "events_read p observed =
     (if pb_complete p \<or> pb_pending p \<noteq> None \<or> checked_add (pb_sequence p) 1 = None then []
      else case observed of Some (Ok e) \<Rightarrow> [(at_cursor (pb_attachment p), e)] | _ \<Rightarrow> [])"

record 'k history =
  hi_read :: "(replay_cursor \<times> output_event) list"
  hi_sent :: "new_event list"
  hi_acknowledged :: "publication list"
  hi_publisher :: "'k publisher"

type_synonym 'k publish_input =
  "(runtime_error, output_event) result option \<times> bool \<times> (sink_failure, 'k receipt) result option"

definition history_step ::
  "nat \<Rightarrow> (bytes \<Rightarrow> bool) \<Rightarrow> 'k history \<Rightarrow> 'k publish_input \<Rightarrow> 'k history" where
  "history_step version id_ok h i =
     (case i of (observed, alloc, reply) \<Rightarrow>
      case publish_next version id_ok alloc (hi_publisher h) observed reply of (res, p, sent) \<Rightarrow>
        h\<lparr>hi_read := hi_read h @ events_read (hi_publisher h) observed,
          hi_sent := hi_sent h @ (case sent of None \<Rightarrow> [] | Some e \<Rightarrow> [e]),
          hi_acknowledged := hi_acknowledged h @ (case res of PubAcknowledged a \<Rightarrow> [a] | _ \<Rightarrow> []),
          hi_publisher := p\<rparr>)"

abbreviation history_run ::
  "nat \<Rightarrow> (bytes \<Rightarrow> bool) \<Rightarrow> 'k publisher \<Rightarrow> 'k publish_input list \<Rightarrow> 'k history" where
  "history_run version id_ok p inputs \<equiv>
     foldl (history_step version id_ok) \<lparr>hi_read = [], hi_sent = [], hi_acknowledged = [], hi_publisher = p\<rparr> inputs"

definition acknowledges :: "publication \<Rightarrow> prepared \<Rightarrow> bool" where
  "acknowledges a d \<longleftrightarrow> pu_byte_cursor a = pd_after d \<and> pu_complete a = pd_complete d"

text \<open>The invariant: acknowledged observations come first and at most one more is pending.\<close>

definition pending_ok :: "u64 \<Rightarrow> nat \<Rightarrow> (replay_cursor \<times> output_event) list \<Rightarrow> pending option \<Rightarrow> bool" where
  "pending_ok identity k rest pend \<longleftrightarrow>
     (case pend of
        None \<Rightarrow> rest = []
      | Some (PendSource c e) \<Rightarrow> rest = [(c, e)]
      | Some (PendPrepared d) \<Rightarrow> \<exists>x. rest = [x] \<and> made_event identity k x = Some d)"

definition is_prepared :: "pending option \<Rightarrow> bool" where
  "is_prepared pend \<longleftrightarrow> (\<exists>d. pend = Some (PendPrepared d))"

definition history_inv :: "u64 \<Rightarrow> replay_cursor \<Rightarrow> 'k history \<Rightarrow> bool" where
  "history_inv identity start h \<longleftrightarrow>
     (let p = hi_publisher h; k = length (hi_acknowledged h); prep = is_prepared (pb_pending p) in
      pb_identity p = identity \<and>
      k \<le> length (hi_read h) \<and> pending_ok identity k (drop k (hi_read h)) (pb_pending p) \<and>
      unat (pb_sequence p) = k + of_bool prep \<and>
      k + of_bool (pb_pending p \<noteq> None) < 2 ^ 64 \<and>
      (\<forall>i<k. \<exists>d. made_event identity i (hi_read h ! i) = Some d \<and> acknowledges (hi_acknowledged h ! i) d) \<and>
      (\<forall>e\<in>set (hi_sent h). \<exists>i d. i < k + of_bool prep \<and> i < length (hi_read h)
          \<and> made_event identity i (hi_read h ! i) = Some d \<and> e = pd_event d) \<and>
      sorted_wrt (<) (map pu_event_offset (hi_acknowledged h)) \<and>
      (\<forall>a\<in>set (hi_acknowledged h). pu_event_offset a \<le> pb_last_event_offset p) \<and>
      pb_acknowledged p = (if hi_acknowledged h = [] then start else pu_byte_cursor (last (hi_acknowledged h))))"

text \<open>The three stages of one call, each on the invariant.\<close>

lemma read_stage:
  assumes "history_inv identity start h" "\<not> pb_complete (hi_publisher h)" "publish_read (hi_publisher h) observed = (r, p)"
  shows "history_inv identity start (h\<lparr>hi_read := hi_read h @ events_read (hi_publisher h) observed, hi_publisher := p\<rparr>)"
proof (cases "events_read (hi_publisher h) observed")
  case Nil
  then have "p = hi_publisher h"
    using assms(2,3) by (auto simp: publish_read_def events_read_def split: if_splits option.splits sum.splits)
  with assms(1) Nil show ?thesis by simp
next
  case (Cons x xs)
  let ?q = "hi_publisher h"
  from Cons obtain e where e: "pb_pending ?q = None" "x = (at_cursor (pb_attachment ?q), e)" "xs = []"
    "checked_add (pb_sequence ?q) 1 \<noteq> None" "observed = Some (Ok e)"
    by (auto simp: events_read_def split: if_splits option.splits sum.splits)
  then have p: "p = ?q\<lparr>pb_pending := Some (PendSource (fst x) e), pb_attachment := attachment_advance (pb_attachment ?q) e\<rparr>"
    using assms(3) by (auto simp: publish_read_def)
  from e(4) have n: "unat (pb_sequence ?q) + 1 < 2 ^ 64" by (auto simp: checked_add_eq split: if_splits)
  show ?thesis
    using assms(1) e n unfolding p Cons
    by (auto simp: history_inv_def Let_def pending_ok_def is_prepared_def nth_append)
      (metis less_le_trans nth_append)+
qed

lemma encode_alloc: "encode alloc c e = Ok x \<Longrightarrow> encode True c e = Ok x"
  by (cases "(alloc, c, e)" rule: encode.cases) (auto split: if_splits)

lemma prepare_stage:
  assumes "history_inv identity start h" "prepare id_ok alloc (hi_publisher h) = Ok p"
  shows "history_inv identity start (h\<lparr>hi_publisher := p\<rparr>)"
proof (cases "\<exists>c e. pb_pending (hi_publisher h) = Some (PendSource c e)")
  case False
  then have "p = hi_publisher h" using assms(2) by (auto simp: prepare_def split: option.splits pending.splits)
  with assms(1) show ?thesis by simp
next
  case True
  let ?q = "hi_publisher h" and ?k = "length (hi_acknowledged h)"
  from True obtain c e where pend: "pb_pending ?q = Some (PendSource c e)" by blast
  with assms(2) obtain n payload after complete where
    n: "checked_add (pb_sequence ?q) 1 = Some n" and enc: "encode alloc c e = Ok (payload, after, complete)" and
    p: "p = ?q\<lparr>pb_pending := Some (PendPrepared
          \<lparr>pd_event = \<lparr>ne_id = event_id (rc_lifetime c) (pb_identity ?q) n, ne_schema = (SCHEMA, VERSION), ne_payload = payload\<rparr>,
           pd_after = after, pd_complete = complete\<rparr>), pb_sequence := n\<rparr>"
    by (auto simp: prepare_def bind_result_Ok_iff ok_or_Ok_iff split: if_splits)
  have k: "unat (pb_sequence ?q) = ?k" and one: "drop ?k (hi_read h) = [(c, e)]" and i: "pb_identity ?q = identity"
    using assms(1) pend by (auto simp: history_inv_def Let_def pending_ok_def is_prepared_def)
  have un: "unat n = ?k + 1" using checked_add_unat [OF n] k by simp
  then have "n = word_of_nat (?k + 1)"
    using unat_u64_less [of n] by (simp add: word_unat_eq_iff unat_of_nat_u64 del: of_nat_add of_nat_Suc)
  then have made: "made_event identity ?k (c, e) = Some
      \<lparr>pd_event = \<lparr>ne_id = event_id (rc_lifetime c) (pb_identity ?q) n, ne_schema = (SCHEMA, VERSION), ne_payload = payload\<rparr>,
       pd_after = after, pd_complete = complete\<rparr>"
    using encode_alloc [OF enc] i by (simp add: made_event_def del: of_nat_add)
  show ?thesis
    using assms(1) pend un one made i unfolding p
    by (auto simp: history_inv_def Let_def pending_ok_def is_prepared_def)
      (metis less_Suc_eq)
qed

lemma drop_single: "drop k xs = [x] \<Longrightarrow> length xs = k + 1 \<and> xs ! k = x"
proof -
  assume d: "drop k xs = [x]"
  have "length xs - k = 1" by (metis d length_drop length_Cons list.size(3) One_nat_def)
  with nth_via_drop [OF d] show ?thesis by simp
qed

lemma acknowledge_stage:
  assumes "history_inv identity start h" "pb_pending (hi_publisher h) = Some (PendPrepared d)"
    "publish_acknowledge version (hi_publisher h) d r = (res, p)"
  shows "history_inv identity start
    (h\<lparr>hi_acknowledged := hi_acknowledged h @ (case res of PubAcknowledged a \<Rightarrow> [a] | _ \<Rightarrow> []), hi_publisher := p\<rparr>)"
proof (cases "\<exists>a. res = PubAcknowledged a")
  case False
  then have "p = hi_publisher h" using assms(3) by (auto simp: publish_acknowledge_def split: if_splits)
  with assms(1) False show ?thesis by (cases res) auto
next
  case True
  let ?q = "hi_publisher h" and ?k = "length (hi_acknowledged h)"
  from True assms(3) have off: "pb_last_event_offset ?q < rp_offset r" and
    res: "res = PubAcknowledged \<lparr>pu_event_offset = rp_offset r, pu_byte_cursor = pd_after d, pu_complete = pd_complete d\<rparr>" and
    p: "p = ?q\<lparr>pb_last_event_offset := rp_offset r, pb_acknowledged := pd_after d, pb_complete := pd_complete d, pb_pending := None\<rparr>"
    by (auto simp: publish_acknowledge_def split: if_splits)
  obtain x where x: "drop ?k (hi_read h) = [x]" "made_event identity ?k x = Some d"
    using assms(1,2) by (auto simp: history_inv_def Let_def pending_ok_def)
  have len: "length (hi_read h) = ?k + 1" and at: "hi_read h ! ?k = x" using drop_single [OF x(1)] by simp_all
  have old: "\<And>i. i < ?k \<Longrightarrow> \<exists>d. made_event identity i (hi_read h ! i) = Some d \<and> acknowledges (hi_acknowledged h ! i) d"
    and offs: "sorted_wrt (<) (map pu_event_offset (hi_acknowledged h))"
      "\<forall>a\<in>set (hi_acknowledged h). pu_event_offset a \<le> pb_last_event_offset ?q"
    and rest: "pb_identity ?q = identity" "unat (pb_sequence ?q) = ?k + 1" "?k + 1 < 2 ^ 64"
      "\<forall>e\<in>set (hi_sent h). \<exists>i d. i < ?k + 1 \<and> i < length (hi_read h) \<and> made_event identity i (hi_read h ! i) = Some d \<and> e = pd_event d"
    using assms(1,2) by (auto simp: history_inv_def Let_def is_prepared_def)
  let ?a = "\<lparr>pu_event_offset = rp_offset r, pu_byte_cursor = pd_after d, pu_complete = pd_complete d\<rparr>"
  have all: "\<exists>d. made_event identity i (hi_read h ! i) = Some d \<and> acknowledges ((hi_acknowledged h @ [?a]) ! i) d"
    if "i < ?k + 1" for i
    using that old [of i] at x(2) by (cases "i = ?k") (auto simp: nth_append acknowledges_def)
  have srt: "sorted_wrt (<) (map pu_event_offset (hi_acknowledged h @ [?a]))"
    "\<forall>a\<in>set (hi_acknowledged h @ [?a]). pu_event_offset a \<le> rp_offset r"
    using offs off by (fastforce simp: sorted_wrt_append)+
  show ?thesis
    using rest len all srt by (simp add: res p history_inv_def Let_def pending_ok_def is_prepared_def)
qed

lemma history_inv_sent:
  assumes "history_inv identity start h" "pb_pending (hi_publisher h) = Some (PendPrepared d)"
  shows "history_inv identity start (h\<lparr>hi_sent := hi_sent h @ [pd_event d]\<rparr>)"
proof -
  let ?k = "length (hi_acknowledged h)"
  obtain x where x: "drop ?k (hi_read h) = [x]" "made_event identity ?k x = Some d"
    using assms by (auto simp: history_inv_def Let_def pending_ok_def)
  from drop_single [OF x(1)] assms x(2) show ?thesis by (auto simp: history_inv_def Let_def is_prepared_def)
qed

lemma history_step_inv:
  assumes "history_inv identity start h"
  shows "history_inv identity start (history_step version id_ok h i)"
proof (cases i)
  case (fields observed alloc reply)
  let ?q = "hi_publisher h"
  obtain r p1 where rd: "publish_read ?q observed = (r, p1)" by force
  let ?h1 = "h\<lparr>hi_read := hi_read h @ events_read ?q observed, hi_publisher := p1\<rparr>"
  show ?thesis
  proof (cases "pb_complete ?q")
    case True
    then have "history_step version id_ok h i = h"
      using fields by (cases h) (simp add: history_step_def publish_next_def events_read_def)
    with assms show ?thesis by simp
  next
    case False
    note i1 = read_stage [OF assms False rd]
    show ?thesis
    proof (cases "r = None")
      case stop: False
      then have "res \<noteq> PubAcknowledged a" if "r = Some res" for res a
        using rd that by (auto simp: publish_read_def split: if_splits option.splits sum.splits)
      with stop i1 fields False rd show ?thesis
        by (auto simp: history_step_def publish_next_def split: publish_result.splits)
    next
      case r: True
      show ?thesis
      proof (cases "prepare id_ok alloc p1")
        case (Inl e)
        with i1 fields False rd r show ?thesis by (simp add: history_step_def publish_next_def)
      next
        case (Inr p2)
        have i2: "history_inv identity start (?h1\<lparr>hi_publisher := p2\<rparr>)"
          using prepare_stage [of identity start ?h1] i1 Inr by simp
        show ?thesis
        proof (cases "\<exists>d. pb_pending p2 = Some (PendPrepared d)")
          case False': False
          with i2 fields False rd r Inr show ?thesis
            by (auto simp: history_step_def publish_next_def split: option.splits pending.splits)
        next
          case True
          then obtain d where d: "pb_pending p2 = Some (PendPrepared d)" by blast
          let ?h3 = "h\<lparr>hi_read := hi_read h @ events_read ?q observed, hi_sent := hi_sent h @ [pd_event d], hi_publisher := p2\<rparr>"
          have e: "?h1\<lparr>hi_publisher := p2, hi_sent := hi_sent h @ [pd_event d]\<rparr> = ?h3" by simp
          have "history_inv identity start (?h1\<lparr>hi_publisher := p2, hi_sent := hi_sent h @ [pd_event d]\<rparr>)"
            using history_inv_sent [OF i2] d by simp
          then have i3: "history_inv identity start ?h3" unfolding e .
          show ?thesis
          proof (cases "\<exists>rc. reply = Some (Ok rc)")
            case False'': False
            with i3 fields False rd r Inr d show ?thesis
              by (auto simp: history_step_def publish_next_def split: option.splits sum.splits)
          next
            case True
            then obtain rc res p3 where rc: "reply = Some (Ok rc)" "publish_acknowledge version p2 d rc = (res, p3)" by force
            have a: "history_inv identity start (?h3\<lparr>hi_acknowledged := hi_acknowledged h
                @ (case res of PubAcknowledged a \<Rightarrow> [a] | _ \<Rightarrow> []), hi_publisher := p3\<rparr>)"
              using acknowledge_stage [OF i3, of d version rc res p3] d rc(2) by simp
            have "history_step version id_ok h i = ?h3\<lparr>hi_acknowledged := hi_acknowledged h
                @ (case res of PubAcknowledged a \<Rightarrow> [a] | _ \<Rightarrow> []), hi_publisher := p3\<rparr>"
              using fields False rd r Inr d rc by (simp add: history_step_def publish_next_def)
            with a show ?thesis by simp
          qed
        qed
      qed
    qed
  qed
qed

lemma history_run_inv:
  assumes "publisher_new a k (Ok identity) = Ok p"
  shows "history_inv identity (at_cursor a) (history_run version id_ok p inputs)"
proof (induction inputs rule: rev_induct)
  case Nil
  then show ?case using assms
    by (auto simp: publisher_new_def history_inv_def Let_def pending_ok_def is_prepared_def)
next
  case (snoc i inputs)
  then show ?case by (simp add: history_step_inv)
qed

lemma event_id_inj:
  assumes "event_id l i n = event_id l' i' n'"
  shows "l = l' \<and> i = i' \<and> n = n'"
  using assms by (auto simp: event_id_def dest!: hex16_inj intro!: session_lifetime.equality)

lemma made_event_ids:
  assumes "made_event i x u = Some d" "made_event i y v = Some e" "ne_id (pd_event d) = ne_id (pd_event e)"
    "x < 2 ^ 64 - 1" "y < 2 ^ 64 - 1"
  shows "x = y"
proof -
  have "(word_of_nat (x + 1) :: u64) = word_of_nat (y + 1)"
    using assms(1,2,3) event_id_inj
    by (auto simp: made_event_def split: sum.splits simp del: of_nat_add of_nat_Suc)
  moreover have "unat (word_of_nat (x + 1) :: u64) = x + 1" "unat (word_of_nat (y + 1) :: u64) = y + 1"
    using assms(4,5) by (simp_all add: unat_of_nat_u64 del: of_nat_add of_nat_Suc)
  ultimately show ?thesis by (metis add_right_imp_eq)
qed

section \<open>Properties\<close>

text \<open>
  C28. Publication is ordered, loss-free and retry-safe: whatever waits are dropped and
  whatever the sink answers, the acknowledged events are exactly the first observed events
  in order, at most one more is pending, everything ever handed to the sink is the fixed
  encoding of one observation under that observation's own identity (so a retry repeats both
  and no two observations share an identity), event-store positions strictly increase, and
  the acknowledged byte position is that of the last acknowledged event.
\<close>

theorem publication_exact:
  assumes "publisher_new a k (Ok identity) = Ok p" "h = history_run version id_ok p inputs"
  shows "length (hi_acknowledged h) \<le> length (hi_read h) \<and> length (hi_read h) \<le> length (hi_acknowledged h) + 1
    \<and> (\<forall>i<length (hi_acknowledged h). \<exists>d. made_event identity i (hi_read h ! i) = Some d
          \<and> acknowledges (hi_acknowledged h ! i) d)
    \<and> (\<forall>e\<in>set (hi_sent h). \<exists>!i. i < length (hi_read h)
          \<and> map_option (ne_id \<circ> pd_event) (made_event identity i (hi_read h ! i)) = Some (ne_id e)
          \<and> map_option pd_event (made_event identity i (hi_read h ! i)) = Some e)
    \<and> sorted_wrt (<) (map pu_event_offset (hi_acknowledged h))
    \<and> pb_acknowledged (hi_publisher h) =
        (if hi_acknowledged h = [] then at_cursor a else pu_byte_cursor (last (hi_acknowledged h)))"
proof -
  have inv: "history_inv identity (at_cursor a) h" unfolding assms(2) by (rule history_run_inv [OF assms(1)])
  let ?k = "length (hi_acknowledged h)"
  have len: "length (hi_read h) \<le> ?k + 1" "length (hi_read h) < 2 ^ 64"
  proof -
    have p: "?k \<le> length (hi_read h)" "pending_ok identity ?k (drop ?k (hi_read h)) (pb_pending (hi_publisher h))"
      "?k + of_bool (pb_pending (hi_publisher h) \<noteq> None) < 2 ^ 64" using inv by (auto simp: history_inv_def Let_def)
    show "length (hi_read h) \<le> ?k + 1" "length (hi_read h) < 2 ^ 64"
      using p by (auto simp: pending_ok_def split: option.splits pending.splits dest!: drop_single)
  qed
  have uniq: "\<exists>!i. i < length (hi_read h) \<and> map_option (ne_id \<circ> pd_event) (made_event identity i (hi_read h ! i)) = Some (ne_id e)
      \<and> map_option pd_event (made_event identity i (hi_read h ! i)) = Some e" if e: "e \<in> set (hi_sent h)" for e
  proof -
    obtain i d where i: "i < length (hi_read h)" "made_event identity i (hi_read h ! i) = Some d" "e = pd_event d"
      using inv e by (auto simp: history_inv_def Let_def)
    show ?thesis
    proof (rule ex1I [of _ i])
      fix j assume "j < length (hi_read h) \<and> map_option (ne_id \<circ> pd_event) (made_event identity j (hi_read h ! j)) = Some (ne_id e)
        \<and> map_option pd_event (made_event identity j (hi_read h ! j)) = Some e"
      then show "j = i" using made_event_ids [of identity j "hi_read h ! j" _ i "hi_read h ! i" d] i len(2) by auto
    qed (use i in simp)
  qed
  show ?thesis using inv len uniq by (auto simp: history_inv_def Let_def)
qed

theorem publication_exact_witness:
  "let a = \<lparr>at_id = 0, at_cursor = cursor_at (lifetime_new 1 1) 0\<rparr>;
       e = EvReplay (Gap (cursor_at (lifetime_new 1 1) 0) (cursor_at (lifetime_new 1 1) 5));
       h = history_run 1 (\<lambda>_. True) \<lparr>pb_attachment = a, pb_stream = (), pb_identity = 9, pb_sequence = 0,
             pb_acknowledged = at_cursor a, pb_last_event_offset = 0, pb_pending = None, pb_complete = False\<rparr>
             [(Some (Ok e), True, None), (None, True, Some (Err SinkCapacity))]
   in hi_acknowledged h = [] \<and> length (hi_read h) \<le> 1 \<and> pb_acknowledged (hi_publisher h) = cursor_at (lifetime_new 1 1) 0"
proof -
  let ?a = "\<lparr>at_id = 0, at_cursor = cursor_at (lifetime_new 1 1) 0\<rparr>"
  let ?e = "EvReplay (Gap (cursor_at (lifetime_new 1 1) 0) (cursor_at (lifetime_new 1 1) 5))"
  let ?p = "\<lparr>pb_attachment = ?a, pb_stream = (), pb_identity = 9, pb_sequence = 0,
      pb_acknowledged = at_cursor ?a, pb_last_event_offset = 0, pb_pending = None, pb_complete = False\<rparr>"
  let ?inputs = "[(Some (Ok ?e), True, None), (None, True, Some (Err SinkCapacity))]"
  have n: "publisher_new ?a () (Ok 9) = Ok ?p" by (simp add: publisher_new_def)
  have none: "hi_acknowledged (history_run 1 (\<lambda>_. True) ?p ?inputs) = []"
    by (simp add: history_step_def publish_next_def publish_read_def prepare_def checked_add_def split_beta)
  from publication_exact [OF n refl, of 1 "\<lambda>_. True" ?inputs] none show ?thesis
    unfolding Let_def by simp
qed

end
