(* ===== verification/Projection_Policy.thy ===== *)
theory Projection_Policy
  imports Projection_Values
begin

text \<open>
  The residency state machine of one projected session
  (\<^verbatim>\<open>crates/domain/src/projection/policy.rs\<close>).  Every method of \<open>ProjectionPolicy\<close> is a
  function on the \<open>projection_policy\<close> record; \<open>policy_call\<close> enumerates the calls the
  application makes and \<open>policy_exec\<close> runs one, a refused call leaving the state as it was
  (every error is returned before a field is written).  The invariant and the safety
  properties are by induction over the reachable states of any history of calls.
\<close>

section \<open>State\<close>

record park_attempt =
  pa_generation :: u64
  pa_activity :: u64
  pa_processed :: replay_cursor
  pa_control_generation :: control_generation

record projection_policy =
  pp_status :: projection_status
  pp_options :: projection_options
  pp_activity :: u64
  pp_operation :: u64
  pp_last_activity :: duration
  pp_retry_at :: duration
  pp_attempts :: u32

abbreviation pp_residency :: "projection_policy \<Rightarrow> residency" where
  "pp_residency p \<equiv> ps_residency (pp_status p)"

definition map_status ::
  "(projection_status \<Rightarrow> projection_status) \<Rightarrow> projection_policy \<Rightarrow> projection_policy" where
  "map_status f p = p\<lparr>pp_status := f (pp_status p)\<rparr>"

definition is_closed_residency :: "residency \<Rightarrow> bool" where
  "is_closed_residency r = (r = Closing \<or> r = Closed)"

section \<open>Operations\<close>

definition policy_new ::
  "usize \<Rightarrow> session_lifetime \<Rightarrow> projection_options \<Rightarrow> duration
    \<Rightarrow> (projection_error, projection_policy) result" where
  "policy_new cell_size l opt now =
     bind_result (projection_options_validate cell_size opt) (\<lambda>opt.
       let cursor = cursor_at l 0 in
       Ok \<lparr>pp_status = \<lparr>ps_published = cursor, ps_processed = cursor,
             ps_control_generation = control_initial, ps_residency = Resident,
             ps_history = ProgressComplete, ps_skipped_history_pages = 0,
             ps_failure = None, ps_parking_failure = None\<rparr>,
           pp_options = opt, pp_activity = 0, pp_operation = 0,
           pp_last_activity = now, pp_retry_at = now, pp_attempts = 0\<rparr>)"

definition record_activity ::
  "projection_policy \<Rightarrow> duration \<Rightarrow> (projection_error, projection_policy) result" where
  "record_activity p now =
     (if is_closed_residency (pp_residency p) then Err JClosed
      else bind_result (ok_or (checked_add (pp_activity p) 1) JCapacity) (\<lambda>a.
        Ok (p\<lparr>pp_activity := a, pp_last_activity := now, pp_retry_at := now, pp_attempts := 0\<rparr>)))"

definition admit_output ::
  "projection_policy \<Rightarrow> usize \<Rightarrow> duration \<Rightarrow> (projection_error, projection_policy) result" where
  "admit_output p n now =
     (if is_closed_residency (pp_residency p) then Err JClosed
      else bind_result (ok_or (checked_add (rc_offset (ps_published (pp_status p))) n) JCapacity) (\<lambda>nxt.
        bind_result (record_activity p now) (\<lambda>p.
          Ok (map_status (\<lambda>s. s\<lparr>ps_published := (ps_published s)\<lparr>rc_offset := nxt\<rparr>\<rparr>) p))))"

definition record_processed ::
  "projection_policy \<Rightarrow> usize \<Rightarrow> (projection_error, projection_policy) result" where
  "record_processed p n =
     bind_result (ok_or (checked_add (rc_offset (ps_processed (pp_status p))) n) JCapacity) (\<lambda>nxt.
       if nxt > rc_offset (ps_published (pp_status p)) then Err JInvalidConfiguration
       else Ok (map_status (\<lambda>s. s\<lparr>ps_processed := (ps_processed s)\<lparr>rc_offset := nxt\<rparr>\<rparr>) p))"

definition record_control_applied ::
  "projection_policy \<Rightarrow> control_generation \<Rightarrow> (projection_error, projection_policy) result" where
  "record_control_applied p g =
     (if control_next (ps_control_generation (pp_status p)) \<noteq> Some g then Err JInvalidConfiguration
      else Ok (map_status (\<lambda>s. s\<lparr>ps_control_generation := g\<rparr>) p))"

definition park_delay :: "projection_policy \<Rightarrow> duration \<Rightarrow> duration option" where
  "park_delay p now =
     (if pp_residency p \<noteq> Resident \<or> pp_attempts p \<ge> po_max_park_attempts (pp_options p) then None
      else Some (max (dur_add (pp_last_activity p) (po_park_after (pp_options p))) (pp_retry_at p) - now))"

definition begin_park ::
  "projection_policy \<Rightarrow> duration \<Rightarrow> (projection_error, park_attempt \<times> projection_policy) result" where
  "begin_park p now =
     (if park_delay p now \<noteq> Some 0 \<or> ps_published (pp_status p) \<noteq> ps_processed (pp_status p)
      then Err JInvalidConfiguration
      else bind_result (ok_or (checked_add (pp_operation p) 1) JCapacity) (\<lambda>n.
        Ok (\<lparr>pa_generation = n, pa_activity = pp_activity p,
             pa_processed = ps_processed (pp_status p),
             pa_control_generation = ps_control_generation (pp_status p)\<rparr>,
            (map_status (\<lambda>s. s\<lparr>ps_residency := Parking\<rparr>) p)
              \<lparr>pp_operation := n, pp_attempts := pp_attempts p + 1\<rparr>)))"

definition commit_park :: "projection_policy \<Rightarrow> park_attempt \<Rightarrow> bool \<Rightarrow> bool \<times> projection_policy" where
  "commit_park p a no_pending_work =
     (let valid = pp_residency p = Parking
            \<and> pp_operation p = pa_generation a
            \<and> pp_activity p = pa_activity a
            \<and> ps_processed (pp_status p) = pa_processed a
            \<and> ps_control_generation (pp_status p) = pa_control_generation a
            \<and> no_pending_work
      in (valid,
          if valid then
            (map_status (\<lambda>s. s\<lparr>ps_residency := Parked, ps_parking_failure := None\<rparr>) p)\<lparr>pp_attempts := 0\<rparr>
          else if pp_residency p = Parking then map_status (\<lambda>s. s\<lparr>ps_residency := Resident\<rparr>) p
          else p))"

definition park_failed :: "projection_policy \<Rightarrow> projection_error \<Rightarrow> duration \<Rightarrow> projection_policy" where
  "park_failed p e now =
     (let p = (if pp_residency p = Parking then map_status (\<lambda>s. s\<lparr>ps_residency := Resident\<rparr>) p else p)
      in (map_status (\<lambda>s. s\<lparr>ps_parking_failure := Some e\<rparr>) p)
           \<lparr>pp_retry_at := dur_add now (po_retry_after (pp_options p))\<rparr>)"

definition require_restoration_source ::
  "projection_policy \<Rightarrow> residency list \<Rightarrow> (projection_error, unit) result" where
  "require_restoration_source p allowed =
     (if is_closed_residency (pp_residency p) then Err JClosed
      else case ps_failure (pp_status p) of
        Some e \<Rightarrow> Err e
      | None \<Rightarrow> if pp_residency p \<notin> set allowed then Err JInvalidConfiguration else Ok ())"

definition begin_restore :: "projection_policy \<Rightarrow> (projection_error, projection_policy) result" where
  "begin_restore p =
     bind_result (require_restoration_source p [Parked]) (\<lambda>_.
       Ok (map_status (\<lambda>s. s\<lparr>ps_residency := Restoring, ps_history := ProgressUsable\<rparr>) p))"

definition policy_restoration_progress ::
  "projection_policy \<Rightarrow> restoration_progress \<Rightarrow> (projection_error, projection_policy) result" where
  "policy_restoration_progress p progress =
     bind_result (require_restoration_source p [Restoring, Usable]) (\<lambda>_.
     bind_result (ok_or (checked_sub (skipped_pages progress) (skipped_pages (ps_history (pp_status p))))
                    JInvalidConfiguration) (\<lambda>additional.
     bind_result (ok_or (checked_add (ps_skipped_history_pages (pp_status p)) additional) JCapacity) (\<lambda>n.
       Ok (map_status (\<lambda>s. s\<lparr>ps_skipped_history_pages := n, ps_history := progress,
             ps_residency := (if is_finished progress then Resident else Usable)\<rparr>) p))))"

definition policy_fail :: "projection_policy \<Rightarrow> projection_error \<Rightarrow> projection_policy" where
  "policy_fail p e =
     (if is_closed_residency (pp_residency p) then p
      else map_status (\<lambda>s. s\<lparr>ps_failure := Some e, ps_residency := Failed\<rparr>) p)"

definition policy_close :: "projection_policy \<Rightarrow> projection_policy" where
  "policy_close p =
     (if pp_residency p \<noteq> Closed then map_status (\<lambda>s. s\<lparr>ps_residency := Closing\<rparr>) p else p)"

definition maintenance_failed :: "projection_policy \<Rightarrow> projection_error \<Rightarrow> projection_policy" where
  "maintenance_failed p e = map_status (\<lambda>s. s\<lparr>ps_parking_failure := Some e\<rparr>) p"

definition cleanup_failed :: "projection_policy \<Rightarrow> projection_error \<Rightarrow> projection_policy" where
  "cleanup_failed p e = map_status (\<lambda>s. s\<lparr>ps_failure := Some e\<rparr>) p"

definition mark_closed :: "projection_policy \<Rightarrow> projection_policy" where
  "mark_closed p = map_status (\<lambda>s. s\<lparr>ps_residency := Closed\<rparr>) p"

lemmas policy_defs = record_activity_def admit_output_def record_processed_def
  record_control_applied_def begin_park_def commit_park_def park_failed_def begin_restore_def
  policy_restoration_progress_def policy_fail_def policy_close_def maintenance_failed_def
  cleanup_failed_def mark_closed_def map_status_def require_restoration_source_def
  is_closed_residency_def park_delay_def

section \<open>Calls and histories\<close>

datatype policy_call =
    CAdmitOutput usize duration
  | CRecordActivity duration
  | CRecordProcessed usize
  | CRecordControl control_generation
  | CBeginPark duration
  | CCommitPark park_attempt bool
  | CParkFailed projection_error duration
  | CBeginRestore
  | CRestorationProgress restoration_progress
  | CFail projection_error
  | CClose
  | CMaintenanceFailed projection_error
  | CCleanupFailed projection_error
  | CMarkClosed

definition keep_err :: "'s \<Rightarrow> ('e, 's) result \<Rightarrow> 's" where
  "keep_err p r = (case r of Ok p' \<Rightarrow> p' | Err _ \<Rightarrow> p)"

fun policy_exec :: "projection_policy \<Rightarrow> policy_call \<Rightarrow> projection_policy" where
  "policy_exec p (CAdmitOutput n now) = keep_err p (admit_output p n now)"
| "policy_exec p (CRecordActivity now) = keep_err p (record_activity p now)"
| "policy_exec p (CRecordProcessed n) = keep_err p (record_processed p n)"
| "policy_exec p (CRecordControl g) = keep_err p (record_control_applied p g)"
| "policy_exec p (CBeginPark now) =
     (case begin_park p now of Ok (_, p') \<Rightarrow> p' | Err _ \<Rightarrow> p)"
| "policy_exec p (CCommitPark a q) = snd (commit_park p a q)"
| "policy_exec p (CParkFailed e now) = park_failed p e now"
| "policy_exec p CBeginRestore = keep_err p (begin_restore p)"
| "policy_exec p (CRestorationProgress r) = keep_err p (policy_restoration_progress p r)"
| "policy_exec p (CFail e) = policy_fail p e"
| "policy_exec p CClose = policy_close p"
| "policy_exec p (CMaintenanceFailed e) = maintenance_failed p e"
| "policy_exec p (CCleanupFailed e) = cleanup_failed p e"
| "policy_exec p CMarkClosed = mark_closed p"

inductive policy_reachable :: "projection_policy \<Rightarrow> projection_policy \<Rightarrow> bool" for p0 where
  policy_start: "policy_reachable p0 p0"
| policy_next: "policy_reachable p0 p \<Longrightarrow> policy_reachable p0 (policy_exec p c)"

abbreviation policy_run :: "projection_policy \<Rightarrow> policy_call list \<Rightarrow> projection_policy" where
  "policy_run p cs \<equiv> foldl policy_exec p cs"

lemma policy_reachable_run: "policy_reachable p (policy_run p cs)"
  by (induction cs rule: rev_induct) (auto intro: policy_reachable.intros)

section \<open>The invariant\<close>

definition policy_inv :: "session_lifetime \<Rightarrow> projection_policy \<Rightarrow> bool" where
  "policy_inv l p \<longleftrightarrow>
     rc_lifetime (ps_published (pp_status p)) = l \<and>
     rc_lifetime (ps_processed (pp_status p)) = l \<and>
     rc_offset (ps_processed (pp_status p)) \<le> rc_offset (ps_published (pp_status p)) \<and>
     pp_attempts p \<le> po_max_park_attempts (pp_options p) \<and>
     0 < po_max_park_attempts (pp_options p) \<and> po_max_park_attempts (pp_options p) \<le> 100 \<and>
     (pp_residency p = Failed \<longrightarrow> ps_failure (pp_status p) \<noteq> None) \<and>
     skipped_pages (ps_history (pp_status p)) \<le> ps_skipped_history_pages (pp_status p)"

lemma policy_new_inv:
  assumes "policy_new cs l opt now = Ok p"
  shows "policy_inv l p \<and> pp_residency p = Resident \<and> ps_failure (pp_status p) = None"
proof -
  obtain opt' where o: "projection_options_validate cs opt = Ok opt'"
    using assms by (auto simp: policy_new_def bind_result_Ok_iff)
  from projection_options_validate_Ok [OF o] o assms show ?thesis
    by (auto simp: policy_new_def Let_def policy_inv_def bind_result_Ok_iff)
qed

lemma checked_add_mono_word:
  assumes "checked_add a b = Some c"
  shows "a \<le> c"
  using assms by (auto simp: checked_add_def Let_def split: if_splits)

lemma attempts_bump:
  fixes a m :: u32
  assumes "\<not> m \<le> a"
  shows "a + 1 \<le> m"
proof -
  have "unat a < unat m" using assms by (simp add: word_le_nat_alt)
  moreover have "unat m < 2 ^ 32" using unsigned_less [of m] by simp
  ultimately have "unat (a + 1) = unat a + 1" by (subst unat_add_no_overflow) auto
  then show ?thesis using \<open>unat a < unat m\<close> by (simp add: word_le_nat_alt)
qed

lemma skipped_step:
  fixes new :: u64
  assumes "checked_sub new old = Some d" "checked_add acc d = Some n" "old \<le> acc"
  shows "new \<le> n"
proof -
  have "unat d = unat new - unat old" "old \<le> new"
    using assms(1) by (auto simp: checked_sub_Some_iff word_arith)
  moreover have "unat n = unat acc + unat d" by (rule checked_add_unat [OF assms(2)])
  ultimately show ?thesis using assms(3) by (simp add: word_le_nat_alt)
qed

definition policy_keeps :: "session_lifetime \<Rightarrow> projection_policy \<Rightarrow> projection_policy \<Rightarrow> bool" where
  "policy_keeps l p q \<longleftrightarrow> (policy_inv l p \<longrightarrow> policy_inv l q \<and> pp_options q = pp_options p)"

lemma keep_err_keeps:
  "(\<And>q. r = Ok q \<Longrightarrow> policy_keeps l p q) \<Longrightarrow> policy_keeps l p (keep_err p r)"
  by (cases r) (auto simp: keep_err_def policy_keeps_def)

lemma record_activity_keeps: "record_activity p now = Ok q \<Longrightarrow> policy_keeps l p q"
  by (auto simp: record_activity_def policy_keeps_def policy_inv_def bind_result_Ok_iff split: if_splits)

lemma admit_output_keeps:
  assumes "admit_output p n now = Ok q"
  shows "policy_keeps l p q"
proof -
  obtain nxt r where n: "checked_add (rc_offset (ps_published (pp_status p))) n = Some nxt"
    and r: "record_activity p now = Ok r"
    and q: "q = map_status (\<lambda>s. s\<lparr>ps_published := (ps_published s)\<lparr>rc_offset := nxt\<rparr>\<rparr>) r"
    using assms by (auto simp: admit_output_def bind_result_Ok_iff split: if_splits)
  have "pp_status r = pp_status p" using r by (auto simp: record_activity_def bind_result_Ok_iff split: if_splits)
  with record_activity_keeps [OF r, of l] checked_add_mono_word [OF n] show ?thesis
    unfolding q by (auto simp: policy_keeps_def policy_inv_def map_status_def)
qed

lemma record_processed_keeps: "record_processed p n = Ok q \<Longrightarrow> policy_keeps l p q"
  by (auto simp: record_processed_def policy_keeps_def policy_inv_def map_status_def
      bind_result_Ok_iff split: if_splits)

lemma record_control_keeps: "record_control_applied p g = Ok q \<Longrightarrow> policy_keeps l p q"
  by (auto simp: record_control_applied_def policy_keeps_def policy_inv_def map_status_def split: if_splits)

lemma begin_park_keeps: "begin_park p now = Ok (a, q) \<Longrightarrow> policy_keeps l p q"
  by (auto simp: begin_park_def park_delay_def policy_keeps_def policy_inv_def map_status_def
      bind_result_Ok_iff attempts_bump split: if_splits)

lemma commit_park_keeps: "policy_keeps l p (snd (commit_park p a q))"
  by (simp add: commit_park_def Let_def policy_keeps_def policy_inv_def map_status_def)

lemma park_failed_keeps: "policy_keeps l p (park_failed p e now)"
  by (simp add: park_failed_def Let_def policy_keeps_def policy_inv_def map_status_def)

lemma begin_restore_keeps: "begin_restore p = Ok q \<Longrightarrow> policy_keeps l p q"
  by (auto simp: begin_restore_def policy_keeps_def policy_inv_def map_status_def bind_result_Ok_iff)

lemma restoration_keeps: "policy_restoration_progress p r = Ok q \<Longrightarrow> policy_keeps l p q"
  by (auto simp: policy_restoration_progress_def policy_keeps_def policy_inv_def map_status_def
      bind_result_Ok_iff skipped_step split: if_splits)

lemma total_ops_keep:
  "policy_keeps l p (policy_fail p e)" "policy_keeps l p (policy_close p)"
  "policy_keeps l p (maintenance_failed p e)" "policy_keeps l p (cleanup_failed p e)"
  "policy_keeps l p (mark_closed p)"
  by (simp_all add: policy_fail_def policy_close_def maintenance_failed_def cleanup_failed_def
      mark_closed_def map_status_def policy_keeps_def policy_inv_def)

lemmas policy_op_keeps = record_activity_keeps admit_output_keeps record_processed_keeps
  record_control_keeps commit_park_keeps park_failed_keeps begin_restore_keeps restoration_keeps
  total_ops_keep

lemma policy_exec_keeps: "policy_keeps l p (policy_exec p c)"
proof (cases c)
  case (CBeginPark now)
  then show ?thesis
    by (cases "begin_park p now") (auto simp: begin_park_keeps policy_keeps_def [of l p p])
qed (auto intro: keep_err_keeps policy_op_keeps)

lemma policy_exec_inv:
  "policy_inv l p \<Longrightarrow> policy_inv l (policy_exec p c) \<and> pp_options (policy_exec p c) = pp_options p"
  using policy_exec_keeps [of l p c] by (simp add: policy_keeps_def)

lemma policy_reachable_inv:
  assumes "policy_reachable p0 p" "policy_inv l p0"
  shows "policy_inv l p \<and> pp_options p = pp_options p0"
  using assms by (induction rule: policy_reachable.induct) (auto simp: policy_exec_inv)


section \<open>What a history preserves\<close>

text \<open>Activity and operation counters only grow, and output is published only together with
  an activity; so an unchanged activity counter means nothing was admitted.\<close>

definition policy_after :: "projection_policy \<Rightarrow> projection_policy \<Rightarrow> bool" where
  "policy_after p q \<longleftrightarrow>
     pp_activity p \<le> pp_activity q \<and> pp_operation p \<le> pp_operation q \<and>
     (pp_activity q = pp_activity p \<longrightarrow> ps_published (pp_status q) = ps_published (pp_status p))"

lemma policy_after_refl: "policy_after p p"
  by (simp add: policy_after_def)

lemma policy_after_trans: "policy_after p q \<Longrightarrow> policy_after q r \<Longrightarrow> policy_after p r"
  by (auto simp: policy_after_def)

lemma checked_add_one_less:
  fixes a :: "'a::len word"
  assumes "checked_add a 1 = Some c"
  shows "a < c"
proof -
  have "unat c = unat a + 1" using checked_add_unat [OF assms] by simp
  then show ?thesis by (simp add: word_less_nat_alt)
qed

lemma policy_exec_after: "policy_after p (policy_exec p c)"
  by (cases c) (auto simp: keep_err_def policy_defs policy_after_def bind_result_Ok_iff Let_def
      dest!: checked_add_one_less split: sum.splits option.splits if_splits)

lemma policy_run_after: "policy_after p (policy_run p cs)"
  by (induction cs rule: rev_induct)
    (auto intro: policy_after_refl policy_after_trans [OF _ policy_exec_after])

lemma begin_park_Ok:
  assumes "begin_park p now = Ok (a, q)"
  shows "pp_residency p = Resident" "pp_residency q = Parking" "pp_activity q = pp_activity p"
    "pp_operation p < pp_operation q" "pa_generation a = pp_operation q"
    "pa_activity a = pp_activity q" "pa_processed a = ps_processed (pp_status q)"
    "pa_control_generation a = ps_control_generation (pp_status q)"
    "ps_published (pp_status q) = ps_processed (pp_status q)"
    "pp_attempts q = pp_attempts p + 1" "pp_options q = pp_options p"
    "pp_attempts p < po_max_park_attempts (pp_options p)"
  using assms checked_add_one_less
  by (auto simp: begin_park_def park_delay_def map_status_def bind_result_Ok_iff split: if_splits)

lemma closed_step:
  assumes "is_closed_residency (pp_residency p)"
  shows "is_closed_residency (pp_residency (policy_exec p c)) \<and>
    ps_published (pp_status (policy_exec p c)) = ps_published (pp_status p) \<and>
    pp_activity (policy_exec p c) = pp_activity p"
  using assms
  by (cases c) (auto simp: keep_err_def policy_defs bind_result_Ok_iff Let_def
      split: sum.splits option.splits if_splits)

lemma failed_step:
  assumes "pp_residency p \<in> {Failed, Closing, Closed}"
    "pp_residency p = Failed \<longrightarrow> ps_failure (pp_status p) \<noteq> None"
  shows "pp_residency (policy_exec p c) \<in> {Failed, Closing, Closed} \<and>
    (pp_residency (policy_exec p c) = Failed \<longrightarrow> ps_failure (pp_status (policy_exec p c)) \<noteq> None)"
  using assms
  by (cases c) (auto simp: keep_err_def policy_defs bind_result_Ok_iff Let_def
      split: sum.splits option.splits if_splits)

text \<open>Parkings started in a history, and the calls that rearm the retry budget.\<close>

fun park_starts :: "projection_policy \<Rightarrow> policy_call list \<Rightarrow> nat" where
  "park_starts p [] = 0"
| "park_starts p (c # cs) =
     (case c of CBeginPark now \<Rightarrow> (if is_ok (begin_park p now) then 1 else 0) | _ \<Rightarrow> 0)
     + park_starts (policy_exec p c) cs"

fun rearms :: "policy_call \<Rightarrow> bool" where
  "rearms (CAdmitOutput n now) = True"
| "rearms (CRecordActivity now) = True"
| "rearms (CCommitPark a q) = True"
| "rearms _ = False"

lemma exec_keeps_attempts:
  assumes "\<not> rearms c"
  shows "unat (pp_attempts (policy_exec p c)) = unat (pp_attempts p) +
      (case c of CBeginPark now \<Rightarrow> (if is_ok (begin_park p now) then 1 else 0) | _ \<Rightarrow> 0)
    \<and> pp_options (policy_exec p c) = pp_options p"
proof (cases c)
  case (CBeginPark now)
  show ?thesis
  proof (cases "begin_park p now")
    case (Inr x)
    obtain a q where x: "x = (a, q)" by (cases x)
    note b = begin_park_Ok [OF Inr [unfolded x]]
    have "unat (pp_attempts p) + unat (1 :: u32) < 2 ^ 32"
      using b(12) unat_u32_less [of "po_max_park_attempts (pp_options p)"]
      by (simp add: word_less_nat_alt)
    then have "unat (pp_attempts q) = unat (pp_attempts p) + 1"
      using b(10) by (simp add: unat_add_no_overflow)
    then show ?thesis using CBeginPark Inr x b(11) by simp
  qed (simp add: CBeginPark)
qed (use assms in \<open>auto simp: keep_err_def policy_defs bind_result_Ok_iff Let_def
      split: sum.splits option.splits if_splits\<close>)

lemma park_starts_bound:
  assumes "\<forall>c\<in>set cs. \<not> rearms c" "policy_inv l p"
  shows "unat (pp_attempts p) + park_starts p cs \<le> unat (po_max_park_attempts (pp_options p))"
  using assms
proof (induction cs arbitrary: p)
  case Nil
  then show ?case by (simp add: policy_inv_def word_le_nat_alt)
next
  case (Cons c cs)
  have "policy_inv l (policy_exec p c)" using policy_exec_inv Cons.prems(2) by blast
  from Cons.IH [OF _ this] Cons.prems exec_keeps_attempts [of c p] show ?case by auto
qed

section \<open>Properties\<close>

text \<open>
  C29. In every state a fresh projection can reach, whatever calls are made and in whatever
  order, both positions belong to its own lifetime, the processed position never passes
  the published one, the failed parking attempts stay within the configured bound, a
  failed projection names its failure, and the cumulative count of skipped history pages
  covers those of the current restoration.
\<close>

theorem policy_invariant:
  assumes "policy_new cs l opt now = Ok p0"
  shows "policy_inv l (policy_run p0 calls)"
  using policy_reachable_inv [OF policy_reachable_run] policy_new_inv [OF assms] by blast

definition sample_options :: projection_options where
  "sample_options = projection_options_new (terminal_config_new \<lparr>ts_cols = 80, ts_rows = 24\<rparr>)"

definition sample_policy :: "projection_policy" where
  "sample_policy =
     \<lparr>pp_status = \<lparr>ps_published = cursor_at (lifetime_new 1 1) 0,
        ps_processed = cursor_at (lifetime_new 1 1) 0, ps_control_generation = control_initial,
        ps_residency = Resident, ps_history = ProgressComplete, ps_skipped_history_pages = 0,
        ps_failure = None, ps_parking_failure = None\<rparr>,
      pp_options = sample_options, pp_activity = 0, pp_operation = 0,
      pp_last_activity = 0, pp_retry_at = 0, pp_attempts = 0\<rparr>"

lemma sample_options_valid: "projection_options_validate 64 sample_options = Ok sample_options"
proof -
  let ?cfg = "terminal_config_new \<lparr>ts_cols = 80, ts_rows = 24\<rparr>"
  have cfg: "terminal_config_validate ?cfg = Ok ?cfg"
    by (simp add: terminal_config_validate_def terminal_config_new_def)
  have "terminal_size_new 80 24 = Ok (tc_size ?cfg)"
    by (simp add: terminal_size_new_Ok terminal_config_new_def)
  then obtain n where "view_reservation 64 sample_options = Ok n"
    using view_reservation_exact [of 80 24 sample_options ?cfg 64] cfg
    by (auto simp: sample_options_def projection_options_new_def)
  then show ?thesis
    using cfg by (simp add: projection_options_validate_def sample_options_def
        projection_options_new_def isize_max_word_def from_secs_def)
      (simp add: terminal_config_new_def)
qed

lemma sample_policy_new: "policy_new 64 (lifetime_new 1 1) sample_options 0 = Ok sample_policy"
  by (simp add: sample_options_valid policy_new_def Let_def sample_policy_def)

theorem policy_invariant_witness:
  "policy_inv (lifetime_new 1 1)
     (policy_run sample_policy [CAdmitOutput 3 7, CRecordProcessed 2])"
  by (rule policy_invariant [OF sample_policy_new])

text \<open>
  C15. A parking commit is accepted only for the attempt that is still current: whatever
  happened since the attempt began, acceptance means that no output was admitted and no
  activity recorded in between, that the model is at the attempt's exact byte and control
  position, that everything published has been processed, and that the model is then
  parked.
\<close>

theorem commit_park_exact:
  assumes "begin_park p now = Ok (a, p1)" "commit_park (policy_run p1 calls) a quiet = (True, p2)"
  shows "ps_published (pp_status p2) = pa_processed a \<and> ps_processed (pp_status p2) = pa_processed a
    \<and> ps_published (pp_status p2) = ps_published (pp_status p)
    \<and> ps_control_generation (pp_status p2) = pa_control_generation a
    \<and> pp_activity p2 = pp_activity p \<and> pp_operation p2 = pa_generation a
    \<and> quiet \<and> pp_residency p2 = Parked \<and> pp_attempts p2 = 0"
proof -
  let ?q = "policy_run p1 calls"
  note b = begin_park_Ok [OF assms(1)]
  have v: "pp_activity ?q = pp_activity p1" "ps_processed (pp_status ?q) = pa_processed a"
    "ps_published (pp_status p2) = ps_published (pp_status ?q)"
    "ps_processed (pp_status p2) = ps_processed (pp_status ?q)"
    "ps_control_generation (pp_status p2) = pa_control_generation a"
    "pp_activity p2 = pp_activity ?q" "pp_operation p2 = pa_generation a" quiet
    "pp_residency p2 = Parked" "pp_attempts p2 = 0"
    using assms(2) b by (auto simp: commit_park_def Let_def map_status_def split: if_splits)
  have "ps_published (pp_status ?q) = ps_published (pp_status p1)"
    using policy_run_after [of p1 calls] v(1) by (auto simp: policy_after_def)
  moreover have "ps_published (pp_status p1) = ps_published (pp_status p)"
    using assms(1) by (auto simp: begin_park_def map_status_def bind_result_Ok_iff split: if_splits)
  ultimately show ?thesis using b v by simp
qed

lemma sample_begin_park:
  "begin_park sample_policy (from_secs 60) =
     Ok (\<lparr>pa_generation = 1, pa_activity = 0, pa_processed = cursor_at (lifetime_new 1 1) 0,
          pa_control_generation = control_initial\<rparr>,
         (map_status (\<lambda>s. s\<lparr>ps_residency := Parking\<rparr>) sample_policy)
           \<lparr>pp_operation := 1, pp_attempts := 1\<rparr>)"
  by (simp add: begin_park_def park_delay_def sample_policy_def sample_options_def
      projection_options_new_def dur_add_def duration_max_def from_secs_def checked_add_def)

theorem commit_park_exact_witness:
  "\<exists>a p1 p2. begin_park sample_policy (from_secs 60) = Ok (a, p1)
     \<and> commit_park p1 a True = (True, p2) \<and> pp_residency p2 = Parked
     \<and> ps_published (pp_status p2) = pa_processed a"
proof -
  let ?a = "\<lparr>pa_generation = 1, pa_activity = 0, pa_processed = cursor_at (lifetime_new 1 1) 0,
    pa_control_generation = control_initial\<rparr>"
  let ?p = "(map_status (\<lambda>s. s\<lparr>ps_residency := Parking\<rparr>) sample_policy)
    \<lparr>pp_operation := 1, pp_attempts := 1\<rparr>"
  have "fst (commit_park ?p ?a True)"
    by (simp add: commit_park_def map_status_def sample_policy_def)
  then obtain p2 where c: "commit_park (policy_run ?p []) ?a True = (True, p2)"
    by (cases "commit_park ?p ?a True") auto
  from commit_park_exact [OF sample_begin_park c] c sample_begin_park show ?thesis by auto
qed

text \<open>
  Closing is final: after a close request no sequence of calls revives the projection,
  publishes further output or records activity, and output admission, restoration and
  parking are refused from then on.
\<close>

theorem policy_close_final:
  "is_closed_residency (pp_residency (policy_run (policy_close p) calls))
   \<and> ps_published (pp_status (policy_run (policy_close p) calls)) = ps_published (pp_status p)
   \<and> admit_output (policy_run (policy_close p) calls) n now = Err JClosed
   \<and> begin_restore (policy_run (policy_close p) calls) = Err JClosed
   \<and> policy_restoration_progress (policy_run (policy_close p) calls) r = Err JClosed
   \<and> begin_park (policy_run (policy_close p) calls) now = Err JInvalidConfiguration"
proof -
  let ?q = "policy_run (policy_close p) calls"
  have "is_closed_residency (pp_residency ?q) \<and> ps_published (pp_status ?q) = ps_published (pp_status p)"
  proof (induction calls rule: rev_induct)
    case Nil
    then show ?case by (simp add: policy_close_def map_status_def is_closed_residency_def)
  next
    case (snoc c cs)
    then show ?case using closed_step by simp
  qed
  then show ?thesis
    by (auto simp: admit_output_def begin_restore_def policy_restoration_progress_def
        require_restoration_source_def begin_park_def park_delay_def is_closed_residency_def)
qed

text \<open>
  A failure is final apart from closing: from the moment a projection fails, no
  sequence of calls makes the model resident, parked, restoring or usable again.
\<close>

theorem policy_failure_final:
  "pp_residency (policy_run (policy_fail p e) calls) \<in> {Failed, Closing, Closed}"
proof -
  let ?ok = "\<lambda>q. pp_residency q \<in> {Failed, Closing, Closed} \<and>
    (pp_residency q = Failed \<longrightarrow> ps_failure (pp_status q) \<noteq> None)"
  have "?ok (policy_run (policy_fail p e) calls)"
  proof (induction calls rule: rev_induct)
    case Nil
    then show ?case by (auto simp: policy_fail_def map_status_def is_closed_residency_def)
  next
    case (snoc c cs)
    then show ?case using failed_step by simp
  qed
  then show ?thesis by blast
qed

text \<open>
  Parking retries are bounded: between two events that rearm it (admitted output,
  recorded activity, a commit decision), a projection starts at most the configured number
  of parking attempts, however often and whenever it is asked.
\<close>

theorem park_retry_bounded:
  assumes "policy_new cs l opt now = Ok p0" "\<forall>c\<in>set calls. \<not> rearms c"
  shows "park_starts (policy_run p0 earlier) calls \<le> unat (po_max_park_attempts opt)"
proof -
  have i: "policy_inv l (policy_run p0 earlier)" "pp_options (policy_run p0 earlier) = pp_options p0"
    using policy_reachable_inv [OF policy_reachable_run] policy_new_inv [OF assms(1)] by blast+
  have "pp_options p0 = opt"
    using assms(1) projection_options_validate_Ok(1)
    by (auto simp: policy_new_def Let_def bind_result_Ok_iff)
  then show ?thesis using park_starts_bound [OF assms(2) i(1)] i(2) by simp
qed

theorem park_retry_bounded_witness:
  "park_starts (policy_run sample_policy []) [CBeginPark (from_secs 60), CParkFailed JWorker (from_secs 61)]
    \<le> unat (po_max_park_attempts sample_options)"
  by (rule park_retry_bounded [OF sample_policy_new]) simp

text \<open>
  The announced parking delay is exact: when nothing is unprocessed and the operation
  counter is not exhausted, an attempt at the announced instant or later starts, and every
  earlier attempt is refused and changes nothing.
\<close>

theorem park_delay_exact:
  assumes "park_delay p now = Some d" "ps_published (pp_status p) = ps_processed (pp_status p)"
    "pp_operation p \<noteq> - 1" "now \<le> later"
  shows "is_ok (begin_park p later) \<longleftrightarrow> now + d \<le> later"
proof -
  obtain n where n: "checked_add (pp_operation p) 1 = Some n"
    using assms(3) checked_add_one_None_iff [of "pp_operation p"] by (cases "checked_add (pp_operation p) 1") auto
  have "park_delay p later = Some 0 \<longleftrightarrow> now + d \<le> later"
    using assms(1,4) by (auto simp: park_delay_def split: if_splits)
  then show ?thesis using assms(2) n by (auto simp: begin_park_def)
qed

theorem park_delay_exact_witness:
  "is_ok (begin_park sample_policy (from_secs 60)) \<and> \<not> is_ok (begin_park sample_policy (from_secs 59))"
proof -
  have "park_delay sample_policy 0 = Some (from_secs 60)"
    by (simp add: park_delay_def sample_policy_def sample_options_def projection_options_new_def
        dur_add_def duration_max_def from_secs_def)
  note d = park_delay_exact [OF this]
  show ?thesis
    using d [of "from_secs 60"] d [of "from_secs 59"]
    by (simp add: sample_policy_def from_secs_def)
qed

end
