(* ===== verification/Admission_Queue.thy ===== *)
theory Admission_Queue
  imports Projection_Policy Session_Context
begin

text \<open>
  The admitted-work half of a projection: the commands and the admission state
  (\<^verbatim>\<open>crates/application/src/projection/state.rs\<close>) and every operation of
  \<open>AdmissionQueue\<close> (\<^verbatim>\<open>queue.rs\<close>).  Each operation runs under the admission mutex, so each
  is one function on the \<open>admission\<close> record; operations that hand something to their caller
  return it beside the new state.

  Callers and the worker interleave between the operations.  \<open>queue_step\<close> is that
  interleaving: any operation may happen next, the worker holding at most one command in
  hand, and the ghost fields record the bytes ever accepted and the bytes recorded as
  processed.

  A ticket is its identity.  Timings are not modelled.
\<close>

section \<open>Commands and state\<close>

type_synonym ticket_id = nat

record staging_lease =
  sl_bytes :: "usize option"
  sl_slots :: "usize option"

datatype snapshot_request = SnapCheckpoint ticket_id | SnapTransfer ticket_id usize

datatype command =
    CmdOutput bytes staging_lease
  | CmdProcessExited
  | CmdResize terminal_size ticket_id staging_lease
  | CmdView ticket_id staging_lease
  | CmdCheckpoint snapshot_request staging_lease

fun is_output :: "command \<Rightarrow> bool" where
  "is_output (CmdOutput _ _) = True"
| "is_output _ = False"

fun is_checkpoint :: "command \<Rightarrow> bool" where
  "is_checkpoint (CmdCheckpoint _ _) = True"
| "is_checkpoint _ = False"

fun request_ticket :: "snapshot_request \<Rightarrow> ticket_id" where
  "request_ticket (SnapCheckpoint t) = t"
| "request_ticket (SnapTransfer t _) = t"

text \<open>Failing a command completes its ticket, if it has one, with the error.\<close>

fun command_fail :: "command \<Rightarrow> ticket_id option" where
  "command_fail (CmdResize _ t _) = Some t"
| "command_fail (CmdView t _) = Some t"
| "command_fail (CmdCheckpoint r _) = Some (request_ticket r)"
| "command_fail (CmdOutput _ _) = None"
| "command_fail CmdProcessExited = None"

record admission =
  ad_policy :: projection_policy
  ad_output_drain :: "drain_outcome option"
  ad_process_exit_queued :: bool
  ad_queue :: "command list"
  ad_close_waiters :: "ticket_id list"
  ad_unreclaimed_failure :: "projection_error option"
  ad_cleanup_failure :: "projection_error option"
  ad_retry_cleanup :: bool

abbreviation ad_residency :: "admission \<Rightarrow> residency" where
  "ad_residency a \<equiv> pp_residency (ad_policy a)"

definition admission_new :: "projection_policy \<Rightarrow> admission" where
  "admission_new p =
     \<lparr>ad_policy = p, ad_output_drain = None, ad_process_exit_queued = False, ad_queue = [],
      ad_close_waiters = [], ad_unreclaimed_failure = None, ad_cleanup_failure = None,
      ad_retry_cleanup = False\<rparr>"

datatype output_admission = AdmitQueue command | AdmitNothing | AdmitRejected output_acceptance

datatype output_outcome = OutQueued | OutTaken | OutRejected output_acceptance

datatype close_request = AlreadyClosed "(projection_error, unit) result" | CloseStarted "command list"

datatype park_start = ParkBusy | ParkNotDue | ParkReady park_attempt

section \<open>Reading\<close>

definition outcome_of :: "projection_error option \<Rightarrow> (projection_error, unit) result" where
  "outcome_of e = (case e of None \<Rightarrow> Ok () | Some e \<Rightarrow> Err e)"

definition queue_status :: "admission \<Rightarrow> projection_status" where
  "queue_status a = pp_status (ad_policy a)"

definition queue_park_delay :: "admission \<Rightarrow> duration \<Rightarrow> duration option" where
  "queue_park_delay a now = park_delay (ad_policy a) now"

definition close_outcome :: "admission \<Rightarrow> (projection_error, unit) result option" where
  "close_outcome a = (if ad_residency a = Closed then Some (outcome_of (ad_cleanup_failure a)) else None)"

definition check_accepting :: "admission \<Rightarrow> (projection_error, unit) result" where
  "check_accepting a =
     (if is_closed_residency (ad_residency a) then Err JClosed
      else case ps_failure (queue_status a) of Some e \<Rightarrow> Err e | None \<Rightarrow> Ok ())"

section \<open>Admitting\<close>

text \<open>The four operations a closure may use under the lock.\<close>

definition is_draining :: "admission \<Rightarrow> bool" where
  "is_draining a \<longleftrightarrow> ad_output_drain a \<noteq> None"

definition admitting_record_activity :: "admission \<Rightarrow> duration \<Rightarrow> (projection_error, admission) result" where
  "admitting_record_activity a now =
     bind_result (record_activity (ad_policy a) now) (\<lambda>p. Ok (a\<lparr>ad_policy := p\<rparr>))"

definition admit_output_bytes :: "admission \<Rightarrow> usize \<Rightarrow> duration \<Rightarrow> (projection_error, admission) result" where
  "admit_output_bytes a n now =
     bind_result (admit_output (ad_policy a) n now) (\<lambda>p. Ok (a\<lparr>ad_policy := p\<rparr>))"

definition queue_admit ::
  "(admission \<Rightarrow> (projection_error, command \<times> admission) result) \<Rightarrow> admission
    \<Rightarrow> (projection_error, admission) result" where
  "queue_admit build a =
     bind_result (check_accepting a) (\<lambda>_.
     bind_result (build a) (\<lambda>(c, a).
       Ok (a\<lparr>ad_queue := ad_queue a @ [c]\<rparr>)))"

definition queue_admit_output ::
  "(admission \<Rightarrow> output_admission \<times> admission) \<Rightarrow> admission \<Rightarrow> output_outcome \<times> admission" where
  "queue_admit_output accept a =
     (case accept a of
        (AdmitQueue c, a) \<Rightarrow> (OutQueued, a\<lparr>ad_queue := ad_queue a @ [c]\<rparr>)
      | (AdmitNothing, a) \<Rightarrow> (OutTaken, a)
      | (AdmitRejected r, a) \<Rightarrow> (OutRejected r, a))"

text \<open>A refused command is handed back to be failed with \<open>Closed\<close>.\<close>

definition queue_requeue :: "command \<Rightarrow> admission \<Rightarrow> command option \<times> admission" where
  "queue_requeue c a =
     (if is_closed_residency (ad_residency a) then (Some c, a)
      else (None, a\<lparr>ad_queue := c # ad_queue a\<rparr>))"

section \<open>Draining\<close>

definition take_next :: "admission \<Rightarrow> command option \<times> admission" where
  "take_next a =
     (case ad_queue a of [] \<Rightarrow> (None, a) | c # cs \<Rightarrow> (Some c, a\<lparr>ad_queue := cs\<rparr>))"

definition take_next_if :: "(command \<Rightarrow> bool) \<Rightarrow> admission \<Rightarrow> command option \<times> admission" where
  "take_next_if allowed a =
     (case ad_queue a of [] \<Rightarrow> (None, a)
      | c # cs \<Rightarrow> if allowed c then (Some c, a\<lparr>ad_queue := cs\<rparr>) else (None, a))"

text \<open>\<open>None\<close>: no work at all; \<open>Some None\<close>: work whose head is not a checkpoint.\<close>

definition take_checkpoint_if_any_work :: "admission \<Rightarrow> command option option \<times> admission" where
  "take_checkpoint_if_any_work a =
     (if ad_queue a = [] then (None, a)
      else case take_next_if is_checkpoint a of (c, a) \<Rightarrow> (Some c, a))"

definition take_next_output_while_serving :: "admission \<Rightarrow> command option \<times> admission" where
  "take_next_output_while_serving a =
     (let s = queue_status a in
      if ps_failure s \<noteq> None \<or> ps_residency s \<in> {Failed, Closing, Closed} then (None, a)
      else take_next_if is_output a)"

section \<open>Parking, restoring, control\<close>

definition queue_begin_park :: "admission \<Rightarrow> duration \<Rightarrow> park_start \<times> admission" where
  "queue_begin_park a now =
     (if ad_queue a \<noteq> [] then (ParkBusy, a)
      else case begin_park (ad_policy a) now of
        Ok (attempt, p) \<Rightarrow> (ParkReady attempt, a\<lparr>ad_policy := p\<rparr>)
      | Err _ \<Rightarrow> (ParkNotDue, a))"

definition queue_commit_park :: "admission \<Rightarrow> park_attempt \<Rightarrow> bool \<times> admission" where
  "queue_commit_park a attempt =
     (case commit_park (ad_policy a) attempt (ad_queue a = []) of (b, p) \<Rightarrow> (b, a\<lparr>ad_policy := p\<rparr>))"

definition queue_park_failed :: "admission \<Rightarrow> projection_error \<Rightarrow> duration \<Rightarrow> admission" where
  "queue_park_failed a e now = a\<lparr>ad_policy := park_failed (ad_policy a) e now\<rparr>"

definition park_outcome_uncertain :: "admission \<Rightarrow> projection_error \<Rightarrow> duration \<Rightarrow> admission" where
  "park_outcome_uncertain a e now =
     a\<lparr>ad_unreclaimed_failure := Some e, ad_policy := park_failed (ad_policy a) e now\<rparr>"

definition queue_maintenance_failed :: "admission \<Rightarrow> projection_error \<Rightarrow> admission" where
  "queue_maintenance_failed a e =
     a\<lparr>ad_cleanup_failure := Some e, ad_policy := maintenance_failed (ad_policy a) e\<rparr>"

definition queue_begin_restore :: "admission \<Rightarrow> (projection_error, admission) result" where
  "queue_begin_restore a = bind_result (begin_restore (ad_policy a)) (\<lambda>p. Ok (a\<lparr>ad_policy := p\<rparr>))"

definition record_restoration_progress ::
  "admission \<Rightarrow> restoration_progress \<Rightarrow> (projection_error, admission) result" where
  "record_restoration_progress a r =
     bind_result (policy_restoration_progress (ad_policy a) r) (\<lambda>p. Ok (a\<lparr>ad_policy := p\<rparr>))"

definition queue_record_control_applied ::
  "admission \<Rightarrow> control_generation \<Rightarrow> (projection_error, admission) result" where
  "queue_record_control_applied a g =
     bind_result (record_control_applied (ad_policy a) g) (\<lambda>p. Ok (a\<lparr>ad_policy := p\<rparr>))"

definition queue_record_processed :: "admission \<Rightarrow> usize \<Rightarrow> (projection_error, admission) result" where
  "queue_record_processed a n =
     bind_result (record_processed (ad_policy a) n) (\<lambda>p. Ok (a\<lparr>ad_policy := p\<rparr>))"

section \<open>Stream end\<close>

definition record_process_exit :: "admission \<Rightarrow> bool \<times> admission" where
  "record_process_exit a =
     (if ad_process_exit_queued a \<or> \<not> is_ok (check_accepting a) then (False, a)
      else (True, a\<lparr>ad_process_exit_queued := True, ad_queue := ad_queue a @ [CmdProcessExited]\<rparr>))"

definition queue_record_drain :: "admission \<Rightarrow> drain_outcome \<Rightarrow> projection_error option \<times> admission" where
  "queue_record_drain a d =
     (let a = (if ad_output_drain a = None then a\<lparr>ad_output_drain := Some d\<rparr> else a)
      in (ps_failure (queue_status a), a))"

fun extends_stream :: "command \<Rightarrow> bool" where
  "extends_stream (CmdOutput _ _) = True"
| "extends_stream (CmdResize _ _ _) = True"
| "extends_stream CmdProcessExited = True"
| "extends_stream _ = False"

definition settled_drain :: "admission \<Rightarrow> bool \<Rightarrow> drain_outcome option" where
  "settled_drain a engine_idle =
     (let s = queue_status a in
      if ad_output_drain a \<noteq> None \<and> engine_idle \<and> ps_residency s \<notin> {Restoring, Usable}
         \<and> \<not> list_ex extends_stream (ad_queue a) \<and> ps_processed s = ps_published s \<and> ps_failure s = None
      then ad_output_drain a else None)"

section \<open>Failure and cleanup\<close>

definition queue_fail :: "admission \<Rightarrow> projection_error \<Rightarrow> command list \<times> drain_outcome option \<times> admission" where
  "queue_fail a e =
     (filter (\<lambda>c. \<not> is_output c) (ad_queue a), ad_output_drain a,
      a\<lparr>ad_policy := policy_fail (ad_policy a) e, ad_queue := filter is_output (ad_queue a)\<rparr>)"

definition request_close :: "admission \<Rightarrow> ticket_id option \<Rightarrow> close_request \<times> admission" where
  "request_close a waiter =
     (if ad_residency a = Closed then (AlreadyClosed (outcome_of (ad_cleanup_failure a)), a)
      else (CloseStarted (ad_queue a),
            a\<lparr>ad_policy := policy_close (ad_policy a), ad_cleanup_failure := None,
              ad_retry_cleanup := True,
              ad_close_waiters := (case waiter of None \<Rightarrow> ad_close_waiters a | Some w \<Rightarrow> ad_close_waiters a @ [w]),
              ad_queue := []\<rparr>))"

definition mark_failed :: "admission \<Rightarrow> projection_error \<Rightarrow> admission" where
  "mark_failed a e = a\<lparr>ad_policy := policy_fail (ad_policy a) e\<rparr>"

definition take_cleanup_retry :: "admission \<Rightarrow> projection_error option \<times> bool \<times> admission" where
  "take_cleanup_retry a = (ad_cleanup_failure a, ad_retry_cleanup a, a\<lparr>ad_retry_cleanup := False\<rparr>)"

definition finish_close ::
  "admission \<Rightarrow> projection_error option \<Rightarrow> ticket_id list \<times> projection_error option \<times> admission" where
  "finish_close a failed =
     (let failed = (case failed of Some e \<Rightarrow> Some e | None \<Rightarrow> ad_unreclaimed_failure a);
          p = (case failed of None \<Rightarrow> ad_policy a | Some e \<Rightarrow> cleanup_failed (ad_policy a) e)
      in (ad_close_waiters a, failed,
          a\<lparr>ad_cleanup_failure := failed, ad_policy := mark_closed p, ad_close_waiters := []\<rparr>))"

definition abandon_close :: "admission \<Rightarrow> command list \<times> admission" where
  "abandon_close a =
     (ad_queue a, a\<lparr>ad_policy := policy_close (ad_policy a), ad_cleanup_failure := Some JWorker, ad_queue := []\<rparr>)"

definition abandon_waiters :: "admission \<Rightarrow> ticket_id list \<times> admission" where
  "abandon_waiters a =
     (ad_close_waiters a,
      a\<lparr>ad_policy := mark_closed (cleanup_failed (ad_policy a) JWorker), ad_close_waiters := []\<rparr>)"

section \<open>The closures of the callers\<close>

text \<open>
  \<open>stage_accept\<close> is the closure of \<open>stage_output_observed\<close>
  (\<^verbatim>\<open>crates/application/src/projection/admission.rs\<close>): \<open>lease\<close> is the staging reservation
  obtained under the lock, if any, and \<open>alloc\<close> whether the copy could be allocated.
\<close>

definition stage_accept ::
  "usize \<Rightarrow> bytes \<Rightarrow> staging_lease option \<Rightarrow> bool \<Rightarrow> duration \<Rightarrow> admission \<Rightarrow> output_admission \<times> admission" where
  "stage_accept feed_bytes bs lease alloc now a =
     (if is_closed_residency (ad_residency a) then (AdmitRejected OutClosed, a)
      else if is_draining a then (AdmitRejected OutClosed, a)
      else if bs = [] then (AdmitNothing, a)
      else if length bs > unat feed_bytes then (AdmitRejected OutBackpressure, a)
      else case lease of
        None \<Rightarrow> (AdmitRejected OutBackpressure, a)
      | Some lease \<Rightarrow>
          if \<not> alloc then (AdmitRejected OutBackpressure, a)
          else case admit_output_bytes a (len_u64 bs) now of
            Err _ \<Rightarrow> (AdmitRejected OutClosed, a)
          | Ok a \<Rightarrow> (AdmitQueue (CmdOutput bs lease), a))"

definition resize_build ::
  "terminal_size \<Rightarrow> ticket_id \<Rightarrow> staging_lease \<Rightarrow> duration \<Rightarrow> admission
    \<Rightarrow> (projection_error, command \<times> admission) result" where
  "resize_build sz t lease now a =
     (if is_draining a then Err JClosed
      else bind_result (admitting_record_activity a now) (\<lambda>a. Ok (CmdResize sz t lease, a)))"

definition view_build ::
  "ticket_id \<Rightarrow> staging_lease \<Rightarrow> admission \<Rightarrow> (projection_error, command \<times> admission) result" where
  "view_build t lease a = Ok (CmdView t lease, a)"

definition checkpoint_build ::
  "snapshot_request \<Rightarrow> staging_lease \<Rightarrow> admission \<Rightarrow> (projection_error, command \<times> admission) result" where
  "checkpoint_build r lease a = Ok (CmdCheckpoint r lease, a)"

section \<open>Interleavings\<close>

record queue_sys =
  aq_adm :: admission
  aq_hand :: "command option"
  aq_accepted :: bytes
  aq_processed :: bytes

definition command_bytes :: "command \<Rightarrow> bytes" where
  "command_bytes c = (case c of CmdOutput bs _ \<Rightarrow> bs | _ \<Rightarrow> [])"

definition hand_bytes :: "command option \<Rightarrow> bytes" where
  "hand_bytes h = (case h of None \<Rightarrow> [] | Some c \<Rightarrow> command_bytes c)"

definition queue_bytes :: "command list \<Rightarrow> bytes" where
  "queue_bytes cs = concat (map command_bytes cs)"

text \<open>
  One operation by anyone.  A caller may admit output or a control, record exit or drain,
  fail or close at any time.  The worker takes a command only with an empty hand, and ends
  it by recording its bytes as processed, putting it back, or (for a command without bytes)
  finishing it; once the projection is closing, an output command in hand may be given up.
  Parking decisions are made with an empty hand, and cleanup runs only while closing.
\<close>

inductive queue_step :: "queue_sys \<Rightarrow> queue_sys \<Rightarrow> bool" where
  step_output:
    "queue_admit_output (stage_accept feed bs lease alloc now) (aq_adm s) = (OutQueued, a)
     \<Longrightarrow> queue_step s (s\<lparr>aq_adm := a, aq_accepted := aq_accepted s @ bs\<rparr>)"
| step_output_refused:
    "queue_admit_output (stage_accept feed bs lease alloc now) (aq_adm s) = (r, a) \<Longrightarrow> r \<noteq> OutQueued
     \<Longrightarrow> queue_step s (s\<lparr>aq_adm := a\<rparr>)"
| step_control:
    "queue_admit build (aq_adm s) = Ok a
     \<Longrightarrow> build = resize_build sz t lease now \<or> build = view_build t lease \<or> build = checkpoint_build r lease
     \<Longrightarrow> queue_step s (s\<lparr>aq_adm := a\<rparr>)"
| step_exit: "record_process_exit (aq_adm s) = (b, a) \<Longrightarrow> queue_step s (s\<lparr>aq_adm := a\<rparr>)"
| step_drain: "queue_record_drain (aq_adm s) d = (e, a) \<Longrightarrow> queue_step s (s\<lparr>aq_adm := a\<rparr>)"
| step_take:
    "aq_hand s = None
     \<Longrightarrow> take_next (aq_adm s) = (Some c, a) \<or> take_next_if P (aq_adm s) = (Some c, a)
         \<or> take_next_output_while_serving (aq_adm s) = (Some c, a)
         \<or> take_checkpoint_if_any_work (aq_adm s) = (Some (Some c), a)
     \<Longrightarrow> queue_step s (s\<lparr>aq_adm := a, aq_hand := Some c\<rparr>)"
| step_requeue:
    "aq_hand s = Some c \<Longrightarrow> queue_requeue c (aq_adm s) = (r, a)
     \<Longrightarrow> queue_step s (s\<lparr>aq_adm := a, aq_hand := None\<rparr>)"
| step_done: "aq_hand s = Some c \<Longrightarrow> \<not> is_output c \<Longrightarrow> queue_step s (s\<lparr>aq_hand := None\<rparr>)"
| step_processed:
    "aq_hand s = Some (CmdOutput bs lease) \<Longrightarrow> queue_record_processed (aq_adm s) (len_u64 bs) = Ok a
     \<Longrightarrow> queue_step s (s\<lparr>aq_adm := a, aq_hand := None, aq_processed := aq_processed s @ bs\<rparr>)"
| step_begin_park:
    "aq_hand s = None \<Longrightarrow> queue_begin_park (aq_adm s) now = (r, a) \<Longrightarrow> queue_step s (s\<lparr>aq_adm := a\<rparr>)"
| step_commit_park:
    "aq_hand s = None \<Longrightarrow> queue_commit_park (aq_adm s) attempt = (b, a) \<Longrightarrow> queue_step s (s\<lparr>aq_adm := a\<rparr>)"
| step_park_failed: "queue_step s (s\<lparr>aq_adm := queue_park_failed (aq_adm s) e now\<rparr>)"
| step_park_uncertain: "queue_step s (s\<lparr>aq_adm := park_outcome_uncertain (aq_adm s) e now\<rparr>)"
| step_maintenance: "queue_step s (s\<lparr>aq_adm := queue_maintenance_failed (aq_adm s) e\<rparr>)"
| step_restore: "queue_begin_restore (aq_adm s) = Ok a \<Longrightarrow> queue_step s (s\<lparr>aq_adm := a\<rparr>)"
| step_progress: "record_restoration_progress (aq_adm s) r = Ok a \<Longrightarrow> queue_step s (s\<lparr>aq_adm := a\<rparr>)"
| step_controlled: "queue_record_control_applied (aq_adm s) g = Ok a \<Longrightarrow> queue_step s (s\<lparr>aq_adm := a\<rparr>)"
| step_fail: "queue_fail (aq_adm s) e = (cs, d, a) \<Longrightarrow> queue_step s (s\<lparr>aq_adm := a\<rparr>)"
| step_mark_failed: "queue_step s (s\<lparr>aq_adm := mark_failed (aq_adm s) e\<rparr>)"
| step_close: "request_close (aq_adm s) w = (r, a) \<Longrightarrow> queue_step s (s\<lparr>aq_adm := a\<rparr>)"
| step_cleanup_retry: "take_cleanup_retry (aq_adm s) = (e, b, a) \<Longrightarrow> queue_step s (s\<lparr>aq_adm := a\<rparr>)"
| step_finish_close:
    "is_closed_residency (ad_residency (aq_adm s)) \<Longrightarrow> finish_close (aq_adm s) e = (ws, f, a)
     \<Longrightarrow> queue_step s (s\<lparr>aq_adm := a\<rparr>)"
| step_abandon: "abandon_close (aq_adm s) = (cs, a) \<Longrightarrow> queue_step s (s\<lparr>aq_adm := a\<rparr>)"
| step_abandon_waiters:
    "is_closed_residency (ad_residency (aq_adm s)) \<Longrightarrow> abandon_waiters (aq_adm s) = (ws, a)
     \<Longrightarrow> queue_step s (s\<lparr>aq_adm := a\<rparr>)"

abbreviation queue_steps :: "queue_sys \<Rightarrow> queue_sys \<Rightarrow> bool" where
  "queue_steps \<equiv> queue_step\<^sup>*\<^sup>*"

definition queue_sys_new :: "projection_policy \<Rightarrow> queue_sys" where
  "queue_sys_new p = \<lparr>aq_adm = admission_new p, aq_hand = None, aq_accepted = [], aq_processed = []\<rparr>"

section \<open>The byte ledger\<close>

definition ad_published :: "admission \<Rightarrow> u64" where
  "ad_published a = rc_offset (ps_published (queue_status a))"

definition ad_processed :: "admission \<Rightarrow> u64" where
  "ad_processed a = rc_offset (ps_processed (queue_status a))"

abbreviation ad_closed :: "admission \<Rightarrow> bool" where
  "ad_closed a \<equiv> is_closed_residency (ad_residency a)"

definition queue_inv :: "session_lifetime \<Rightarrow> queue_sys \<Rightarrow> bool" where
  "queue_inv l s \<longleftrightarrow>
     policy_inv l (ad_policy (aq_adm s)) \<and>
     (ad_closed (aq_adm s) \<longrightarrow> ad_queue (aq_adm s) = []) \<and>
     unat (ad_published (aq_adm s)) = length (aq_accepted s) \<and>
     unat (ad_processed (aq_adm s)) = length (aq_processed s) \<and>
     (\<exists>rest. aq_accepted s = aq_processed s @ hand_bytes (aq_hand s) @ rest \<and>
        (\<not> ad_closed (aq_adm s) \<longrightarrow> rest = queue_bytes (ad_queue (aq_adm s))))"

lemma queue_bytes_simps [simp]:
  "queue_bytes [] = []" "queue_bytes (c # cs) = command_bytes c @ queue_bytes cs"
  "queue_bytes (xs @ ys) = queue_bytes xs @ queue_bytes ys"
  by (simp_all add: queue_bytes_def)

lemma hand_bytes_simps [simp]: "hand_bytes None = []" "hand_bytes (Some c) = command_bytes c"
  by (simp_all add: hand_bytes_def)

lemma not_output_bytes [simp]: "\<not> is_output c \<Longrightarrow> command_bytes c = []"
  by (cases c) (auto simp: command_bytes_def)

lemma queue_bytes_filter [simp]: "queue_bytes (filter is_output cs) = queue_bytes cs"
  by (induction cs) auto

text \<open>What an operation keeps when it moves no position and no byte.\<close>

definition moves_nothing :: "admission \<Rightarrow> admission \<Rightarrow> bool" where
  "moves_nothing a b \<longleftrightarrow>
     (\<forall>l. policy_keeps l (ad_policy a) (ad_policy b)) \<and>
     ad_published b = ad_published a \<and> ad_processed b = ad_processed a \<and>
     (ad_closed a \<longrightarrow> ad_closed b) \<and>
     (if ad_closed b then ad_closed a \<and> (ad_queue a = [] \<longrightarrow> ad_queue b = []) \<or> ad_queue b = []
      else queue_bytes (ad_queue b) = queue_bytes (ad_queue a))"

lemma moves_nothing_inv:
  assumes "queue_inv l s" "moves_nothing (aq_adm s) a"
  shows "queue_inv l (s\<lparr>aq_adm := a\<rparr>)"
  using assms by (auto simp: queue_inv_def moves_nothing_def policy_keeps_def split: if_splits)

lemma moves_refl [simp]: "moves_nothing a a"
  by (simp add: moves_nothing_def policy_keeps_def)

lemma moves_policy:
  assumes "\<And>l. policy_keeps l (ad_policy a) p"
    "ps_published (pp_status p) = ps_published (queue_status a)"
    "ps_processed (pp_status p) = ps_processed (queue_status a)"
    "is_closed_residency (pp_residency p) = ad_closed a"
  shows "moves_nothing a (a\<lparr>ad_policy := p\<rparr>)"
  using assms by (simp add: moves_nothing_def ad_published_def ad_processed_def queue_status_def)

lemma moves_begin_park:
  "queue_begin_park a now = (r, b) \<Longrightarrow> moves_nothing a b"
proof -
  assume b: "queue_begin_park a now = (r, b)"
  have "moves_nothing a (a\<lparr>ad_policy := p\<rparr>)" if "begin_park (ad_policy a) now = Ok (t, p)" for t p
    using that begin_park_keeps [OF that]
    by (intro moves_policy)
      (auto simp: begin_park_def park_delay_def map_status_def queue_status_def is_closed_residency_def
        bind_result_Ok_iff split: if_splits)
  then show ?thesis using b by (auto simp: queue_begin_park_def split: if_splits sum.splits)
qed

lemma moves_commit_park: "queue_commit_park a t = (b, c) \<Longrightarrow> moves_nothing a c"
  using commit_park_keeps [of _ "ad_policy a" t "ad_queue a = []"]
  by (auto simp: queue_commit_park_def commit_park_def Let_def map_status_def queue_status_def
      is_closed_residency_def split: if_splits intro!: moves_policy)

lemma moves_park_failed: "moves_nothing a (queue_park_failed a e now)"
  using park_failed_keeps [of _ "ad_policy a" e now]
  by (auto simp: queue_park_failed_def park_failed_def Let_def map_status_def queue_status_def
      is_closed_residency_def intro!: moves_policy)

lemma moves_push:
  assumes "moves_nothing a b" "command_bytes c = []" "\<not> ad_closed a" "ad_closed b = ad_closed a"
  shows "moves_nothing a (b\<lparr>ad_queue := ad_queue b @ [c]\<rparr>)"
  using assms by (auto simp: moves_nothing_def ad_published_def ad_processed_def queue_status_def)

lemma moves_bind:
  assumes "bind_result (f (ad_policy a)) (\<lambda>p. Ok (a\<lparr>ad_policy := p\<rparr>)) = Ok b"
    "\<And>l p. f (ad_policy a) = Ok p \<Longrightarrow> policy_keeps l (ad_policy a) p"
    "\<And>p. f (ad_policy a) = Ok p \<Longrightarrow> ps_published (pp_status p) = ps_published (queue_status a)
       \<and> ps_processed (pp_status p) = ps_processed (queue_status a)
       \<and> is_closed_residency (pp_residency p) = ad_closed a"
  shows "moves_nothing a b \<and> ad_closed b = ad_closed a"
proof -
  obtain p where p: "f (ad_policy a) = Ok p" "b = a\<lparr>ad_policy := p\<rparr>"
    using assms(1) by (auto simp: bind_result_Ok_iff)
  show ?thesis unfolding p(2) using moves_policy [of a p, OF assms(2) [OF p(1)]] assms(3) [OF p(1)] by simp
qed

lemma moves_activity:
  "admitting_record_activity a now = Ok b \<Longrightarrow> moves_nothing a b \<and> ad_closed b = ad_closed a"
  unfolding admitting_record_activity_def
  by (erule moves_bind [where f = "\<lambda>p. record_activity p now"])
    (auto simp: record_activity_keeps, auto simp: record_activity_def queue_status_def bind_result_Ok_iff split: if_splits)

lemma moves_control:
  assumes "queue_admit build a = Ok b"
    "build = resize_build sz t lease now \<or> build = view_build t lease \<or> build = checkpoint_build r lease"
  shows "moves_nothing a b"
proof -
  obtain c d where open_a: "\<not> ad_closed a" and build: "build a = Ok (c, d)"
    and b: "b = d\<lparr>ad_queue := ad_queue d @ [c]\<rparr>"
    using assms(1) by (auto simp: queue_admit_def bind_result_Ok_iff check_accepting_def split: if_splits)
  have "moves_nothing a d \<and> ad_closed d = ad_closed a \<and> command_bytes c = []"
    using assms(2) build moves_activity [of a now d]
    by (auto simp: resize_build_def view_build_def checkpoint_build_def bind_result_Ok_iff
        command_bytes_def split: if_splits)
  then show ?thesis unfolding b using open_a by (intro moves_push) auto
qed

lemma moves_exit: "record_process_exit a = (r, b) \<Longrightarrow> moves_nothing a b"
  by (auto simp: record_process_exit_def check_accepting_def moves_nothing_def policy_keeps_def
      command_bytes_def ad_published_def ad_processed_def queue_status_def is_ok_iff split: if_splits)

lemma moves_drain: "queue_record_drain a d = (r, b) \<Longrightarrow> moves_nothing a b"
  by (auto simp: queue_record_drain_def Let_def moves_nothing_def policy_keeps_def
      ad_published_def ad_processed_def queue_status_def split: if_splits)

lemma moves_uncertain: "moves_nothing a (park_outcome_uncertain a e now)"
proof -
  have "park_outcome_uncertain a e now = (queue_park_failed a e now)\<lparr>ad_unreclaimed_failure := Some e\<rparr>"
    by (simp add: park_outcome_uncertain_def queue_park_failed_def)
  with moves_park_failed [of a e now] show ?thesis
    by (simp add: moves_nothing_def ad_published_def ad_processed_def queue_status_def)
qed

lemma moves_maintenance: "moves_nothing a (queue_maintenance_failed a e)"
  using total_ops_keep(3) [of _ "ad_policy a" e]
  by (auto simp: queue_maintenance_failed_def maintenance_failed_def map_status_def moves_nothing_def
      ad_published_def ad_processed_def queue_status_def)

lemma moves_restore: "queue_begin_restore a = Ok b \<Longrightarrow> moves_nothing a b"
  unfolding queue_begin_restore_def
  by (rule moves_bind [where f = begin_restore, THEN conjunct1], assumption)
    (auto simp: begin_restore_keeps, auto simp: begin_restore_def require_restoration_source_def map_status_def
      queue_status_def is_closed_residency_def bind_result_Ok_iff split: if_splits option.splits)

lemma moves_progress: "record_restoration_progress a r = Ok b \<Longrightarrow> moves_nothing a b"
  unfolding record_restoration_progress_def
  by (rule moves_bind [where f = "\<lambda>p. policy_restoration_progress p r", THEN conjunct1], assumption)
    (auto simp: restoration_keeps, auto simp: policy_restoration_progress_def require_restoration_source_def
      map_status_def queue_status_def is_closed_residency_def bind_result_Ok_iff split: if_splits option.splits)

lemma moves_controlled: "queue_record_control_applied a g = Ok b \<Longrightarrow> moves_nothing a b"
  unfolding queue_record_control_applied_def
  by (rule moves_bind [where f = "\<lambda>p. record_control_applied p g", THEN conjunct1], assumption)
    (auto simp: record_control_keeps, auto simp: record_control_applied_def map_status_def queue_status_def
      split: if_splits)

lemma moves_fail: "queue_fail a e = (cs, d, b) \<Longrightarrow> moves_nothing a b"
  using total_ops_keep(1) [of _ "ad_policy a" e]
  by (cases "ad_closed a") (auto simp: queue_fail_def policy_fail_def map_status_def moves_nothing_def
      ad_published_def ad_processed_def queue_status_def is_closed_residency_def)

lemma moves_mark_failed: "moves_nothing a (mark_failed a e)"
  using total_ops_keep(1) [of _ "ad_policy a" e]
  by (cases "ad_closed a") (auto simp: mark_failed_def policy_fail_def map_status_def moves_nothing_def
      ad_published_def ad_processed_def queue_status_def is_closed_residency_def)

lemma moves_close: "request_close a w = (r, b) \<Longrightarrow> moves_nothing a b"
  using total_ops_keep(2) [of _ "ad_policy a"]
  by (auto simp: request_close_def policy_close_def map_status_def moves_nothing_def policy_keeps_def
      ad_published_def ad_processed_def queue_status_def is_closed_residency_def split: if_splits)

lemma moves_abandon: "abandon_close a = (cs, b) \<Longrightarrow> moves_nothing a b"
  using total_ops_keep(2) [of _ "ad_policy a"]
  by (cases "ad_residency a = Closed") (auto simp: abandon_close_def policy_close_def map_status_def
      moves_nothing_def ad_published_def ad_processed_def queue_status_def is_closed_residency_def)

lemma moves_cleanup_retry: "take_cleanup_retry a = (e, r, b) \<Longrightarrow> moves_nothing a b"
  by (auto simp: take_cleanup_retry_def moves_nothing_def policy_keeps_def ad_published_def
      ad_processed_def queue_status_def)

lemma keeps_mark_closed:
  "policy_keeps l p (mark_closed p)" "policy_keeps l p (mark_closed (cleanup_failed p e))"
  by (simp_all add: mark_closed_def cleanup_failed_def map_status_def policy_keeps_def policy_inv_def)

lemma moves_finish_close: "ad_closed a \<Longrightarrow> finish_close a e = (ws, f, b) \<Longrightarrow> moves_nothing a b"
  using keeps_mark_closed [of _ "ad_policy a"]
  by (auto simp: finish_close_def Let_def mark_closed_def cleanup_failed_def map_status_def moves_nothing_def
      ad_published_def ad_processed_def queue_status_def is_closed_residency_def split: option.splits)

lemma moves_abandon_waiters: "ad_closed a \<Longrightarrow> abandon_waiters a = (ws, b) \<Longrightarrow> moves_nothing a b"
  using keeps_mark_closed [of _ "ad_policy a"]
  by (auto simp: abandon_waiters_def mark_closed_def cleanup_failed_def map_status_def moves_nothing_def
      ad_published_def ad_processed_def queue_status_def is_closed_residency_def)

lemmas moves_rules = moves_begin_park moves_commit_park moves_park_failed moves_control moves_exit
  moves_drain moves_uncertain moves_maintenance moves_restore moves_progress moves_controlled
  moves_fail moves_mark_failed moves_close moves_abandon moves_cleanup_retry moves_finish_close
  moves_abandon_waiters

text \<open>The three operations that do move bytes.\<close>

lemma admit_output_positions:
  assumes "admit_output p n now = Ok q"
  shows "unat (rc_offset (ps_published (pp_status q))) = unat (rc_offset (ps_published (pp_status p))) + unat n"
    "ps_processed (pp_status q) = ps_processed (pp_status p)" "pp_residency q = pp_residency p"
    "\<not> is_closed_residency (pp_residency p)"
  using assms checked_add_unat
  by (auto simp: admit_output_def record_activity_def map_status_def bind_result_Ok_iff split: if_splits)

lemma stage_accept_queued:
  assumes "queue_admit_output (stage_accept feed bs lease alloc now) a = (OutQueued, b)"
  obtains k p where "lease = Some k" "b = a\<lparr>ad_policy := p, ad_queue := ad_queue a @ [CmdOutput bs k]\<rparr>"
    "admit_output (ad_policy a) (len_u64 bs) now = Ok p" "length bs < 2 ^ 64" "bs \<noteq> []" "\<not> ad_closed a"
    "\<not> is_draining a"
proof -
  have "length bs < 2 ^ 64" if "\<not> length bs > unat feed"
    using that unat_u64_less [of feed] by linarith
  with assms that show thesis
    by (auto simp: queue_admit_output_def stage_accept_def admit_output_bytes_def bind_result_Ok_iff
        split: if_splits option.splits sum.splits)
qed

lemma stage_accept_refused:
  "queue_admit_output (stage_accept feed bs lease alloc now) a = (r, b) \<Longrightarrow> r \<noteq> OutQueued \<Longrightarrow> b = a"
  by (auto simp: queue_admit_output_def stage_accept_def split: if_splits option.splits sum.splits)

lemma output_inv:
  assumes "queue_inv l s" "queue_admit_output (stage_accept feed bs lease alloc now) (aq_adm s) = (OutQueued, a)"
  shows "queue_inv l (s\<lparr>aq_adm := a, aq_accepted := aq_accepted s @ bs\<rparr>)"
proof -
  from assms(2) obtain k p where a: "a = (aq_adm s)\<lparr>ad_policy := p, ad_queue := ad_queue (aq_adm s) @ [CmdOutput bs k]\<rparr>"
    and p: "admit_output (ad_policy (aq_adm s)) (len_u64 bs) now = Ok p" and n: "length bs < 2 ^ 64"
    and o: "\<not> ad_closed (aq_adm s)" by (rule stage_accept_queued)
  have "unat (len_u64 bs) = length bs" using n by (simp add: len_u64_def unat_of_nat_u64)
  with assms(1) admit_output_positions [OF p] admit_output_keeps [OF p, of l] o show ?thesis
    by (auto simp: a queue_inv_def policy_keeps_def ad_published_def ad_processed_def queue_status_def
        command_bytes_def)
qed

lemma taken_from_head:
  assumes "take_next a = (Some c, b) \<or> take_next_if P a = (Some c, b)
    \<or> take_next_output_while_serving a = (Some c, b) \<or> take_checkpoint_if_any_work a = (Some (Some c), b)"
  shows "ad_queue a = c # ad_queue b \<and> b = a\<lparr>ad_queue := ad_queue b\<rparr>"
  using assms
  by (auto simp: take_next_def take_next_if_def take_next_output_while_serving_def
      take_checkpoint_if_any_work_def Let_def split: list.splits if_splits prod.splits)

lemma take_inv:
  assumes "queue_inv l s" "aq_hand s = None" "ad_queue (aq_adm s) = c # ad_queue a \<and> a = (aq_adm s)\<lparr>ad_queue := ad_queue a\<rparr>"
  shows "queue_inv l (s\<lparr>aq_adm := a, aq_hand := Some c\<rparr>)"
proof -
  obtain q where a: "a = (aq_adm s)\<lparr>ad_queue := q\<rparr>" "ad_queue (aq_adm s) = c # q" using assms(3) by metis
  have "\<not> ad_closed (aq_adm s)" using assms(1) a by (auto simp: queue_inv_def)
  with assms(1,2) a show ?thesis
    by (auto simp: queue_inv_def ad_published_def ad_processed_def queue_status_def)
qed

lemma requeue_inv:
  assumes "queue_inv l s" "aq_hand s = Some c" "queue_requeue c (aq_adm s) = (r, a)"
  shows "queue_inv l (s\<lparr>aq_adm := a, aq_hand := None\<rparr>)"
  using assms by (auto simp: queue_inv_def queue_requeue_def ad_published_def ad_processed_def
      queue_status_def split: if_splits)

lemma processed_inv:
  assumes "queue_inv l s" "aq_hand s = Some (CmdOutput bs k)" "queue_record_processed (aq_adm s) (len_u64 bs) = Ok a"
  shows "queue_inv l (s\<lparr>aq_adm := a, aq_hand := None, aq_processed := aq_processed s @ bs\<rparr>)"
proof -
  obtain p where p: "record_processed (ad_policy (aq_adm s)) (len_u64 bs) = Ok p" "a = (aq_adm s)\<lparr>ad_policy := p\<rparr>"
    using assms(3) by (auto simp: queue_record_processed_def bind_result_Ok_iff)
  have "length bs \<le> length (aq_accepted s)" using assms(1,2) by (auto simp: queue_inv_def command_bytes_def)
  also have "\<dots> < 2 ^ 64" using assms(1) unat_u64_less by (metis queue_inv_def)
  finally have n: "unat (len_u64 bs) = length bs" by (simp add: len_u64_def unat_of_nat_u64)
  have pos: "unat (rc_offset (ps_processed (pp_status p))) = unat (rc_offset (ps_processed (queue_status (aq_adm s)))) + length bs"
    "ps_published (pp_status p) = ps_published (queue_status (aq_adm s))" "pp_residency p = ad_residency (aq_adm s)"
    using p(1) n
    by (auto simp: record_processed_def map_status_def queue_status_def bind_result_Ok_iff
        dest!: checked_add_unat split: if_splits)
  from assms(1) have inv: "policy_inv l p" using record_processed_keeps [OF p(1), of l]
    by (simp add: queue_inv_def policy_keeps_def)
  with assms(1,2) pos show ?thesis
    by (auto simp: p(2) queue_inv_def ad_published_def ad_processed_def queue_status_def command_bytes_def)
qed

lemma queue_step_inv: "queue_step s t \<Longrightarrow> queue_inv l s \<Longrightarrow> queue_inv l t"
proof (induction rule: queue_step.induct)
  case (step_done s c)
  then show ?case by (auto simp: queue_inv_def)
next
  case (step_take s c a P)
  then show ?case using take_inv [OF _ step_take.hyps(1)] taken_from_head [OF step_take.hyps(2)] by blast
next
  case (step_output_refused feed bs lease alloc now s r a)
  then show ?case using stage_accept_refused by fastforce
qed (blast intro: moves_nothing_inv moves_rules output_inv requeue_inv processed_inv)+

lemma takes_keep_policy:
  "take_next a = (x, b) \<Longrightarrow> ad_policy b = ad_policy a" "take_next_if P a = (x, b) \<Longrightarrow> ad_policy b = ad_policy a"
  "take_next_output_while_serving a = (x, b) \<Longrightarrow> ad_policy b = ad_policy a"
  "take_checkpoint_if_any_work a = (y, b) \<Longrightarrow> ad_policy b = ad_policy a"
  "queue_requeue c a = (x, b) \<Longrightarrow> ad_policy b = ad_policy a"
  by (auto simp: take_next_def take_next_if_def take_next_output_while_serving_def take_checkpoint_if_any_work_def
      queue_requeue_def Let_def split: list.splits if_splits prod.splits)

lemma moves_closed: "moves_nothing a b \<Longrightarrow> ad_closed a \<Longrightarrow> ad_closed b"
  by (simp add: moves_nothing_def)

lemma queue_step_closed: "queue_step s t \<Longrightarrow> ad_closed (aq_adm s) \<Longrightarrow> ad_closed (aq_adm t)"
proof (induction rule: queue_step.induct)
  case (step_output feed bs lease alloc now s a)
  then show ?case by (auto simp: queue_admit_output_def stage_accept_def split: if_splits)
next
  case (step_output_refused feed bs lease alloc now s r a)
  then show ?case by (auto simp: queue_admit_output_def stage_accept_def)
next
  case (step_take s c a P)
  then show ?case using takes_keep_policy by fastforce
next
  case (step_requeue s c r a)
  then show ?case using takes_keep_policy(5) by fastforce
next
  case (step_processed s bs lease a)
  then show ?case
    by (auto simp: queue_record_processed_def record_processed_def map_status_def bind_result_Ok_iff split: if_splits)
qed (simp_all, (blast intro: moves_closed moves_rules)+)

lemma queue_steps_inv: "queue_steps s t \<Longrightarrow> queue_inv l s \<Longrightarrow> queue_inv l t"
  by (induction rule: rtranclp_induct) (auto intro: queue_step_inv)

lemma queue_new_inv: "policy_new cs l opt now = Ok p \<Longrightarrow> queue_inv l (queue_sys_new p)"
  using policy_new_inv
  by (fastforce simp: queue_inv_def queue_sys_new_def admission_new_def policy_new_def Let_def
      bind_result_Ok_iff ad_published_def ad_processed_def queue_status_def is_closed_residency_def)

section \<open>Properties\<close>

text \<open>
  No staged byte is lost, duplicated or reordered, whatever readers, observers, failures
  and the worker do between each other: until the projection closes, the accepted stream is
  exactly the processed bytes followed by the chunk in the worker's hand and the queued
  chunks, and the published and processed positions are the lengths of the two prefixes;
  after it closes the processed bytes are still a prefix of the accepted ones and nothing is
  queued.
\<close>

theorem staged_bytes_exact:
  assumes "policy_new cs l opt now = Ok p" "queue_steps (queue_sys_new p) s"
  shows "unat (ad_published (aq_adm s)) = length (aq_accepted s)
    \<and> unat (ad_processed (aq_adm s)) = length (aq_processed s)
    \<and> (if ad_closed (aq_adm s)
       then ad_queue (aq_adm s) = [] \<and> (\<exists>rest. aq_accepted s = aq_processed s @ rest)
       else aq_accepted s = aq_processed s @ hand_bytes (aq_hand s) @ queue_bytes (ad_queue (aq_adm s)))"
  using queue_steps_inv [OF assms(2) queue_new_inv [OF assms(1)]] by (auto simp: queue_inv_def)

text \<open>A concrete session: three bytes are staged and the worker takes them.\<close>

definition sample_lease :: staging_lease where
  "sample_lease = \<lparr>sl_bytes = Some 3, sl_slots = Some 1\<rparr>"

lemma sample_stage:
  obtains a where "queue_admit_output (stage_accept 4096 [1, 2, 3] (Some sample_lease) True 5) (admission_new sample_policy) = (OutQueued, a)"
    "ad_queue a = [CmdOutput [1, 2, 3] sample_lease]" "\<not> ad_closed a"
  by (simp add: queue_admit_output_def stage_accept_def admission_new_def sample_policy_def is_draining_def
      is_closed_residency_def admit_output_bytes_def admit_output_def record_activity_def checked_add_def
      len_u64_def map_status_def Let_def)

theorem staged_bytes_exact_witness:
  "\<exists>s. queue_steps (queue_sys_new sample_policy) s
     \<and> aq_hand s = Some (CmdOutput [1, 2, 3] sample_lease) \<and> aq_accepted s = [1, 2, 3]
     \<and> unat (ad_published (aq_adm s)) = 3 \<and> unat (ad_processed (aq_adm s)) = 0"
proof -
  obtain a where a: "queue_admit_output (stage_accept 4096 [1, 2, 3] (Some sample_lease) True 5) (admission_new sample_policy) = (OutQueued, a)"
    "ad_queue a = [CmdOutput [1, 2, 3] sample_lease]" "\<not> ad_closed a" by (rule sample_stage)
  let ?s0 = "queue_sys_new sample_policy"
  let ?s1 = "?s0\<lparr>aq_adm := a, aq_accepted := [1, 2, 3]\<rparr>"
  let ?s2 = "?s1\<lparr>aq_adm := a\<lparr>ad_queue := []\<rparr>, aq_hand := Some (CmdOutput [1, 2, 3] sample_lease)\<rparr>"
  have "queue_step ?s0 ?s1"
    using step_output [of 4096 "[1, 2, 3]" "Some sample_lease" True 5 ?s0 a] a(1) by (simp add: queue_sys_new_def)
  moreover have "queue_step ?s1 ?s2"
    using step_take [of ?s1 "CmdOutput [1, 2, 3] sample_lease" "a\<lparr>ad_queue := []\<rparr>"] a(2)
    by (simp add: queue_sys_new_def take_next_def)
  ultimately have r: "queue_steps ?s0 ?s2" by auto
  from staged_bytes_exact [OF sample_policy_new r] r a(3) show ?thesis
    by (intro exI [of _ ?s2]) (auto simp: queue_sys_new_def command_bytes_def)
qed

text \<open>
  C21. Releasing the native model loses nothing: whenever a park commits, every byte ever
  accepted has been processed, nothing is queued, and the attempt's saved position is the
  end of the accepted stream, under every interleaving since the attempt began.
\<close>

theorem park_commit_complete:
  assumes "policy_new cs l opt now = Ok p" "queue_steps (queue_sys_new p) s" "aq_hand s = None"
    "queue_commit_park (aq_adm s) attempt = (True, a)"
  shows "aq_processed s = aq_accepted s \<and> ad_queue a = [] \<and> ad_residency a = Parked
    \<and> unat (rc_offset (pa_processed attempt)) = length (aq_accepted s)"
proof -
  have inv: "queue_inv l s" by (rule queue_steps_inv [OF assms(2) queue_new_inv [OF assms(1)]])
  have c: "ad_residency (aq_adm s) = Parking" "ad_queue (aq_adm s) = []"
    "ps_processed (queue_status (aq_adm s)) = pa_processed attempt" "ad_queue a = []" "ad_residency a = Parked"
    using assms(4) by (auto simp: queue_commit_park_def commit_park_def Let_def map_status_def queue_status_def
        split: if_splits)
  with inv assms(3) show ?thesis
    by (auto simp: queue_inv_def ad_processed_def queue_status_def is_closed_residency_def)
qed

lemma sample_park_step:
  obtains t a b where "queue_step (queue_sys_new sample_policy) ((queue_sys_new sample_policy)\<lparr>aq_adm := a\<rparr>)"
    "queue_commit_park a t = (True, b)"
proof -
  let ?t = "\<lparr>pa_generation = 1, pa_activity = 0, pa_processed = cursor_at (lifetime_new 1 1) 0,
    pa_control_generation = control_initial\<rparr>"
  let ?p = "(map_status (\<lambda>s. s\<lparr>ps_residency := Parking\<rparr>) sample_policy)\<lparr>pp_operation := 1, pp_attempts := 1\<rparr>"
  let ?a = "(admission_new sample_policy)\<lparr>ad_policy := ?p\<rparr>"
  have "queue_begin_park (admission_new sample_policy) (from_secs 60) = (ParkReady ?t, ?a)"
    by (simp add: queue_begin_park_def admission_new_def sample_begin_park)
  then have "queue_step (queue_sys_new sample_policy) ((queue_sys_new sample_policy)\<lparr>aq_adm := ?a\<rparr>)"
    by (intro step_begin_park) (auto simp: queue_sys_new_def)
  moreover have c: "fst (queue_commit_park ?a ?t)"
    by (simp add: queue_commit_park_def commit_park_def admission_new_def map_status_def sample_policy_def)
  then obtain b where "queue_commit_park ?a ?t = (True, b)" by (cases "queue_commit_park ?a ?t") auto
  ultimately show thesis by (rule that)
qed

theorem park_commit_complete_witness:
  "\<exists>s t a. queue_steps (queue_sys_new sample_policy) s \<and> queue_commit_park (aq_adm s) t = (True, a)
     \<and> ad_residency a = Parked \<and> aq_processed s = aq_accepted s"
proof -
  obtain t a b where a: "queue_step (queue_sys_new sample_policy) ((queue_sys_new sample_policy)\<lparr>aq_adm := a\<rparr>)"
    "queue_commit_park a t = (True, b)" by (rule sample_park_step)
  let ?s = "(queue_sys_new sample_policy)\<lparr>aq_adm := a\<rparr>"
  have r: "queue_steps (queue_sys_new sample_policy) ?s" using a(1) by auto
  have c: "queue_commit_park (aq_adm ?s) t = (True, b)" "aq_hand ?s = None" using a(2) by (simp_all add: queue_sys_new_def)
  from park_commit_complete [OF sample_policy_new r c(2,1)] r c(1) show ?thesis by blast
qed

text \<open>
  The continuation is sealed only when nothing can extend it: a settled drain is the
  first outcome the reader reported, every accepted byte has been processed, no output,
  resize or exit is queued or was refused by failure, and no output can be admitted any
  more.
\<close>

theorem settled_drain_complete:
  assumes "policy_new cs l opt now = Ok p" "queue_steps (queue_sys_new p) s"
    "settled_drain (aq_adm s) idle = Some d" "\<not> ad_closed (aq_adm s)"
  shows "ad_output_drain (aq_adm s) = Some d \<and> aq_processed s = aq_accepted s \<and> idle
    \<and> filter extends_stream (ad_queue (aq_adm s)) = []
    \<and> fst (queue_admit_output (stage_accept feed bs lease alloc t) (aq_adm s)) = OutRejected OutClosed"
proof -
  have inv: "queue_inv l s" by (rule queue_steps_inv [OF assms(2) queue_new_inv [OF assms(1)]])
  have d: "ad_output_drain (aq_adm s) = Some d" "idle" "\<not> list_ex extends_stream (ad_queue (aq_adm s))"
    "ps_processed (queue_status (aq_adm s)) = ps_published (queue_status (aq_adm s))"
    using assms(3) by (auto simp: settled_drain_def Let_def split: if_splits)
  have "length (aq_processed s) = length (aq_accepted s)"
    using inv d(4) by (simp add: queue_inv_def ad_processed_def ad_published_def)
  moreover obtain rest where "aq_accepted s = aq_processed s @ rest" using inv by (auto simp: queue_inv_def)
  ultimately have "aq_processed s = aq_accepted s" by simp
  moreover have "filter extends_stream (ad_queue (aq_adm s)) = []"
    using d(3) by (auto simp: filter_empty_conv list_ex_iff)
  ultimately show ?thesis
    using d assms(4) by (simp add: queue_admit_output_def stage_accept_def is_draining_def)
qed

theorem settled_drain_complete_witness:
  "\<exists>s. queue_steps (queue_sys_new sample_policy) s \<and> settled_drain (aq_adm s) True = Some Eof
     \<and> aq_processed s = aq_accepted s"
proof -
  let ?init = "queue_sys_new sample_policy"
  let ?s = "?init\<lparr>aq_adm := (aq_adm ?init)\<lparr>ad_output_drain := Some Eof\<rparr>\<rparr>"
  have "queue_step ?init ?s"
    by (rule step_drain [where d = Eof])
      (simp add: queue_record_drain_def Let_def queue_sys_new_def admission_new_def queue_status_def)
  then have r: "queue_steps ?init ?s" by auto
  have d: "settled_drain (aq_adm ?s) True = Some Eof" "\<not> ad_closed (aq_adm ?s)"
    by (simp_all add: settled_drain_def queue_sys_new_def admission_new_def queue_status_def
        sample_policy_def is_closed_residency_def)
  from settled_drain_complete [OF sample_policy_new r d] r d(1) show ?thesis by blast
qed

end
