(* ===== verification/Checkpoint_Store.thy ===== *)
theory Checkpoint_Store
  imports Projection_Values
begin

text \<open>
  Protected checkpoint storage: the provider contract of \<open>ICheckpointStore\<close>
  (\<^verbatim>\<open>crates/application/src/checkpoint/mod.rs\<close>) as the locale \<open>checkpoint_provider\<close>, the
  file store that implements it (\<^verbatim>\<open>crates/infrastructure/src/checkpoint/file.rs\<close>), the
  protector (\<^verbatim>\<open>protector.rs\<close>) and the blocking jobs that use both
  (\<^verbatim>\<open>crates/application/src/projection/blocking.rs\<close>).

  The namespace directory is a map from names to contents.  What the operating system
  answers to each call of an operation is an argument, so every failure at every point is
  covered; the namespace itself is private to the store, as its documentation requires.  The
  cipher is external: its encryption and decryption are arguments.
\<close>

section \<open>The provider contract\<close>

text \<open>
  \<open>'e\<close> is what the environment answers during one call, \<open>holds s\<close> the committed objects
  by reference.
\<close>

locale checkpoint_provider =
  fixes commit :: "'e \<Rightarrow> 's \<Rightarrow> protected_checkpoint \<Rightarrow> (checkpoint_error, checkpoint_ref) result \<times> 's"
    and read :: "'e \<Rightarrow> 's \<Rightarrow> checkpoint_ref \<Rightarrow> usize \<Rightarrow> (checkpoint_error, protected_checkpoint) result"
    and delete :: "'e \<Rightarrow> 's \<Rightarrow> checkpoint_ref \<Rightarrow> (checkpoint_error, unit) result \<times> 's"
    and inv :: "'s \<Rightarrow> bool"
    and holds :: "'s \<Rightarrow> checkpoint_ref \<Rightarrow> protected_checkpoint option"
  assumes commit_ok: "inv s \<Longrightarrow> fits_isize (pc_ciphertext p) \<Longrightarrow> commit e s p = (Ok r, s') \<Longrightarrow>
      inv s' \<and> cr_key r = pc_key p \<and> unat (cr_bytes r) = length (pc_ciphertext p)
      \<and> holds s r = None \<and> holds s' = (holds s)(r \<mapsto> p)"
    and commit_err: "inv s \<Longrightarrow> commit e s p = (Err x, s') \<Longrightarrow> inv s' \<and> holds s' = holds s"
    and read_ok: "inv s \<Longrightarrow> read e s r n = Ok p \<Longrightarrow> holds s r = Some p \<and> cr_bytes r \<le> n"
    and delete_ok: "inv s \<Longrightarrow> delete e s r = (Ok u, s') \<Longrightarrow> inv s' \<and> holds s' = (holds s)(r := None)"
    and delete_err: "inv s \<Longrightarrow> delete e s r = (Err x, s') \<Longrightarrow> inv s' \<and> holds s' = holds s"
begin

primrec op :: "'s \<Rightarrow> 'e \<times> protected_checkpoint + 'e \<times> checkpoint_ref \<Rightarrow> 's" where
  "op s (Inl ep) = snd (commit (fst ep) s (snd ep))"
| "op s (Inr er) = snd (delete (fst er) s (snd er))"

definition op_fits :: "'e \<times> protected_checkpoint + 'e \<times> checkpoint_ref \<Rightarrow> bool" where
  "op_fits x \<longleftrightarrow> (\<forall>ep. x = Inl ep \<longrightarrow> fits_isize (pc_ciphertext (snd ep)))"

lemma op_cases:
  assumes "inv s" "op_fits x"
  shows "inv (op s x)" "holds s r = Some p \<Longrightarrow> \<forall>e. x \<noteq> Inr (e, r) \<Longrightarrow> holds (op s x) r = Some p"
proof -
  have "inv (op s x) \<and> (holds s r = Some p \<longrightarrow> (\<forall>e. x \<noteq> Inr (e, r)) \<longrightarrow> holds (op s x) r = Some p)"
  proof (cases x)
    case (Inl ep)
    obtain c s' where c: "commit (fst ep) s (snd ep) = (c, s')" by force
    show ?thesis
    proof (cases c)
      case (Inl e)
      have "inv s' \<and> holds s' = holds s" by (rule commit_err [OF assms(1) c [unfolded Inl]])
      with \<open>x = Inl ep\<close> c show ?thesis by simp
    next
      case (Inr q)
      have "fits_isize (pc_ciphertext (snd ep))" using assms(2) \<open>x = Inl ep\<close> by (auto simp: op_fits_def)
      from commit_ok [OF assms(1) this c [unfolded Inr]] \<open>x = Inl ep\<close> c show ?thesis by auto
    qed
  next
    case (Inr er)
    obtain c s' where c: "delete (fst er) s (snd er) = (c, s')" by force
    show ?thesis
    proof (cases c)
      case (Inl e)
      have "inv s' \<and> holds s' = holds s" by (rule delete_err [OF assms(1) c [unfolded Inl]])
      with \<open>x = Inr er\<close> c show ?thesis by simp
    next
      case q: (Inr u)
      have "inv s' \<and> holds s' = (holds s)(snd er := None)" by (rule delete_ok [OF assms(1) c [unfolded q]])
      with \<open>x = Inr er\<close> c show ?thesis by (cases er) auto
    qed
  qed
  then show "inv (op s x)" "holds s r = Some p \<Longrightarrow> \<forall>e. x \<noteq> Inr (e, r) \<Longrightarrow> holds (op s x) r = Some p" by blast+
qed

lemma ops_inv: "inv s \<Longrightarrow> \<forall>x\<in>set xs. op_fits x \<Longrightarrow> inv (foldl op s xs)"
  by (induction xs rule: rev_induct) (auto simp: op_cases(1))

text \<open>A committed object is held, and reads back unchanged, until it is deleted.\<close>

lemma held:
  assumes "inv s" "fits_isize (pc_ciphertext p)" "commit e s p = (Ok r, s')"
    "\<forall>x\<in>set xs. op_fits x \<and> (\<forall>f. x \<noteq> Inr (f, r))"
  shows "inv (foldl op s' xs) \<and> holds (foldl op s' xs) r = Some p"
proof -
  have s': "inv s'" "holds s' r = Some p" using commit_ok [OF assms(1-3)] by auto
  show ?thesis
    using assms(4)
  proof (induction xs rule: rev_induct)
    case Nil
    then show ?case using s' by simp
  next
    case (snoc x xs)
    then show ?case using op_cases(1) [of "foldl op s' xs" x] op_cases(2) [of "foldl op s' xs" x r p] by auto
  qed
qed

lemma read_back:
  assumes "inv s" "fits_isize (pc_ciphertext p)" "commit e s p = (Ok r, s')"
    "\<forall>x\<in>set xs. op_fits x \<and> (\<forall>f. x \<noteq> Inr (f, r))" "read g (foldl op s' xs) r n = Ok q"
  shows "q = p"
  using held [OF assms(1-4)] read_ok [OF _ assms(5)] by auto

end

section \<open>The file store\<close>

record store_entry =
  en_reference :: checkpoint_ref
  en_descriptor :: checkpoint_descriptor
  en_name :: bytes

record file_store =
  fs_directory :: "bytes \<Rightarrow> bytes option"
  fs_limit :: usize
  fs_entries :: "(checkpoint_key \<times> store_entry) list"
  fs_committed :: usize
  fs_inflight :: usize
  fs_abandoned :: usize
  fs_sequence :: u64
  fs_orphans :: "bytes list"

text \<open>
  One call's operating-system answers: entropy for the object identity; the error of creating
  the temporary file and whether it was created all the same; the error of writing and what
  was written before it; the errors of syncing, renaming, removing and reading.
\<close>

record os_answers =
  os_entropy :: "bytes option"
  os_open :: "(checkpoint_error \<times> bool) option"
  os_write :: "(checkpoint_error \<times> bytes) option"
  os_sync :: "checkpoint_error option"
  os_rename :: "checkpoint_error option"
  os_remove :: "checkpoint_error option"
  os_read :: "checkpoint_error option"

definition store_create :: "(checkpoint_error, unit) result \<Rightarrow> usize \<Rightarrow> (checkpoint_error, file_store) result" where
  "store_create directory limit_bytes =
     (if limit_bytes = 0 then Err CInvalidConfiguration
      else bind_result directory (\<lambda>_. Ok \<lparr>fs_directory = (\<lambda>_. None), fs_limit = limit_bytes, fs_entries = [], fs_committed = 0,
               fs_inflight = 0, fs_abandoned = 0, fs_sequence = 0, fs_orphans = []\<rparr>))"

definition committed_name :: "u64 \<Rightarrow> bytes" where
  "committed_name n = hex16 n @ bstr ''.checkpoint''"

definition pending_name :: "u64 \<Rightarrow> bytes" where
  "pending_name n = hex16 n @ bstr ''.pending''"

text \<open>The closure between reserving and releasing the in-flight charge: create, write, sync,
  rename.\<close>

definition write_object ::
  "os_answers \<Rightarrow> (bytes \<Rightarrow> bytes option) \<Rightarrow> bytes \<Rightarrow> bytes \<Rightarrow> bytes
    \<Rightarrow> (checkpoint_error, unit) result \<times> (bytes \<Rightarrow> bytes option)" where
  "write_object os dir temp name contents =
     (if dir temp \<noteq> None then (Err CAlreadyExists, dir)
      else case os_open os of
        Some (e, created) \<Rightarrow> (Err e, if created then dir(temp \<mapsto> []) else dir)
      | None \<Rightarrow>
          (case os_write os of
             Some (e, partial) \<Rightarrow> (Err e, dir(temp \<mapsto> partial))
           | None \<Rightarrow>
               (case os_sync os of
                  Some e \<Rightarrow> (Err e, dir(temp \<mapsto> contents))
                | None \<Rightarrow>
                    (case os_rename os of
                       Some e \<Rightarrow> (Err e, dir(temp \<mapsto> contents))
                     | None \<Rightarrow> (Ok (), (dir(temp := None))(name \<mapsto> contents))))))"

definition file_commit ::
  "os_answers \<Rightarrow> file_store \<Rightarrow> protected_checkpoint \<Rightarrow> (checkpoint_error, checkpoint_ref) result \<times> file_store" where
  "file_commit os s p =
     (let bs = len_u64 (pc_ciphertext p) in
      if map_of (fs_entries s) (pc_key p) \<noteq> None then (Err CAlreadyExists, s)
      else if bs = 0 then (Err CInvalidConfiguration, s)
      else if bs > saturating_sub (fs_limit s) (fs_committed s + fs_abandoned s) then (Err CCapacityExceeded, s)
      else case checked_add (fs_sequence s) 1 of
        None \<Rightarrow> (Err CCapacityExceeded, s)
      | Some n \<Rightarrow>
          let s = s\<lparr>fs_sequence := n\<rparr> in
          case os_entropy os of
            None \<Rightarrow> (Err CEntropyUnavailable, s)
          | Some object_id \<Rightarrow>
              (case write_object os (fs_directory s) (pending_name n) (committed_name n) (pc_ciphertext p) of
                 (Err e, dir) \<Rightarrow>
                   (Err e,
                    case os_remove os of
                      None \<Rightarrow> s\<lparr>fs_directory := dir(pending_name n := None), fs_inflight := 0\<rparr>
                    | Some _ \<Rightarrow> s\<lparr>fs_directory := dir, fs_inflight := 0, fs_abandoned := fs_abandoned s + bs,
                                  fs_orphans := fs_orphans s @ [pending_name n]\<rparr>)
               | (Ok _, dir) \<Rightarrow>
                   let r = \<lparr>cr_object_id = object_id, cr_key = pc_key p, cr_bytes = bs\<rparr> in
                   (Ok r, s\<lparr>fs_directory := dir, fs_inflight := 0,
                            fs_entries := (pc_key p, \<lparr>en_reference = r, en_descriptor = pc_descriptor p,
                                             en_name = committed_name n\<rparr>) # fs_entries s,
                            fs_committed := fs_committed s + bs\<rparr>)))"

definition file_read ::
  "os_answers \<Rightarrow> file_store \<Rightarrow> checkpoint_ref \<Rightarrow> usize \<Rightarrow> (checkpoint_error, protected_checkpoint) result" where
  "file_read os s r max_bytes =
     (if cr_bytes r > max_bytes then Err CCapacityExceeded
      else case map_of (fs_entries s) (cr_key r) of
        None \<Rightarrow> Err CNotFound
      | Some e \<Rightarrow>
          if en_reference e \<noteq> r then Err CNotFound
          else case os_read os of
            Some x \<Rightarrow> Err x
          | None \<Rightarrow>
              (case fs_directory s (en_name e) of
                 None \<Rightarrow> Err CNotFound
               | Some contents \<Rightarrow>
                   if length contents \<noteq> unat (cr_bytes r) then Err CUnavailable
                   else Ok (protected_new (cr_key r) (en_descriptor e) contents)))"

definition file_delete ::
  "os_answers \<Rightarrow> file_store \<Rightarrow> checkpoint_ref \<Rightarrow> (checkpoint_error, unit) result \<times> file_store" where
  "file_delete os s r =
     (case map_of (fs_entries s) (cr_key r) of
        None \<Rightarrow> (Ok (), s)
      | Some e \<Rightarrow>
          if en_reference e \<noteq> r then (Err CNotFound, s)
          else case os_remove os of
            Some x \<Rightarrow> (Err x, s)
          | None \<Rightarrow>
              (Ok (), s\<lparr>fs_directory := (fs_directory s)(en_name e := None),
                        fs_entries := filter (\<lambda>x. fst x \<noteq> cr_key r) (fs_entries s),
                        fs_committed := fs_committed s - cr_bytes r\<rparr>))"

definition store_capacity :: "file_store \<Rightarrow> checkpoint_capacity" where
  "store_capacity s =
     \<lparr>cc_limit_bytes = fs_limit s, cc_committed_bytes = fs_committed s,
      cc_abandoned_bytes = fs_abandoned s, cc_inflight_bytes = fs_inflight s\<rparr>"

text \<open>Dropping the store removes every object it knows, each best effort.\<close>

definition store_drop :: "(bytes \<Rightarrow> bool) \<Rightarrow> file_store \<Rightarrow> bytes \<Rightarrow> bytes option" where
  "store_drop removed s =
     (\<lambda>n. if n \<in> set (map (en_name \<circ> snd) (fs_entries s) @ fs_orphans s) \<and> removed n then None
          else fs_directory s n)"

section \<open>The store implements the contract\<close>

definition charge :: "checkpoint_key \<times> store_entry \<Rightarrow> nat" where
  "charge x = unat (cr_bytes (en_reference (snd x)))"

definition entry_ok :: "file_store \<Rightarrow> checkpoint_key \<times> store_entry \<Rightarrow> bool" where
  "entry_ok s x \<longleftrightarrow>
     cr_key (en_reference (snd x)) = fst x \<and>
     (\<exists>n. 0 < n \<and> n \<le> fs_sequence s \<and> en_name (snd x) = committed_name n) \<and>
     (\<exists>contents. fs_directory s (en_name (snd x)) = Some contents \<and> length contents = charge x)"

definition file_inv :: "file_store \<Rightarrow> bool" where
  "file_inv s \<longleftrightarrow>
     distinct (map fst (fs_entries s)) \<and> distinct (map (en_name \<circ> snd) (fs_entries s)) \<and>
     (\<forall>x\<in>set (fs_entries s). entry_ok s x) \<and>
     (\<forall>n > fs_sequence s. fs_directory s (pending_name n) = None) \<and>
     fs_inflight s = 0 \<and>
     unat (fs_committed s) = sum_list (map charge (fs_entries s)) \<and>
     unat (fs_committed s) + unat (fs_abandoned s) \<le> unat (fs_limit s)"

definition file_holds :: "file_store \<Rightarrow> checkpoint_ref \<Rightarrow> protected_checkpoint option" where
  "file_holds s r =
     (case map_of (fs_entries s) (cr_key r) of
        None \<Rightarrow> None
      | Some e \<Rightarrow> if en_reference e = r
                 then map_option (protected_new (cr_key r) (en_descriptor e)) (fs_directory s (en_name e))
                 else None)"

lemma committed_name_inj: "committed_name m = committed_name n \<Longrightarrow> m = n"
  by (auto simp: committed_name_def dest: hex16_inj)

lemma pending_name_inj: "pending_name m = pending_name n \<Longrightarrow> m = n"
  by (auto simp: pending_name_def dest: hex16_inj)

lemma names_differ: "committed_name m \<noteq> pending_name n"
  by (auto simp: committed_name_def pending_name_def bstr_def dest!: arg_cong [where f = length])

lemma checked_next_less: "checked_add (m :: u64) 1 = Some n \<Longrightarrow> m < n"
  using checked_add_unat [of m 1 n] by (simp add: word_less_nat_alt)

lemma write_object_frame:
  assumes "write_object os dir temp name contents = (r, dir')" "x \<noteq> temp" "r \<noteq> Ok () \<or> x \<noteq> name"
  shows "dir' x = dir x"
  using assms by (auto simp: write_object_def split: if_splits option.splits)

lemma write_object_Ok:
  assumes "write_object os dir temp name contents = (Ok u, dir')" "temp \<noteq> name"
  shows "dir' name = Some contents" "dir' temp = None"
  using assms by (auto simp: write_object_def split: if_splits option.splits)

text \<open>Entries are untouched by whatever happens to a fresh temporary name.\<close>

lemma file_inv_frame:
  assumes "file_inv s" "fs_entries t = fs_entries s" "fs_committed t = fs_committed s" "fs_inflight t = 0"
    "fs_limit t = fs_limit s" "fs_sequence s \<le> fs_sequence t"
    "unat (fs_abandoned t) + unat (fs_committed s) \<le> unat (fs_limit s)"
    "\<And>n. n \<le> fs_sequence s \<Longrightarrow> fs_directory t (committed_name n) = fs_directory s (committed_name n)"
    "\<And>n. n > fs_sequence t \<Longrightarrow> fs_directory t (pending_name n) = None"
  shows "file_inv t \<and> file_holds t = file_holds s"
proof -
  have same: "fs_directory t (en_name (snd x)) = fs_directory s (en_name (snd x))" if "x \<in> set (fs_entries s)" for x
    using assms(1,8) that by (auto simp: file_inv_def entry_ok_def)
  have "entry_ok t x" if "x \<in> set (fs_entries s)" for x
  proof -
    have "entry_ok s x" using assms(1) that by (auto simp: file_inv_def)
    with same [OF that] assms(6) show ?thesis by (auto simp: entry_ok_def intro: order_trans)
  qed
  then have "file_inv t" using assms by (auto simp: file_inv_def add.commute)
  moreover have "file_holds t r = file_holds s r" for r
    using same map_of_SomeD [of "fs_entries s" "cr_key r"]
    by (fastforce simp: file_holds_def assms(2) split: option.splits)
  ultimately show ?thesis by auto
qed

lemma unat_room:
  fixes bs lim a b :: u64
  assumes "\<not> bs > saturating_sub lim (a + b)" "unat a + unat b \<le> unat lim" "bs \<noteq> 0"
  shows "unat a + unat b + unat bs \<le> unat lim" "unat (a + bs) = unat a + unat bs" "unat (b + bs) = unat b + unat bs"
proof -
  have "unat (a + b) = unat a + unat b"
    using assms(2) unat_u64_less [of lim] by (intro unat_add_no_overflow) simp
  with assms show r: "unat a + unat b + unat bs \<le> unat lim"
    by (auto simp: saturating_sub_def word_le_nat_alt unat_sub not_less split: if_splits)
  with unat_u64_less [of lim] show "unat (a + bs) = unat a + unat bs" "unat (b + bs) = unat b + unat bs"
    by (auto intro!: unat_add_no_overflow)
qed

lemma file_commit_failed:
  assumes "file_inv s" "checked_add (fs_sequence s) 1 = Some n" "\<not> bs > saturating_sub (fs_limit s) (fs_committed s + fs_abandoned s)"
    "bs \<noteq> 0" "write_object os (fs_directory s) (pending_name n) (committed_name n) contents = (Err e, dir)"
    "t = (case os_remove os of
        None \<Rightarrow> (s\<lparr>fs_sequence := n\<rparr>)\<lparr>fs_directory := dir(pending_name n := None), fs_inflight := 0\<rparr>
      | Some _ \<Rightarrow> (s\<lparr>fs_sequence := n\<rparr>)\<lparr>fs_directory := dir, fs_inflight := 0, fs_abandoned := fs_abandoned s + bs,
            fs_orphans := fs_orphans s @ [pending_name n]\<rparr>)"
  shows "file_inv t \<and> file_holds t = file_holds s"
proof (rule file_inv_frame [OF assms(1)])
  have cap: "unat (fs_committed s) + unat (fs_abandoned s) \<le> unat (fs_limit s)" using assms(1) by (auto simp: file_inv_def)
  note room = unat_room [OF assms(3) cap assms(4)]
  show "unat (fs_abandoned t) + unat (fs_committed s) \<le> unat (fs_limit s)"
    using cap room by (auto simp: assms(6) split: option.splits)
  have frame: "dir x = fs_directory s x" if "x \<noteq> pending_name n" for x
    using write_object_frame [OF assms(5) that] by simp
  show "fs_directory t (committed_name m) = fs_directory s (committed_name m)" if "m \<le> fs_sequence s" for m
    using frame [of "committed_name m"] names_differ [of m n] by (auto simp: assms(6) split: option.splits)
  show "fs_directory t (pending_name m) = None" if "m > fs_sequence t" for m
  proof -
    have "fs_sequence t = n" by (auto simp: assms(6) split: option.splits)
    with that have "m \<noteq> n" "m > fs_sequence s" using checked_next_less [OF assms(2)] by auto
    with assms(1) frame [of "pending_name m"] show ?thesis
      by (auto simp: assms(6) file_inv_def dest: pending_name_inj split: option.splits)
  qed
qed (use assms(6) checked_next_less [OF assms(2)] in \<open>auto split: option.splits\<close>)

text \<open>A commit that succeeds has passed every guard.\<close>

definition committed_entry :: "u64 \<Rightarrow> checkpoint_ref \<Rightarrow> protected_checkpoint \<Rightarrow> checkpoint_key \<times> store_entry" where
  "committed_entry n r p =
     (pc_key p, \<lparr>en_reference = r, en_descriptor = pc_descriptor p, en_name = committed_name n\<rparr>)"

lemma committed_entry_simps [simp]:
  "fst (committed_entry n r p) = pc_key p" "en_reference (snd (committed_entry n r p)) = r"
  "en_descriptor (snd (committed_entry n r p)) = pc_descriptor p"
  "en_name (snd (committed_entry n r p)) = committed_name n"
  by (simp_all add: committed_entry_def)

definition commit_writes ::
  "os_answers \<Rightarrow> file_store \<Rightarrow> protected_checkpoint \<Rightarrow> u64 \<Rightarrow> (checkpoint_error, unit) result \<times> (bytes \<Rightarrow> bytes option) \<Rightarrow> bool" where
  "commit_writes os s p n w \<longleftrightarrow>
     map_of (fs_entries s) (pc_key p) = None \<and> len_u64 (pc_ciphertext p) \<noteq> 0 \<and>
     \<not> len_u64 (pc_ciphertext p) > saturating_sub (fs_limit s) (fs_committed s + fs_abandoned s) \<and>
     checked_add (fs_sequence s) 1 = Some n \<and>
     write_object os (fs_directory s) (pending_name n) (committed_name n) (pc_ciphertext p) = w"

lemma file_commit_refused:
  assumes "\<nexists>n w. commit_writes os s p n w"
  shows "\<exists>e. file_commit os s p = (Err e, s)"
proof (cases "checked_add (fs_sequence s) 1")
  case None
  show ?thesis by (simp add: file_commit_def Let_def None)
next
  case (Some n)
  then show ?thesis using assms by (auto simp: file_commit_def commit_writes_def Let_def)
qed

lemma file_commit_writes:
  assumes "commit_writes os s p n (Err e, dir)" "os_entropy os \<noteq> None"
  shows "file_commit os s p = (Err e,
      case os_remove os of
        None \<Rightarrow> (s\<lparr>fs_sequence := n\<rparr>)\<lparr>fs_directory := dir(pending_name n := None), fs_inflight := 0\<rparr>
      | Some _ \<Rightarrow> (s\<lparr>fs_sequence := n\<rparr>)\<lparr>fs_directory := dir, fs_inflight := 0,
            fs_abandoned := fs_abandoned s + len_u64 (pc_ciphertext p), fs_orphans := fs_orphans s @ [pending_name n]\<rparr>)"
  using assms by (auto simp: file_commit_def commit_writes_def Let_def split: option.splits)

lemma file_commit_no_entropy:
  assumes "commit_writes os s p n w" "os_entropy os = None"
  shows "file_commit os s p = (Err CEntropyUnavailable, s\<lparr>fs_sequence := n\<rparr>)"
  using assms by (simp add: file_commit_def commit_writes_def Let_def)

lemma file_commit_Ok_writes:
  assumes "commit_writes os s p n (Ok u, dir)" "os_entropy os = Some object_id"
    "r = \<lparr>cr_object_id = object_id, cr_key = pc_key p, cr_bytes = len_u64 (pc_ciphertext p)\<rparr>"
  shows "file_commit os s p = (Ok r, s\<lparr>fs_sequence := n, fs_directory := dir, fs_inflight := 0,
          fs_entries := committed_entry n r p # fs_entries s,
          fs_committed := fs_committed s + len_u64 (pc_ciphertext p)\<rparr>)"
  using assms by (simp add: file_commit_def commit_writes_def committed_entry_def Let_def)

text \<open>Every call is refused, loses its entropy, fails to write, or commits.\<close>

lemma file_commit_cases:
  obtains e where "file_commit os s p = (Err e, s)"
  | n w where "commit_writes os s p n w" "os_entropy os = None"
  | n e dir where "commit_writes os s p n (Err e, dir)" "os_entropy os \<noteq> None"
  | n dir object_id where "commit_writes os s p n (Ok (), dir)" "os_entropy os = Some object_id"
proof (cases "\<exists>n w. commit_writes os s p n w")
  case False
  then show thesis using file_commit_refused that(1) by blast
next
  case True
  then obtain n r dir where "commit_writes os s p n (r, dir)" by auto
  then show thesis using that(2-4) by (cases r; cases "os_entropy os") auto
qed

lemma file_commit_done:
  assumes "file_inv s" "fits_isize (pc_ciphertext p)" "commit_writes os s p n (Ok (), dir)"
    "r = \<lparr>cr_object_id = object_id, cr_key = pc_key p, cr_bytes = len_u64 (pc_ciphertext p)\<rparr>"
    "t = s\<lparr>fs_sequence := n, fs_directory := dir, fs_inflight := 0,
          fs_entries := committed_entry n r p # fs_entries s,
          fs_committed := fs_committed s + len_u64 (pc_ciphertext p)\<rparr>"
  shows "file_inv t \<and> cr_key r = pc_key p \<and> unat (cr_bytes r) = length (pc_ciphertext p)
    \<and> file_holds s r = None \<and> file_holds t = (file_holds s)(r \<mapsto> p)"
proof -
  let ?bs = "len_u64 (pc_ciphertext p)"
  have fresh: "map_of (fs_entries s) (pc_key p) = None" and nz: "?bs \<noteq> 0" and
    room: "\<not> ?bs > saturating_sub (fs_limit s) (fs_committed s + fs_abandoned s)" and
    n: "checked_add (fs_sequence s) 1 = Some n" and
    w: "write_object os (fs_directory s) (pending_name n) (committed_name n) (pc_ciphertext p) = (Ok (), dir)"
    using assms(3) unfolding commit_writes_def by blast+
  note t = assms(5) and r = assms(4)
  have len: "unat ?bs = length (pc_ciphertext p)"
    using assms(2) by (simp add: len_u64_def unat_of_nat_u64 fits_isize_def isize_max_def)
  have less: "fs_sequence s < n" by (rule checked_next_less [OF n])
  have new: "dir (committed_name n) = Some (pc_ciphertext p)" "dir (pending_name n) = None"
    using write_object_Ok [OF w] names_differ [of n n] by auto
  have frame: "dir x = fs_directory s x" if "x \<noteq> pending_name n" "x \<noteq> committed_name n" for x
    using write_object_frame [OF w that(1)] that(2) by simp
  have old: "entry_ok s x" if "x \<in> set (fs_entries s)" for x using assms(1) that by (simp add: file_inv_def)
  have name: "en_name (snd x) \<noteq> committed_name n" "dir (en_name (snd x)) = fs_directory s (en_name (snd x))"
    if x: "x \<in> set (fs_entries s)" for x
  proof -
    obtain m where m: "en_name (snd x) = committed_name m" "m \<le> fs_sequence s"
      using old [OF x] by (auto simp: entry_ok_def)
    with less have "m \<noteq> n" by auto
    then have "committed_name m \<noteq> committed_name n" by (auto dest: committed_name_inj)
    with frame [of "committed_name m"] names_differ [of m n] m
    show "en_name (snd x) \<noteq> committed_name n" "dir (en_name (snd x)) = fs_directory s (en_name (snd x))" by auto
  qed
  have cap: "unat (fs_committed s) + unat (fs_abandoned s) \<le> unat (fs_limit s)" using assms(1) by (simp add: file_inv_def)
  note rm = unat_room [OF room cap nz]
  have "entry_ok t (committed_entry n r p)"
    using less new len by (auto simp: t r entry_ok_def charge_def word_gt_0 intro!: exI [of _ n])
  moreover have "entry_ok t x" if "x \<in> set (fs_entries s)" for x
    using old [OF that] name(2) [OF that] less by (auto simp: t entry_ok_def intro: order_trans less_imp_le)
  moreover have "fs_directory t (pending_name m) = None" if "m > fs_sequence t" for m
  proof -
    from that less have "m \<noteq> n" "m > fs_sequence s" by (auto simp: t)
    with assms(1) frame [of "pending_name m"] names_differ [of n m] pending_name_inj [of m n] show ?thesis
      by (auto simp: t file_inv_def)
  qed
  moreover have "unat (fs_committed t) = sum_list (map charge (fs_entries t))"
    using assms(1) rm by (simp add: t r file_inv_def charge_def)
  moreover have "distinct (map fst (fs_entries t))" using assms(1) fresh by (simp add: t file_inv_def map_of_eq_None_iff)
  moreover have "committed_name n \<notin> (en_name \<circ> snd) ` set (fs_entries s)"
    unfolding image_iff comp_def using name(1) by metis
  then have "distinct (map (en_name \<circ> snd) (fs_entries t))" using assms(1) by (simp add: t file_inv_def)
  moreover have "unat (fs_committed t) + unat (fs_abandoned t) \<le> unat (fs_limit t)" using rm by (simp add: t)
  ultimately have inv: "file_inv t" by (simp add: file_inv_def t)
  have "file_holds t q = ((file_holds s)(r \<mapsto> p)) q" for q
  proof (cases "cr_key q = pc_key p")
    case True
    then show ?thesis using fresh new by (auto simp: t r file_holds_def protected_new_def committed_entry_def)
  next
    case False
    show ?thesis
    proof (cases "map_of (fs_entries s) (cr_key q)")
      case None
      with False show ?thesis by (auto simp: t r file_holds_def committed_entry_def)
    next
      case (Some e)
      with False name(2) [OF map_of_SomeD [OF Some]] show ?thesis
        by (auto simp: t r file_holds_def committed_entry_def)
    qed
  qed
  then have "file_holds t = (file_holds s)(r \<mapsto> p)" by (rule ext)
  with inv len fresh show ?thesis by (simp add: r file_holds_def)
qed

lemma file_inv_sequence:
  assumes "file_inv s" "checked_add (fs_sequence s) 1 = Some n"
  shows "file_inv (s\<lparr>fs_sequence := n\<rparr>) \<and> file_holds (s\<lparr>fs_sequence := n\<rparr>) = file_holds s"
proof (rule file_inv_frame [OF assms(1)])
  have less: "fs_sequence s < n" by (rule checked_next_less [OF assms(2)])
  then show "fs_sequence s \<le> fs_sequence (s\<lparr>fs_sequence := n\<rparr>)" by simp
  show "fs_directory (s\<lparr>fs_sequence := n\<rparr>) (pending_name m) = None" if "m > fs_sequence (s\<lparr>fs_sequence := n\<rparr>)" for m
    using that less assms(1) by (auto simp: file_inv_def)
qed (use assms(1) in \<open>simp_all add: file_inv_def add.commute\<close>)

lemma file_commit_Err:
  assumes "file_inv s" "file_commit os s p = (Err x, t)"
  shows "file_inv t \<and> file_holds t = file_holds s"
proof (cases rule: file_commit_cases [of os s p])
  case (1 e)
  with assms show ?thesis by simp
next
  case (2 n w)
  from 2(1) have n: "checked_add (fs_sequence s) 1 = Some n" by (simp add: commit_writes_def)
  from file_commit_no_entropy [OF 2] assms(2) have "t = s\<lparr>fs_sequence := n\<rparr>" by simp
  with file_inv_sequence [OF assms(1) n] show ?thesis by simp
next
  case (3 n e dir)
  from 3(1) have g: "checked_add (fs_sequence s) 1 = Some n" "len_u64 (pc_ciphertext p) \<noteq> 0"
    "\<not> len_u64 (pc_ciphertext p) > saturating_sub (fs_limit s) (fs_committed s + fs_abandoned s)"
    "write_object os (fs_directory s) (pending_name n) (committed_name n) (pc_ciphertext p) = (Err e, dir)"
    unfolding commit_writes_def by blast+
  show ?thesis
    by (rule file_commit_failed [OF assms(1) g(1,3,2,4)]) (use file_commit_writes [OF 3] assms(2) in simp)
next
  case (4 n dir object_id)
  from file_commit_Ok_writes [OF this refl] assms(2) show ?thesis by simp
qed

lemma file_commit_Ok:
  assumes "file_inv s" "fits_isize (pc_ciphertext p)" "file_commit os s p = (Ok r, t)"
  shows "file_inv t \<and> cr_key r = pc_key p \<and> unat (cr_bytes r) = length (pc_ciphertext p)
    \<and> file_holds s r = None \<and> file_holds t = (file_holds s)(r \<mapsto> p)"
proof (cases rule: file_commit_cases [of os s p])
  case (4 n dir object_id)
  note w = file_commit_Ok_writes [OF 4 refl]
  show ?thesis by (rule file_commit_done [OF assms(1,2) 4(1)]) (use w assms(3) in simp_all)
qed (use assms(3) file_commit_no_entropy file_commit_writes in auto)

lemma file_read_Ok:
  assumes "file_inv s" "file_read os s r n = Ok p"
  shows "file_holds s r = Some p \<and> cr_bytes r \<le> n"
  using assms(2) by (auto simp: file_read_def file_holds_def not_less split: if_splits option.splits)

lemma file_delete_Err: "file_delete os s r = (Err x, t) \<Longrightarrow> t = s"
  by (auto simp: file_delete_def split: if_splits option.splits)

lemma charge_removed:
  assumes "distinct (map fst es)" "map_of es k = Some e"
  shows "sum_list (map charge (filter (\<lambda>x. fst x \<noteq> k) es)) + charge (k, e) = sum_list (map charge es)"
  using assms
proof (induction es)
  case (Cons x xs)
  show ?case
  proof (cases "fst x = k")
    case True
    with Cons.prems have "\<forall>y\<in>set xs. fst y \<noteq> k" by (metis distinct.simps(2) image_eqI list.simps(9) list.set_map)
    then have "filter (\<lambda>x. fst x \<noteq> k) xs = xs" by (simp add: filter_id_conv)
    with True Cons.prems show ?thesis by (cases x) auto
  next
    case False
    with Cons show ?thesis by (cases x) auto
  qed
qed simp

lemma map_of_filter_key: "map_of (filter (\<lambda>x. fst x \<noteq> k) es) j = (if j = k then None else map_of es j)"
  by (induction es) auto

lemma file_delete_removed:
  assumes "file_inv s" "map_of (fs_entries s) (cr_key r) = Some e" "en_reference e = r"
    "t = s\<lparr>fs_directory := (fs_directory s)(en_name e := None),
          fs_entries := filter (\<lambda>x. fst x \<noteq> cr_key r) (fs_entries s), fs_committed := fs_committed s - cr_bytes r\<rparr>"
  shows "file_inv t \<and> file_holds t = (file_holds s)(r := None)"
proof -
  note t = assms(4)
  have mem: "(cr_key r, e) \<in> set (fs_entries s)" by (rule map_of_SomeD [OF assms(2)])
  have other: "en_name (snd x) \<noteq> en_name e" if "x \<in> set (fs_entries s)" "fst x \<noteq> cr_key r" for x
    using assms(1) that mem by (auto simp: file_inv_def distinct_map inj_on_def)
  have d: "distinct (map fst (fs_entries s))" using assms(1) by (simp add: file_inv_def)
  have sum: "unat (fs_committed s) = sum_list (map charge (fs_entries t)) + unat (cr_bytes r)"
    using charge_removed [OF d assms(2)] assms(1,3) by (simp add: file_inv_def t charge_def)
  then have committed: "unat (fs_committed t) = sum_list (map charge (fs_entries t))"
    by (simp add: t unat_sub word_le_nat_alt)
  have "entry_ok t x" if "x \<in> set (fs_entries t)" for x
    using assms(1) other [of x] that by (auto simp: t entry_ok_def file_inv_def)
  moreover have "fs_directory t (pending_name m) = None" if "m > fs_sequence t" for m
    using that assms(1) by (auto simp: t file_inv_def)
  moreover have "distinct (map fst (fs_entries t))" "distinct (map (en_name \<circ> snd) (fs_entries t))"
    using assms(1) by (simp_all add: t file_inv_def distinct_map_filter)
  moreover have "unat (fs_committed t) + unat (fs_abandoned t) \<le> unat (fs_limit t)"
  proof -
    have "unat (fs_committed t) \<le> unat (fs_committed s)" using sum committed by simp
    moreover have "unat (fs_committed s) + unat (fs_abandoned s) \<le> unat (fs_limit s)"
      using assms(1) by (simp add: file_inv_def)
    ultimately show ?thesis by (simp add: t)
  qed
  moreover have "fs_inflight t = 0" using assms(1) by (simp add: t file_inv_def)
  ultimately have inv: "file_inv t" using committed by (simp add: file_inv_def)
  have "file_holds t q = ((file_holds s)(r := None)) q" for q
  proof (cases "cr_key q = cr_key r")
    case True
    then show ?thesis using assms(2,3) by (auto simp: t file_holds_def map_of_filter_key)
  next
    case False
    show ?thesis
    proof (cases "map_of (fs_entries s) (cr_key q)")
      case None
      with False show ?thesis by (auto simp: t file_holds_def map_of_filter_key)
    next
      case (Some e')
      with False other [OF map_of_SomeD [OF Some]] show ?thesis by (auto simp: t file_holds_def map_of_filter_key)
    qed
  qed
  with inv show ?thesis by auto
qed

lemma file_delete_Ok:
  assumes "file_inv s" "file_delete os s r = (Ok u, t)"
  shows "file_inv t \<and> file_holds t = (file_holds s)(r := None)"
proof (cases "map_of (fs_entries s) (cr_key r)")
  case None
  then have "file_holds s r = None" by (simp add: file_holds_def)
  with None assms show ?thesis by (auto simp: file_delete_def)
next
  case (Some e)
  with assms(2) have e: "en_reference e = r"
    "t = s\<lparr>fs_directory := (fs_directory s)(en_name e := None),
          fs_entries := filter (\<lambda>x. fst x \<noteq> cr_key r) (fs_entries s), fs_committed := fs_committed s - cr_bytes r\<rparr>"
    by (auto simp: file_delete_def split: if_splits option.splits)
  show ?thesis by (rule file_delete_removed [OF assms(1) Some e])
qed

interpretation file_provider: checkpoint_provider file_commit file_read file_delete file_inv file_holds
proof unfold_locales
  show "file_inv t \<and> file_holds t = file_holds s" if "file_inv s" "file_delete os s r = (Err x, t)" for os s r x t
    using that file_delete_Err [OF that(2)] by simp
qed (fact file_commit_Ok file_commit_Err file_read_Ok file_delete_Ok)+

end
