(* ===== verification/Checkpoint_Protector.thy ===== *)
theory Checkpoint_Protector
  imports Checkpoint_Store
begin

text \<open>
  The authenticated encryption of checkpoints
  (\<^verbatim>\<open>crates/infrastructure/src/checkpoint/protector.rs\<close>) and the blocking jobs that use the
  protector and the store (\<^verbatim>\<open>crates/application/src/projection/blocking.rs\<close>).

  XChaCha20-Poly1305 is not part of the sources: its detached encryption \<open>enc nonce aad
  plaintext\<close> and its decryption \<open>dec nonce aad (ciphertext @ tag)\<close> are arguments, and
  \<open>aead_laws\<close> is what their documentation promises.  Entropy and allocation answers are
  arguments too.
\<close>

section \<open>The protector\<close>

type_synonym aead_encrypt = "bytes \<Rightarrow> bytes \<Rightarrow> bytes \<Rightarrow> (bytes \<times> bytes) option"
type_synonym aead_decrypt = "bytes \<Rightarrow> bytes \<Rightarrow> bytes \<Rightarrow> bytes option"

definition protector_new :: "usize \<Rightarrow> bool \<Rightarrow> (checkpoint_error, usize) result" where
  "protector_new max_bytes entropy =
     (if max_bytes = 0 \<or> max_bytes > 512 * 1024 * 1024 then Err CInvalidConfiguration
      else if \<not> entropy then Err CEntropyUnavailable
      else Ok max_bytes)"

definition metadata_prefix :: bytes where
  "metadata_prefix = bstr ''pty-checkpoint-xchacha-v1''"

definition metadata :: "checkpoint_key \<Rightarrow> checkpoint_descriptor \<Rightarrow> (checkpoint_error, bytes) result" where
  "metadata key d =
     (if ck_lifetime key \<noteq> rc_lifetime (cd_processed d) then Err CInvalidConfiguration
      else let compatibility = compatibility_str (cd_compatibility d) in
        Ok (metadata_prefix
            @ concat (map (to_le_bytes 8)
                [lt_owner (ck_lifetime key), lt_sequence (ck_lifetime key), ck_generation key,
                 rc_offset (cd_processed d), control_get (cd_control_generation d),
                 len_u64 compatibility])
            @ compatibility))"

definition protected_size_limit :: "usize \<Rightarrow> usize \<Rightarrow> (checkpoint_error, usize) result" where
  "protected_size_limit max_bytes plaintext_bytes =
     (if plaintext_bytes > max_bytes then Err CCapacityExceeded
      else ok_or (checked_add plaintext_bytes 40) CCapacityExceeded)"

definition protect ::
  "aead_encrypt \<Rightarrow> usize \<Rightarrow> bytes option \<Rightarrow> bool \<Rightarrow> checkpoint_key \<Rightarrow> terminal_checkpoint
    \<Rightarrow> (checkpoint_error, protected_checkpoint) result" where
  "protect enc max_bytes entropy reserved key checkpoint =
     (if len_u64 (tk_bytes checkpoint) > max_bytes then Err CCapacityExceeded
      else bind_result (metadata key (tk_descriptor checkpoint)) (\<lambda>aad.
        bind_result (ok_or entropy CEntropyUnavailable) (\<lambda>nonce.
          case enc nonce aad (tk_bytes checkpoint) of
            None \<Rightarrow> Err CAuthenticationFailed
          | Some (ciphertext, tag) \<Rightarrow>
              if \<not> reserved then Err CCapacityExceeded
              else Ok (protected_new key (tk_descriptor checkpoint) (ciphertext @ tag @ nonce)))))"

definition protector_open ::
  "aead_decrypt \<Rightarrow> usize \<Rightarrow> checkpoint_key \<Rightarrow> checkpoint_descriptor \<Rightarrow> protected_checkpoint
    \<Rightarrow> (checkpoint_error, terminal_checkpoint) result" where
  "protector_open dec max_bytes key descriptor checkpoint =
     (if pc_key checkpoint \<noteq> key \<or> pc_descriptor checkpoint \<noteq> descriptor then Err CAuthenticationFailed
      else let ciphertext = pc_ciphertext checkpoint in
        if length ciphertext < 40 then Err CAuthenticationFailed
        else if len_u64 ciphertext - 40 > max_bytes then Err CCapacityExceeded
        else bind_result (metadata key descriptor) (\<lambda>aad.
          let encrypted_len = length ciphertext - 24; nonce = drop encrypted_len ciphertext in
          case dec nonce aad (take encrypted_len ciphertext) of
            None \<Rightarrow> Err CAuthenticationFailed
          | Some bs \<Rightarrow> Ok \<lparr>tk_descriptor = descriptor, tk_bytes = bs\<rparr>))"

section \<open>Blocking jobs\<close>

text \<open>The protector and the store are injected ports.\<close>

definition read_job ::
  "(checkpoint_ref \<Rightarrow> usize \<Rightarrow> (checkpoint_error, protected_checkpoint) result)
    \<Rightarrow> (checkpoint_key \<Rightarrow> checkpoint_descriptor \<Rightarrow> protected_checkpoint \<Rightarrow> (checkpoint_error, terminal_checkpoint) result)
    \<Rightarrow> checkpoint_ref \<Rightarrow> checkpoint_descriptor \<Rightarrow> usize \<Rightarrow> usize \<Rightarrow> (terminal_checkpoint \<Rightarrow> usize)
    \<Rightarrow> (projection_error, terminal_checkpoint) result" where
  "read_job store_read opened reference descriptor protected_max plaintext_max capacity =
     bind_result (map_err JStorage (store_read reference protected_max)) (\<lambda>bs.
       if length (pc_ciphertext bs) \<noteq> unat (cr_bytes reference) then Err (JStorage CUnavailable)
       else bind_result (map_err JStorage (opened (cr_key reference) descriptor bs)) (\<lambda>checkpoint.
         if tk_descriptor checkpoint \<noteq> descriptor \<or> capacity checkpoint > plaintext_max
         then Err JInvalidConfiguration else Ok checkpoint))"

datatype commit_outcome =
    Published checkpoint_ref | Rejected projection_error | Uncertain projection_error

definition commit_job ::
  "('s \<Rightarrow> protected_checkpoint \<Rightarrow> (checkpoint_error, checkpoint_ref) result \<times> 's)
    \<Rightarrow> (checkpoint_key \<Rightarrow> terminal_checkpoint \<Rightarrow> (checkpoint_error, protected_checkpoint) result)
    \<Rightarrow> 's \<Rightarrow> checkpoint_key \<Rightarrow> terminal_checkpoint \<Rightarrow> checkpoint_descriptor \<Rightarrow> usize \<Rightarrow> commit_outcome \<times> 's" where
  "commit_job store_commit protect_port s key checkpoint descriptor protected_max =
     (case protect_port key checkpoint of
        Err e \<Rightarrow> (Rejected (JStorage e), s)
      | Ok protected \<Rightarrow>
          if pc_key protected \<noteq> key \<or> pc_descriptor protected \<noteq> descriptor \<or> pc_ciphertext protected = []
             \<or> length (pc_ciphertext protected) > unat protected_max
          then (Rejected JInvalidConfiguration, s)
          else case store_commit s protected of
            (Err e, s') \<Rightarrow> (Rejected (JStorage e), s')
          | (Ok reference, s') \<Rightarrow>
              if cr_key reference \<noteq> key \<or> unat (cr_bytes reference) \<noteq> length (pc_ciphertext protected)
              then (Uncertain JInvalidConfiguration, s')
              else (Published reference, s'))"

definition delete_job ::
  "('s \<Rightarrow> checkpoint_ref \<Rightarrow> (checkpoint_error, unit) result \<times> 's) \<Rightarrow> 's \<Rightarrow> checkpoint_ref
    \<Rightarrow> (projection_error, unit) result \<times> 's" where
  "delete_job store_delete s reference = map_prod (map_err JStorage) id (store_delete s reference)"

section \<open>Metadata binds every field\<close>

lemma le_bytes_inject: "to_le_bytes 8 (x :: u64) = to_le_bytes 8 y \<Longrightarrow> x = y"
proof -
  assume a: "to_le_bytes 8 x = to_le_bytes 8 y"
  have inverse: "from_le_bytes (to_le_bytes 8 z) = z" for z :: u64 by (rule from_to_le_bytes) simp
  from inverse [of x] inverse [of y] show "x = y" unfolding a by simp
qed

lemma le_bytes_append_eq:
  "to_le_bytes 8 (x :: u64) @ xs = to_le_bytes 8 y @ ys \<longleftrightarrow> x = y \<and> xs = ys"
  using append_eq_append_conv [of "to_le_bytes 8 x" "to_le_bytes 8 y" xs ys] le_bytes_inject [of x y]
  by auto

lemma metadata_Ok_iff:
  "metadata key d = Ok aad \<longleftrightarrow>
     ck_lifetime key = rc_lifetime (cd_processed d) \<and>
     aad = metadata_prefix @ to_le_bytes 8 (lt_owner (ck_lifetime key)) @ to_le_bytes 8 (lt_sequence (ck_lifetime key))
       @ to_le_bytes 8 (ck_generation key) @ to_le_bytes 8 (rc_offset (cd_processed d))
       @ to_le_bytes 8 (control_get (cd_control_generation d))
       @ to_le_bytes 8 (len_u64 (compatibility_str (cd_compatibility d))) @ compatibility_str (cd_compatibility d)"
  by (auto simp: metadata_def Let_def)

lemma control_get_inject: "control_get a = control_get b \<longleftrightarrow> a = b"
  by (cases a; cases b) auto

lemma compatibility_str_inject: "compatibility_str a = compatibility_str b \<longleftrightarrow> a = b"
  by (cases a; cases b) auto

text \<open>
  The authenticated metadata of a protected checkpoint binds every field of its key and
  descriptor: two pairs that pass the lifetime check have the same metadata only when the
  keys and the descriptors are equal, so no sealed checkpoint can be presented under another
  session, generation, cursor, control generation or engine identity.
\<close>

theorem metadata_injective:
  assumes "metadata key d = Ok aad" "metadata key' d' = Ok aad"
  shows "key = key' \<and> d = d'"
proof -
  have "lt_owner (ck_lifetime key) = lt_owner (ck_lifetime key')" "lt_sequence (ck_lifetime key) = lt_sequence (ck_lifetime key')"
    "ck_generation key = ck_generation key'" "rc_offset (cd_processed d) = rc_offset (cd_processed d')"
    "cd_control_generation d = cd_control_generation d'" "cd_compatibility d = cd_compatibility d'"
    "ck_lifetime key = rc_lifetime (cd_processed d)" "ck_lifetime key' = rc_lifetime (cd_processed d')"
    using assms by (auto simp: metadata_Ok_iff le_bytes_append_eq control_get_inject compatibility_str_inject)
  then show ?thesis
    by (cases key; cases key'; cases d; cases d'; cases "ck_lifetime key"; cases "ck_lifetime key'")
      (auto simp: replay_cursor_eq_iff)
qed

definition example_key :: checkpoint_key where
  "example_key = \<lparr>ck_lifetime = lifetime_new 7 1, ck_generation = 3\<rparr>"

definition example_descriptor :: checkpoint_descriptor where
  "example_descriptor = \<lparr>cd_compatibility = CompatibilityId (bstr ''e''),
     cd_processed = cursor_at (lifetime_new 7 1) 9, cd_control_generation = ControlGeneration 2\<rparr>"

theorem metadata_injective_witness:
  "\<exists>aad. metadata example_key example_descriptor = Ok aad \<and>
     (example_key = example_key \<and> example_descriptor = example_descriptor)"
proof -
  have "ck_lifetime example_key = rc_lifetime (cd_processed example_descriptor)"
    by (simp add: example_key_def example_descriptor_def)
  then obtain aad where aad: "metadata example_key example_descriptor = Ok aad" by (auto simp: metadata_def Let_def)
  from aad metadata_injective [OF aad aad] show ?thesis by blast
qed

section \<open>Sealing and opening\<close>

definition aead_laws :: "aead_encrypt \<Rightarrow> aead_decrypt \<Rightarrow> bool" where
  "aead_laws enc dec \<longleftrightarrow>
     (\<forall>n a p c t. enc n a p = Some (c, t) \<longrightarrow>
        length c = length p \<and> length t = 16 \<and> dec n a (c @ t) = Some p)"

lemma protect_OkD:
  assumes "aead_laws enc dec" "protect enc m entropy res key ck = Ok p" "\<forall>n. entropy = Some n \<longrightarrow> length n = 24"
  obtains aad c tag nonce where "metadata key (tk_descriptor ck) = Ok aad" "length nonce = 24" "length tag = 16"
    "length c = length (tk_bytes ck)" "dec nonce aad (c @ tag) = Some (tk_bytes ck)"
    "\<not> len_u64 (tk_bytes ck) > m" "p = protected_new key (tk_descriptor ck) (c @ tag @ nonce)"
proof -
  obtain aad c tag nonce where g: "metadata key (tk_descriptor ck) = Ok aad" "entropy = Some nonce"
    "enc nonce aad (tk_bytes ck) = Some (c, tag)" "\<not> len_u64 (tk_bytes ck) > m"
    "p = protected_new key (tk_descriptor ck) (c @ tag @ nonce)"
  proof -
    have size: "\<not> len_u64 (tk_bytes ck) > m" using assms(2) by (auto simp: protect_def)
    with assms(2) obtain aad nonce where a: "metadata key (tk_descriptor ck) = Ok aad" "entropy = Some nonce"
      "(case enc nonce aad (tk_bytes ck) of None \<Rightarrow> Err CAuthenticationFailed
        | Some (c, tag) \<Rightarrow> if \<not> res then Err CCapacityExceeded
            else Ok (protected_new key (tk_descriptor ck) (c @ tag @ nonce))) = Ok p"
      unfolding protect_def by (auto simp only: bind_result_Ok_iff ok_or_Ok_iff if_False)
    from a(3) show thesis by (auto intro!: that a(1,2) size split: option.splits prod.splits if_splits)
  qed
  have "length c = length (tk_bytes ck) \<and> length tag = 16 \<and> dec nonce aad (c @ tag) = Some (tk_bytes ck)"
    using assms(1) g(3) unfolding aead_laws_def by blast
  with g assms(3) that show thesis by blast
qed

lemma open_protect:
  assumes "aead_laws enc dec" "protect enc m entropy res key ck = Ok p" "\<forall>n. entropy = Some n \<longrightarrow> length n = 24"
    "m \<le> 512 * 1024 * 1024" "fits_isize (tk_bytes ck)"
  shows "pc_key p = key" "pc_descriptor p = tk_descriptor ck"
    "length (pc_ciphertext p) = length (tk_bytes ck) + 40" "fits_isize (pc_ciphertext p)"
    "protector_open dec m key (tk_descriptor ck) p = Ok ck"
proof -
  obtain aad c tag nonce where g: "metadata key (tk_descriptor ck) = Ok aad" "length nonce = 24" "length tag = 16"
    "length c = length (tk_bytes ck)" "dec nonce aad (c @ tag) = Some (tk_bytes ck)"
    "\<not> len_u64 (tk_bytes ck) > m" "p = protected_new key (tk_descriptor ck) (c @ tag @ nonce)"
    by (rule protect_OkD [OF assms(1-3)])
  show k: "pc_key p = key" "pc_descriptor p = tk_descriptor ck"
    and l: "length (pc_ciphertext p) = length (tk_bytes ck) + 40"
    using g by (simp_all add: protected_new_def)
  have "length (tk_bytes ck) \<le> unat m"
    using g(6) unat_len_u64 [OF assms(5)] by (simp add: not_less word_le_nat_alt)
  then have bound: "length (tk_bytes ck) \<le> 512 * 1024 * 1024" using assms(4) by (simp add: word_le_nat_alt)
  with l show fits: "fits_isize (pc_ciphertext p)" by (simp add: fits_isize_def isize_max_def)
  have "unat (len_u64 (pc_ciphertext p)) = length (tk_bytes ck) + 40" using unat_len_u64 [OF fits] l by simp
  then have "unat (len_u64 (pc_ciphertext p) - 40) = unat (len_u64 (tk_bytes ck))"
    using unat_len_u64 [OF assms(5)] by (subst unat_sub) (simp_all add: word_le_nat_alt)
  then have size: "\<not> len_u64 (pc_ciphertext p) - 40 > m" using g(6) by (simp add: word_less_nat_alt)
  have ct: "pc_ciphertext p = (c @ tag) @ nonce" "length (pc_ciphertext p) - 24 = length (c @ tag)"
    "\<not> length (pc_ciphertext p) < 40"
    using g by (simp_all add: protected_new_def)
  have parts: "take (length (pc_ciphertext p) - 24) (pc_ciphertext p) = c @ tag"
    "drop (length (pc_ciphertext p) - 24) (pc_ciphertext p) = nonce"
    unfolding ct(2) unfolding ct(1) by simp_all
  show "protector_open dec m key (tk_descriptor ck) p = Ok ck"
    unfolding protector_open_def Let_def k g(1) parts
    using size ct(3) g(5) by (simp only: simp_thms if_False bind_result.simps) simp
qed

lemma file_read_complete:
  assumes "file_inv s" "file_holds s r = Some p" "os_read os = None" "cr_bytes r \<le> n"
  shows "file_read os s r n = Ok p \<and> length (pc_ciphertext p) = unat (cr_bytes r)"
proof -
  obtain e contents where e: "map_of (fs_entries s) (cr_key r) = Some e" "en_reference e = r"
    "fs_directory s (en_name e) = Some contents" "p = protected_new (cr_key r) (en_descriptor e) contents"
    using assms(2) by (auto simp: file_holds_def split: option.splits if_splits)
  have "entry_ok s (cr_key r, e)" using assms(1) map_of_SomeD [OF e(1)] by (simp add: file_inv_def)
  with e have "length contents = unat (cr_bytes r)" by (auto simp: entry_ok_def charge_def)
  with e assms(3,4) show ?thesis by (simp add: file_read_def protected_new_def not_less)
qed

section \<open>A parked checkpoint is restored exactly\<close>

lemma commit_job_Published:
  assumes "commit_job com prot s key ck d pm = (Published r, s')"
  obtains p where "prot key ck = Ok p" "com s p = (Ok r, s')" "pc_key p = key" "pc_descriptor p = d"
    "length (pc_ciphertext p) \<le> unat pm" "unat (cr_bytes r) = length (pc_ciphertext p)" "cr_key r = key"
  using assms by (auto simp: commit_job_def not_less split: sum.splits if_splits prod.splits)

text \<open>
  C18. A parked checkpoint is restored exactly: once the commit job answers \<open>Published r\<close>, the
  read job for \<open>r\<close> returns the very checkpoint that was protected, byte for byte and with its
  descriptor, after any sequence of further commits and of deletions of other references
  (including failed ones), as long as the read itself is not refused by the operating system
  and the buffer fits the plaintext bound.
\<close>

theorem checkpoint_restored:
  assumes "file_inv s" "aead_laws enc dec" "m \<le> 512 * 1024 * 1024" "fits_isize (tk_bytes ck)"
    "\<forall>n. entropy = Some n \<longrightarrow> length n = 24"
    "commit_job (file_commit os) (protect enc m entropy res) s key ck (tk_descriptor ck) pm = (Published r, s')"
    "\<forall>x\<in>set ops. file_provider.op_fits x \<and> (\<forall>f. x \<noteq> Inr (f, r))"
    "os_read g = None" "capacity ck \<le> plaintext_max"
  shows "read_job (file_read g (foldl file_provider.op s' ops)) (protector_open dec m) r (tk_descriptor ck)
     pm plaintext_max capacity = Ok ck"
proof -
  obtain p where p: "protect enc m entropy res key ck = Ok p" "file_commit os s p = (Ok r, s')"
    "length (pc_ciphertext p) \<le> unat pm" "unat (cr_bytes r) = length (pc_ciphertext p)" "cr_key r = key"
    using commit_job_Published [OF assms(6)] by metis
  note sealed = open_protect [OF assms(2) p(1) assms(5,3,4)]
  have held: "file_inv (foldl file_provider.op s' ops)" "file_holds (foldl file_provider.op s' ops) r = Some p"
    using file_provider.held [OF assms(1) sealed(4) p(2) assms(7)] by auto
  have "cr_bytes r \<le> pm" using p(3,4) by (simp add: word_le_nat_alt)
  from file_read_complete [OF held assms(8) this] p(4,5) sealed(5) assms(9) show ?thesis
    by (simp add: read_job_def)
qed

definition example_encrypt :: aead_encrypt where
  "example_encrypt nonce aad plaintext = Some (rev plaintext, replicate 16 (ucast (len_u64 aad)))"

definition example_decrypt :: aead_decrypt where
  "example_decrypt nonce aad sealed =
     (if length sealed < 16 \<or> drop (length sealed - 16) sealed \<noteq> replicate 16 (ucast (len_u64 aad)) then None
      else Some (rev (take (length sealed - 16) sealed)))"

lemma example_aead_laws: "aead_laws example_encrypt example_decrypt"
  by (auto simp: aead_laws_def example_encrypt_def example_decrypt_def)

definition example_store :: file_store where
  "example_store = \<lparr>fs_directory = (\<lambda>_. None), fs_limit = 4096, fs_entries = [], fs_committed = 0,
     fs_inflight = 0, fs_abandoned = 0, fs_sequence = 0, fs_orphans = []\<rparr>"

definition example_os :: os_answers where
  "example_os = \<lparr>os_entropy = Some [1], os_open = None, os_write = None, os_sync = None, os_rename = None,
     os_remove = None, os_read = None\<rparr>"

definition example_checkpoint :: terminal_checkpoint where
  "example_checkpoint = \<lparr>tk_descriptor = example_descriptor, tk_bytes = [1, 2, 3]\<rparr>"

definition example_ref :: checkpoint_ref where
  "example_ref = \<lparr>cr_object_id = [1], cr_key = example_key, cr_bytes = 43\<rparr>"

lemma example_store_inv: "file_inv example_store"
  by (simp add: file_inv_def example_store_def)

lemma example_commit:
  "fst (commit_job (file_commit example_os) (protect example_encrypt 64 (Some (replicate 24 0)) True) example_store
     example_key example_checkpoint (tk_descriptor example_checkpoint) 64) = Published example_ref"
  by code_simp

theorem checkpoint_restored_witness:
  "\<exists>s'. read_job (file_read example_os (foldl file_provider.op s' [Inr (example_os, example_ref\<lparr>cr_object_id := [2]\<rparr>)]))
     (protector_open example_decrypt 64) example_ref (tk_descriptor example_checkpoint) 64 64 (\<lambda>c. len_u64 (tk_bytes c))
     = Ok example_checkpoint"
proof -
  obtain s' where "commit_job (file_commit example_os) (protect example_encrypt 64 (Some (replicate 24 0)) True) example_store
     example_key example_checkpoint (tk_descriptor example_checkpoint) 64 = (Published example_ref, s')"
    using example_commit by (metis prod.collapse)
  from checkpoint_restored [OF example_store_inv example_aead_laws _ _ _ this,
      of "[Inr (example_os, example_ref\<lparr>cr_object_id := [2]\<rparr>)]" example_os "\<lambda>c. len_u64 (tk_bytes c)" 64]
  show ?thesis
    by (auto simp: file_provider.op_fits_def example_os_def example_checkpoint_def len_u64_def fits_isize_def
        isize_max_def example_ref_def)
qed

lemma file_commit_limit: "fs_limit (snd (file_commit os s p)) = fs_limit s"
proof (cases rule: file_commit_cases [of os s p])
  case (2 n w)
  then show ?thesis by (simp add: file_commit_no_entropy)
next
  case (3 n e dir)
  then show ?thesis by (simp add: file_commit_writes split: option.splits)
next
  case (4 n dir object_id)
  then show ?thesis by (simp add: file_commit_Ok_writes [OF _ _ refl])
qed simp

lemma file_delete_limit: "fs_limit (snd (file_delete os s r)) = fs_limit s"
  by (auto simp: file_delete_def split: option.splits)

lemma store_ops_limit: "fs_limit (foldl file_provider.op s ops) = fs_limit s"
proof (induction ops rule: rev_induct)
  case (snoc x xs)
  then show ?case by (cases x) (simp_all add: file_commit_limit file_delete_limit)
qed simp

text \<open>
  C37. The store never exceeds its quota: after any sequence of commits and deletions on a new
  store, with any operating-system failures at any point, the ciphertext bytes of committed
  objects plus those of abandoned temporaries stay within the limit, the committed counter is
  exactly the total of the recorded objects, nothing is left in flight, and every recorded
  object is present in the namespace with its recorded length.
\<close>

theorem store_quota_exact:
  assumes "store_create directory limit_bytes = Ok s" "\<forall>x\<in>set ops. file_provider.op_fits x" "t = foldl file_provider.op s ops"
  shows "unat (fs_committed t) + unat (fs_abandoned t) \<le> unat limit_bytes
    \<and> unat (fs_committed t) = sum_list (map charge (fs_entries t)) \<and> fs_inflight t = 0
    \<and> (\<forall>x\<in>set (fs_entries t). \<exists>c. fs_directory t (en_name (snd x)) = Some c \<and> length c = charge x)"
proof -
  have "file_inv s" "fs_limit s = limit_bytes"
    using assms(1) by (auto simp: store_create_def file_inv_def bind_result_Ok_iff split: if_splits)
  with file_provider.ops_inv [of s ops] assms(2,3) store_ops_limit [of s ops]
  have "file_inv t" "fs_limit t = limit_bytes" by auto
  then show ?thesis by (auto simp: file_inv_def entry_ok_def)
qed

theorem store_quota_exact_witness:
  "unat (fs_committed (foldl file_provider.op example_store [Inr (example_os, example_ref)]))
   + unat (fs_abandoned (foldl file_provider.op example_store [Inr (example_os, example_ref)])) \<le> unat (4096 :: usize)"
proof -
  have "store_create (Ok ()) 4096 = Ok example_store" by (simp add: store_create_def example_store_def)
  from store_quota_exact [OF this _ refl, of "[Inr (example_os, example_ref)]"] show ?thesis
    by (simp add: file_provider.op_fits_def)
qed

end
