(* ===== verification/Scheduler.thy ===== *)
theory Scheduler
  imports Prelude
begin

text \<open>
  The fixed worker pool that runs projections (\<^verbatim>\<open>crates/infrastructure/src/scheduling/pool.rs\<close>
  and the port in \<^verbatim>\<open>crates/application/src/scheduling/mod.rs\<close>): a bounded table of coalesced
  registrations, each with at most one timer, served in round-robin order by any number of
  worker threads.

  Every operation is one critical section of the pool's mutex.  A weak reference to the work
  is its identity; whether it is still alive is asked of the environment twice, as the code
  does (\<open>strong_count\<close>, then \<open>upgrade\<close>).  Instants are durations since an origin, and
  \<open>Instant::now().checked_add(delay)\<close> is an argument of the step that finishes a run.  What a
  worker does between two critical sections is a step of the interleaving below.
\<close>

section \<open>State\<close>

datatype work_schedule = WorkDormant | WorkAfter duration | WorkFinished

datatype scheduling_error = SchedCapacity | SchedClosed | SchedFailed

type_synonym work_id = nat

record sched_entry =
  se_id :: u64
  se_work :: work_id
  se_running :: bool
  se_pending :: bool
  se_closed :: bool
  se_due :: "duration option"

record sched_state =
  sd_slots :: "sched_entry option list"
  sd_next :: u64
  sd_cursor :: nat
  sd_closed :: bool

type_synonym sched_handle = "nat \<times> u64"

section \<open>Operations\<close>

text \<open>Construction: whether the table could be allocated and how many worker threads could be
  created are the operating system's answers.\<close>

definition sched_new :: "nat \<Rightarrow> nat \<Rightarrow> bool \<Rightarrow> nat \<Rightarrow> (scheduling_error, sched_state) result" where
  "sched_new max_sessions workers alloc threads =
     (if max_sessions = 0 \<or> workers = 0 \<or> workers > 64 then Err SchedCapacity
      else if \<not> alloc then Err SchedCapacity
      else if threads < workers then Err SchedFailed
      else Ok \<lparr>sd_slots = replicate max_sessions None, sd_next = 0, sd_cursor = 0, sd_closed = False\<rparr>)"

text \<open>A slot whose work is gone and that no worker is running.\<close>

definition sched_dead :: "(work_id \<Rightarrow> bool) \<Rightarrow> sched_entry option \<Rightarrow> bool" where
  "sched_dead alive slot = (case slot of None \<Rightarrow> False | Some e \<Rightarrow> \<not> se_running e \<and> \<not> alive (se_work e))"

definition clear_dead :: "(work_id \<Rightarrow> bool) \<Rightarrow> sched_entry option list \<Rightarrow> sched_entry option list" where
  "clear_dead alive = map (\<lambda>slot. if sched_dead alive slot then None else slot)"

fun first_free :: "sched_entry option list \<Rightarrow> nat option" where
  "first_free [] = None"
| "first_free (slot # slots) = (if slot = None then Some 0 else map_option Suc (first_free slots))"

definition sched_register ::
  "(work_id \<Rightarrow> bool) \<Rightarrow> work_id \<Rightarrow> sched_state \<Rightarrow> (scheduling_error, sched_handle) result \<times> sched_state" where
  "sched_register alive work s =
     (if sd_closed s then (Err SchedClosed, s)
      else
        let s = s\<lparr>sd_slots := clear_dead alive (sd_slots s)\<rparr> in
        case first_free (sd_slots s) of
          None \<Rightarrow> (Err SchedCapacity, s)
        | Some index \<Rightarrow>
            (case checked_add (sd_next s) 1 of
               None \<Rightarrow> (Err SchedFailed, s)
             | Some i \<Rightarrow>
                 (Ok (index, i),
                  s\<lparr>sd_next := i,
                    sd_slots := (sd_slots s)[index := Some \<lparr>se_id = i, se_work = work, se_running = False,
                      se_pending = False, se_closed = False, se_due = None\<rparr>]\<rparr>)))"

definition close_entry :: "sched_entry option \<Rightarrow> sched_entry option" where
  "close_entry slot =
     (case slot of None \<Rightarrow> None | Some e \<Rightarrow> if se_running e then Some (e\<lparr>se_closed := True\<rparr>) else None)"

definition sched_shutdown :: "sched_state \<Rightarrow> sched_state" where
  "sched_shutdown s = s\<lparr>sd_closed := True, sd_slots := map close_entry (sd_slots s)\<rparr>"

text \<open>The entry a handle still names.\<close>

definition handle_entry :: "sched_handle \<Rightarrow> sched_state \<Rightarrow> sched_entry option" where
  "handle_entry h s =
     (case sd_slots s ! fst h of None \<Rightarrow> None | Some e \<Rightarrow> if se_id e = snd h then Some e else None)"

definition sched_wake :: "sched_handle \<Rightarrow> sched_state \<Rightarrow> (scheduling_error, unit) result \<times> sched_state" where
  "sched_wake h s =
     (if sd_closed s then (Err SchedClosed, s)
      else case handle_entry h s of
        None \<Rightarrow> (Err SchedClosed, s)
      | Some e \<Rightarrow>
          if se_closed e then (Err SchedClosed, s)
          else (Ok (), s\<lparr>sd_slots := (sd_slots s)[fst h := Some (e\<lparr>se_pending := True\<rparr>)]\<rparr>))"

definition sched_close :: "sched_handle \<Rightarrow> sched_state \<Rightarrow> sched_state" where
  "sched_close h s =
     (case handle_entry h s of
        None \<Rightarrow> s
      | Some e \<Rightarrow> s\<lparr>sd_slots := (sd_slots s)[fst h := close_entry (Some e)]\<rparr>)"

text \<open>The schedule a run produced: a panic asks \<open>failed\<close>, a second panic or a panicking
  destructor removes the registration.\<close>

definition run_schedule :: "work_schedule option \<Rightarrow> work_schedule option \<Rightarrow> bool \<Rightarrow> work_schedule" where
  "run_schedule outcome failed dropped =
     (let schedule = (case outcome of Some w \<Rightarrow> w
                      | None \<Rightarrow> (case failed of Some w \<Rightarrow> w | None \<Rightarrow> WorkFinished))
      in if dropped then schedule else WorkFinished)"

definition sched_finish :: "(duration \<Rightarrow> duration option) \<Rightarrow> nat \<Rightarrow> work_schedule \<Rightarrow> sched_state \<Rightarrow> sched_state" where
  "sched_finish later index schedule s =
     (case sd_slots s ! index of
        None \<Rightarrow> s
      | Some e \<Rightarrow>
          s\<lparr>sd_slots := (sd_slots s)[index :=
             (if se_closed e \<or> schedule = WorkFinished then None
              else Some (e\<lparr>se_running := False,
                           se_due := (case schedule of WorkAfter delay \<Rightarrow> later delay | _ \<Rightarrow> None)\<rparr>))]\<rparr>)"

section \<open>Choosing the next run\<close>

record liveness =
  lv_strong :: "work_id \<Rightarrow> bool"
  lv_upgrade :: "work_id \<Rightarrow> bool"

datatype take_result = TakeClosed | TakeJob nat work_id | TakeWait "duration option"

definition sched_due :: "duration \<Rightarrow> sched_entry \<Rightarrow> bool" where
  "sched_due now e \<longleftrightarrow> se_pending e \<or> (case se_due e of None \<Rightarrow> False | Some due \<Rightarrow> due \<le> now)"

definition sched_nearer :: "duration option \<Rightarrow> duration option \<Rightarrow> duration option" where
  "sched_nearer nearest due =
     (case due of None \<Rightarrow> nearest
      | Some d \<Rightarrow> Some (case nearest of None \<Rightarrow> d | Some previous \<Rightarrow> min previous d))"

fun take_over ::
  "liveness \<Rightarrow> duration \<Rightarrow> nat list \<Rightarrow> duration option \<Rightarrow> sched_state \<Rightarrow> take_result \<times> sched_state" where
  "take_over lv now [] nearest s = (TakeWait nearest, s)"
| "take_over lv now (index # rest) nearest s =
     (case sd_slots s ! index of
        None \<Rightarrow> take_over lv now rest nearest s
      | Some e \<Rightarrow>
          if se_running e \<or> se_closed e then take_over lv now rest nearest s
          else if \<not> lv_strong lv (se_work e)
          then take_over lv now rest nearest (s\<lparr>sd_slots := (sd_slots s)[index := None]\<rparr>)
          else if sched_due now e then
            if \<not> lv_upgrade lv (se_work e)
            then take_over lv now rest nearest (s\<lparr>sd_slots := (sd_slots s)[index := None]\<rparr>)
            else (TakeJob index (se_work e),
                  s\<lparr>sd_slots := (sd_slots s)[index := Some (e\<lparr>se_pending := False, se_due := None, se_running := True\<rparr>)],
                    sd_cursor := (index + 1) mod length (sd_slots s)\<rparr>)
          else take_over lv now rest (sched_nearer nearest (se_due e)) s)"

definition scan_order :: "sched_state \<Rightarrow> nat list" where
  "scan_order s = map (\<lambda>i. (sd_cursor s + i) mod length (sd_slots s)) [0..<length (sd_slots s)]"

definition sched_take :: "liveness \<Rightarrow> duration \<Rightarrow> sched_state \<Rightarrow> take_result \<times> sched_state" where
  "sched_take lv now s =
     (if sd_closed s then (TakeClosed, s) else take_over lv now (scan_order s) None s)"

section \<open>Workers and callers, interleaved\<close>

text \<open>A run in flight is the slot a worker took with the identities it saw there.  \<open>sy_started\<close>
  lists the registrations in the order their runs began.\<close>

record sched_sys =
  sy_state :: sched_state
  sy_jobs :: "(nat \<times> u64) list"
  sy_handles :: "sched_handle list"
  sy_started :: "u64 list"

inductive sched_step :: "sched_sys \<Rightarrow> sched_sys \<Rightarrow> bool" where
  sch_register:
    "sched_register alive work (sy_state s) = (r, t)
     \<Longrightarrow> sched_step s (s\<lparr>sy_state := t,
          sy_handles := (case r of Inl _ \<Rightarrow> sy_handles s | Inr h \<Rightarrow> h # sy_handles s)\<rparr>)"
| sch_shutdown: "sched_step s (s\<lparr>sy_state := sched_shutdown (sy_state s)\<rparr>)"
| sch_wake:
    "h \<in> set (sy_handles s) \<Longrightarrow> sched_wake h (sy_state s) = (r, t) \<Longrightarrow> sched_step s (s\<lparr>sy_state := t\<rparr>)"
| sch_close: "h \<in> set (sy_handles s) \<Longrightarrow> sched_step s (s\<lparr>sy_state := sched_close h (sy_state s)\<rparr>)"
| sch_take:
    "sched_take lv now (sy_state s) = (TakeJob index work, t) \<Longrightarrow> sd_slots t ! index = Some e
     \<Longrightarrow> sched_step s (s\<lparr>sy_state := t, sy_jobs := (index, se_id e) # sy_jobs s,
          sy_started := sy_started s @ [se_id e]\<rparr>)"
| sch_idle:
    "sched_take lv now (sy_state s) = (TakeWait due, t) \<Longrightarrow> sched_step s (s\<lparr>sy_state := t\<rparr>)"
| sch_finish:
    "(index, i) \<in> set (sy_jobs s)
     \<Longrightarrow> sched_step s (s\<lparr>sy_state := sched_finish later index (run_schedule outcome failed dropped) (sy_state s),
          sy_jobs := remove1 (index, i) (sy_jobs s)\<rparr>)"

abbreviation sched_steps :: "sched_sys \<Rightarrow> sched_sys \<Rightarrow> bool" where
  "sched_steps \<equiv> sched_step\<^sup>*\<^sup>*"

definition sched_sys_new :: "sched_state \<Rightarrow> sched_sys" where
  "sched_sys_new s = \<lparr>sy_state = s, sy_jobs = [], sy_handles = [], sy_started = []\<rparr>"

section \<open>Slots\<close>

definition open_slots :: "sched_state \<Rightarrow> (nat \<times> u64) set" where
  "open_slots s = {(i, d). i < length (sd_slots s) \<and> (\<exists>e. sd_slots s ! i = Some e \<and> se_id e = d)}"

definition running_slots :: "sched_state \<Rightarrow> (nat \<times> u64) set" where
  "running_slots s =
     {(i, d). i < length (sd_slots s) \<and> (\<exists>e. sd_slots s ! i = Some e \<and> se_id e = d \<and> se_running e)}"

text \<open>What a critical section that neither starts, finishes nor registers anything does to each
  slot: it may flag an entry or empty a slot that no worker is running.\<close>

definition slot_tame :: "sched_entry option \<Rightarrow> sched_entry option \<Rightarrow> bool" where
  "slot_tame a b =
     (case b of
        None \<Rightarrow> (case a of None \<Rightarrow> True | Some e \<Rightarrow> \<not> se_running e)
      | Some f \<Rightarrow> (case a of None \<Rightarrow> False
                  | Some e \<Rightarrow> se_id f = se_id e \<and> se_running f = se_running e
                      \<and> (se_closed e \<longrightarrow> se_closed f) \<and> (se_pending e \<longrightarrow> se_pending f)))"

definition sched_tame :: "sched_state \<Rightarrow> sched_state \<Rightarrow> bool" where
  "sched_tame s t \<longleftrightarrow> length (sd_slots t) = length (sd_slots s) \<and> sd_next t = sd_next s \<and> sd_cursor t = sd_cursor s
     \<and> (\<forall>i<length (sd_slots s). slot_tame (sd_slots s ! i) (sd_slots t ! i))"

lemma slot_tame_refl [simp]: "slot_tame a a"
  by (simp add: slot_tame_def split: option.split)

lemma slot_tame_trans: "slot_tame a b \<Longrightarrow> slot_tame b c \<Longrightarrow> slot_tame a c"
  by (auto simp: slot_tame_def split: option.splits)

lemma slot_tame_close [simp]: "slot_tame a (close_entry a)"
  by (simp add: slot_tame_def close_entry_def split: option.split)

lemma slot_tame_dead [simp]: "slot_tame a (if sched_dead alive a then None else a)"
  by (auto simp: slot_tame_def sched_dead_def split: option.splits)

lemma slot_tame_pending [simp]: "slot_tame (Some e) (Some (e\<lparr>se_pending := True\<rparr>))"
  by (simp add: slot_tame_def)

lemma slot_tame_None [simp]: "\<not> se_running e \<Longrightarrow> slot_tame (Some e) None"
  by (simp add: slot_tame_def)

lemma slot_tame_from_None: "slot_tame None b \<Longrightarrow> b = None"
  by (simp add: slot_tame_def split: option.splits)

lemma tame_refl [simp]: "sched_tame s s"
  by (simp add: sched_tame_def)

lemma tame_trans: "sched_tame s t \<Longrightarrow> sched_tame t u \<Longrightarrow> sched_tame s u"
  by (auto simp: sched_tame_def intro: slot_tame_trans)

lemma tame_map:
  assumes "\<And>a. slot_tame a (f a)"
  shows "sched_tame s (s\<lparr>sd_slots := map f (sd_slots s)\<rparr>)"
  using assms by (simp add: sched_tame_def)

lemma tame_update:
  assumes "slot_tame (sd_slots s ! i) a"
  shows "sched_tame s (s\<lparr>sd_slots := (sd_slots s)[i := a]\<rparr>)"
proof -
  have "slot_tame (sd_slots s ! j) ((sd_slots s)[i := a] ! j)" if "j < length (sd_slots s)" for j
    using assms that by (cases "i = j") simp_all
  then show ?thesis by (simp add: sched_tame_def)
qed

lemma slot_tame_ids:
  assumes "slot_tame a b"
  shows "(\<exists>f. b = Some f \<and> se_id f = d \<and> se_running f) \<longleftrightarrow> (\<exists>e. a = Some e \<and> se_id e = d \<and> se_running e)"
    "(\<exists>f. b = Some f \<and> se_id f = d) \<Longrightarrow> \<exists>e. a = Some e \<and> se_id e = d"
  using assms by (auto simp: slot_tame_def split: option.splits)

lemma tame_sets:
  assumes "sched_tame s t"
  shows "running_slots t = running_slots s" "open_slots t \<subseteq> open_slots s"
proof -
  have slots: "slot_tame (sd_slots s ! i) (sd_slots t ! i)" if "i < length (sd_slots s)" for i
    using assms that by (simp add: sched_tame_def)
  have len: "length (sd_slots t) = length (sd_slots s)" using assms by (simp add: sched_tame_def)
  show "running_slots t = running_slots s"
    using slot_tame_ids(1) [OF slots] by (auto simp: running_slots_def len)
  show "open_slots t \<subseteq> open_slots s"
    using slot_tame_ids(2) [OF slots] by (auto simp: open_slots_def len)
qed

lemma handle_entry_Some:
  "handle_entry h s = Some e \<Longrightarrow> sd_slots s ! fst h = Some e \<and> se_id e = snd h"
  by (auto simp: handle_entry_def split: option.splits if_splits)

lemma tame_wake: "sched_wake h s = (r, t) \<Longrightarrow> sched_tame s t"
  by (auto simp: sched_wake_def intro!: tame_update dest!: handle_entry_Some split: if_splits option.splits)

lemma tame_close: "sched_tame s (sched_close h s)"
  by (auto simp: sched_close_def intro!: tame_update dest!: handle_entry_Some split: option.splits
      simp del: slot_tame_close) (metis slot_tame_close)

lemma tame_shutdown: "sched_tame s (sched_shutdown s)"
  using tame_map [of close_entry s] by (simp add: sched_shutdown_def sched_tame_def)

lemma tame_clear_dead: "sched_tame s (s\<lparr>sd_slots := clear_dead alive (sd_slots s)\<rparr>)"
  unfolding clear_dead_def by (rule tame_map) simp

section \<open>Registering, starting and finishing\<close>

lemma first_free_Some: "first_free xs = Some i \<Longrightarrow> i < length xs \<and> xs ! i = None"
  by (induction xs arbitrary: i) (auto split: if_splits)

definition fresh_entry :: "u64 \<Rightarrow> work_id \<Rightarrow> sched_entry" where
  "fresh_entry i work = \<lparr>se_id = i, se_work = work, se_running = False, se_pending = False,
     se_closed = False, se_due = None\<rparr>"

lemma length_clear_dead [simp]: "length (clear_dead alive xs) = length xs"
  by (simp add: clear_dead_def)

lemma register_Ok:
  assumes "sched_register alive work s = (Ok (i, d), t)"
  obtains s1 where "sched_tame s s1" "i < length (sd_slots s)" "sd_slots s1 ! i = None"
    "checked_add (sd_next s) 1 = Some d"
    "t = s1\<lparr>sd_next := d, sd_slots := (sd_slots s1)[i := Some (fresh_entry d work)]\<rparr>"
proof -
  let ?s1 = "s\<lparr>sd_slots := clear_dead alive (sd_slots s)\<rparr>"
  have t: "sched_tame s ?s1" by (rule tame_clear_dead)
  have "i < length (sd_slots ?s1) \<and> sd_slots ?s1 ! i = None" "checked_add (sd_next s) 1 = Some d"
    "t = ?s1\<lparr>sd_next := d, sd_slots := (sd_slots ?s1)[i := Some (fresh_entry d work)]\<rparr>"
    using assms by (auto simp: sched_register_def Let_def fresh_entry_def dest: first_free_Some
        split: if_splits option.splits)
  with that [OF t] show ?thesis by simp
qed

lemma register_Err: "sched_register alive work s = (Err e, t) \<Longrightarrow> sched_tame s t"
  using tame_clear_dead by (auto simp: sched_register_def Let_def split: if_splits option.splits)

definition start_entry :: "nat \<Rightarrow> sched_entry \<Rightarrow> sched_state \<Rightarrow> sched_state" where
  "start_entry index e s =
     s\<lparr>sd_slots := (sd_slots s)[index := Some (e\<lparr>se_pending := False, se_due := None, se_running := True\<rparr>)],
       sd_cursor := (index + 1) mod length (sd_slots s)\<rparr>"

text \<open>A scan that goes past a slot with a pending, idle, open entry empties it: the work is gone.\<close>

definition sched_ready :: "sched_entry \<Rightarrow> bool" where
  "sched_ready e \<longleftrightarrow> se_pending e \<and> \<not> se_running e \<and> \<not> se_closed e"

definition sched_passed :: "sched_state \<Rightarrow> sched_state \<Rightarrow> nat list \<Rightarrow> bool" where
  "sched_passed s t idx \<longleftrightarrow> (\<forall>j\<in>set idx. \<forall>e. sd_slots s ! j = Some e \<longrightarrow> sched_ready e \<longrightarrow> sd_slots t ! j = None)"

definition sched_taken :: "sched_state \<Rightarrow> nat list \<Rightarrow> take_result \<Rightarrow> sched_state \<Rightarrow> bool" where
  "sched_taken s idx r t =
     (case r of
        TakeClosed \<Rightarrow> False
      | TakeWait _ \<Rightarrow> sched_tame s t \<and> sched_passed s t idx
      | TakeJob index work \<Rightarrow>
          (\<exists>s1 pre post e. sched_tame s s1 \<and> idx = pre @ index # post \<and> sched_passed s s1 pre
             \<and> sd_slots s ! index = Some e \<and> sd_slots s1 ! index = Some e \<and> \<not> se_running e \<and> \<not> se_closed e
             \<and> t = start_entry index e s1))"

lemma taken_skip:
  assumes "sched_taken s idx r t" "\<And>e. sd_slots s ! j = Some e \<Longrightarrow> \<not> sched_ready e"
  shows "sched_taken s (j # idx) r t"
proof (cases r)
  case (TakeJob index work)
  with assms(1) obtain s1 pre post e where "sched_tame s s1" "idx = pre @ index # post" "sched_passed s s1 pre"
    "sd_slots s ! index = Some e" "sd_slots s1 ! index = Some e" "\<not> se_running e" "\<not> se_closed e"
    "t = start_entry index e s1"
    by (auto simp: sched_taken_def)
  moreover from this assms(2) have "sched_passed s s1 (j # pre)" by (auto simp: sched_passed_def)
  moreover have "j # idx = (j # pre) @ index # post" using calculation(2) by simp
  ultimately show ?thesis unfolding sched_taken_def TakeJob take_result.case by blast
qed (use assms in \<open>auto simp: sched_taken_def sched_passed_def\<close>)

lemma taken_drop:
  assumes "sched_taken (s\<lparr>sd_slots := (sd_slots s)[j := None]\<rparr>) idx r t" "j \<notin> set idx" "j < length (sd_slots s)"
    "sd_slots s ! j = Some e" "\<not> se_running e"
  shows "sched_taken s (j # idx) r t"
proof -
  let ?s = "s\<lparr>sd_slots := (sd_slots s)[j := None]\<rparr>"
  have t: "sched_tame s ?s" by (rule tame_update) (use assms(4,5) in simp)
  have gone: "sd_slots u ! j = None" if "sched_tame ?s u" for u
  proof -
    have "slot_tame (sd_slots ?s ! i) (sd_slots u ! i)" if "i < length (sd_slots s)" for i
      using \<open>sched_tame ?s u\<close> that by (simp add: sched_tame_def)
    from this [OF assms(3)] assms(3) show ?thesis by (simp add: slot_tame_from_None)
  qed
  have pass: "sched_passed s u (j # xs)" if "sched_tame ?s u" "sched_passed ?s u xs" "set xs \<subseteq> set idx" for u xs
  proof -
    have "sd_slots u ! k = None" if "k \<in> set xs" "sd_slots s ! k = Some f" "sched_ready f" for k f
    proof -
      have "k \<noteq> j" using that(1) \<open>set xs \<subseteq> set idx\<close> assms(2) by auto
      with that(2) have "sd_slots ?s ! k = Some f" by simp
      with \<open>sched_passed ?s u xs\<close> that(1,3) show ?thesis unfolding sched_passed_def by blast
    qed
    with gone [OF that(1)] show ?thesis by (auto simp: sched_passed_def)
  qed
  show ?thesis
  proof (cases r)
    case (TakeJob index work)
    with assms(1) obtain s1 pre post f where *: "sched_tame ?s s1" "idx = pre @ index # post" "sched_passed ?s s1 pre"
      "sd_slots ?s ! index = Some f" "sd_slots s1 ! index = Some f" "\<not> se_running f" "\<not> se_closed f"
      "t = start_entry index f s1"
      by (auto simp: sched_taken_def)
    have "sched_passed s s1 (j # pre)" by (rule pass [OF *(1,3)]) (use *(2) in auto)
    moreover have "index \<noteq> j" using *(2) assms(2) by auto
    then have "sd_slots s ! index = Some f" using *(4) by simp
    moreover have "j # idx = (j # pre) @ index # post" using *(2) by simp
    ultimately show ?thesis
      using tame_trans [OF t *(1)] *(5-8) unfolding sched_taken_def TakeJob take_result.case by blast
  next
    case (TakeWait due)
    with assms(1) have "sched_tame ?s t" "sched_passed ?s t idx" by (auto simp: sched_taken_def)
    with tame_trans [OF t] pass [of t idx] TakeWait show ?thesis by (simp add: sched_taken_def)
  qed (use assms(1) in \<open>simp add: sched_taken_def\<close>)
qed

lemma take_over_taken:
  assumes "take_over lv now idx nearest s = (r, t)" "distinct idx" "\<forall>i\<in>set idx. i < length (sd_slots s)"
  shows "sched_taken s idx r t"
  using assms
proof (induction lv now idx nearest s rule: take_over.induct)
  case (1 lv now nearest s)
  then show ?case by (auto simp: sched_taken_def sched_passed_def)
next
  case (2 lv now j rest nearest s)
  let ?clear = "s\<lparr>sd_slots := (sd_slots s)[j := None]\<rparr>"
  have d: "distinct rest" "j \<notin> set rest" "\<forall>i\<in>set rest. i < length (sd_slots s)" "j < length (sd_slots s)"
    using "2.prems" by auto
  show ?case
  proof (cases "sd_slots s ! j")
    case None
    then show ?thesis using 2 by (auto intro: taken_skip)
  next
    case (Some e)
    consider (busy) "se_running e \<or> se_closed e"
      | (dead) "\<not> (se_running e \<or> se_closed e)" "\<not> lv_strong lv (se_work e) \<or> (sched_due now e \<and> \<not> lv_upgrade lv (se_work e))"
      | (run) "\<not> (se_running e \<or> se_closed e)" "lv_strong lv (se_work e)" "sched_due now e" "lv_upgrade lv (se_work e)"
      | (later) "\<not> (se_running e \<or> se_closed e)" "lv_strong lv (se_work e)" "\<not> sched_due now e"
      by blast
    then show ?thesis
    proof cases
      case busy
      then show ?thesis using 2 Some by (auto simp: sched_ready_def intro: taken_skip)
    next
      case dead
      then have "take_over lv now rest nearest ?clear = (r, t)" using "2.prems"(1) Some by (auto split: if_splits)
      then have "sched_taken ?clear rest r t"
        using "2.IH"(3) [OF Some] "2.IH"(4) [OF Some] dead d by (cases "lv_strong lv (se_work e)") auto
      then show ?thesis by (rule taken_drop) (use d Some dead in auto)
    next
      case run
      then have "r = TakeJob j (se_work e)" "t = start_entry j e s"
        using "2.prems"(1) Some by (auto simp: start_entry_def)
      moreover have "j # rest = [] @ j # rest" by simp
      ultimately show ?thesis
        using Some run(1) unfolding sched_taken_def by (fastforce simp: sched_passed_def)
    next
      case later
      then have "sched_taken s rest r t" using "2.IH"(5) [OF Some] "2.prems"(1) Some d by auto
      then show ?thesis by (rule taken_skip) (use Some later in \<open>auto simp: sched_ready_def sched_due_def\<close>)
    qed
  qed
qed

lemma rotate_mod: "c < n \<Longrightarrow> a < n \<Longrightarrow> (c + a) mod n = (if c + a < n then c + a else c + a - n)" for n :: nat
  by (simp add: mod_if)

lemma scan_order_props:
  assumes "sd_cursor s < length (sd_slots s)"
  shows "distinct (scan_order s)" "\<forall>i\<in>set (scan_order s). i < length (sd_slots s)"
proof -
  show "distinct (scan_order s)"
    using assms by (auto simp: scan_order_def distinct_map rotate_mod intro!: inj_onI split: if_splits)
  show "\<forall>i\<in>set (scan_order s). i < length (sd_slots s)" using assms by (auto simp: scan_order_def intro!: mod_less_divisor)
qed

lemma take_taken:
  assumes "sched_take lv now s = (r, t)" "r \<noteq> TakeClosed" "sd_cursor s < length (sd_slots s)"
  shows "sched_taken s (scan_order s) r t"
  using assms scan_order_props [OF assms(3)] by (auto simp: sched_take_def intro: take_over_taken split: if_splits)

section \<open>Invariant\<close>

definition sched_inv :: "nat \<Rightarrow> sched_sys \<Rightarrow> bool" where
  "sched_inv n s \<longleftrightarrow>
     length (sd_slots (sy_state s)) = n \<and> sd_cursor (sy_state s) < n
     \<and> open_slots (sy_state s) \<subseteq> set (sy_handles s)
     \<and> (\<forall>h\<in>set (sy_handles s). fst h < n \<and> snd h \<le> sd_next (sy_state s))
     \<and> distinct (map snd (sy_handles s))
     \<and> distinct (map fst (sy_jobs s))
     \<and> set (sy_jobs s) = running_slots (sy_state s)"

lemma sched_inv_tame:
  assumes "sched_inv n s" "sched_tame (sy_state s) t"
  shows "sched_inv n (s\<lparr>sy_state := t\<rparr>)"
  using assms tame_sets [OF assms(2)] by (auto simp: sched_inv_def sched_tame_def)

lemma start_entry_sets:
  assumes "sd_slots s ! index = Some e" "index < length (sd_slots s)"
  shows "open_slots (start_entry index e s) = open_slots s"
    "running_slots (start_entry index e s) = insert (index, se_id e) (running_slots s)"
  using assms by (auto simp: open_slots_def running_slots_def start_entry_def nth_list_update split: if_splits)

lemma fresh_entry_sets:
  assumes "sd_slots s ! i = None" "i < length (sd_slots s)"
  shows "open_slots (s\<lparr>sd_next := d, sd_slots := (sd_slots s)[i := Some (fresh_entry d work)]\<rparr>) = insert (i, d) (open_slots s)"
    "running_slots (s\<lparr>sd_next := d, sd_slots := (sd_slots s)[i := Some (fresh_entry d work)]\<rparr>) = running_slots s"
  using assms by (auto simp: open_slots_def running_slots_def fresh_entry_def nth_list_update split: if_splits)

lemma finish_sets:
  assumes "sd_slots s ! i = Some e" "i < length (sd_slots s)"
  shows "open_slots (sched_finish later i schedule s) \<subseteq> open_slots s"
    "running_slots (sched_finish later i schedule s) = running_slots s - {(i, se_id e)}"
  using assms by (auto simp: open_slots_def running_slots_def sched_finish_def nth_list_update split: if_splits)

lemma sched_inv_register:
  assumes "sched_inv n s" "sched_register alive work (sy_state s) = (Ok (i, d), t)"
  shows "sched_inv n (s\<lparr>sy_state := t, sy_handles := (i, d) # sy_handles s\<rparr>)"
proof -
  from assms(2) obtain s1 where r: "sched_tame (sy_state s) s1" "i < length (sd_slots (sy_state s))" "sd_slots s1 ! i = None"
    "checked_add (sd_next (sy_state s)) 1 = Some d"
    "t = s1\<lparr>sd_next := d, sd_slots := (sd_slots s1)[i := Some (fresh_entry d work)]\<rparr>"
    by (rule register_Ok)
  have s1: "sched_inv n (s\<lparr>sy_state := s1\<rparr>)" by (rule sched_inv_tame [OF assms(1) r(1)])
  have "unat d = unat (sd_next (sy_state s)) + 1" using checked_add_unat [OF r(4)] by simp
  then have d: "sd_next (sy_state s) < d" by (simp add: word_less_nat_alt)
  have handles: "snd h \<le> sd_next (sy_state s)" "fst h < n" if "h \<in> set (sy_handles s)" for h
    using assms(1) that by (auto simp: sched_inv_def)
  have "snd h < d" if "h \<in> set (sy_handles s)" for h using handles(1) [OF that] d by simp
  then have "d \<notin> snd ` set (sy_handles s)" "\<forall>h\<in>set (sy_handles s). snd h \<le> d" by fastforce+
  moreover have "i < length (sd_slots s1)" using r(1,2) by (simp add: sched_tame_def)
  ultimately show ?thesis
    using s1 fresh_entry_sets [OF r(3), of d work] r(2,5) assms(1) by (auto simp: sched_inv_def)
qed

lemma sched_inv_take:
  assumes "sched_inv n s" "sched_take lv now (sy_state s) = (TakeJob index work, t)" "sd_slots t ! index = Some e"
  shows "sched_inv n (s\<lparr>sy_state := t, sy_jobs := (index, se_id e) # sy_jobs s, sy_started := st\<rparr>)"
proof -
  have c: "sd_cursor (sy_state s) < length (sd_slots (sy_state s))" "length (sd_slots (sy_state s)) = n"
    using assms(1) by (simp_all add: sched_inv_def)
  from take_taken [OF assms(2) _ c(1)] obtain s1 pre post f where t: "sched_tame (sy_state s) s1"
    "scan_order (sy_state s) = pre @ index # post" "sd_slots s1 ! index = Some f" "\<not> se_running f"
    "t = start_entry index f s1"
    by (auto simp: sched_taken_def)
  have i: "index < n" using scan_order_props(2) [OF c(1)] t(2) c(2) by auto
  then have i1: "index < length (sd_slots s1)" using t(1) c(2) by (simp add: sched_tame_def)
  have e: "se_id e = se_id f" using assms(3) t(5) i1 by (auto simp: start_entry_def)
  have s1: "sched_inv n (s\<lparr>sy_state := s1\<rparr>)" by (rule sched_inv_tame [OF assms(1) t(1)])
  then have "index \<notin> fst ` set (sy_jobs s)" using t(3,4) by (auto simp: sched_inv_def running_slots_def)
  then show ?thesis
    using s1 start_entry_sets [OF t(3) i1] i e t(5) by (auto simp: sched_inv_def start_entry_def)
qed

lemma distinct_fst_remove1: "distinct (map fst xs) \<Longrightarrow> distinct (map fst (remove1 x xs))"
  by (induction xs) (auto, metis fst_conv image_eqI set_remove1_subset subsetD)

lemma sched_inv_finish:
  assumes "sched_inv n s" "(index, i) \<in> set (sy_jobs s)"
  shows "sched_inv n (s\<lparr>sy_state := sched_finish later index schedule (sy_state s), sy_jobs := remove1 (index, i) (sy_jobs s)\<rparr>)"
proof -
  from assms obtain e where e: "sd_slots (sy_state s) ! index = Some e" "index < length (sd_slots (sy_state s))" "se_id e = i"
    by (auto simp: sched_inv_def running_slots_def)
  have d: "distinct (map fst (sy_jobs s))" using assms(1) by (simp add: sched_inv_def)
  then have "distinct (sy_jobs s)" by (simp add: distinct_map)
  moreover have keep: "length (sd_slots (sched_finish later index schedule (sy_state s))) = length (sd_slots (sy_state s))"
    "sd_cursor (sched_finish later index schedule (sy_state s)) = sd_cursor (sy_state s)"
    "sd_next (sched_finish later index schedule (sy_state s)) = sd_next (sy_state s)"
    by (simp_all add: sched_finish_def split: option.split)
  ultimately show ?thesis
    using assms(1) finish_sets [OF e(1,2), of later schedule] e(3) distinct_fst_remove1 [OF d, of "(index, i)"]
    by (auto simp: sched_inv_def)
qed

lemma sched_step_inv: "sched_step s t \<Longrightarrow> sched_inv n s \<Longrightarrow> sched_inv n t"
proof (induction rule: sched_step.induct)
  case (sch_register alive work s r t)
  then show ?case
  proof (cases r)
    case (Inl e)
    then show ?thesis using sch_register sched_inv_tame [of n s t] register_Err by fastforce
  next
    case (Inr h)
    then show ?thesis using sch_register sched_inv_register [of n s alive work "fst h" "snd h" t] by simp
  qed
next
  case (sch_idle lv now s due t)
  then have c: "sd_cursor (sy_state s) < length (sd_slots (sy_state s))" by (simp add: sched_inv_def)
  have "sched_tame (sy_state s) t" using take_taken [OF sch_idle(1) _ c] by (simp add: sched_taken_def)
  then show ?case by (rule sched_inv_tame [OF sch_idle(2)])
qed (auto intro: sched_inv_tame sched_inv_take sched_inv_finish tame_wake tame_close tame_shutdown)

lemma sched_steps_inv: "sched_steps s t \<Longrightarrow> sched_inv n s \<Longrightarrow> sched_inv n t"
  by (induction rule: rtranclp_induct) (auto intro: sched_step_inv)

lemma sched_new_inv: "sched_new m w alloc threads = Ok s \<Longrightarrow> sched_inv m (sched_sys_new s)"
  by (auto simp: sched_new_def sched_inv_def sched_sys_new_def open_slots_def running_slots_def split: if_splits)

section \<open>Wakes are served\<close>

text \<open>A registration that left the table, or was closed in it, never comes back.\<close>

definition sched_registered :: "sched_handle \<Rightarrow> sched_state \<Rightarrow> bool" where
  "sched_registered h s \<longleftrightarrow> (\<exists>e. handle_entry h s = Some e \<and> \<not> se_closed e)"

definition sched_turn :: "sched_handle \<Rightarrow> nat \<Rightarrow> sched_state \<Rightarrow> bool" where
  "sched_turn h d s \<longleftrightarrow> d < length (sd_slots s) \<and> fst h = (sd_cursor s + d) mod length (sd_slots s)"

text \<open>The entry of a handle after a critical section that does not start it.\<close>

definition sched_owed :: "sched_handle \<Rightarrow> sched_entry \<Rightarrow> sched_state \<Rightarrow> bool" where
  "sched_owed h e s \<longleftrightarrow> handle_entry h s = Some e \<and> se_pending e \<and> \<not> se_closed e"

lemma tame_handle:
  assumes "sched_tame s t" "fst h < length (sd_slots s)" "handle_entry h t = Some f"
  obtains e where "handle_entry h s = Some e" "se_running f = se_running e"
    "se_closed e \<longrightarrow> se_closed f" "se_pending e \<longrightarrow> se_pending f"
proof -
  have "slot_tame (sd_slots s ! fst h) (sd_slots t ! fst h)" using assms(1,2) by (simp add: sched_tame_def)
  then show ?thesis using assms(3) that
    by (auto simp: handle_entry_def slot_tame_def split: option.splits if_splits)
qed

lemma turn_exists:
  assumes "fst h < length (sd_slots s)" "sd_cursor s < length (sd_slots s)"
  shows "\<exists>d. sched_turn h d s"
proof (cases "sd_cursor s \<le> fst h")
  case True
  then have "sched_turn h (fst h - sd_cursor s) s" using assms by (simp add: sched_turn_def)
  then show ?thesis ..
next
  case False
  then have "sched_turn h (fst h + length (sd_slots s) - sd_cursor s) s" using assms by (auto simp: sched_turn_def)
  then show ?thesis ..
qed

lemma turn_position:
  assumes "sched_turn h d s" "sd_cursor s < length (sd_slots s)"
  shows "scan_order s ! d = fst h" "d < length (scan_order s)"
  using assms by (simp_all add: sched_turn_def scan_order_def)

text \<open>A run of the slot at position \<open>p\<close> of the scan brings every later slot \<open>p + 1\<close> closer.\<close>

lemma turn_advance:
  assumes "sched_turn h d s" "sd_cursor s < length (sd_slots s)" "scan_order s ! p = index" "p < d"
    "length (sd_slots t) = length (sd_slots s)" "sd_cursor t = (index + 1) mod length (sd_slots s)"
  shows "sched_turn h (d - p - 1) t"
proof -
  let ?n = "length (sd_slots s)"
  have d: "d < ?n" "fst h = (sd_cursor s + d) mod ?n" using assms(1) by (simp_all add: sched_turn_def)
  have "index = (sd_cursor s + p) mod ?n" using assms(3,4) d(1) by (auto simp: scan_order_def)
  then have "((index + 1) mod ?n + (d - p - 1)) mod ?n = (sd_cursor s + p + 1 + (d - p - 1)) mod ?n"
    by (simp add: mod_simps)
  also have "sd_cursor s + p + 1 + (d - p - 1) = sd_cursor s + d" using assms(4) by simp
  finally show ?thesis using d assms(5,6) by (simp add: sched_turn_def)
qed

definition sched_progress :: "sched_handle \<Rightarrow> nat \<Rightarrow> bool \<Rightarrow> nat \<Rightarrow> sched_sys \<Rightarrow> bool" where
  "sched_progress h bound idle from t \<longleftrightarrow> from \<le> length (sy_started t) \<and>
     (snd h \<in> set (drop from (sy_started t)) \<or> \<not> sched_registered h (sy_state t)
      \<or> (\<exists>e d. sched_owed h e (sy_state t) \<and> sched_turn h d (sy_state t)
           \<and> (idle \<longrightarrow> \<not> se_running e \<and> length (drop from (sy_started t)) + d \<le> bound)))"

lemma progress_keep:
  assumes "sched_progress h bound idle from t" "sy_started u = sy_started t"
    "length (sd_slots (sy_state u)) = length (sd_slots (sy_state t))" "sd_cursor (sy_state u) = sd_cursor (sy_state t)"
    "\<And>f. handle_entry h (sy_state u) = Some f \<Longrightarrow> \<not> se_closed f \<Longrightarrow>
       \<exists>e. handle_entry h (sy_state t) = Some e \<and> \<not> se_closed e \<and> (se_pending e \<longrightarrow> se_pending f)
         \<and> (idle \<longrightarrow> \<not> se_running e \<longrightarrow> \<not> se_running f)"
  shows "sched_progress h bound idle from u"
proof (cases "sched_registered h (sy_state u) \<and> snd h \<notin> set (drop from (sy_started t))")
  case True
  then obtain f where f: "handle_entry h (sy_state u) = Some f" "\<not> se_closed f" by (auto simp: sched_registered_def)
  from assms(5) [OF f] obtain e where e: "handle_entry h (sy_state t) = Some e" "\<not> se_closed e"
    "se_pending e \<longrightarrow> se_pending f" "idle \<longrightarrow> \<not> se_running e \<longrightarrow> \<not> se_running f" by blast
  then have "sched_registered h (sy_state t)" by (auto simp: sched_registered_def)
  with True assms(1) e(1) obtain d where "se_pending e" "sched_turn h d (sy_state t)"
    "idle \<longrightarrow> \<not> se_running e \<and> length (drop from (sy_started t)) + d \<le> bound"
    by (auto simp: sched_progress_def sched_owed_def)
  then have "sched_owed h f (sy_state u) \<and> sched_turn h d (sy_state u)
      \<and> (idle \<longrightarrow> \<not> se_running f \<and> length (drop from (sy_started u)) + d \<le> bound)"
    using f e assms(2-4) by (simp add: sched_owed_def sched_turn_def)
  then show ?thesis using assms(1,2) unfolding sched_progress_def by auto
next
  case False
  then show ?thesis using assms(1,2) by (auto simp: sched_progress_def)
qed

lemma progress_tame:
  assumes "sched_progress h bound idle from t" "sched_tame (sy_state t) v" "fst h < length (sd_slots (sy_state t))"
  shows "sched_progress h bound idle from (t\<lparr>sy_state := v\<rparr>)"
proof (rule progress_keep [OF assms(1)])
  fix f
  assume f: "handle_entry h (sy_state (t\<lparr>sy_state := v\<rparr>)) = Some f" "\<not> se_closed f"
  then have "handle_entry h v = Some f" by simp
  from tame_handle [OF assms(2,3) this] obtain e where "handle_entry h (sy_state t) = Some e"
    "se_running f = se_running e" "se_closed e \<longrightarrow> se_closed f" "se_pending e \<longrightarrow> se_pending f" by blast
  with f(2) show "\<exists>e. handle_entry h (sy_state t) = Some e \<and> \<not> se_closed e \<and> (se_pending e \<longrightarrow> se_pending f)
      \<and> (idle \<longrightarrow> \<not> se_running e \<longrightarrow> \<not> se_running f)" by auto
qed (use assms(2) in \<open>simp_all add: sched_tame_def\<close>)

lemma progress_cong:
  "sched_progress h bound idle from t \<Longrightarrow> sy_state u = sy_state t \<Longrightarrow> sy_started u = sy_started t
    \<Longrightarrow> sched_progress h bound idle from u"
  by (simp only: sched_progress_def)

lemma handle_other:
  assumes "fst h \<noteq> i"
  shows "handle_entry h (s\<lparr>sd_slots := (sd_slots s)[i := a]\<rparr>) = handle_entry h s"
    "handle_entry h (s\<lparr>sd_next := x, sd_slots := (sd_slots s)[i := a]\<rparr>) = handle_entry h s"
    "handle_entry h (start_entry i e s) = handle_entry h s"
  using assms by (simp_all add: handle_entry_def start_entry_def)

lemma progress_register:
  assumes "sched_progress h bound idle from s" "sched_inv n s" "h \<in> set (sy_handles s)"
    "sched_register alive work (sy_state s) = (Ok (i, d), t)"
  shows "sched_progress h bound idle from (s\<lparr>sy_state := t\<rparr>)"
proof -
  from assms(4) obtain s1 where r: "sched_tame (sy_state s) s1" "i < length (sd_slots (sy_state s))" "sd_slots s1 ! i = None"
    "checked_add (sd_next (sy_state s)) 1 = Some d"
    "t = s1\<lparr>sd_next := d, sd_slots := (sd_slots s1)[i := Some (fresh_entry d work)]\<rparr>"
    by (rule register_Ok)
  have h: "fst h < length (sd_slots (sy_state s))" "snd h \<le> sd_next (sy_state s)"
    using assms(2,3) by (auto simp: sched_inv_def)
  have "unat d = unat (sd_next (sy_state s)) + 1" using checked_add_unat [OF r(4)] by simp
  then have d: "snd h \<noteq> d" using h(2) by (auto simp: word_le_nat_alt)
  have "i < length (sd_slots s1)" using r(1,2) by (simp add: sched_tame_def)
  then have "handle_entry h t = None" if "fst h = i" using r(5) d that by (auto simp: handle_entry_def fresh_entry_def)
  moreover have "handle_entry h t = handle_entry h s1" if "fst h \<noteq> i" using r(5) that by (simp add: handle_other)
  ultimately have back': "handle_entry h t = Some f \<Longrightarrow> handle_entry h s1 = Some f" for f by (cases "fst h = i") auto
  show ?thesis
    by (rule progress_keep [OF progress_tame [OF assms(1) r(1) h(1)]]) (use back' r(5) in auto)
qed

lemma progress_finish:
  assumes "sched_progress h bound idle from s" "sched_inv n s" "(index, i) \<in> set (sy_jobs s)"
  shows "sched_progress h bound idle from (s\<lparr>sy_state := sched_finish later index schedule (sy_state s)\<rparr>)"
proof (rule progress_keep [OF assms(1)])
  from assms(2,3) obtain e where e: "sd_slots (sy_state s) ! index = Some e" "index < length (sd_slots (sy_state s))"
    "se_running e" by (auto simp: sched_inv_def running_slots_def)
  fix f
  assume "handle_entry h (sy_state (s\<lparr>sy_state := sched_finish later index schedule (sy_state s)\<rparr>)) = Some f" "\<not> se_closed f"
  then show "\<exists>e. handle_entry h (sy_state s) = Some e \<and> \<not> se_closed e \<and> (se_pending e \<longrightarrow> se_pending f)
      \<and> (idle \<longrightarrow> \<not> se_running e \<longrightarrow> \<not> se_running f)"
    using e by (cases "fst h = index")
      (auto simp: sched_finish_def handle_other handle_entry_def nth_list_update split: if_splits option.splits)
qed (simp_all add: sched_finish_def split: option.split)

lemma progress_take:
  assumes "sched_progress h bound idle from s" "sched_inv n s" "h \<in> set (sy_handles s)"
    "sched_take lv now (sy_state s) = (TakeJob index work, t)" "sd_slots t ! index = Some e"
  shows "sched_progress h bound idle from (s\<lparr>sy_state := t, sy_started := sy_started s @ [se_id e]\<rparr>)"
proof -
  let ?u = "s\<lparr>sy_state := t, sy_started := sy_started s @ [se_id e]\<rparr>"
  have c: "sd_cursor (sy_state s) < length (sd_slots (sy_state s))" "fst h < length (sd_slots (sy_state s))"
    using assms(2,3) by (auto simp: sched_inv_def)
  from take_taken [OF assms(4) _ c(1)] obtain s1 pre post g where t: "sched_tame (sy_state s) s1"
    "scan_order (sy_state s) = pre @ index # post" "sched_passed (sy_state s) s1 pre"
    "sd_slots s1 ! index = Some g" "t = start_entry index g s1"
    by (auto simp: sched_taken_def)
  have len: "length (sd_slots s1) = length (sd_slots (sy_state s))" using t(1) by (simp add: sched_tame_def)
  have i: "index < length (sd_slots s1)" using scan_order_props(2) [OF c(1)] t(2) len by auto
  have g: "se_id e = se_id g" using assms(5) t(5) i by (auto simp: start_entry_def)
  have from_le: "from \<le> length (sy_started s)" using assms(1) by (simp add: sched_progress_def)
  then have new: "drop from (sy_started ?u) = drop from (sy_started s) @ [se_id e]" by simp
  have shape: "length (sd_slots t) = length (sd_slots (sy_state s))" "sd_cursor t = (index + 1) mod length (sd_slots (sy_state s))"
    using t(5) len by (simp_all add: start_entry_def)
  have i_lt: "(index + 1) mod length (sd_slots (sy_state s)) < length (sd_slots (sy_state s))" using c by (auto intro: mod_less_divisor)
  show ?thesis
  proof (cases "sched_registered h t \<and> snd h \<notin> set (drop from (sy_started ?u))")
    case True
    then obtain f where f: "handle_entry h t = Some f" "\<not> se_closed f" by (auto simp: sched_registered_def)
    have other: "fst h \<noteq> index"
    proof
      assume "fst h = index"
      then have "se_id g = snd h" using f(1) t(5) i by (auto simp: handle_entry_def start_entry_def split: if_splits)
      then show False using True g new by simp
    qed
    then have "handle_entry h s1 = Some f" using f(1) t(5) by (simp add: handle_other)
    from tame_handle [OF t(1) c(2) this] obtain o' where o: "handle_entry h (sy_state s) = Some o'"
      "se_running f = se_running o'" "\<not> se_closed o'" "se_pending o' \<longrightarrow> se_pending f" using f(2) by blast
    then have "sched_registered h (sy_state s)" by (auto simp: sched_registered_def)
    with True assms(1) new o(1) obtain d where d: "se_pending o'" "sched_turn h d (sy_state s)"
      "idle \<longrightarrow> \<not> se_running o' \<and> length (drop from (sy_started s)) + d \<le> bound"
      by (auto simp: sched_progress_def sched_owed_def)
    have owed': "sched_owed h f t" using f o(4) d(1) by (simp add: sched_owed_def)
    obtain d' where "sched_turn h d' t \<and> (idle \<longrightarrow> \<not> se_running f \<and> length (drop from (sy_started ?u)) + d' \<le> bound)"
    proof (cases idle)
      case True
      have ready: "sched_ready o'" using d(1,3) o(3) True by (simp add: sched_ready_def)
      have "fst h \<notin> set pre"
        using t(3) handle_entry_Some [OF o(1)] ready \<open>handle_entry h s1 = Some f\<close>
        by (auto simp: sched_passed_def handle_entry_def)
      moreover have "scan_order (sy_state s) ! d = fst h" "d < length (scan_order (sy_state s))"
        using turn_position [OF d(2) c(1)] by simp_all
      ultimately have "length pre < d"
        using other t(2) by (metis linorder_neqE_nat nth_append nth_append_length nth_mem)
      moreover have "scan_order (sy_state s) ! length pre = index" using t(2) by simp
      ultimately have "sched_turn h (d - length pre - 1) t" using turn_advance [OF d(2) c(1)] shape by blast
      moreover have "length (drop from (sy_started ?u)) + (d - length pre - 1) \<le> bound"
        using d(3) True \<open>length pre < d\<close> unfolding new by simp arith
      ultimately show ?thesis using that d(3) o(2) True by blast
    next
      case False
      then show ?thesis using that turn_exists [of h t] c shape i_lt by auto
    qed
    with owed' from_le show ?thesis unfolding sched_progress_def by auto
  next
    case False
    then show ?thesis using from_le by (auto simp: sched_progress_def)
  qed
qed

lemma progress_step:
  assumes "sched_step s t" "sched_inv n s" "h \<in> set (sy_handles s)" "sched_progress h bound idle from s"
  shows "sched_progress h bound idle from t"
proof -
  have h: "fst h < length (sd_slots (sy_state s))" using assms(2,3) by (auto simp: sched_inv_def)
  note keep = progress_tame [OF assms(4) _ h]
  show ?thesis
    using assms(1)
  proof cases
    case (sch_register alive work r u)
    show ?thesis
    proof (cases r)
      case (Inl e)
      then show ?thesis using sch_register keep [OF register_Err] by simp
    next
      case (Inr x)
      then have "sched_progress h bound idle from (s\<lparr>sy_state := u\<rparr>)"
        using sch_register progress_register [OF assms(4,2,3), of alive work "fst x" "snd x" u] by simp
      then show ?thesis by (rule progress_cong) (use sch_register in simp_all)
    qed
  next
    case (sch_idle lv now due u)
    have c: "sd_cursor (sy_state s) < length (sd_slots (sy_state s))" using assms(2) by (simp add: sched_inv_def)
    have "sched_tame (sy_state s) u" using take_taken [OF sch_idle(2) _ c] by (simp add: sched_taken_def)
    then show ?thesis using keep sch_idle(1) by simp
  next
    case (sch_take lv now index work u e)
    show ?thesis
      by (rule progress_cong [OF progress_take [OF assms(4,2,3) sch_take(2,3)]]) (use sch_take(1) in simp_all)
  next
    case (sch_finish index i later outcome failed dropped)
    show ?thesis
      by (rule progress_cong [OF progress_finish [OF assms(4,2) sch_finish(2)]]) (use sch_finish(1) in simp_all)
  qed (use keep tame_wake tame_close tame_shutdown in auto)
qed

lemma handles_grow: "sched_step s t \<Longrightarrow> set (sy_handles s) \<subseteq> set (sy_handles t)"
  by (induction rule: sched_step.induct) (auto split: sum.splits)

lemma progress_steps:
  assumes "sched_steps s t" "sched_inv n s" "h \<in> set (sy_handles s)" "sched_progress h bound idle from s"
  shows "sched_progress h bound idle from t"
proof -
  have "sched_inv n t \<and> h \<in> set (sy_handles t) \<and> sched_progress h bound idle from t"
    using assms
  proof (induction rule: rtranclp_induct)
    case (step y z)
    then show ?case using sched_step_inv progress_step handles_grow by blast
  qed auto
  then show ?thesis by simp
qed

section \<open>Properties\<close>

text \<open>A pool of two slots, with two registrations; the first is running when the second is woken.\<close>

definition sample_pool :: sched_state where
  "sample_pool = \<lparr>sd_slots = [None, None], sd_next = 0, sd_cursor = 0, sd_closed = False\<rparr>"

definition sample_entry :: "u64 \<Rightarrow> bool \<Rightarrow> bool \<Rightarrow> sched_entry" where
  "sample_entry i running pending = \<lparr>se_id = i, se_work = unat i, se_running = running, se_pending = pending,
     se_closed = False, se_due = None\<rparr>"

definition sample_running :: sched_sys where
  "sample_running = \<lparr>sy_state = \<lparr>sd_slots = [Some (sample_entry 1 True False), Some (sample_entry 2 False False)],
       sd_next = 2, sd_cursor = 1, sd_closed = False\<rparr>,
     sy_jobs = [(0, 1)], sy_handles = [(1, 2), (0, 1)], sy_started = [1]\<rparr>"

lemma sample_pool_new: "sched_new 2 2 True 2 = Ok sample_pool"
  by (simp add: sched_new_def sample_pool_def numeral_2_eq_2)

lemma sample_pool_steps: "sched_steps (sched_sys_new sample_pool) sample_running"
proof -
  let ?a = "\<lparr>sy_state = \<lparr>sd_slots = [Some (sample_entry 1 False False), None], sd_next = 1, sd_cursor = 0, sd_closed = False\<rparr>,
    sy_jobs = [], sy_handles = [(0, 1)], sy_started = []\<rparr>"
  let ?b = "\<lparr>sy_state = \<lparr>sd_slots = [Some (sample_entry 1 False False), Some (sample_entry 2 False False)], sd_next = 2,
      sd_cursor = 0, sd_closed = False\<rparr>, sy_jobs = [], sy_handles = [(1, 2), (0, 1)], sy_started = []\<rparr>"
  let ?c = "\<lparr>sy_state = \<lparr>sd_slots = [Some (sample_entry 1 False True), Some (sample_entry 2 False False)], sd_next = 2,
      sd_cursor = 0, sd_closed = False\<rparr>, sy_jobs = [], sy_handles = [(1, 2), (0, 1)], sy_started = []\<rparr>"
  have "sched_step (sched_sys_new sample_pool) ?a"
    using sch_register [of "\<lambda>_. True" 1 "sched_sys_new sample_pool"]
    by (simp add: sched_register_def sched_sys_new_def sample_pool_def clear_dead_def sched_dead_def checked_add_def sample_entry_def)
  moreover have "sched_step ?a ?b"
    using sch_register [of "\<lambda>_. True" 2 ?a]
    by (simp add: sched_register_def clear_dead_def sched_dead_def checked_add_def sample_entry_def)
  moreover have "sched_step ?b ?c"
    using sch_wake [of "(0, 1)" ?b]
    by (simp add: sched_wake_def handle_entry_def sample_entry_def)
  moreover have "sched_step ?c sample_running"
    using sch_take [of "\<lparr>lv_strong = \<lambda>_. True, lv_upgrade = \<lambda>_. True\<rparr>" 0 ?c 0 1 "sy_state sample_running" "sample_entry 1 True False"]
    by (simp add: sched_take_def scan_order_def sched_due_def sample_entry_def sample_running_def numeral_2_eq_2)
  ultimately show ?thesis by (meson converse_rtranclp_into_rtranclp r_into_rtranclp)
qed

text \<open>
  C12. The pool never runs one registration concurrently: in every state that registrations,
  wakes, closes, shutdowns and any number of worker threads can reach, the runs in flight are
  exactly the slots marked running, with one worker per slot and one slot per registration,
  so no slot is reused while its run lasts.
\<close>

theorem sched_runs_exclusive:
  assumes "sched_new max_sessions workers alloc threads = Ok s0" "sched_steps (sched_sys_new s0) s"
  shows "distinct (map fst (sy_jobs s)) \<and> distinct (map snd (sy_jobs s))
    \<and> set (sy_jobs s) = running_slots (sy_state s) \<and> length (sd_slots (sy_state s)) = max_sessions"
proof -
  have inv: "sched_inv max_sessions s" by (rule sched_steps_inv [OF assms(2) sched_new_inv [OF assms(1)]])
  have "set (sy_jobs s) \<subseteq> set (sy_handles s)"
    using inv by (auto simp: sched_inv_def open_slots_def running_slots_def)
  moreover have "inj_on snd (set (sy_handles s))" "distinct (sy_jobs s)"
    using inv by (simp_all add: sched_inv_def distinct_map)
  ultimately have "distinct (map snd (sy_jobs s))" by (auto simp: distinct_map intro: inj_on_subset)
  with inv show ?thesis by (simp add: sched_inv_def)
qed

theorem sched_runs_exclusive_witness:
  "sy_jobs sample_running = [(0, 1)] \<and> running_slots (sy_state sample_running) = {(0, 1)}"
  using sched_runs_exclusive [OF sample_pool_new sample_pool_steps] by (simp add: sample_running_def)

text \<open>
  C14. No wake is lost, and none starves: after a wake is accepted, as long as the registration
  is open and its run has not begun, the wake is still recorded; and if the work was idle at
  the wake, fewer runs than there are slots begin before its own.
\<close>

theorem sched_wake_served:
  assumes "sched_new max_sessions workers alloc threads = Ok s0" "sched_steps (sched_sys_new s0) s"
    "h \<in> set (sy_handles s)" "handle_entry h (sy_state s) = Some a" "sched_wake h (sy_state s) = (Ok (), u)"
    "sched_steps (s\<lparr>sy_state := u\<rparr>) t" "sched_registered h (sy_state t)"
    "snd h \<notin> set (drop (length (sy_started s)) (sy_started t))"
  shows "(\<exists>e. handle_entry h (sy_state t) = Some e \<and> se_pending e)
    \<and> (\<not> se_running a \<longrightarrow> length (drop (length (sy_started s)) (sy_started t)) < max_sessions)"
proof -
  let ?k = "length (sy_started s)" and ?w = "s\<lparr>sy_state := u\<rparr>"
  have inv: "sched_inv max_sessions s" by (rule sched_steps_inv [OF assms(2) sched_new_inv [OF assms(1)]])
  have sched_tame: "sched_tame (sy_state s) u" by (rule tame_wake [OF assms(5)])
  have invw: "sched_inv max_sessions ?w" by (rule sched_inv_tame [OF inv sched_tame])
  have h: "fst h < length (sd_slots (sy_state s))" using inv assms(3) by (auto simp: sched_inv_def)
  have len: "length (sd_slots u) = max_sessions" "sd_cursor u < max_sessions" using invw by (simp_all add: sched_inv_def)
  have "\<not> se_closed a" "u = (sy_state s)\<lparr>sd_slots := (sd_slots (sy_state s))[fst h := Some (a\<lparr>se_pending := True\<rparr>)]\<rparr>"
    using assms(4,5) by (auto simp: sched_wake_def split: if_splits)
  then have "sched_owed h (a\<lparr>se_pending := True\<rparr>) u"
    using h handle_entry_Some [OF assms(4)] by (simp add: sched_owed_def handle_entry_def)
  moreover obtain d where d: "sched_turn h d u" using turn_exists [of h u] len h sched_tame by (auto simp: sched_tame_def)
  ultimately have "sched_owed h (a\<lparr>se_pending := True\<rparr>) (sy_state ?w) \<and> sched_turn h d (sy_state ?w)
      \<and> (\<not> se_running a \<longrightarrow> \<not> se_running (a\<lparr>se_pending := True\<rparr>) \<and> length (drop ?k (sy_started ?w)) + d \<le> d)"
    by simp
  moreover have "?k \<le> length (sy_started ?w)" by simp
  ultimately have "sched_progress h d (\<not> se_running a) ?k ?w" unfolding sched_progress_def by blast
  then have "sched_progress h d (\<not> se_running a) ?k t"
    using progress_steps [OF assms(6) invw] assms(3) by simp
  then obtain e d' where "sched_owed h e (sy_state t)" "\<not> se_running a \<longrightarrow> length (drop ?k (sy_started t)) + d' \<le> d"
    using assms(7,8) unfolding sched_progress_def by blast
  moreover have "d < max_sessions" using d len by (simp add: sched_turn_def)
  ultimately show ?thesis by (auto simp: sched_owed_def)
qed

theorem sched_wake_served_witness:
  "\<exists>u. sched_wake (1, 2) (sy_state sample_running) = (Ok (), u)
    \<and> (\<exists>e. handle_entry (1, 2) u = Some e \<and> se_pending e)"
proof -
  let ?u = "snd (sched_wake (1, 2) (sy_state sample_running))"
  have w: "sched_wake (1, 2) (sy_state sample_running) = (Ok (), ?u)"
    by (simp add: sched_wake_def handle_entry_def sample_running_def sample_entry_def)
  have "\<exists>e. handle_entry (1, 2) (sy_state (sample_running\<lparr>sy_state := ?u\<rparr>)) = Some e \<and> se_pending e"
    using sched_wake_served [OF sample_pool_new sample_pool_steps _ _ w rtranclp.rtrancl_refl, of "sample_entry 2 False False"]
    by (simp add: sample_running_def handle_entry_def sample_entry_def sched_wake_def sched_registered_def)
  with w show ?thesis by auto
qed

end
