(* ===== verification/Source_Reaper.thy ===== *)
theory Source_Reaper
  imports Admission_Queue Checkpoint_Protector Scheduler "HOL-Library.Multiset"
begin

text \<open>
  The one blocking job of a projection and the bounded deletion of superseded checkpoint
  sources: \<open>InFlight\<close> (\<^verbatim>\<open>crates/application/src/projection/inflight.rs\<close>), \<open>SourceReaper\<close>
  (\<^verbatim>\<open>reaper.rs\<close>) and the source values of \<^verbatim>\<open>state.rs\<close>.

  A disk lease is its identity and its size: it is alive as long as some value holds it, and
  dropping the value releases the charge.  A mailbox is the published result, if any; the
  blocking pool fills it at any time.  Whether the pool accepts a job is an argument.
\<close>

section \<open>Sources\<close>

record disk_lease =
  dk_id :: nat
  dk_bytes :: usize

record committed_source =
  cs_reference :: checkpoint_ref
  cs_descriptor :: checkpoint_descriptor
  cs_disk :: disk_lease

record unreclaimed_source =
  un_reference :: "checkpoint_ref option"
  un_key :: checkpoint_key
  un_descriptor :: checkpoint_descriptor
  un_disk :: disk_lease

definition from_uncertain_park :: "compatibility_id \<Rightarrow> park_attempt \<Rightarrow> disk_lease \<Rightarrow> unreclaimed_source" where
  "from_uncertain_park compatibility attempt disk =
     \<lparr>un_reference = None,
      un_key = \<lparr>ck_lifetime = rc_lifetime (pa_processed attempt), ck_generation = pa_generation attempt\<rparr>,
      un_descriptor = \<lparr>cd_compatibility = compatibility, cd_processed = pa_processed attempt,
                       cd_control_generation = pa_control_generation attempt\<rparr>,
      un_disk = disk\<rparr>"

definition unreclaimed_from :: "committed_source \<Rightarrow> unreclaimed_source" where
  "unreclaimed_from s =
     \<lparr>un_reference = Some (cs_reference s), un_key = cr_key (cs_reference s),
      un_descriptor = cs_descriptor s, un_disk = cs_disk s\<rparr>"

section \<open>The job slot\<close>

record delete_attempt =
  da_source :: committed_source
  da_attempts :: u32

type_synonym 'a mailbox = "(projection_error, 'a) result option"
type_synonym io_memory = "usize \<times> usize"

datatype pending_io =
    PendCommit park_attempt disk_lease io_memory "commit_outcome mailbox"
  | PendRestore usize io_memory "terminal_checkpoint mailbox"
  | PendTransfer snapshot_request io_memory staging_lease "terminal_checkpoint mailbox"
  | PendDelete delete_attempt "unit mailbox"

datatype finished_io =
    FinCommit park_attempt disk_lease io_memory "(projection_error, commit_outcome) result"
  | FinRestore usize io_memory "(projection_error, terminal_checkpoint) result"
  | FinTransfer snapshot_request io_memory staging_lease "(projection_error, terminal_checkpoint) result"
  | FinDelete delete_attempt "(projection_error, unit) result"

definition io_busy :: "pending_io option \<Rightarrow> bool" where
  "io_busy io \<longleftrightarrow> io \<noteq> None"

fun take_finished :: "pending_io option \<Rightarrow> finished_io option \<times> pending_io option" where
  "take_finished None = (None, None)"
| "take_finished (Some (PendCommit attempt disk memory mailbox)) =
     (case mailbox of
        Some r \<Rightarrow> (Some (FinCommit attempt disk memory r), None)
      | None \<Rightarrow> (None, Some (PendCommit attempt disk memory None)))"
| "take_finished (Some (PendRestore resident memory mailbox)) =
     (case mailbox of
        Some r \<Rightarrow> (Some (FinRestore resident memory r), None)
      | None \<Rightarrow> (None, Some (PendRestore resident memory None)))"
| "take_finished (Some (PendTransfer request memory staging mailbox)) =
     (case mailbox of
        Some r \<Rightarrow> (Some (FinTransfer request memory staging r), None)
      | None \<Rightarrow> (None, Some (PendTransfer request memory staging None)))"
| "take_finished (Some (PendDelete attempt mailbox)) =
     (case mailbox of
        Some r \<Rightarrow> (Some (FinDelete attempt r), None)
      | None \<Rightarrow> (None, Some (PendDelete attempt None)))"

definition io_abandon :: "pending_io option \<Rightarrow> pending_io option \<times> pending_io option" where
  "io_abandon io = (io, None)"

text \<open>\<open>blocking::submit\<close> hands back an empty mailbox, or \<open>Capacity\<close> when the pool refuses; a
  job that panics publishes \<open>Worker\<close>.\<close>

definition blocking_submit :: "bool \<Rightarrow> (projection_error, 'a mailbox) result" where
  "blocking_submit accepted = (if accepted then Ok None else Err JCapacity)"

definition job_result :: "bool \<Rightarrow> (projection_error, 'a) result \<Rightarrow> (projection_error, 'a) result" where
  "job_result panicked r = (if panicked then Err JWorker else r)"

definition io_submit ::
  "bool \<Rightarrow> pending_io option \<Rightarrow> 'h \<Rightarrow> ('h \<Rightarrow> 'a mailbox \<Rightarrow> pending_io)
    \<Rightarrow> ('h \<times> projection_error, unit) result \<times> pending_io option" where
  "io_submit accepted io held own =
     (if io \<noteq> None then (Err (held, JWorker), io)
      else case blocking_submit accepted of
        Err e \<Rightarrow> (Err (held, e), io)
      | Ok mailbox \<Rightarrow> (Ok (), Some (own held mailbox)))"

section \<open>The reaper\<close>

record source_reaper =
  rp_queue :: "delete_attempt list"
  rp_max_attempts :: u32

definition reaper_new :: "u32 \<Rightarrow> source_reaper" where
  "reaper_new max_attempts = \<lparr>rp_queue = [], rp_max_attempts = max_attempts\<rparr>"

definition retire :: "committed_source \<Rightarrow> source_reaper \<Rightarrow> source_reaper" where
  "retire s r = r\<lparr>rp_queue := rp_queue r @ [\<lparr>da_source = s, da_attempts = 0\<rparr>]\<rparr>"

definition holds_sources :: "source_reaper \<Rightarrow> bool" where
  "holds_sources r \<longleftrightarrow> rp_queue r \<noteq> []"

definition check_out :: "source_reaper \<Rightarrow> delete_attempt option \<times> source_reaper" where
  "check_out r =
     (case rp_queue r of [] \<Rightarrow> (None, r)
      | a # rest \<Rightarrow> if da_attempts a \<ge> rp_max_attempts r then (None, r) else (Some a, r\<lparr>rp_queue := rest\<rparr>))"

definition reaper_start_delete ::
  "bool \<Rightarrow> pending_io option \<Rightarrow> source_reaper \<Rightarrow> work_schedule \<times> pending_io option \<times> source_reaper" where
  "reaper_start_delete accepted io r =
     (case check_out r of
        (None, r) \<Rightarrow> (WorkDormant, io, r)
      | (Some attempt, r) \<Rightarrow>
          (case io_submit accepted io attempt PendDelete of
             (Ok _, io) \<Rightarrow> (WorkDormant, io, r)
           | (Err (attempt, _), io) \<Rightarrow>
               (WorkAfter (from_millis 5), io, r\<lparr>rp_queue := attempt # rp_queue r\<rparr>)))"

definition give_up_or_retry ::
  "delete_attempt \<Rightarrow> projection_error \<Rightarrow> source_reaper \<Rightarrow> projection_error option \<times> source_reaper" where
  "give_up_or_retry attempt e r =
     (let attempts = saturating_add (da_attempts attempt) 1;
          exhausted = attempts \<ge> rp_max_attempts r
      in (if exhausted then Some e else None,
          r\<lparr>rp_queue := \<lparr>da_source = da_source attempt, da_attempts = attempts\<rparr> # rp_queue r\<rparr>))"

definition finish_delete ::
  "delete_attempt \<Rightarrow> (projection_error, unit) result \<Rightarrow> source_reaper \<Rightarrow> projection_error option \<times> source_reaper"
where
  "finish_delete attempt result r =
     (case result of Ok _ \<Rightarrow> (None, r) | Err e \<Rightarrow> give_up_or_retry attempt e r)"

definition restore_attempts :: "source_reaper \<Rightarrow> source_reaper" where
  "restore_attempts r = r\<lparr>rp_queue := map (\<lambda>a. a\<lparr>da_attempts := 0\<rparr>) (rp_queue r)\<rparr>"

definition surrender :: "source_reaper \<Rightarrow> unreclaimed_source list \<times> source_reaper" where
  "surrender r = (map (unreclaimed_from \<circ> da_source) (rp_queue r), r\<lparr>rp_queue := []\<rparr>)"

section \<open>Conservation of disk leases\<close>

text \<open>
  The reaper with its job slot and the runtime's ledger, under any sequence of operations.
  The ghost fields record the leases of the sources ever retired and of those whose deletion
  the store confirmed.
\<close>

record reaper_sys =
  rs_reaper :: source_reaper
  rs_io :: "pending_io option"
  rs_ledger :: "unreclaimed_source list"
  rs_retired :: "disk_lease list"
  rs_deleted :: "disk_lease list"

inductive reaper_step :: "reaper_sys \<Rightarrow> reaper_sys \<Rightarrow> bool" where
  reap_retire:
    "reaper_step s (s\<lparr>rs_reaper := retire c (rs_reaper s), rs_retired := rs_retired s @ [cs_disk c]\<rparr>)"
| reap_start:
    "reaper_start_delete accepted (rs_io s) (rs_reaper s) = (w, io, r)
     \<Longrightarrow> reaper_step s (s\<lparr>rs_io := io, rs_reaper := r\<rparr>)"
| reap_publish:
    "rs_io s = Some (PendDelete a None) \<Longrightarrow> reaper_step s (s\<lparr>rs_io := Some (PendDelete a (Some result))\<rparr>)"
| reap_finish:
    "take_finished (rs_io s) = (Some (FinDelete a result), io)
     \<Longrightarrow> finish_delete a result (rs_reaper s) = (e, r)
     \<Longrightarrow> reaper_step s (s\<lparr>rs_io := io, rs_reaper := r,
           rs_deleted := (if result = Ok () then rs_deleted s @ [cs_disk (da_source a)] else rs_deleted s)\<rparr>)"
| reap_restore: "reaper_step s (s\<lparr>rs_reaper := restore_attempts (rs_reaper s)\<rparr>)"
| reap_surrender:
    "surrender (rs_reaper s) = (us, r)
     \<Longrightarrow> reaper_step s (s\<lparr>rs_reaper := r, rs_ledger := rs_ledger s @ us\<rparr>)"
| reap_abandon:
    "io_abandon (rs_io s) = (Some (PendDelete a m), io)
     \<Longrightarrow> reaper_step s (s\<lparr>rs_io := io, rs_ledger := rs_ledger s @ [unreclaimed_from (da_source a)]\<rparr>)"

inductive_cases reaper_stepE: "reaper_step s t"

definition reaper_sys_new :: "u32 \<Rightarrow> reaper_sys" where
  "reaper_sys_new n = \<lparr>rs_reaper = reaper_new n, rs_io = None, rs_ledger = [], rs_retired = [], rs_deleted = []\<rparr>"

text \<open>The leases a value holds.\<close>

definition queue_leases :: "source_reaper \<Rightarrow> disk_lease list" where
  "queue_leases r = map (cs_disk \<circ> da_source) (rp_queue r)"

fun io_leases :: "pending_io option \<Rightarrow> disk_lease list" where
  "io_leases (Some (PendCommit _ d _ _)) = [d]"
| "io_leases (Some (PendDelete a _)) = [cs_disk (da_source a)]"
| "io_leases _ = []"

lemma queue_leases_retire [simp]: "queue_leases (retire c r) = queue_leases r @ [cs_disk c]"
  by (simp add: queue_leases_def retire_def)

lemma queue_leases_restore [simp]: "queue_leases (restore_attempts r) = queue_leases r"
  by (simp add: queue_leases_def restore_attempts_def comp_def)

lemma surrender_leases:
  "surrender r = (us, r') \<Longrightarrow> map un_disk us = queue_leases r \<and> queue_leases r' = []"
  by (auto simp: surrender_def queue_leases_def unreclaimed_from_def comp_def)

lemma start_delete_leases:
  assumes "reaper_start_delete accepted io r = (w, io', r')"
  shows "mset (io_leases io') + mset (queue_leases r') = mset (io_leases io) + mset (queue_leases r)"
    "io \<noteq> None \<Longrightarrow> io' = io" "rp_max_attempts r' = rp_max_attempts r"
  using assms
  by (auto simp: reaper_start_delete_def check_out_def io_submit_def blocking_submit_def queue_leases_def
      split: list.splits if_splits option.splits sum.splits)

lemma finish_delete_leases:
  assumes "finish_delete a result r = (e, r')"
  shows "queue_leases r' = (if result = Ok () then [] else [cs_disk (da_source a)]) @ queue_leases r"
    "rp_max_attempts r' = rp_max_attempts r"
  using assms
  by (auto simp: finish_delete_def give_up_or_retry_def Let_def queue_leases_def split: sum.splits)

lemma take_finished_leases:
  "take_finished io = (f, io') \<Longrightarrow>
     io_leases io = io_leases io' @ (case f of Some (FinCommit _ d _ _) \<Rightarrow> [d]
       | Some (FinDelete a _) \<Rightarrow> [cs_disk (da_source a)] | _ \<Rightarrow> [])"
  by (cases io rule: take_finished.cases) (auto split: option.splits)

definition reaper_inv :: "reaper_sys \<Rightarrow> bool" where
  "reaper_inv s \<longleftrightarrow>
     mset (rs_retired s) = mset (queue_leases (rs_reaper s)) + mset (io_leases (rs_io s))
       + mset (map un_disk (rs_ledger s)) + mset (rs_deleted s)"

lemma reaper_step_inv: "reaper_step s t \<Longrightarrow> reaper_inv s \<Longrightarrow> reaper_inv t"
proof (induction rule: reaper_step.induct)
  case (reap_start accepted s w io r)
  from start_delete_leases(1) [OF reap_start(1)] reap_start(2) show ?case
    by (simp add: reaper_inv_def ac_simps)
next
  case (reap_finish s a result io e r)
  from take_finished_leases [OF reap_finish(1)] finish_delete_leases(1) [OF reap_finish(2)] reap_finish(3)
  show ?case by (simp add: reaper_inv_def ac_simps)
next
  case (reap_surrender s us r)
  from surrender_leases [OF reap_surrender(1)] reap_surrender(2) show ?case
    by (simp add: reaper_inv_def ac_simps)
next
  case (reap_abandon s a m io)
  then show ?case by (simp add: reaper_inv_def io_abandon_def unreclaimed_from_def ac_simps)
qed (simp_all add: reaper_inv_def ac_simps)

text \<open>
  C24. A disk charge is released only by a confirmed deletion: after any interleaving of
  retirements, deletion attempts, job completions, retries, surrenders and shutdown, every
  lease of a retired source is in exactly one place, the reaper's queue, the job in flight,
  the runtime's unreclaimed ledger, or the deletions the store acknowledged; a refused
  submission, a failed deletion or a surrender loses none and duplicates none.
\<close>

theorem reaper_conserves_leases:
  assumes "reaper_step\<^sup>*\<^sup>* (reaper_sys_new n) s"
  shows "mset (rs_retired s) = mset (queue_leases (rs_reaper s)) + mset (io_leases (rs_io s))
       + mset (map un_disk (rs_ledger s)) + mset (rs_deleted s)"
proof -
  have "reaper_inv (reaper_sys_new n)"
    by (simp add: reaper_sys_new_def reaper_new_def reaper_inv_def queue_leases_def)
  with assms have "reaper_inv s" by (induction rule: rtranclp_induct) (auto intro: reaper_step_inv)
  then show ?thesis by (simp add: reaper_inv_def)
qed

definition example_source :: committed_source where
  "example_source = \<lparr>cs_reference = example_ref, cs_descriptor = example_descriptor, cs_disk = \<lparr>dk_id = 1, dk_bytes = 43\<rparr>\<rparr>"

theorem reaper_conserves_leases_witness:
  "\<exists>s :: reaper_sys. rs_retired s = [cs_disk example_source] \<and> rs_deleted s = [] \<and> map un_disk (rs_ledger s) = [cs_disk example_source]
     \<and> mset (rs_retired s) = mset (queue_leases (rs_reaper s)) + mset (io_leases (rs_io s))
       + mset (map un_disk (rs_ledger s)) + mset (rs_deleted s)"
proof -
  let ?r = "retire example_source (reaper_new 3)"
  let ?one = "(reaper_sys_new 3)\<lparr>rs_reaper := ?r, rs_retired := [cs_disk example_source]\<rparr>"
  have one: "reaper_step (reaper_sys_new 3) ?one"
    using reap_retire [of "reaper_sys_new 3" example_source] by (simp add: reaper_sys_new_def)
  let ?two = "?one\<lparr>rs_reaper := ?r\<lparr>rp_queue := []\<rparr>, rs_ledger := [unreclaimed_from example_source]\<rparr>"
  have "reaper_step ?one ?two"
    using reap_surrender [of ?one "[unreclaimed_from example_source]" "?r\<lparr>rp_queue := []\<rparr>"]
    by (simp add: reaper_sys_new_def surrender_def retire_def reaper_new_def)
  with one have "reaper_step\<^sup>*\<^sup>* (reaper_sys_new 3) ?two" by (meson r_into_rtranclp rtranclp.rtrancl_into_rtrancl)
  note conserved = reaper_conserves_leases [OF this]
  show ?thesis
    by (rule exI [of _ ?two], intro conjI conserved) (simp_all add: reaper_sys_new_def unreclaimed_from_def)
qed

section \<open>Bounded deletion\<close>

text \<open>One failed deletion of the next due source.\<close>

definition failed_round :: "projection_error \<Rightarrow> source_reaper \<Rightarrow> projection_error option \<times> source_reaper" where
  "failed_round e r =
     (case check_out r of (None, r) \<Rightarrow> (None, r) | (Some a, r) \<Rightarrow> finish_delete a (Err e) r)"

definition failed_rounds :: "projection_error \<Rightarrow> nat \<Rightarrow> source_reaper \<Rightarrow> source_reaper" where
  "failed_rounds e n r = ((snd \<circ> failed_round e) ^^ n) r"

lemma failed_round_head:
  assumes "rp_queue r = a # rest" "da_attempts a < rp_max_attempts r"
  shows "failed_round e r =
     (if unat (da_attempts a) + 1 = unat (rp_max_attempts r) then Some e else None,
      r\<lparr>rp_queue := a\<lparr>da_attempts := da_attempts a + 1\<rparr> # rest\<rparr>)"
proof -
  have "unat (da_attempts a) + 1 < 2 ^ 32"
    using assms(2) unat_u32_less [of "rp_max_attempts r"] by (simp add: word_less_nat_alt)
  then have "saturating_add (da_attempts a) 1 = da_attempts a + 1" "unat (da_attempts a + 1) = unat (da_attempts a) + 1"
    by (simp_all add: saturating_add_eq unat_add_no_overflow)
  with assms show ?thesis
    by (cases a) (auto simp: failed_round_def check_out_def finish_delete_def give_up_or_retry_def Let_def
        word_le_nat_alt word_less_nat_alt)
qed

lemma failed_rounds_head:
  assumes "rp_queue r = a # rest" "da_attempts a = 0" "n \<le> unat (rp_max_attempts r)"
  shows "failed_rounds e n r = r\<lparr>rp_queue := a\<lparr>da_attempts := word_of_nat n\<rparr> # rest\<rparr>"
  using assms(3)
proof (induction n)
  case 0
  then show ?case using assms(1,2) by (cases a) (simp add: failed_rounds_def)
next
  case (Suc n)
  then have ih: "failed_rounds e n r = r\<lparr>rp_queue := a\<lparr>da_attempts := word_of_nat n\<rparr> # rest\<rparr>" by simp
  have "n < 2 ^ 32" using Suc.prems unat_u32_less [of "rp_max_attempts r"] by simp
  then have "(word_of_nat n :: u32) < rp_max_attempts r"
    using Suc.prems by (simp add: word_less_nat_alt unat_of_nat)
  from failed_round_head [of "failed_rounds e n r" "a\<lparr>da_attempts := word_of_nat n\<rparr>" rest e, unfolded ih, simplified, OF this]
  show ?case by (simp add: failed_rounds_def ih [unfolded failed_rounds_def] add.commute)
qed

text \<open>
  A source is deleted at most the configured number of times: while fewer attempts than
  the maximum have failed, the source stays at the head and another attempt is due; the
  failure that spends the last attempt is the one that is reported; after it no further
  attempt starts, the source is still held, and nothing behind it overtakes it.
\<close>

theorem delete_attempts_bounded:
  assumes "rp_queue r = a # rest" "da_attempts a = 0" "0 < rp_max_attempts r" "n \<le> unat (rp_max_attempts r)"
  shows "map da_source (rp_queue (failed_rounds e n r)) = map da_source (rp_queue r)
    \<and> (fst (check_out (failed_rounds e n r)) \<noteq> None \<longleftrightarrow> n < unat (rp_max_attempts r))
    \<and> (n < unat (rp_max_attempts r) \<longrightarrow>
        fst (failed_round e (failed_rounds e n r)) = (if Suc n = unat (rp_max_attempts r) then Some e else None))
    \<and> holds_sources (failed_rounds e n r)"
proof -
  note head = failed_rounds_head [OF assms(1,2,4), of e]
  have "n < 2 ^ 32" using assms(4) unat_u32_less [of "rp_max_attempts r"] by simp
  then have u: "unat (word_of_nat n :: u32) = n" by (simp add: unat_of_nat)
  show ?thesis
  proof (intro conjI impI)
    assume "n < unat (rp_max_attempts r)"
    then show "fst (failed_round e (failed_rounds e n r)) = (if Suc n = unat (rp_max_attempts r) then Some e else None)"
      using failed_round_head [of "failed_rounds e n r" "a\<lparr>da_attempts := word_of_nat n\<rparr>" rest e] head u
      by (simp add: word_less_nat_alt)
  qed (use head u assms(1) in \<open>auto simp: check_out_def holds_sources_def word_le_nat_alt\<close>)
qed

theorem delete_attempts_bounded_witness:
  "fst (check_out (failed_rounds JWorker 3 (retire example_source (reaper_new 3)))) = None
   \<and> holds_sources (failed_rounds JWorker 3 (retire example_source (reaper_new 3)))"
  using delete_attempts_bounded [of "retire example_source (reaper_new 3)" "\<lparr>da_source = example_source, da_attempts = 0\<rparr>"
      "[]" 3 JWorker]
  by (simp add: retire_def reaper_new_def)

end
