(* ===== verification/Transfer_Order.thy ===== *)
theory Transfer_Order
  imports Projection_Values
begin

text \<open>
  Ordering and retention policy of the continuation stream
  (\<^verbatim>\<open>crates/domain/src/projection/transfer.rs\<close>).  One sequence number counts successful
  model mutations, output or resize; a cursor is readable while it lies between the oldest
  retained event and the boundary.
\<close>

section \<open>Data\<close>

record transfer_cursor =
  tr_lifetime :: session_lifetime
  tr_sequence :: u64

record transfer_boundary =
  tb_cursor :: transfer_cursor
  tb_processed :: replay_cursor
  tb_control_generation :: control_generation

datatype transfer_error =
    XForeignLifetime | XFutureCursor | XResyncRequired transfer_cursor | XClosed | XUnavailable

record transfer_end =
  te_boundary :: transfer_boundary
  te_drain :: "drain_outcome option"
  te_projection_failure :: "projection_error option"

record transfer_order =
  to_boundary :: transfer_boundary
  to_oldest :: u64
  to_end :: "transfer_end option"
  to_closed :: bool
  to_unavailable :: bool

section \<open>Operations\<close>

definition transfer_new :: "session_lifetime \<Rightarrow> transfer_order" where
  "transfer_new l =
     \<lparr>to_boundary = \<lparr>tb_cursor = \<lparr>tr_lifetime = l, tr_sequence = 0\<rparr>,
        tb_processed = cursor_at l 0, tb_control_generation = control_initial\<rparr>,
      to_oldest = 0, to_end = None, to_closed = False, to_unavailable = False\<rparr>"

definition require_readable :: "transfer_order \<Rightarrow> (transfer_error, unit) result" where
  "require_readable t =
     (if to_closed t then Err XClosed else if to_unavailable t then Err XUnavailable else Ok ())"

definition require_append :: "transfer_order \<Rightarrow> (transfer_error, unit) result" where
  "require_append t =
     bind_result (require_readable t) (\<lambda>_. if to_end t \<noteq> None then Err XClosed else Ok ())"

definition validate_identity :: "transfer_order \<Rightarrow> transfer_cursor \<Rightarrow> (transfer_error, unit) result" where
  "validate_identity t c =
     (if tr_lifetime c \<noteq> tr_lifetime (tb_cursor (to_boundary t)) then Err XForeignLifetime
      else if tr_sequence c > tr_sequence (tb_cursor (to_boundary t)) then Err XFutureCursor
      else Ok ())"

definition transfer_advance :: "transfer_order \<Rightarrow> (transfer_error, transfer_order) result" where
  "transfer_advance t =
     bind_result (ok_or (checked_add (tr_sequence (tb_cursor (to_boundary t))) 1) XUnavailable) (\<lambda>n.
       Ok (t\<lparr>to_boundary := (to_boundary t)\<lparr>tb_cursor := (tb_cursor (to_boundary t))\<lparr>tr_sequence := n\<rparr>\<rparr>\<rparr>))"

definition transfer_output ::
  "transfer_order \<Rightarrow> replay_cursor \<Rightarrow> (transfer_error, transfer_boundary \<times> transfer_order) result" where
  "transfer_output t processed =
     bind_result (require_append t) (\<lambda>_.
     if rc_lifetime processed \<noteq> rc_lifetime (tb_processed (to_boundary t))
        \<or> rc_offset processed \<le> rc_offset (tb_processed (to_boundary t))
     then Err XUnavailable
     else bind_result (transfer_advance t) (\<lambda>t.
       let t = t\<lparr>to_boundary := (to_boundary t)\<lparr>tb_processed := processed\<rparr>\<rparr> in Ok (to_boundary t, t)))"

definition transfer_resized ::
  "transfer_order \<Rightarrow> control_generation \<Rightarrow> (transfer_error, transfer_boundary \<times> transfer_order) result" where
  "transfer_resized t generation =
     bind_result (require_append t) (\<lambda>_.
     if control_next (tb_control_generation (to_boundary t)) \<noteq> Some generation then Err XUnavailable
     else bind_result (transfer_advance t) (\<lambda>t.
       let t = t\<lparr>to_boundary := (to_boundary t)\<lparr>tb_control_generation := generation\<rparr>\<rparr>
       in Ok (to_boundary t, t)))"

definition discard_before :: "transfer_order \<Rightarrow> transfer_cursor \<Rightarrow> (transfer_error, transfer_order) result" where
  "discard_before t c =
     bind_result (validate_identity t c) (\<lambda>_. Ok (t\<lparr>to_oldest := max (to_oldest t) (tr_sequence c)\<rparr>))"

definition transfer_validate :: "transfer_order \<Rightarrow> transfer_cursor \<Rightarrow> (transfer_error, unit) result" where
  "transfer_validate t c =
     bind_result (require_readable t) (\<lambda>_.
     bind_result (validate_identity t c) (\<lambda>_.
     if tr_sequence c < to_oldest t
     then Err (XResyncRequired ((tb_cursor (to_boundary t))\<lparr>tr_sequence := to_oldest t\<rparr>))
     else Ok ()))"

definition transfer_seal ::
  "transfer_order \<Rightarrow> drain_outcome option \<Rightarrow> projection_error option \<Rightarrow> (transfer_error, transfer_order) result"
where
  "transfer_seal t drain failure =
     bind_result (require_readable t) (\<lambda>_.
     if to_end t = None then
       if drain = None \<and> failure = None then Err XUnavailable
       else Ok (t\<lparr>to_end := Some \<lparr>te_boundary = to_boundary t, te_drain = drain,
                                te_projection_failure = failure\<rparr>\<rparr>)
     else Ok t)"

definition accepts_events :: "transfer_order \<Rightarrow> bool" where
  "accepts_events t \<longleftrightarrow> \<not> to_closed t \<and> \<not> to_unavailable t \<and> to_end t = None"

definition open_boundary :: "transfer_order \<Rightarrow> (transfer_error, transfer_boundary) result" where
  "open_boundary t = bind_result (require_readable t) (\<lambda>_. Ok (to_boundary t))"

definition transfer_close :: "transfer_order \<Rightarrow> transfer_order" where
  "transfer_close t = t\<lparr>to_closed := True\<rparr>"

definition transfer_invalidate :: "transfer_order \<Rightarrow> transfer_order" where
  "transfer_invalidate t = t\<lparr>to_unavailable := True\<rparr>"

lemmas transfer_defs = require_readable_def require_append_def validate_identity_def
  transfer_advance_def transfer_output_def transfer_resized_def discard_before_def
  transfer_validate_def transfer_seal_def open_boundary_def transfer_close_def
  transfer_invalidate_def accepts_events_def

abbreviation to_sequence :: "transfer_order \<Rightarrow> u64" where
  "to_sequence t \<equiv> tr_sequence (tb_cursor (to_boundary t))"

lemma accepts_events_append: "accepts_events t \<longleftrightarrow> require_append t = Ok ()"
  by (auto simp: transfer_defs)

section \<open>Histories\<close>

datatype transfer_call =
    TOutput replay_cursor | TResized control_generation | TDiscard transfer_cursor
  | TSeal "drain_outcome option" "projection_error option" | TClose | TInvalidate

fun transfer_exec :: "transfer_order \<Rightarrow> transfer_call \<Rightarrow> transfer_order" where
  "transfer_exec t (TOutput p) = (case transfer_output t p of Ok (_, t') \<Rightarrow> t' | Err _ \<Rightarrow> t)"
| "transfer_exec t (TResized g) = (case transfer_resized t g of Ok (_, t') \<Rightarrow> t' | Err _ \<Rightarrow> t)"
| "transfer_exec t (TDiscard c) = (case discard_before t c of Ok t' \<Rightarrow> t' | Err _ \<Rightarrow> t)"
| "transfer_exec t (TSeal d f) = (case transfer_seal t d f of Ok t' \<Rightarrow> t' | Err _ \<Rightarrow> t)"
| "transfer_exec t TClose = transfer_close t"
| "transfer_exec t TInvalidate = transfer_invalidate t"

abbreviation transfer_run :: "transfer_order \<Rightarrow> transfer_call list \<Rightarrow> transfer_order" where
  "transfer_run t cs \<equiv> foldl transfer_exec t cs"

definition transfer_inv :: "session_lifetime \<Rightarrow> transfer_order \<Rightarrow> bool" where
  "transfer_inv l t \<longleftrightarrow>
     tr_lifetime (tb_cursor (to_boundary t)) = l \<and>
     rc_lifetime (tb_processed (to_boundary t)) = l \<and>
     to_oldest t \<le> to_sequence t \<and>
     (case to_end t of None \<Rightarrow> True | Some e \<Rightarrow> te_boundary e = to_boundary t)"

lemma transfer_output_Ok:
  assumes "transfer_output t p = Ok (b, t')"
  shows "b = to_boundary t'" "unat (to_sequence t') = Suc (unat (to_sequence t))"
    "tb_processed b = p" "rc_lifetime p = rc_lifetime (tb_processed (to_boundary t))"
    "rc_offset (tb_processed (to_boundary t)) < rc_offset p"
    "tb_control_generation b = tb_control_generation (to_boundary t)"
    "tr_lifetime (tb_cursor b) = tr_lifetime (tb_cursor (to_boundary t))"
    "to_oldest t' = to_oldest t" "to_end t = None" "to_end t' = None" "accepts_events t"
    "to_closed t' = to_closed t" "to_unavailable t' = to_unavailable t"
    "to_sequence t' - 1 = to_sequence t"
proof -
  obtain n where n: "checked_add (to_sequence t) 1 = Some n" and g: "accepts_events t"
    and b: "to_boundary t' = (to_boundary t)\<lparr>tb_cursor := (tb_cursor (to_boundary t))\<lparr>tr_sequence := n\<rparr>,
        tb_processed := p\<rparr>" "b = to_boundary t'"
    and rest: "rc_lifetime p = rc_lifetime (tb_processed (to_boundary t))"
      "rc_offset (tb_processed (to_boundary t)) < rc_offset p"
      "to_oldest t' = to_oldest t" "to_end t = None" "to_end t' = to_end t"
      "to_closed t' = to_closed t" "to_unavailable t' = to_unavailable t"
    using assms by (auto simp: transfer_output_def transfer_advance_def accepts_events_append Let_def
        bind_result_Ok_iff require_append_def not_le split: if_splits)
  have "unat n = Suc (unat (to_sequence t))" using checked_add_unat [OF n] by simp
  moreover have "n - 1 = to_sequence t" using n by (auto simp: checked_add_Some_iff)
  ultimately show "b = to_boundary t'" "unat (to_sequence t') = Suc (unat (to_sequence t))"
    "tb_processed b = p" "rc_lifetime p = rc_lifetime (tb_processed (to_boundary t))"
    "rc_offset (tb_processed (to_boundary t)) < rc_offset p"
    "tb_control_generation b = tb_control_generation (to_boundary t)"
    "tr_lifetime (tb_cursor b) = tr_lifetime (tb_cursor (to_boundary t))"
    "to_oldest t' = to_oldest t" "to_end t = None" "to_end t' = None" "accepts_events t"
    "to_closed t' = to_closed t" "to_unavailable t' = to_unavailable t"
    "to_sequence t' - 1 = to_sequence t"
    using b rest g by simp_all
qed

lemma transfer_resized_Ok:
  assumes "transfer_resized t g = Ok (b, t')"
  shows "b = to_boundary t'" "unat (to_sequence t') = Suc (unat (to_sequence t))"
    "tb_processed b = tb_processed (to_boundary t)"
    "control_next (tb_control_generation (to_boundary t)) = Some g" "tb_control_generation b = g"
    "tr_lifetime (tb_cursor b) = tr_lifetime (tb_cursor (to_boundary t))"
    "to_oldest t' = to_oldest t" "to_end t = None" "to_end t' = None" "accepts_events t"
    "to_closed t' = to_closed t" "to_unavailable t' = to_unavailable t"
    "to_sequence t' - 1 = to_sequence t"
proof -
  obtain n where n: "checked_add (to_sequence t) 1 = Some n" and a: "accepts_events t"
    and b: "to_boundary t' = (to_boundary t)\<lparr>tb_cursor := (tb_cursor (to_boundary t))\<lparr>tr_sequence := n\<rparr>,
        tb_control_generation := g\<rparr>" "b = to_boundary t'"
    and rest: "control_next (tb_control_generation (to_boundary t)) = Some g"
      "to_oldest t' = to_oldest t" "to_end t = None" "to_end t' = to_end t"
      "to_closed t' = to_closed t" "to_unavailable t' = to_unavailable t"
    using assms by (auto simp: transfer_resized_def transfer_advance_def accepts_events_append Let_def
        bind_result_Ok_iff require_append_def split: if_splits)
  have "unat n = Suc (unat (to_sequence t))" using checked_add_unat [OF n] by simp
  moreover have "n - 1 = to_sequence t" using n by (auto simp: checked_add_Some_iff)
  ultimately show "b = to_boundary t'" "unat (to_sequence t') = Suc (unat (to_sequence t))"
    "tb_processed b = tb_processed (to_boundary t)"
    "control_next (tb_control_generation (to_boundary t)) = Some g" "tb_control_generation b = g"
    "tr_lifetime (tb_cursor b) = tr_lifetime (tb_cursor (to_boundary t))"
    "to_oldest t' = to_oldest t" "to_end t = None" "to_end t' = None" "accepts_events t"
    "to_closed t' = to_closed t" "to_unavailable t' = to_unavailable t"
    "to_sequence t' - 1 = to_sequence t"
    using b rest a by simp_all
qed

lemma transfer_exec_inv:
  assumes "transfer_inv l t"
  shows "transfer_inv l (transfer_exec t c)"
proof (cases c)
  case (TOutput p)
  show ?thesis
  proof (cases "transfer_output t p")
    case (Inr x)
    obtain b t' where x: "x = (b, t')" by (cases x)
    note o = transfer_output_Ok [OF Inr [unfolded x]]
    have "to_oldest t \<le> to_sequence t'" using assms o(2) by (simp add: transfer_inv_def word_le_nat_alt)
    then show ?thesis using assms o TOutput Inr x by (auto simp: transfer_inv_def)
  qed (use assms TOutput in simp)
next
  case (TResized g)
  show ?thesis
  proof (cases "transfer_resized t g")
    case (Inr x)
    obtain b t' where x: "x = (b, t')" by (cases x)
    note o = transfer_resized_Ok [OF Inr [unfolded x]]
    have "to_oldest t \<le> to_sequence t'" using assms o(2) by (simp add: transfer_inv_def word_le_nat_alt)
    then show ?thesis using assms o TResized Inr x by (auto simp: transfer_inv_def)
  qed (use assms TResized in simp)
qed (use assms in \<open>auto simp: transfer_defs transfer_inv_def bind_result_Ok_iff not_less
      split: sum.splits if_splits option.splits\<close>)

lemma transfer_run_inv: "transfer_inv l t \<Longrightarrow> transfer_inv l (transfer_run t cs)"
  by (induction cs arbitrary: t) (auto simp: transfer_exec_inv)

lemma transfer_new_inv: "transfer_inv l (transfer_new l)"
  by (simp add: transfer_inv_def transfer_new_def)

text \<open>What one call can do to a sealed stream: nothing but close, invalidate or discard.\<close>

lemma sealed_step:
  assumes "to_end t = Some e"
  shows "to_end (transfer_exec t c) = Some e \<and> to_boundary (transfer_exec t c) = to_boundary t"
  using assms
  by (cases c) (auto simp: transfer_defs bind_result_Ok_iff split: sum.splits if_splits)

section \<open>Properties\<close>

text \<open>
  Reading a cursor of a stream with any history is decided exactly by its position: a
  closed or invalidated stream refuses first, then a foreign lifetime, then a cursor past
  the boundary, then one below the oldest retained event (with that event's cursor as the
  resynchronisation point, which itself is always readable), and every other cursor is
  readable.
\<close>

theorem transfer_cursor_decided:
  "let t = transfer_run (transfer_new l) calls in
   to_oldest t \<le> to_sequence t
   \<and> transfer_validate t c =
      (if to_closed t then Err XClosed
       else if to_unavailable t then Err XUnavailable
       else if tr_lifetime c \<noteq> l then Err XForeignLifetime
       else if to_sequence t < tr_sequence c then Err XFutureCursor
       else if tr_sequence c < to_oldest t
         then Err (XResyncRequired \<lparr>tr_lifetime = l, tr_sequence = to_oldest t\<rparr>)
       else Ok ())
   \<and> (\<not> to_closed t \<and> \<not> to_unavailable t \<longrightarrow>
       transfer_validate t \<lparr>tr_lifetime = l, tr_sequence = to_oldest t\<rparr> = Ok ())"
proof -
  define t where "t = transfer_run (transfer_new l) calls"
  have i: "transfer_inv l t" unfolding t_def by (rule transfer_run_inv [OF transfer_new_inv])
  have "(tb_cursor (to_boundary t))\<lparr>tr_sequence := to_oldest t\<rparr> = \<lparr>tr_lifetime = l, tr_sequence = to_oldest t\<rparr>"
    using i by (cases "tb_cursor (to_boundary t)") (simp add: transfer_inv_def)
  with i show ?thesis
    unfolding t_def [symmetric] Let_def
    by (auto simp: transfer_validate_def require_readable_def validate_identity_def transfer_inv_def)
qed

theorem transfer_cursor_decided_witness:
  "transfer_validate (transfer_run (transfer_new (lifetime_new 1 1)) [TOutput (cursor_at (lifetime_new 1 1) 10)])
     \<lparr>tr_lifetime = lifetime_new 1 1, tr_sequence = 0\<rparr> = Ok ()"
proof -
  let ?t = "transfer_run (transfer_new (lifetime_new 1 1)) [TOutput (cursor_at (lifetime_new 1 1) 10)]"
  have "\<not> to_closed ?t" "\<not> to_unavailable ?t" "to_oldest ?t = 0"
    by (simp_all add: transfer_new_def transfer_defs checked_add_def Let_def)
  then show ?thesis
    using transfer_cursor_decided [of "lifetime_new 1 1" "[TOutput (cursor_at (lifetime_new 1 1) 10)]"]
    unfolding Let_def by (metis (no_types, lifting))
qed

text \<open>
  A sealed prefix is immutable: after the stream is sealed no sequence of calls changes
  the recorded end or moves the boundary, so an early failure is never upgraded to a later
  successful drain and no event is appended behind the end.
\<close>

theorem transfer_seal_final:
  assumes "to_end t = None" "transfer_seal t drain failure = Ok t1"
  shows "to_end (transfer_run t1 calls) =
      Some \<lparr>te_boundary = to_boundary t, te_drain = drain, te_projection_failure = failure\<rparr>
    \<and> to_boundary (transfer_run t1 calls) = to_boundary t
    \<and> \<not> accepts_events (transfer_run t1 calls)"
proof -
  have t1: "to_end t1 = Some \<lparr>te_boundary = to_boundary t, te_drain = drain, te_projection_failure = failure\<rparr>"
    "to_boundary t1 = to_boundary t"
    using assms by (auto simp: transfer_seal_def bind_result_Ok_iff split: if_splits)
  have "to_end (transfer_run t1 calls) = to_end t1 \<and> to_boundary (transfer_run t1 calls) = to_boundary t1"
  proof (induction calls rule: rev_induct)
    case (snoc c cs)
    then show ?case using sealed_step [of "transfer_run t1 cs" _ c] t1(1) by simp
  qed simp
  then show ?thesis using t1 by (simp add: accepts_events_def)
qed

theorem transfer_seal_final_witness:
  "\<exists>t1. transfer_seal (transfer_new (lifetime_new 1 1)) None (Some JWorker) = Ok t1 \<and>
     to_end (transfer_run t1 [TSeal (Some Eof) None, TOutput (cursor_at (lifetime_new 1 1) 3)]) =
       Some \<lparr>te_boundary = to_boundary (transfer_new (lifetime_new 1 1)), te_drain = None,
             te_projection_failure = Some JWorker\<rparr>"
proof -
  have e: "to_end (transfer_new (lifetime_new 1 1)) = None" by (simp add: transfer_new_def)
  obtain t1 where t1: "transfer_seal (transfer_new (lifetime_new 1 1)) None (Some JWorker) = Ok t1"
    by (simp add: transfer_seal_def require_readable_def transfer_new_def)
  from transfer_seal_final [OF e t1] t1 show ?thesis by blast
qed

end
