(* ===== verification/Journal.thy ===== *)
theory Journal
  imports Transfer_Order
begin

text \<open>
  The continuation journal (\<^verbatim>\<open>crates/application/src/projection/journal.rs\<close> and the
  observer handle of \<^verbatim>\<open>transfer.rs\<close>): the payloads behind a \<open>transfer_order\<close>, kept while
  some observer exists and evicted oldest first when a lease is refused.

  Every method holds the journal mutex for its whole body, so each is one function on the
  state.  Leases are charged to quotas that other sessions and event holders change
  concurrently: \<open>lease k\<close> is the outcome of the \<open>k\<close>-th attempt of one append.  A waker is
  its identity; the functions return the wakers they take to wake.

  The specification is the full list of events ever applied, and \<open>journal_repr j h\<close> says
  that \<open>j\<close> retains a contiguous suffix of \<open>h\<close>.
\<close>

section \<open>State\<close>

datatype record_kind = RecOutput bytes | RecResize terminal_size control_generation

record jrecord =
  jr_after :: transfer_boundary
  jr_kind :: record_kind

record journal =
  j_order :: transfer_order
  j_records :: "(u64, jrecord) btree_map"
  j_observers :: "(u64, waker option) btree_map"
  j_next_observer :: u64

record transfer_observer =
  ob_id :: u64
  ob_start :: transfer_boundary

datatype transfer_read = TrEvent jrecord | TrPending | TrEnd transfer_end

section \<open>Operations\<close>

definition journal_new :: "session_lifetime \<Rightarrow> journal" where
  "journal_new l =
     \<lparr>j_order = transfer_new l, j_records = [], j_observers = [], j_next_observer = 0\<rparr>"

definition journal_open :: "journal \<Rightarrow> (projection_error, transfer_observer \<times> journal) result" where
  "journal_open j =
     bind_result (map_err (\<lambda>e. if e = XClosed then JClosed else JCapacity) (open_boundary (j_order j))) (\<lambda>start.
       let i = j_next_observer j in
       bind_result (ok_or (checked_add i 1) JCapacity) (\<lambda>n.
         Ok (\<lparr>ob_id = i, ob_start = start\<rparr>,
             j\<lparr>j_next_observer := n, j_observers := bt_insert i None (j_observers j)\<rparr>)))"

text \<open>The body of \<open>read\<close> under the lock, before the waker is stored.\<close>

definition journal_lookup ::
  "journal \<Rightarrow> u64 \<Rightarrow> transfer_cursor \<Rightarrow> transfer_cursor \<Rightarrow> (transfer_error, transfer_read) result" where
  "journal_lookup j i start c =
     (if map_of (j_observers j) i = None then Err XClosed
      else bind_result (transfer_validate (j_order j) c) (\<lambda>_.
        if tr_sequence c < tr_sequence start then Err (XResyncRequired start)
        else case map_of (j_records j) (tr_sequence c) of
          Some r \<Rightarrow> Ok (TrEvent r)
        | None \<Rightarrow>
            if c = tb_cursor (to_boundary (j_order j))
            then Ok (case to_end (j_order j) of None \<Rightarrow> TrPending | Some e \<Rightarrow> TrEnd e)
            else Err (XResyncRequired (tb_cursor (to_boundary (j_order j))))))"

definition journal_read ::
  "journal \<Rightarrow> u64 \<Rightarrow> transfer_cursor \<Rightarrow> transfer_cursor \<Rightarrow> waker option
    \<Rightarrow> (transfer_error, transfer_read) result \<times> journal" where
  "journal_read j i start c w =
     (let j = j\<lparr>j_observers := bt_update i (\<lambda>_. None) (j_observers j)\<rparr>;
          result = journal_lookup j i start c
      in (result,
          if result = Ok TrPending then j\<lparr>j_observers := bt_update i (\<lambda>_. w) (j_observers j)\<rparr> else j))"

definition journal_cancel_wait :: "journal \<Rightarrow> u64 \<Rightarrow> journal" where
  "journal_cancel_wait j i = j\<lparr>j_observers := bt_update i (\<lambda>_. None) (j_observers j)\<rparr>"

text \<open>\<open>let _ =\<close> on a discard: an error leaves the order unchanged.\<close>

definition discarded :: "transfer_order \<Rightarrow> transfer_cursor \<Rightarrow> transfer_order" where
  "discarded t c = (case discard_before t c of Ok t' \<Rightarrow> t' | Err _ \<Rightarrow> t)"

definition journal_remove :: "journal \<Rightarrow> u64 \<Rightarrow> journal" where
  "journal_remove j i =
     (let j = j\<lparr>j_observers := bt_remove i (j_observers j)\<rparr> in
      if j_observers j = []
      then j\<lparr>j_records := [],
             j_order := discarded (j_order j) (tb_cursor (to_boundary (j_order j)))\<rparr>
      else j)"

definition take_wakers :: "journal \<Rightarrow> waker list \<times> journal" where
  "take_wakers j =
     (List.map_filter snd (j_observers j), j\<lparr>j_observers := map (\<lambda>(i, w). (i, None)) (j_observers j)\<rparr>)"

fun evict_until ::
  "(nat \<Rightarrow> bool) \<Rightarrow> nat \<Rightarrow> transfer_order \<Rightarrow> (u64, jrecord) btree_map
    \<Rightarrow> bool \<times> transfer_order \<times> (u64, jrecord) btree_map" where
  "evict_until lease k t [] = (lease k, t, [])"
| "evict_until lease k t ((key, r) # rs) =
     (if lease k then (True, t, (key, r) # rs)
      else evict_until lease (Suc k) (discarded t (tb_cursor (jr_after r))) rs)"

definition journal_order_event ::
  "transfer_order \<Rightarrow> record_kind \<Rightarrow> replay_cursor option
    \<Rightarrow> (transfer_error, transfer_boundary \<times> transfer_order) result" where
  "journal_order_event t kind processed =
     (case kind of
        RecOutput _ \<Rightarrow> bind_result (ok_or processed XUnavailable) (transfer_output t)
      | RecResize _ generation \<Rightarrow> transfer_resized t generation)"

definition journal_append ::
  "(nat \<Rightarrow> bool) \<Rightarrow> journal \<Rightarrow> record_kind \<Rightarrow> replay_cursor option \<Rightarrow> waker list \<times> journal" where
  "journal_append lease j kind processed =
     (if \<not> accepts_events (j_order j) then ([], j)
      else take_wakers
        (case journal_order_event (j_order j) kind processed of
           Err _ \<Rightarrow> j\<lparr>j_order := transfer_invalidate (j_order j), j_records := []\<rparr>
         | Ok (after, t) \<Rightarrow>
             if j_observers j = [] then j\<lparr>j_order := discarded t (tb_cursor after)\<rparr>
             else case evict_until lease 0 t (j_records j) of
               (True, t, rs) \<Rightarrow>
                 j\<lparr>j_order := t,
                   j_records := bt_insert (tr_sequence (tb_cursor after) - 1)
                                  \<lparr>jr_after = after, jr_kind = kind\<rparr> rs\<rparr>
             | (False, t, rs) \<Rightarrow>
                 j\<lparr>j_order := discarded t (tb_cursor after), j_records := []\<rparr>))"

definition journal_output :: "(nat \<Rightarrow> bool) \<Rightarrow> journal \<Rightarrow> bytes \<Rightarrow> replay_cursor \<Rightarrow> waker list \<times> journal" where
  "journal_output lease j bs processed = journal_append lease j (RecOutput bs) (Some processed)"

definition journal_resized ::
  "(nat \<Rightarrow> bool) \<Rightarrow> journal \<Rightarrow> terminal_size \<Rightarrow> control_generation \<Rightarrow> waker list \<times> journal" where
  "journal_resized lease j sz g = journal_append lease j (RecResize sz g) None"

definition journal_end ::
  "journal \<Rightarrow> drain_outcome option \<Rightarrow> projection_error option \<Rightarrow> waker list \<times> journal" where
  "journal_end j drain failure =
     take_wakers (j\<lparr>j_order := (case transfer_seal (j_order j) drain failure of
                                 Ok t \<Rightarrow> t | Err _ \<Rightarrow> j_order j)\<rparr>)"

definition journal_close :: "journal \<Rightarrow> waker list \<times> journal" where
  "journal_close j = take_wakers (j\<lparr>j_order := transfer_close (j_order j), j_records := []\<rparr>)"

section \<open>Specification: the applied events\<close>

definition suffix_records :: "jrecord list \<Rightarrow> nat \<Rightarrow> (u64, jrecord) btree_map" where
  "suffix_records h n = map (\<lambda>i. (word_of_nat i, h ! i)) [n ..< length h]"

definition event_ok :: "session_lifetime \<Rightarrow> nat \<Rightarrow> jrecord \<Rightarrow> bool" where
  "event_ok l i r \<longleftrightarrow> unat (tr_sequence (tb_cursor (jr_after r))) = Suc i
     \<and> tr_lifetime (tb_cursor (jr_after r)) = l"

definition journal_repr :: "session_lifetime \<Rightarrow> journal \<Rightarrow> jrecord list \<Rightarrow> bool" where
  "journal_repr l j h \<longleftrightarrow>
     transfer_inv l (j_order j) \<and>
     length h = unat (to_sequence (j_order j)) \<and>
     (\<forall>i < length h. event_ok l i (h ! i)) \<and>
     j_records j = (if to_closed (j_order j) \<or> to_unavailable (j_order j) then []
                    else suffix_records h (unat (to_oldest (j_order j)))) \<and>
     (j_observers j = [] \<longrightarrow> j_records j = [])"

lemma suffix_records_Nil [simp]: "length h \<le> n \<Longrightarrow> suffix_records h n = []"
  by (simp add: suffix_records_def)

lemma suffix_records_Cons:
  "n < length h \<Longrightarrow> suffix_records h n = (word_of_nat n, h ! n) # suffix_records h (Suc n)"
  by (simp add: suffix_records_def upt_conv_Cons)

lemma suffix_records_get:
  assumes "length h < 2 ^ 64"
  shows "map_of (suffix_records h n) k =
    (if n \<le> unat k \<and> unat k < length h then Some (h ! unat k) else None)"
proof (induction "length h - n" arbitrary: n)
  case 0
  then show ?case by simp
next
  case (Suc m)
  then have n: "n < length h" by simp
  then have "unat (word_of_nat n :: u64) = n" using assms by (simp add: unat_of_nat_u64)
  then have eq: "k = word_of_nat n \<longleftrightarrow> unat k = n" by (simp add: word_unat_eq_iff)
  show ?case
    using Suc.hyps(1) [of "Suc n"] Suc.hyps(2) n eq by (auto simp: suffix_records_Cons)
qed

lemma suffix_records_append:
  assumes "n \<le> length h" "length h < 2 ^ 64"
  shows "bt_insert (word_of_nat (length h)) r (suffix_records h n) = suffix_records (h @ [r]) n"
proof -
  have "bt_insert (word_of_nat (length h)) r (suffix_records h n) =
      suffix_records h n @ [(word_of_nat (length h), r)]"
  proof (rule bt_insert_last)
    fix e assume "e \<in> set (suffix_records h n)"
    then obtain i where "i < length h" "fst e = word_of_nat i" by (auto simp: suffix_records_def)
    with assms(2) show "fst e < word_of_nat (length h)"
      by (simp add: word_less_nat_alt unat_of_nat_u64)
  qed
  also have "\<dots> = suffix_records (h @ [r]) n"
    using assms(1) by (auto simp: suffix_records_def nth_append intro: map_cong)
  finally show ?thesis .
qed

lemma discarded_eq:
  assumes "tr_lifetime c = tr_lifetime (tb_cursor (to_boundary t))" "tr_sequence c \<le> to_sequence t"
  shows "discarded t c = t\<lparr>to_oldest := max (to_oldest t) (tr_sequence c)\<rparr>"
  using assms by (simp add: discarded_def discard_before_def validate_identity_def)

lemma discarded_inv: "transfer_inv l t \<Longrightarrow> transfer_inv l (discarded t c)"
  using transfer_exec_inv [of l t "TDiscard c"] by (simp add: discarded_def)

lemma discarded_same [simp]:
  "to_boundary (discarded t c) = to_boundary t" "to_closed (discarded t c) = to_closed t"
  "to_unavailable (discarded t c) = to_unavailable t" "to_end (discarded t c) = to_end t"
  by (auto simp: discarded_def discard_before_def bind_result_Ok_iff validate_identity_def
      split: sum.splits)

text \<open>The eviction loop keeps a contiguous suffix: it ends with the records from some point
  on, and has raised the oldest position to that point.\<close>

lemma evict_until_suffix:
  assumes "transfer_inv l t" "\<forall>i < length h. event_ok l i (h ! i)" "length h \<le> unat (to_sequence t)"
    "n = unat (to_oldest t)" "n \<le> length h" "evict_until lease k t (suffix_records h n) = (g, t', rs)"
  shows "\<exists>m. n \<le> m \<and> m \<le> length h \<and> rs = suffix_records h m \<and> unat (to_oldest t') = m
    \<and> transfer_inv l t' \<and> to_boundary t' = to_boundary t \<and> to_closed t' = to_closed t
    \<and> to_unavailable t' = to_unavailable t \<and> to_end t' = to_end t"
  using assms
proof (induction "length h - n" arbitrary: n k t)
  case 0
  then show ?case by (intro exI [of _ n]) auto
next
  case (Suc x)
  then have n: "n < length h" by simp
  show ?case
  proof (cases "lease k")
    case True
    then show ?thesis using Suc.prems n by (intro exI [of _ n]) (auto simp: suffix_records_Cons)
  next
    case False
    let ?c = "tb_cursor (jr_after (h ! n))"
    let ?t = "discarded t ?c"
    have c: "unat (tr_sequence ?c) = Suc n" "tr_lifetime ?c = l"
      using Suc.prems(2) n by (auto simp: event_ok_def)
    then have "tr_sequence ?c \<le> to_sequence t"
      using n Suc.prems(3) by (simp add: word_le_nat_alt)
    then have t: "?t = t\<lparr>to_oldest := max (to_oldest t) (tr_sequence ?c)\<rparr>"
      using c(2) Suc.prems(1) by (intro discarded_eq) (auto simp: transfer_inv_def)
    have old: "unat (to_oldest ?t) = Suc n"
      unfolding t using c(1) Suc.prems(4) by (simp add: max_def word_le_nat_alt)
    have ev: "evict_until lease (Suc k) ?t (suffix_records h (Suc n)) = (g, t', rs)"
      using Suc.prems(6) False n by (simp add: suffix_records_Cons)
    have "x = length h - Suc n" using Suc.hyps(2) by simp
    from Suc.hyps(1) [OF this discarded_inv [OF Suc.prems(1)] Suc.prems(2) _ _ _ ev] old n Suc.prems(3)
    show ?thesis by (auto intro: exI)
  qed
qed

section \<open>Preservation\<close>

lemma journal_repr_cong:
  assumes "journal_repr l j h" "transfer_inv l (j_order j')"
    "to_boundary (j_order j') = to_boundary (j_order j)" "to_oldest (j_order j') = to_oldest (j_order j)"
    "to_closed (j_order j') = to_closed (j_order j)"
    "to_unavailable (j_order j') = to_unavailable (j_order j)"
    "j_records j' = j_records j" "j_observers j' = [] \<Longrightarrow> j_observers j = []"
  shows "journal_repr l j' h"
  using assms by (auto simp: journal_repr_def)

lemma journal_repr_inv: "journal_repr l j h \<Longrightarrow> transfer_inv l (j_order j)"
  by (simp add: journal_repr_def)

lemma take_wakers_repr:
  assumes "journal_repr l j h"
  shows "journal_repr l (snd (take_wakers j)) h"
  by (rule journal_repr_cong [OF assms]) (simp_all add: take_wakers_def journal_repr_inv [OF assms])

lemma journal_new_repr: "journal_repr l (journal_new l) []"
  using transfer_new_inv [of l] by (simp add: journal_repr_def journal_new_def transfer_new_def)

lemma journal_open_repr:
  "journal_open j = Ok (ob, j') \<Longrightarrow> journal_repr l j h \<Longrightarrow> journal_repr l j' h"
  by (auto simp: journal_open_def Let_def bind_result_Ok_iff journal_repr_def)

lemma journal_read_repr:
  assumes "journal_repr l j h"
  shows "journal_repr l (snd (journal_read j i s c w)) h"
  by (rule journal_repr_cong [OF assms]) (auto simp: journal_read_def Let_def journal_repr_inv [OF assms] split: if_splits)

lemma journal_cancel_repr:
  assumes "journal_repr l j h"
  shows "journal_repr l (journal_cancel_wait j i) h"
  by (rule journal_repr_cong [OF assms]) (simp_all add: journal_cancel_wait_def journal_repr_inv [OF assms])

lemma journal_remove_repr:
  assumes "journal_repr l j h"
  shows "journal_repr l (journal_remove j i) h"
proof (cases "bt_remove i (j_observers j) = []")
  case True
  let ?t = "j_order j"
  have "discarded ?t (tb_cursor (to_boundary ?t)) = ?t\<lparr>to_oldest := max (to_oldest ?t) (to_sequence ?t)\<rparr>"
    by (rule discarded_eq) auto
  then have "unat (to_oldest (discarded ?t (tb_cursor (to_boundary ?t)))) \<ge> length h"
    using assms by (simp add: journal_repr_def max_def word_le_nat_alt)
  then show ?thesis
    using assms True discarded_inv by (simp add: journal_remove_def Let_def journal_repr_def)
next
  case False
  with assms show ?thesis by (auto simp: journal_remove_def Let_def journal_repr_def)
qed

lemma journal_close_repr: "journal_repr l j h \<Longrightarrow> journal_repr l (snd (journal_close j)) h"
proof -
  assume r: "journal_repr l j h"
  then have "transfer_inv l (transfer_close (j_order j))"
    using transfer_exec_inv [of l "j_order j" TClose] by (simp add: journal_repr_def)
  with r show ?thesis
    unfolding journal_close_def by (intro take_wakers_repr) (simp add: journal_repr_def transfer_close_def)
qed

lemma journal_end_repr: "journal_repr l j h \<Longrightarrow> journal_repr l (snd (journal_end j d f)) h"
proof -
  assume r: "journal_repr l j h"
  let ?t = "case transfer_seal (j_order j) d f of Ok t \<Rightarrow> t | Err _ \<Rightarrow> j_order j"
  have "transfer_inv l ?t"
    using r transfer_exec_inv [of l "j_order j" "TSeal d f"] by (simp add: journal_repr_def)
  moreover have "to_boundary ?t = to_boundary (j_order j)" "to_oldest ?t = to_oldest (j_order j)"
    "to_closed ?t = to_closed (j_order j)" "to_unavailable ?t = to_unavailable (j_order j)"
    by (auto simp: transfer_seal_def bind_result_Ok_iff split: sum.splits if_splits)
  ultimately show ?thesis
    using r unfolding journal_end_def by (intro take_wakers_repr journal_repr_cong [OF r]) simp_all
qed

text \<open>What a successful ordered event does to the order, whichever kind it is.\<close>

lemma journal_order_event_Ok:
  assumes "journal_order_event t kind p = Ok (after, t')" "transfer_inv l t"
  shows "after = to_boundary t'" "unat (to_sequence t') = Suc (unat (to_sequence t))"
    "to_oldest t' = to_oldest t" "to_closed t' = to_closed t" "to_unavailable t' = to_unavailable t"
    "transfer_inv l t'" "tr_sequence (tb_cursor after) - 1 = to_sequence t"
proof -
  have *: "after = to_boundary t' \<and> unat (to_sequence t') = Suc (unat (to_sequence t)) \<and>
    to_oldest t' = to_oldest t \<and> to_closed t' = to_closed t \<and> to_unavailable t' = to_unavailable t \<and>
    transfer_inv l t' \<and> to_sequence t' - 1 = to_sequence t"
  proof (cases kind)
    case (RecOutput bs)
    then obtain q where q: "transfer_output t q = Ok (after, t')"
      using assms(1) by (auto simp: journal_order_event_def bind_result_Ok_iff)
    show ?thesis
      using transfer_output_Ok [OF q] transfer_exec_inv [OF assms(2), of "TOutput q"] q by simp
  next
    case (RecResize sz g)
    then have q: "transfer_resized t g = Ok (after, t')"
      using assms(1) by (simp add: journal_order_event_def)
    show ?thesis
      using transfer_resized_Ok [OF q] transfer_exec_inv [OF assms(2), of "TResized g"] q by simp
  qed
  then show "after = to_boundary t'" "unat (to_sequence t') = Suc (unat (to_sequence t))"
    "to_oldest t' = to_oldest t" "to_closed t' = to_closed t" "to_unavailable t' = to_unavailable t"
    "transfer_inv l t'" "tr_sequence (tb_cursor after) - 1 = to_sequence t" by auto
qed

text \<open>The events an append adds to the specification: one when the order takes it.\<close>

definition appended :: "journal \<Rightarrow> record_kind \<Rightarrow> replay_cursor option \<Rightarrow> jrecord list" where
  "appended j kind p =
     (if \<not> accepts_events (j_order j) then []
      else case journal_order_event (j_order j) kind p of
        Err _ \<Rightarrow> [] | Ok (after, _) \<Rightarrow> [\<lparr>jr_after = after, jr_kind = kind\<rparr>])"

lemma journal_append_repr:
  assumes r: "journal_repr l j h"
  shows "journal_repr l (snd (journal_append lease j kind p)) (h @ appended j kind p)"
proof (cases "accepts_events (j_order j)")
  case False
  then show ?thesis using r by (simp add: journal_append_def appended_def)
next
  case acc: True
  have inv: "transfer_inv l (j_order j)" and len: "length h = unat (to_sequence (j_order j))"
    and ev: "\<forall>i < length h. event_ok l i (h ! i)"
    and recs: "j_records j = suffix_records h (unat (to_oldest (j_order j)))"
    using r acc by (auto simp: journal_repr_def accepts_events_def)
  have old: "unat (to_oldest (j_order j)) \<le> length h"
    using inv len by (simp add: transfer_inv_def word_le_nat_alt)
  have small: "length h < 2 ^ 64" unfolding len by (rule unat_u64_less)
  show ?thesis
  proof (cases "journal_order_event (j_order j) kind p")
    case (Inl e)
    have "transfer_inv l (transfer_invalidate (j_order j))"
      using transfer_exec_inv [OF inv, of TInvalidate] by simp
    then have "journal_repr l (j\<lparr>j_order := transfer_invalidate (j_order j), j_records := []\<rparr>) h"
      using r by (simp add: journal_repr_def transfer_invalidate_def)
    then show ?thesis
      using acc Inl take_wakers_repr by (simp add: journal_append_def appended_def)
  next
    case (Inr x)
    obtain after t where x: "x = (after, t)" by (cases x)
    note e = journal_order_event_Ok [OF Inr [unfolded x] inv]
    let ?r = "\<lparr>jr_after = after, jr_kind = kind\<rparr>"
    let ?h = "h @ [?r]"
    have t_acc: "\<not> to_closed t" "\<not> to_unavailable t" using acc e by (auto simp: accepts_events_def)
    have len': "length ?h = unat (to_sequence t)" using e(2) len by simp
    have ev': "\<forall>i < length ?h. event_ok l i (?h ! i)"
      using ev e(1,2,6) len by (auto simp: nth_append event_ok_def transfer_inv_def)
    have app: "appended j kind p = [?r]" using acc Inr x by (simp add: appended_def)
    have disc: "unat (to_oldest (discarded s (tb_cursor after))) = length ?h"
      if "transfer_inv l s" "to_boundary s = to_boundary t" for s
    proof -
      have "discarded s (tb_cursor after) = s\<lparr>to_oldest := max (to_oldest s) (to_sequence t)\<rparr>"
        using that e(1) by (simp add: discarded_eq)
      moreover have "to_oldest s \<le> to_sequence t" using that by (simp add: transfer_inv_def)
      ultimately show ?thesis using len' by (simp add: max_def)
    qed
    have key: "tr_sequence (tb_cursor after) - 1 = word_of_nat (length h)"
      using e(7) len by simp
    obtain g s rs where evict: "evict_until lease 0 t (j_records j) = (g, s, rs)"
      by (cases "evict_until lease 0 t (j_records j)")
    obtain m where m: "m \<le> length h" "rs = suffix_records h m" "unat (to_oldest s) = m"
      "transfer_inv l s" "to_boundary s = to_boundary t" "\<not> to_closed s" "\<not> to_unavailable s"
      using evict_until_suffix [OF e(6) ev _ _ old, of lease 0 g s rs] evict recs e t_acc len by auto
    define j' where "j' = (if j_observers j = [] then j\<lparr>j_order := discarded t (tb_cursor after)\<rparr>
       else if g then j\<lparr>j_order := s, j_records := bt_insert (word_of_nat (length h)) ?r rs\<rparr>
       else j\<lparr>j_order := discarded s (tb_cursor after), j_records := []\<rparr>)"
    have "journal_repr l j' ?h"
    proof -
      consider "j_observers j = []" | "j_observers j \<noteq> []" g | "j_observers j \<noteq> []" "\<not> g" by blast
      then show ?thesis
      proof cases
        case 1
        then show ?thesis
          using disc [OF e(6)] discarded_inv [OF e(6)] t_acc len' ev' r
          by (auto simp: j'_def journal_repr_def simp del: length_append)
      next
        case 2
        have "bt_insert (word_of_nat (length h)) ?r rs = suffix_records ?h m"
          using suffix_records_append [OF m(1) small] m(2) by simp
        then show ?thesis using 2 m len' ev' by (simp add: j'_def journal_repr_def)
      next
        case 3
        then show ?thesis
          using disc [OF m(4,5)] discarded_inv [OF m(4)] m len' ev' by (simp add: j'_def journal_repr_def)
      qed
    qed
    moreover have "journal_append lease j kind p = take_wakers j'"
      using acc Inr x evict key by (cases g) (simp_all add: journal_append_def j'_def)
    ultimately show ?thesis using app take_wakers_repr by simp
  qed
qed

section \<open>Continuation contract\<close>

text \<open>
  What a consumer of a continuation relies on: positions from the retained start to the end
  of the applied events are readable, each yields its own event, and the end yields none.
  From this alone a consumer that restores the state at its start position and applies the
  events it reads, in order, reaches the state of the producer, whatever the model is.
\<close>

fun catch_up :: "(nat \<Rightarrow> 'e option) \<Rightarrow> ('s \<Rightarrow> 'e \<Rightarrow> 's) \<Rightarrow> nat \<Rightarrow> nat \<Rightarrow> 's \<Rightarrow> nat \<times> 's" where
  "catch_up rd apply_event 0 k s = (k, s)"
| "catch_up rd apply_event (Suc fuel) k s =
     (case rd k of None \<Rightarrow> (k, s) | Some e \<Rightarrow> catch_up rd apply_event fuel (Suc k) (apply_event s e))"

locale continuation_log =
  fixes repr :: "'j \<Rightarrow> 'e list \<Rightarrow> bool"
    and start :: "'j \<Rightarrow> nat"
    and rd :: "'j \<Rightarrow> nat \<Rightarrow> 'e option"
  assumes rd_event: "repr j h \<Longrightarrow> start j \<le> k \<Longrightarrow> k < length h \<Longrightarrow> rd j k = Some (h ! k)"
    and rd_tail: "repr j h \<Longrightarrow> start j \<le> length h \<Longrightarrow> rd j (length h) = None"
begin

lemma catch_up_complete:
  assumes "repr j h" "start j \<le> k" "k \<le> length h" "length h - k \<le> fuel"
  shows "catch_up (rd j) f fuel k s = (length h, foldl f s (drop k h))"
  using assms
proof (induction fuel arbitrary: k s)
  case 0
  then show ?case by simp
next
  case (Suc fuel)
  show ?case
  proof (cases "k = length h")
    case True
    then show ?thesis using Suc.prems rd_tail by simp
  next
    case False
    then have k: "k < length h" using Suc.prems by simp
    then have "drop k h = h ! k # drop (Suc k) h" by (simp add: Cons_nth_drop_Suc)
    then show ?thesis
      using Suc.IH [of "Suc k" "f s (h ! k)"] Suc.prems k rd_event by simp
  qed
qed

lemma catch_up_model:
  assumes "repr j h" "start j \<le> k" "k \<le> length h" "length h - k \<le> fuel"
  shows "catch_up (rd j) f fuel k (foldl f s (take k h)) = (length h, foldl f s h)"
  using catch_up_complete [OF assms, of f "foldl f s (take k h)"]
  by (simp flip: foldl_append)

end

text \<open>One observer of a readable journal, as that contract sees it.\<close>

definition observer_repr :: "session_lifetime \<Rightarrow> journal \<times> transfer_observer \<Rightarrow> jrecord list \<Rightarrow> bool" where
  "observer_repr l jo h \<longleftrightarrow>
     journal_repr l (fst jo) h \<and> \<not> to_closed (j_order (fst jo)) \<and> \<not> to_unavailable (j_order (fst jo)) \<and>
     map_of (j_observers (fst jo)) (ob_id (snd jo)) \<noteq> None \<and>
     tr_lifetime (tb_cursor (ob_start (snd jo))) = l"

definition observer_floor :: "journal \<times> transfer_observer \<Rightarrow> nat" where
  "observer_floor jo = max (unat (to_oldest (j_order (fst jo)))) (unat (tr_sequence (tb_cursor (ob_start (snd jo)))))"

definition observer_event :: "session_lifetime \<Rightarrow> journal \<times> transfer_observer \<Rightarrow> nat \<Rightarrow> jrecord option" where
  "observer_event l jo k =
     (case fst (journal_read (fst jo) (ob_id (snd jo)) (tb_cursor (ob_start (snd jo)))
                 \<lparr>tr_lifetime = l, tr_sequence = word_of_nat k\<rparr> None) of
        Ok (TrEvent r) \<Rightarrow> Some r
      | _ \<Rightarrow> None)"

lemma map_of_bt_update_None [simp]: "map_of (bt_update i f m) k = None \<longleftrightarrow> map_of m k = None"
  by (auto simp: bt_update_get)

lemma observer_read:
  assumes "observer_repr l jo h" "observer_floor jo \<le> k" "k \<le> length h"
  shows "fst (journal_read (fst jo) (ob_id (snd jo)) (tb_cursor (ob_start (snd jo)))
      \<lparr>tr_lifetime = l, tr_sequence = word_of_nat k\<rparr> w) =
    Ok (if k < length h then TrEvent (h ! k)
        else case to_end (j_order (fst jo)) of None \<Rightarrow> TrPending | Some e \<Rightarrow> TrEnd e)"
proof -
  let ?j = "fst jo" and ?t = "j_order (fst jo)" and ?k = "word_of_nat k :: u64"
  let ?s = "tb_cursor (ob_start (snd jo))"
  have len: "length h = unat (to_sequence ?t)" and inv: "transfer_inv l ?t"
    and recs: "j_records ?j = suffix_records h (unat (to_oldest ?t))"
    and ob: "map_of (j_observers ?j) (ob_id (snd jo)) \<noteq> None"
    and open_t: "\<not> to_closed ?t" "\<not> to_unavailable ?t"
    using assms(1) by (auto simp: observer_repr_def journal_repr_def)
  have small: "length h < 2 ^ 64" unfolding len by (rule unat_u64_less)
  then have k: "unat ?k = k" using assms(3) by (simp add: unat_of_nat_u64)
  have bounds: "\<not> to_sequence ?t < ?k" "\<not> ?k < to_oldest ?t" "\<not> ?k < tr_sequence ?s"
    using assms(2,3) len k by (auto simp: word_less_nat_alt observer_floor_def)
  have get: "map_of (j_records ?j) ?k = (if k < length h then Some (h ! k) else None)"
    using assms(2) k by (simp add: recs suffix_records_get [OF small] observer_floor_def)
  have tail: "\<lparr>tr_lifetime = l, tr_sequence = ?k\<rparr> = tb_cursor (to_boundary ?t)" if "\<not> k < length h"
    using that assms(3) len k inv
    by (cases "tb_cursor (to_boundary ?t)") (auto simp: transfer_inv_def word_unat_eq_iff)
  have "journal_lookup (?j\<lparr>j_observers := bt_update i f (j_observers ?j)\<rparr>) (ob_id (snd jo)) ?s
      \<lparr>tr_lifetime = l, tr_sequence = ?k\<rparr> =
    Ok (if k < length h then TrEvent (h ! k) else case to_end ?t of None \<Rightarrow> TrPending | Some e \<Rightarrow> TrEnd e)"
    for i f
    using ob inv open_t bounds get tail
    by (auto simp: journal_lookup_def transfer_validate_def require_readable_def validate_identity_def
        transfer_inv_def)
  then show ?thesis by (simp add: journal_read_def Let_def)
qed

interpretation journal_log: continuation_log "observer_repr l" observer_floor "observer_event l" for l
proof unfold_locales
  show "observer_event l jo k = Some (h ! k)"
    if "observer_repr l jo h" "observer_floor jo \<le> k" "k < length h" for jo h k
    using observer_read [OF that(1,2), of None] that(3) by (simp add: observer_event_def)
  show "observer_event l jo (length h) = None"
    if "observer_repr l jo h" "observer_floor jo \<le> length h" for jo h
    using observer_read [OF that, of None] by (simp add: observer_event_def split: option.splits)
qed

section \<open>Histories\<close>

datatype journal_call =
    JcOpen
  | JcRead u64 transfer_cursor transfer_cursor "waker option"
  | JcCancelWait u64
  | JcRemove u64
  | JcAppend "nat \<Rightarrow> bool" record_kind "replay_cursor option"
  | JcEnd "drain_outcome option" "projection_error option"
  | JcClose

fun journal_exec :: "journal \<Rightarrow> journal_call \<Rightarrow> journal" where
  "journal_exec j JcOpen = (case journal_open j of Ok (_, j') \<Rightarrow> j' | Err _ \<Rightarrow> j)"
| "journal_exec j (JcRead i s c w) = snd (journal_read j i s c w)"
| "journal_exec j (JcCancelWait i) = journal_cancel_wait j i"
| "journal_exec j (JcRemove i) = journal_remove j i"
| "journal_exec j (JcAppend lease kind p) = snd (journal_append lease j kind p)"
| "journal_exec j (JcEnd d f) = snd (journal_end j d f)"
| "journal_exec j JcClose = snd (journal_close j)"

abbreviation journal_run :: "journal \<Rightarrow> journal_call list \<Rightarrow> journal" where
  "journal_run j cs \<equiv> foldl journal_exec j cs"

text \<open>The events a history applies: those the ordering policy accepted, in order.\<close>

fun applied_events :: "journal \<Rightarrow> journal_call list \<Rightarrow> jrecord list" where
  "applied_events j [] = []"
| "applied_events j (c # cs) =
     (case c of JcAppend lease kind p \<Rightarrow> appended j kind p | _ \<Rightarrow> []) @ applied_events (journal_exec j c) cs"

lemma journal_exec_repr:
  assumes "journal_repr l j h"
  shows "journal_repr l (journal_exec j c) (h @ (case c of JcAppend lease kind p \<Rightarrow> appended j kind p | _ \<Rightarrow> []))"
proof (cases c)
  case JcOpen
  then show ?thesis using assms journal_open_repr by (auto split: sum.splits)
qed (use assms in \<open>auto intro: journal_read_repr journal_cancel_repr journal_remove_repr
      journal_append_repr journal_end_repr journal_close_repr\<close>)

lemma journal_run_repr:
  "journal_repr l j h \<Longrightarrow> journal_repr l (journal_run j cs) (h @ applied_events j cs)"
proof (induction cs arbitrary: j h)
  case (Cons c cs)
  from Cons.IH [OF journal_exec_repr [OF Cons.prems, of c]] show ?case by simp
qed simp

section \<open>Properties\<close>

text \<open>
  C25. After any history of the journal, whatever leases were refused and whichever observers
  came and went, a journal that is neither closed nor unavailable retains exactly the applied
  events from the oldest retained position to the boundary, in order and each under its own
  sequence number: an evicted event is gone and every later one is kept.  A closed or
  unavailable journal retains nothing, and neither does one without observers.
\<close>

theorem journal_retains_suffix:
  "let j = journal_run (journal_new l) calls; h = applied_events (journal_new l) calls in
   length h = unat (to_sequence (j_order j)) \<and> unat (to_oldest (j_order j)) \<le> length h
   \<and> (\<forall>i < length h. unat (tr_sequence (tb_cursor (jr_after (h ! i)))) = i + 1)
   \<and> j_records j =
       (if to_closed (j_order j) \<or> to_unavailable (j_order j) then []
        else map (\<lambda>i. (word_of_nat i, h ! i)) [unat (to_oldest (j_order j)) ..< length h])
   \<and> (j_observers j = [] \<longrightarrow> j_records j = [])"
proof -
  define j where "j = journal_run (journal_new l) calls"
  define h where "h = applied_events (journal_new l) calls"
  have r: "journal_repr l j h"
    using journal_run_repr [OF journal_new_repr, of l calls] by (simp add: j_def h_def)
  have "unat (to_oldest (j_order j)) \<le> length h"
    using r by (simp add: journal_repr_def transfer_inv_def word_le_nat_alt)
  then have "length h = unat (to_sequence (j_order j)) \<and> unat (to_oldest (j_order j)) \<le> length h
      \<and> (\<forall>i < length h. unat (tr_sequence (tb_cursor (jr_after (h ! i)))) = i + 1)
      \<and> j_records j =
          (if to_closed (j_order j) \<or> to_unavailable (j_order j) then []
           else map (\<lambda>i. (word_of_nat i, h ! i)) [unat (to_oldest (j_order j)) ..< length h])
      \<and> (j_observers j = [] \<longrightarrow> j_records j = [])"
    using r unfolding journal_repr_def event_ok_def suffix_records_def by auto
  then show ?thesis unfolding Let_def j_def h_def .
qed

text \<open>Two events under an observer, the second of which found no room until the first was evicted.\<close>

theorem journal_retains_suffix_witness:
  "let j = journal_run (journal_new (lifetime_new 1 1))
       [JcOpen, JcAppend (\<lambda>_. True) (RecOutput [7]) (Some (cursor_at (lifetime_new 1 1) 1)),
        JcAppend (\<lambda>k. k = 1) (RecOutput [8]) (Some (cursor_at (lifetime_new 1 1) 2))] in
   map fst (j_records j) = [1] \<and> unat (tr_sequence (tb_cursor (jr_after (snd (hd (j_records j)))))) = 2"
proof -
  let ?calls = "[JcOpen, JcAppend (\<lambda>_. True) (RecOutput [7]) (Some (cursor_at (lifetime_new 1 1) 1)),
    JcAppend (\<lambda>k. k = 1) (RecOutput [8]) (Some (cursor_at (lifetime_new 1 1) 2))]"
  let ?j = "journal_run (journal_new (lifetime_new 1 1)) ?calls" and ?h = "applied_events (journal_new (lifetime_new 1 1)) ?calls"
  note p = journal_retains_suffix [of "lifetime_new 1 1" ?calls, unfolded Let_def]
  have o: "to_oldest (j_order ?j) = 1" "to_sequence (j_order ?j) = 2" "\<not> to_closed (j_order ?j)" "\<not> to_unavailable (j_order ?j)"
    by (simp_all add: journal_new_def transfer_new_def journal_open_def transfer_defs journal_append_def discarded_def
        journal_order_event_def take_wakers_def checked_add_def Let_def)
      (simp_all add: word_le_nat_alt)
  then have "length ?h = 2" "unat (to_oldest (j_order ?j)) = 1" using p by auto
  then have "j_records ?j = [(1, ?h ! 1)]" "unat (tr_sequence (tb_cursor (jr_after (?h ! 1)))) = 2"
    using p o by (auto simp: upt_conv_Cons)
  then show ?thesis by (simp only: Let_def) simp
qed

text \<open>
  C2. State transfer converges: a consumer that restores the checkpoint taken at an
  observer's start boundary and applies the events it reads from there, one by one until
  none is left, reaches exactly the state the authoritative model has after everything
  applied so far, whatever the model and whatever happened in between, as long as the
  observer is still registered, the journal is readable and nothing after the start was
  evicted.
\<close>

theorem transfer_consumer_converges:
  assumes "journal_open (journal_run (journal_new l) before) = Ok (ob, j1)"
    and "j2 = journal_run j1 later"
    and "\<not> to_closed (j_order j2)" "\<not> to_unavailable (j_order j2)"
    and "map_of (j_observers j2) (ob_id ob) \<noteq> None"
    and "to_oldest (j_order j2) \<le> tr_sequence (tb_cursor (ob_start ob))"
    and "h1 = applied_events (journal_new l) before" "h2 = applied_events j1 later"
    and "length h2 \<le> fuel"
  shows "catch_up (observer_event l (j2, ob)) step fuel
      (unat (tr_sequence (tb_cursor (ob_start ob)))) (foldl step s h1) =
    (length (h1 @ h2), foldl step s (h1 @ h2))"
proof -
  let ?j0 = "journal_run (journal_new l) before"
  have r0: "journal_repr l ?j0 h1"
    using journal_run_repr [OF journal_new_repr, of l before] assms(7) by simp
  have st: "ob_start ob = to_boundary (j_order ?j0)"
    using assms(1) by (auto simp: journal_open_def Let_def bind_result_Ok_iff open_boundary_def)
  have r2: "journal_repr l j2 (h1 @ h2)"
    using journal_run_repr [OF journal_open_repr [OF assms(1) r0], of later] assms(2,8) by simp
  have k: "unat (tr_sequence (tb_cursor (ob_start ob))) = length h1"
    using r0 st by (simp add: journal_repr_def)
  have "tr_lifetime (tb_cursor (ob_start ob)) = l"
    using journal_repr_inv [OF r0] st by (simp add: transfer_inv_def)
  then have "observer_repr l (j2, ob) (h1 @ h2)"
    using r2 assms(3-5) by (simp add: observer_repr_def)
  moreover have "observer_floor (j2, ob) \<le> length h1"
    using assms(6) k by (simp add: observer_floor_def word_le_nat_alt)
  ultimately show ?thesis
    using journal_log.catch_up_model [of l "(j2, ob)" "h1 @ h2" "length h1" fuel step s] assms(9) k
    by simp
qed

theorem transfer_consumer_converges_witness:
  "\<exists>ob j1 j2. journal_open (journal_new (lifetime_new 1 1)) = Ok (ob, j1)
     \<and> j2 = journal_run j1 [JcAppend (\<lambda>_. True) (RecOutput [7]) (Some (cursor_at (lifetime_new 1 1) 1))]
     \<and> catch_up (observer_event (lifetime_new 1 1) (j2, ob)) (\<lambda>n e. Suc n) 1
         (unat (tr_sequence (tb_cursor (ob_start ob)))) (0 :: nat) = (1, 1)"
proof -
  let ?l = "lifetime_new 1 1"
  let ?cs = "[JcAppend (\<lambda>_. True) (RecOutput [7]) (Some (cursor_at ?l 1))]"
  obtain ob j1 where o: "journal_open (journal_run (journal_new ?l) []) = Ok (ob, j1)"
    by (simp add: journal_open_def journal_new_def transfer_new_def transfer_defs checked_add_def Let_def)
  have ob: "ob = \<lparr>ob_id = 0, ob_start = to_boundary (transfer_new ?l)\<rparr>"
    and j1: "j1 = \<lparr>j_order = transfer_new ?l, j_records = [], j_observers = [(0, None)], j_next_observer = 1\<rparr>"
    using o by (auto simp: journal_open_def journal_new_def transfer_defs transfer_new_def checked_add_def Let_def)
  have ev: "length (applied_events j1 ?cs) = 1"
    by (simp add: j1 appended_def journal_order_event_def transfer_defs transfer_new_def checked_add_def Let_def)
  then obtain r where r: "applied_events j1 ?cs = [r]" by (auto simp: length_Suc_conv)
  have c: "\<not> to_closed (j_order (journal_run j1 ?cs))" "\<not> to_unavailable (j_order (journal_run j1 ?cs))"
    "map_of (j_observers (journal_run j1 ?cs)) (ob_id ob) \<noteq> None"
    "to_oldest (j_order (journal_run j1 ?cs)) \<le> tr_sequence (tb_cursor (ob_start ob))"
    by (simp_all add: j1 ob journal_append_def journal_order_event_def take_wakers_def transfer_defs
        transfer_new_def checked_add_def Let_def)
  have "catch_up (observer_event ?l (journal_run j1 ?cs, ob)) (\<lambda>n e. Suc n) 1
         (unat (tr_sequence (tb_cursor (ob_start ob)))) (foldl (\<lambda>n e. Suc n) (0 :: nat) []) = (1, 1)"
    using transfer_consumer_converges [OF o refl c refl refl, of 1 "\<lambda>n e. Suc n" 0] r by simp
  then show ?thesis using o by auto
qed

end
