(* ===== verification/Status_Report.thy ===== *)
theory Status_Report
  imports Text
begin

text \<open>
  Program-status values and the OSC 7501 report parser
  (\<^verbatim>\<open>crates/domain/src/terminal/program_status/value.rs\<close>, \<^verbatim>\<open>report.rs\<close>
  and the constants of \<^verbatim>\<open>mod.rs\<close>).  The theorems show that whatever bytes a program
  prints, an accepted report is bounded, well-formed text without control characters, and
  that the base64 reader inverts the standard encoding.
\<close>

unbundle bit_operations_syntax

section \<open>Values\<close>

definition PROGRAM_STATUS_REPLY :: bytes where
  "PROGRAM_STATUS_REPLY = 0x1b # bstr '']7501;?'' @ [0x1b, 92]"

definition MAX_SCAN_BYTES :: nat where
  "MAX_SCAN_BYTES = 1024 * 1024"

datatype program_status_error = InvalidRecordLimit | ChunkTooLarge | StalePlan | RevisionExhausted

datatype program_state = PsIdle | PsWorking | PsDone | PsBlocked | PsError

datatype program_status_kind = KPermission | KQuestion | KAuth

record program_status_record =
  pr_id :: rust_str
  pr_state :: program_state
  pr_app :: "rust_str option"
  pr_resolved_app :: "rust_str option"
  pr_kind :: "program_status_kind option"
  pr_progress :: "u8 option"
  pr_msg :: "rust_str option"
  pr_title :: "rust_str option"

section \<open>Displayed text\<close>

definition between :: "scalar \<Rightarrow> scalar \<Rightarrow> scalar \<Rightarrow> bool" where
  "between lo hi c \<longleftrightarrow> lo \<le> c \<and> c \<le> hi"

definition is_invisible :: "scalar \<Rightarrow> bool" where
  "is_invisible c \<longleftrightarrow>
     between 0x0600 0x0605 c \<or> c = 0x06dd \<or> c = 0x070f \<or> between 0x0890 0x0891 c \<or> c = 0x08e2
   \<or> c = 0x110bd \<or> c = 0x110cd \<or> between 0x13430 0x1343f c \<or> c = 0x00ad \<or> c = 0x034f \<or> c = 0x061c
   \<or> c = 0x115f \<or> c = 0x1160 \<or> c = 0x17b4 \<or> c = 0x17b5 \<or> between 0x180b 0x180f c
   \<or> between 0x200b 0x200f c \<or> between 0x202a 0x202e c \<or> between 0x2060 0x206f c \<or> c = 0x3164
   \<or> between 0xfe00 0xfe0f c \<or> c = 0xfeff \<or> c = 0xffa0 \<or> between 0xfff9 0xfffb c
   \<or> between 0x1bca0 0x1bca3 c \<or> between 0x1d173 0x1d17a c \<or> between 0xe0000 0xe0fff c"

definition hex_digit :: "nat \<Rightarrow> u8" where
  "hex_digit n = (if n < 10 then 48 + word_of_nat n else 87 + word_of_nat n)"

fun lower_hex :: "nat \<Rightarrow> bytes" where
  "lower_hex n = (if n < 16 then [hex_digit n] else lower_hex (n div 16) @ [hex_digit (n mod 16)])"

definition display_char :: "scalar \<Rightarrow> bytes" where
  "display_char c =
     (if is_invisible c then [92, 117, 123] @ lower_hex c @ [125] else utf8_char c)"

definition display_text :: "rust_str \<Rightarrow> rust_str" where
  "display_text text = concat (map display_char (chars text))"

definition display_msg :: "program_status_record \<Rightarrow> rust_str option" where
  "display_msg r = map_option display_text (pr_msg r)"

definition display_title :: "program_status_record \<Rightarrow> rust_str option" where
  "display_title r = map_option display_text (pr_title r)"

section \<open>Base64\<close>

definition sextet :: "u8 \<Rightarrow> u8 option" where
  "sextet b =
     (if 65 \<le> b \<and> b \<le> 90 then Some (b - 65)
      else if 97 \<le> b \<and> b \<le> 122 then Some (b - 97 + 26)
      else if 48 \<le> b \<and> b \<le> 57 then Some (b - 48 + 52)
      else if b = 43 then Some 62
      else if b = 47 then Some 63
      else None)"

text \<open>The loop over the data bytes; \<open>None\<close> is the early return on a foreign byte.  The
  counter never exceeds thirteen and is a \<open>nat\<close>; the accumulator is the source's \<open>u32\<close>.\<close>

fun decode_loop :: "bytes \<Rightarrow> u32 \<Rightarrow> nat \<Rightarrow> bytes \<Rightarrow> (u32 \<times> bytes) option" where
  "decode_loop [] bits cnt out = Some (bits, out)"
| "decode_loop (b # bs) bits cnt out =
     (case sextet b of
        None \<Rightarrow> None
      | Some n \<Rightarrow>
          let bits = push_bit 6 bits OR ucast n; cnt = cnt + 6
          in if cnt \<ge> 8
             then let cnt = cnt - 8
                  in decode_loop bs (bits AND (push_bit cnt 1 - 1)) cnt (out @ [ucast (drop_bit cnt bits)])
             else decode_loop bs bits cnt out)"

definition trim_end_eq :: "bytes \<Rightarrow> bytes" where
  "trim_end_eq v = rev (dropWhile ((=) 61) (rev v))"

definition decode :: "rust_str \<Rightarrow> nat \<Rightarrow> rust_str option" where
  "decode value limit =
     (let data = trim_end_eq value; padding = length value - length data in
      if padding > 2
         \<or> length data mod 4 = 1
         \<or> padding > 0 \<and> (length value mod 4 \<noteq> 0 \<or> padding \<noteq> (4 - length data mod 4) mod 4)
      then None
      else case decode_loop data 0 0 [] of
        None \<Rightarrow> None
      | Some (bits, out) \<Rightarrow>
          if bits \<noteq> 0 \<or> length out > limit then None
          else if \<not> is_utf8 out then None
          else if list_ex is_control (chars out) then None
          else Some out)"

section \<open>Reports\<close>

datatype mutation = MReport program_status_record | MClear rust_str | MExit | MReset

definition id_byte :: "u8 \<Rightarrow> bool" where
  "id_byte b \<longleftrightarrow> is_ascii_alphanumeric b \<or> b \<in> set (bstr ''_.+-'')"

definition valid_id :: "rust_str \<Rightarrow> bool" where
  "valid_id i \<longleftrightarrow>
     i \<noteq> [] \<and> length (split_on 47 i) \<le> 8
     \<and> list_all (\<lambda>s. s \<noteq> [] \<and> length s \<le> 32 \<and> list_all id_byte s) (split_on 47 i)"

record report_fields =
  rf_state :: "rust_str option"
  rf_id :: "rust_str option"
  rf_app :: "rust_str option"
  rf_kind :: "rust_str option"
  rf_progress :: "rust_str option"
  rf_msg :: "rust_str option"
  rf_title :: "rust_str option"

definition no_fields :: report_fields where
  "no_fields = \<lparr>rf_state = None, rf_id = None, rf_app = None, rf_kind = None, rf_progress = None,
     rf_msg = None, rf_title = None\<rparr>"

definition value_byte :: "u8 \<Rightarrow> bool" where
  "value_byte b \<longleftrightarrow> is_ascii_alphanumeric b \<or> b \<in> set (bstr ''_.,+/=-'')"

text \<open>One \<open>key=value\<close> pair: \<open>None\<close> is the function's \<open>return None\<close>, an unchanged accumulator is
  its \<open>continue\<close>.\<close>

definition over_limit :: "rust_str \<Rightarrow> bytes \<Rightarrow> bool" where
  "over_limit key value \<longleftrightarrow>
     key = bstr ''msg'' \<and> length value > 2732
   \<or> key = bstr ''title'' \<and> length value > 256
   \<or> key = bstr ''app'' \<and> length value > 32
   \<or> key = bstr ''id'' \<and> length value > 128"

definition assign_field :: "rust_str \<Rightarrow> rust_str \<Rightarrow> report_fields \<Rightarrow> report_fields option" where
  "assign_field key value f =
     (if key = bstr ''state'' then Some (f\<lparr>rf_state := Some value\<rparr>)
      else if key = bstr ''app'' then Some (f\<lparr>rf_app := Some value\<rparr>)
      else if key = bstr ''id'' then Some (f\<lparr>rf_id := Some value\<rparr>)
      else if key = bstr ''kind'' then Some (f\<lparr>rf_kind := Some value\<rparr>)
      else if key = bstr ''progress'' then Some (f\<lparr>rf_progress := Some value\<rparr>)
      else if key = bstr ''msg'' then map_option (\<lambda>t. f\<lparr>rf_msg := Some t\<rparr>) (decode value 2048)
      else if key = bstr ''title'' then map_option (\<lambda>t. f\<lparr>rf_title := Some t\<rparr>) (decode value 192)
      else Some f)"

definition parse_pair :: "bytes \<Rightarrow> report_fields \<Rightarrow> report_fields option" where
  "parse_pair pair f =
     (case position ((=) 61) pair of
        None \<Rightarrow> Some f
      | Some separator \<Rightarrow>
          let key = trim_ascii (take separator pair); value = trim_ascii (drop (separator + 1) pair) in
          if length key > 16 then None
          else if \<not> is_utf8 key then Some f
          else if key = [] \<or> \<not> list_all is_ascii_lowercase key then Some f
          else if over_limit key value then None
          else if \<not> is_utf8 value then (if key = bstr ''id'' then None else Some f)
          else if key = bstr ''id'' \<and> \<not> valid_id value then None
          else if \<not> list_all value_byte value then Some f
          else assign_field key value f)"

fun parse_pairs :: "bytes list \<Rightarrow> report_fields \<Rightarrow> report_fields option" where
  "parse_pairs [] f = Some f"
| "parse_pairs (p # ps) f = Option.bind (parse_pair p f) (parse_pairs ps)"

text \<open>\<open>str::parse::<u8>\<close> on ASCII digits.\<close>

definition parse_u8 :: "rust_str \<Rightarrow> u8 option" where
  "parse_u8 s =
     (let n = foldl (\<lambda>a b. a * 10 + unat (b - 48)) 0 s in if n \<le> 255 then Some (word_of_nat n) else None)"

definition option_filter :: "('a \<Rightarrow> bool) \<Rightarrow> 'a option \<Rightarrow> 'a option" where
  "option_filter P v = (case v of Some x \<Rightarrow> if P x then Some x else None | None \<Rightarrow> None)"

definition build_report :: "rust_str \<Rightarrow> program_state \<Rightarrow> report_fields \<Rightarrow> mutation" where
  "build_report i state f =
     (let kind = (if state = PsBlocked then
            (if rf_kind f = Some (bstr ''permission'') then Some KPermission
             else if rf_kind f = Some (bstr ''question'') then Some KQuestion
             else if rf_kind f = Some (bstr ''auth'') then Some KAuth
             else None)
          else None);
          progress = (if state = PsWorking \<or> state = PsBlocked then
            option_filter (\<lambda>n. n \<le> 100)
              (Option.bind (option_filter (\<lambda>s. s \<noteq> [] \<and> list_all is_ascii_digit s) (rf_progress f)) parse_u8)
          else None);
          app = option_filter (\<lambda>v. v \<noteq> [] \<and> list_all id_byte v) (rf_app f)
      in MReport \<lparr>pr_id = i, pr_state = state, pr_app = app, pr_resolved_app = None, pr_kind = kind,
                  pr_progress = progress, pr_msg = rf_msg f, pr_title = rf_title f\<rparr>)"

definition parse :: "bytes \<Rightarrow> mutation option" where
  "parse body =
     Option.bind (parse_pairs (split_on 58 body) no_fields) (\<lambda>f.
       let i = (case rf_id f of None \<Rightarrow> [] | Some v \<Rightarrow> v) in
       case rf_state f of
         None \<Rightarrow> None
       | Some s \<Rightarrow>
           if s = bstr ''idle'' then Some (build_report i PsIdle f)
           else if s = bstr ''working'' then Some (build_report i PsWorking f)
           else if s = bstr ''done'' then Some (build_report i PsDone f)
           else if s = bstr ''blocked'' then Some (build_report i PsBlocked f)
           else if s = bstr ''error'' then Some (build_report i PsError f)
           else if s = bstr ''clear'' then Some (MClear i)
           else None)"

section \<open>What an accepted report guarantees\<close>

definition plain_text :: "nat \<Rightarrow> rust_str \<Rightarrow> bool" where
  "plain_text limit t \<longleftrightarrow> is_utf8 t \<and> length t \<le> limit \<and> list_all (\<lambda>c. \<not> is_control c) (chars t)"

definition id_ok :: "rust_str \<Rightarrow> bool" where
  "id_ok i \<longleftrightarrow> i = [] \<or> valid_id i \<and> length i \<le> 128"

definition option_all :: "('a \<Rightarrow> bool) \<Rightarrow> 'a option \<Rightarrow> bool" where
  "option_all P v = (case v of None \<Rightarrow> True | Some x \<Rightarrow> P x)"

lemma option_all_simps [simp]: "option_all P None" "option_all P (Some x) = P x"
  by (simp_all add: option_all_def)

definition record_ok :: "program_status_record \<Rightarrow> bool" where
  "record_ok r \<longleftrightarrow>
     id_ok (pr_id r) \<and> pr_resolved_app r = None \<and>
     option_all (\<lambda>a. a \<noteq> [] \<and> length a \<le> 32 \<and> list_all id_byte a) (pr_app r) \<and>
     (pr_kind r \<noteq> None \<longrightarrow> pr_state r = PsBlocked) \<and>
     (pr_progress r \<noteq> None \<longrightarrow> pr_state r \<in> {PsWorking, PsBlocked}) \<and>
     option_all (\<lambda>n. n \<le> 100) (pr_progress r) \<and>
     option_all (plain_text 2048) (pr_msg r) \<and> option_all (plain_text 192) (pr_title r)"

fun mutation_ok :: "mutation \<Rightarrow> bool" where
  "mutation_ok (MReport r) = record_ok r"
| "mutation_ok (MClear i) = id_ok i"
| "mutation_ok _ = True"

definition fields_ok :: "report_fields \<Rightarrow> bool" where
  "fields_ok f \<longleftrightarrow>
     option_all (\<lambda>i. valid_id i \<and> length i \<le> 128) (rf_id f) \<and>
     option_all (\<lambda>a. length a \<le> 32) (rf_app f) \<and>
     option_all (plain_text 2048) (rf_msg f) \<and> option_all (plain_text 192) (rf_title f)"

lemma decode_plain: "decode v n = Some t \<Longrightarrow> plain_text n t"
  by (auto simp: decode_def Let_def plain_text_def list_ex_iff list_all_iff
      split: if_splits option.splits prod.splits)

lemma assign_field_ok:
  assumes "assign_field key v f = Some f'" "fields_ok f" "\<not> over_limit key v"
    "key = bstr ''id'' \<longrightarrow> valid_id v"
  shows "fields_ok f'"
  using assms decode_plain
  by (auto simp: assign_field_def fields_ok_def over_limit_def not_less split: if_splits)

lemma parse_pair_ok: "parse_pair p f = Some f' \<Longrightarrow> fields_ok f \<Longrightarrow> fields_ok f'"
  by (auto simp: parse_pair_def Let_def intro: assign_field_ok split: option.splits if_splits)

lemma parse_pairs_ok: "parse_pairs ps f = Some f' \<Longrightarrow> fields_ok f \<Longrightarrow> fields_ok f'"
proof (induction ps arbitrary: f)
  case (Cons p ps)
  then show ?case using parse_pair_ok by (cases "parse_pair p f") auto
qed simp

lemma option_filter_Some: "option_filter P v = Some x \<longleftrightarrow> v = Some x \<and> P x"
  by (auto simp: option_filter_def split: option.splits)

lemma option_all_filter: "option_all Q (option_filter P v) \<longleftrightarrow> (\<forall>x. v = Some x \<and> P x \<longrightarrow> Q x)"
  by (auto simp: option_filter_def split: option.splits)

lemma build_report_ok: "fields_ok f \<Longrightarrow> id_ok i \<Longrightarrow> mutation_ok (build_report i s f)"
  by (auto simp: build_report_def Let_def record_ok_def fields_ok_def option_all_filter)

lemma parse_mutation_ok:
  assumes "parse body = Some m"
  shows "mutation_ok m"
proof -
  obtain f where f: "parse_pairs (split_on 58 body) no_fields = Some f"
    using assms by (auto simp: parse_def split: bind_splits)
  have "fields_ok no_fields" by (simp add: fields_ok_def no_fields_def)
  with f have ok: "fields_ok f" by (rule parse_pairs_ok)
  then have "id_ok (case rf_id f of None \<Rightarrow> [] | Some v \<Rightarrow> v)"
    by (auto simp: fields_ok_def id_ok_def split: option.splits)
  with assms f ok show ?thesis
    by (auto simp: parse_def Let_def build_report_ok split: option.splits if_splits)
qed

section \<open>The base64 reader inverts the encoding\<close>

text \<open>The standard alphabet and encoding, as the specification the reader is checked against.\<close>

definition b64_char :: "nat \<Rightarrow> u8" where
  "b64_char n =
     (if n < 26 then word_of_nat (65 + n)
      else if n < 52 then word_of_nat (97 + (n - 26))
      else if n < 62 then word_of_nat (48 + (n - 52))
      else if n = 62 then 43 else 47)"

fun b64_data :: "nat list \<Rightarrow> bytes" where
  "b64_data [] = []"
| "b64_data [a] = [b64_char (a div 4), b64_char (a mod 4 * 16)]"
| "b64_data [a, b] = [b64_char (a div 4), b64_char (a mod 4 * 16 + b div 16), b64_char (b mod 16 * 4)]"
| "b64_data (a # b # c # r) =
     b64_char (a div 4) # b64_char (a mod 4 * 16 + b div 16) # b64_char (b mod 16 * 4 + c div 64)
       # b64_char (c mod 64) # b64_data r"

definition b64_encode :: "bool \<Rightarrow> bytes \<Rightarrow> bytes" where
  "b64_encode padded t =
     (let d = b64_data (map unat t) in
      d @ (if padded then replicate ((4 - length d mod 4) mod 4) 61 else []))"

lemma sextet_b64_char_all: "\<forall>n\<in>set [0..<64]. sextet (b64_char n) = Some (word_of_nat n) \<and> b64_char n \<noteq> 61"
  by code_simp

lemma sextet_b64_char: "n < 64 \<Longrightarrow> sextet (b64_char n) = Some (word_of_nat n)"
  and b64_char_not_pad: "n < 64 \<Longrightarrow> b64_char n \<noteq> 61"
  using sextet_b64_char_all by auto

lemma or_disjoint_nat: "b < 64 \<Longrightarrow> push_bit 6 a OR b = a * 64 + b" for a b :: nat
proof -
  assume "b < 64"
  then have b: "take_bit 6 b = b" by (simp add: take_bit_nat_eq_self)
  have "push_bit 6 a AND take_bit 6 b = 0" by (auto simp: bit_eq_iff bit_simps)
  then have "push_bit 6 a + b = push_bit 6 a OR b" unfolding b by (rule disjunctive_add_eq_or)
  then show ?thesis by (simp add: push_bit_eq_mult)
qed

lemma unat_acc:
  fixes bits :: u32 and n :: u8
  assumes "unat bits < 2 ^ 6" "unat n < 64"
  shows "unat (push_bit 6 bits OR ucast n) = unat bits * 64 + unat n"
proof -
  have "push_bit 6 (unat bits) < 2 ^ 32" using assms(1) by (simp add: push_bit_eq_mult)
  then have "unat (push_bit 6 bits) = push_bit 6 (unat bits)"
    using unsigned_push_bit_eq [of 6 bits, where 'a = nat] take_bit_nat_eq_self [of "push_bit 6 (unat bits)" 32]
    by simp
  moreover have "unat (ucast n :: u32) = unat n" by (rule unat_ucast_up) simp
  ultimately have "unat (push_bit 6 bits OR ucast n) = push_bit 6 (unat bits) OR unat n"
    by (simp only: unsigned_or_eq)
  then show ?thesis using assms(2) by (simp only: or_disjoint_nat)
qed

lemma unat_word_nat32: "x < 2 ^ 32 \<Longrightarrow> unat (word_of_nat x :: u32) = x"
  by (simp add: unat_of_nat take_bit_nat_eq_self)

lemma low_part: "w AND (push_bit c 1 - 1) = word_of_nat (unat w mod 2 ^ c)" for w :: u32
proof -
  have "push_bit c (1 :: u32) - 1 = mask c" by (simp only: mask_eq_exp_minus_1 push_bit_of_1)
  then have "w AND (push_bit c 1 - 1) = take_bit c w" by (simp only: take_bit_eq_mask)
  also have "\<dots> = word_of_nat (unat (take_bit c w))" by simp
  also have "unat (take_bit c w) = unat w mod 2 ^ c"
    using unsigned_take_bit_eq [of c w, where 'a = nat] by (simp only: take_bit_eq_mod)
  finally show ?thesis .
qed

lemma ucast_via_nat: "unat w = x \<Longrightarrow> ucast w = word_of_nat x" for w :: "'a::len word"
  by (metis of_nat_unat)

lemma decode_emit:
  assumes "sextet ch = Some (word_of_nat n)" "n < 64" "hi < 2 ^ 6" "cnt + 6 = c + 8"
    "hi * 64 + n = x * 2 ^ c + lo" "lo < 2 ^ c" "x < 256"
  shows "decode_loop (ch # bs) (word_of_nat hi) cnt out = decode_loop bs (word_of_nat lo) c (out @ [word_of_nat x])"
proof -
  let ?W = "push_bit 6 (word_of_nat hi :: u32) OR ucast (word_of_nat n :: u8)"
  have W: "unat ?W = x * 2 ^ c + lo"
    using unat_acc [of "word_of_nat hi" "word_of_nat n"] assms by (simp add: unat_word_nat32)
  have "unat (drop_bit c ?W) = x"
  proof -
    have "take_bit 32 (unat ?W) = unat ?W" using unat_u32_less by (rule take_bit_nat_eq_self)
    then have "unat (drop_bit c ?W) = unat ?W div 2 ^ c"
      by (subst unsigned_drop_bit_eq) (simp only: drop_bit_eq_div len_bit0 len_num1, simp add: drop_bit_eq_div)
    then show ?thesis using assms(6) by (simp add: W)
  qed
  then have "ucast (drop_bit c ?W) = (word_of_nat x :: u8)" by (rule ucast_via_nat)
  moreover have "?W AND (push_bit c 1 - 1) = word_of_nat lo"
    unfolding low_part W using assms(6) by simp
  ultimately show ?thesis using assms(1,4) by (simp add: Let_def)
qed

lemma decode_first:
  assumes "n < 64"
  shows "decode_loop (b64_char n # bs) 0 0 out = decode_loop bs (word_of_nat n) 6 out"
proof -
  have n: "unat (word_of_nat n :: u8) = n" using assms by simp
  then have "unat (push_bit 6 (0 :: u32) OR ucast (word_of_nat n :: u8)) = n"
    using unat_acc [of 0 "word_of_nat n"] assms by simp
  then have "push_bit 6 (0 :: u32) OR ucast (word_of_nat n :: u8) = word_of_nat n"
    by (metis of_nat_unat ucast_id)
  then show ?thesis using sextet_b64_char [OF assms] by (simp add: Let_def)
qed

lemma digits_ab: "a div 4 * 64 + (a mod 4 * 16 + b) = a * 16 + b" for a b :: nat
  using div_mult_mod_eq [of a 4] by linarith

lemma digits_bc: "b div 16 * 64 + (b mod 16 * 4 + c) = b * 4 + c" for b c :: nat
  using div_mult_mod_eq [of b 16] by linarith

lemma decode_pair:
  assumes "a < 256" "b < 16"
  shows "decode_loop (b64_char (a div 4) # b64_char (a mod 4 * 16 + b) # bs) 0 0 out =
    decode_loop bs (word_of_nat b) 4 (out @ [word_of_nat a])"
proof -
  have "a div 4 < 64" "a mod 4 * 16 + b < 64" using assms by auto
  then show ?thesis
    using decode_emit [OF sextet_b64_char, of "a mod 4 * 16 + b" "a div 4" 6 4 a b bs out] assms
    by (simp only: decode_first digits_ab) simp
qed

lemma decode_third:
  assumes "b < 256" "c < 4"
  shows "decode_loop (b64_char (b mod 16 * 4 + c) # bs) (word_of_nat (b div 16)) 4 out =
    decode_loop bs (word_of_nat c) 2 (out @ [word_of_nat b])"
proof -
  have "b div 16 < 2 ^ 6" "b mod 16 * 4 + c < 64" using assms by auto
  then show ?thesis
    using decode_emit [OF sextet_b64_char, of "b mod 16 * 4 + c" "b div 16" 4 2 b c bs out] assms
    by (simp only: digits_bc) simp
qed

lemma decode_fourth:
  assumes "c < 256"
  shows "decode_loop (b64_char (c mod 64) # bs) (word_of_nat (c div 64)) 2 out =
    decode_loop bs 0 0 (out @ [word_of_nat c])"
proof -
  have "c div 64 < 2 ^ 6" "c mod 64 < 64" using assms by auto
  then show ?thesis
    using decode_emit [OF sextet_b64_char, of "c mod 64" "c div 64" 2 0 c 0 bs out] assms
    by simp
qed

lemma decode_loop_b64:
  "list_all (\<lambda>x. x < 256) xs \<Longrightarrow> decode_loop (b64_data xs) 0 0 out = Some (0, out @ map word_of_nat xs)"
proof (induction xs arbitrary: out rule: b64_data.induct)
  case 1
  then show ?case by simp
next
  case (2 a)
  then show ?case using decode_pair [of a 0 "[]" out] by simp
next
  case (3 a b)
  then have "b div 16 < 16" by auto
  then show ?case using 3 decode_pair [of a "b div 16"] decode_third [of b 0 "[]"] by simp
next
  case (4 a b c r)
  then have "b div 16 < 16" "c div 64 < 4" by auto
  then show ?case
    using 4 by (simp only: b64_data.simps decode_pair decode_third decode_fourth list.pred_inject) simp
qed

lemma b64_data_no_pad: "list_all (\<lambda>x. x < 256) xs \<Longrightarrow> 61 \<notin> set (b64_data xs)"
proof (induction xs rule: b64_data.induct)
  case (2 a)
  then show ?case using b64_char_not_pad [of "a div 4"] b64_char_not_pad [of "a mod 4 * 16"] by auto
next
  case (3 a b)
  then have "a mod 4 * 16 + b div 16 < 64" "a div 4 < 64" by auto
  then show ?case
    using 3 b64_char_not_pad [of "a div 4"] b64_char_not_pad [of "a mod 4 * 16 + b div 16"]
      b64_char_not_pad [of "b mod 16 * 4"] by auto
next
  case (4 a b c r)
  then have "a mod 4 * 16 + b div 16 < 64" "b mod 16 * 4 + c div 64 < 64" "a div 4 < 64" by auto
  then show ?case
    using 4 b64_char_not_pad [of "a div 4"] b64_char_not_pad [of "a mod 4 * 16 + b div 16"]
      b64_char_not_pad [of "b mod 16 * 4 + c div 64"] b64_char_not_pad [of "c mod 64"] by auto
qed simp

lemma b64_data_length: "length (b64_data xs) mod 4 \<noteq> 1"
proof (induction xs rule: b64_data.induct)
  case (4 a b c r)
  have "length (b64_data (a # b # c # r)) = length (b64_data r) + 4" by simp
  then show ?case using 4 by (simp only: mod_add_self2 not_False_eq_True)
qed simp_all

lemma trim_end_eq_append: "61 \<notin> set d \<Longrightarrow> trim_end_eq (d @ replicate n 61) = d"
proof -
  assume d: "61 \<notin> set d"
  have "dropWhile ((=) 61) (replicate n 61 @ rev d) = rev d"
  proof (induction n)
    case 0
    then show ?case using d by (cases d rule: rev_cases) auto
  qed simp
  then show ?thesis by (simp add: trim_end_eq_def)
qed

lemma b64_padding:
  fixes k :: nat
  assumes "k mod 4 \<noteq> 1"
  shows "(4 - k mod 4) mod 4 \<le> 2 \<and> (k + (4 - k mod 4) mod 4) mod 4 = 0"
proof -
  have "k mod 4 < 4" by simp
  then consider "k mod 4 = 0" | "k mod 4 = 2" | "k mod 4 = 3" using assms by linarith
  then show ?thesis
  proof cases
    case 1
    then show ?thesis by simp
  next
    case 2
    then have "(k + 2) mod 4 = 0" by presburger
    with 2 show ?thesis by simp
  next
    case 3
    then have "(k + 1) mod 4 = 0" by presburger
    with 3 show ?thesis by simp
  qed
qed

section \<open>Properties\<close>

text \<open>
  C32. Whatever bytes a program prints as an OSC 7501 report, an accepted report is bounded
  and inert: its identifier is empty or a valid path of at most eight segments of at most
  32 bytes, its application name has at most 32 identifier bytes, message and title are
  well-formed UTF-8 without control characters of at most 2048 and 192 bytes, a kind
  appears only when blocked and a progress of at most 100 only when working or blocked.
\<close>

theorem parse_accepts_only_bounded_text:
  assumes "parse body = Some m"
  shows "mutation_ok m"
  using assms by (rule parse_mutation_ok)

theorem parse_accepts_only_bounded_text_witness:
  "mutation_ok (MReport
     \<lparr>pr_id = bstr ''a/b'', pr_state = PsWorking, pr_app = None, pr_resolved_app = None, pr_kind = None,
      pr_progress = Some 42, pr_msg = Some (bstr ''hi''), pr_title = None\<rparr>)"
proof (rule parse_accepts_only_bounded_text [of "bstr ''state=working:id=a/b:progress=42:msg=aGk=''"])
  show "parse (bstr ''state=working:id=a/b:progress=42:msg=aGk='') = Some (MReport
     \<lparr>pr_id = bstr ''a/b'', pr_state = PsWorking, pr_app = None, pr_resolved_app = None, pr_kind = None,
      pr_progress = Some 42, pr_msg = Some (bstr ''hi''), pr_title = None\<rparr>)"
    by code_simp
qed

text \<open>
  The base64 reader inverts the standard encoding, with and without padding: every
  well-formed text without control characters and within the limit is recovered exactly.
\<close>

theorem decode_inverts_base64:
  assumes "plain_text limit t"
  shows "decode (b64_encode padded t) limit = Some t"
proof -
  define d where "d = b64_data (map unat t)"
  have bytes: "list_all (\<lambda>x. x < 256) (map unat t)" by (simp add: list_all_iff unat_u8_less)
  have loop: "decode_loop d 0 0 [] = Some (0, t)"
    unfolding d_def by (simp add: decode_loop_b64 [OF bytes] comp_def)
  have pad: "61 \<notin> set d" unfolding d_def by (rule b64_data_no_pad [OF bytes])
  have l: "length d mod 4 \<noteq> 1" unfolding d_def by (rule b64_data_length)
  define n where "n = (if padded then (4 - length d mod 4) mod 4 else 0)"
  have e: "b64_encode padded t = d @ replicate n 61"
    by (simp add: b64_encode_def d_def n_def Let_def)
  have "n \<le> 2" "n > 0 \<Longrightarrow> n = (4 - length d mod 4) mod 4 \<and> (length d + n) mod 4 = 0"
    using b64_padding [OF l] by (auto simp: n_def split: if_splits)
  then show ?thesis
    using assms loop l trim_end_eq_append [OF pad, of n]
    by (auto simp: decode_def e plain_text_def list_ex_iff list_all_iff)
qed

theorem decode_inverts_base64_witness: "decode (b64_encode True (bstr ''hi'')) 2048 = Some (bstr ''hi'')"
proof (rule decode_inverts_base64)
  show "plain_text 2048 (bstr ''hi'')" by code_simp
qed

end
