(* ===== verification/Status_Scanner.thy ===== *)
theory Status_Scanner
  imports Status_Report
begin

text \<open>
  The incremental OSC scanner (\<^verbatim>\<open>crates/domain/src/terminal/program_status/scanner.rs\<close>).
  \<open>scan\<close> is the code's loop with its two shortcuts (return at once for ordinary text in the
  ground state, skip to the next escape byte otherwise); \<open>ref_scan\<close> is the plain machine
  that looks at every byte.  The theorems show they agree, that the division of the output
  into chunks is irrelevant, that the continuation is bounded, and that a complete report
  is recognised.
\<close>

section \<open>State\<close>

datatype scan_mode = Ground | Escape | Osc | StringMode

record scanner =
  sc_mode :: scan_mode
  sc_body :: bytes
  sc_length :: usize
  sc_escaped :: bool

definition scanner_default :: scanner where
  "scanner_default = \<lparr>sc_mode = Ground, sc_body = [], sc_length = 0, sc_escaped = False\<rparr>"

type_synonym scan_out = "scanner \<times> mutation list \<times> nat list"

section \<open>Operations\<close>

definition plain_chunk :: "scanner \<Rightarrow> bytes \<Rightarrow> bool" where
  "plain_chunk s input \<longleftrightarrow> sc_mode s = Ground \<and> 0x1b \<notin> set input"

text \<open>What a terminated OSC body means; \<open>offset\<close> is the position after the terminator.\<close>

definition dispatch :: "bytes \<Rightarrow> nat \<Rightarrow> mutation list \<times> nat list" where
  "dispatch body offset =
     (case strip_prefix (bstr ''7501;'') body of
        Some b \<Rightarrow>
          if b = bstr ''?'' then ([], [offset])
          else (case parse b of Some m \<Rightarrow> ([m], []) | None \<Rightarrow> ([], []))
      | None \<Rightarrow>
          (case strip_prefix (bstr ''133;'') body of
             Some b \<Rightarrow> if hd (split_on 59 b) = bstr ''A'' then ([MExit], []) else ([], [])
           | None \<Rightarrow> ([], [])))"

definition scan_byte :: "scanner \<Rightarrow> u8 \<Rightarrow> nat \<Rightarrow> scan_out" where
  "scan_byte s byte offset =
     (case sc_mode s of
        Ground \<Rightarrow> (s\<lparr>sc_mode := Escape\<rparr>, [], [])
      | Escape \<Rightarrow>
          if byte = 93
          then (s\<lparr>sc_mode := Osc, sc_length := 2, sc_body := [], sc_escaped := False\<rparr>, [], [])
          else if byte \<in> {80, 88, 94, 95}
          then (s\<lparr>sc_mode := StringMode, sc_escaped := False\<rparr>, [], [])
          else if byte = 99 then (s\<lparr>sc_mode := Ground\<rparr>, [MReset], [])
          else if byte = 0x1b then (s, [], [])
          else (s\<lparr>sc_mode := Ground\<rparr>, [], [])
      | _ \<Rightarrow>
          if byte = 0x18 \<or> byte = 0x1a then (s\<lparr>sc_mode := Ground, sc_body := []\<rparr>, [], [])
          else
            let osc = sc_mode s = Osc; len = saturating_add (sc_length s) 1 in
            if sc_escaped s \<and> byte = 92 \<or> osc \<and> byte = 7
            then
              let out = (if osc \<and> len \<le> 4096
                         then dispatch (if sc_escaped s \<and> byte = 92 then butlast (sc_body s) else sc_body s) offset
                         else ([], []))
              in (s\<lparr>sc_mode := Ground, sc_body := [], sc_length := len, sc_escaped := False\<rparr>, fst out, snd out)
            else
              (s\<lparr>sc_length := len,
                 sc_body := (if osc \<and> len \<le> 4096 then sc_body s @ [byte] else sc_body s),
                 sc_escaped := (byte = 0x1b)\<rparr>, [], []))"

function scan_loop :: "scanner \<Rightarrow> nat \<Rightarrow> bytes \<Rightarrow> scan_out" where
  "scan_loop s offset input =
     (if input = [] then (s, [], [])
      else case (if sc_mode s = Ground then position ((=) 0x1b) input else Some 0) of
        None \<Rightarrow> (s, [], [])
      | Some n \<Rightarrow>
          let (s1, m1, q1) = scan_byte s (input ! n) (offset + n + 1);
              (s2, m2, q2) = scan_loop s1 (offset + n + 1) (drop (n + 1) input)
          in (s2, m1 @ m2, q1 @ q2))"
  by pat_completeness auto

termination
  by (relation "measure (\<lambda>(s, off, input). length input)")
    (auto dest: position_less split: if_splits)

declare scan_loop.simps [simp del]

definition scan :: "scanner \<Rightarrow> bytes \<Rightarrow> scan_out" where
  "scan s input = (if plain_chunk s input then (s, [], []) else scan_loop s 0 input)"

section \<open>The machine without shortcuts\<close>

definition ref_byte :: "scanner \<Rightarrow> u8 \<Rightarrow> nat \<Rightarrow> scan_out" where
  "ref_byte s b offset = (if sc_mode s = Ground \<and> b \<noteq> 0x1b then (s, [], []) else scan_byte s b offset)"

fun ref_scan :: "scanner \<Rightarrow> nat \<Rightarrow> bytes \<Rightarrow> scan_out" where
  "ref_scan s offset [] = (s, [], [])"
| "ref_scan s offset (b # bs) =
     (let (s1, m1, q1) = ref_byte s b (offset + 1);
          (s2, m2, q2) = ref_scan s1 (offset + 1) bs
      in (s2, m1 @ m2, q1 @ q2))"

text \<open>Feeding an output stream in chunks, as the store does; offsets are made absolute.\<close>

fun scan_chunks :: "scanner \<Rightarrow> nat \<Rightarrow> bytes list \<Rightarrow> scan_out" where
  "scan_chunks s base [] = (s, [], [])"
| "scan_chunks s base (c # cs) =
     (let (s1, m1, q1) = scan s c;
          (s2, m2, q2) = scan_chunks s1 (base + length c) cs
      in (s2, m1 @ m2, map ((+) base) q1 @ q2))"

lemma ref_scan_append:
  "ref_scan s off (xs @ ys) =
     (let (s1, m1, q1) = ref_scan s off xs; (s2, m2, q2) = ref_scan s1 (off + length xs) ys
      in (s2, m1 @ m2, q1 @ q2))"
  by (induction xs arbitrary: s off) (auto simp: split_beta Let_def)

lemma ref_scan_ground_skip:
  "sc_mode s = Ground \<Longrightarrow> 0x1b \<notin> set xs \<Longrightarrow> ref_scan s off xs = (s, [], [])"
  by (induction xs arbitrary: off) (auto simp: ref_byte_def)

lemma scan_loop_ref: "scan_loop s off input = ref_scan s off input"
proof (induction s off input rule: scan_loop.induct)
  case (1 s off input)
  show ?case
  proof (cases "input = []")
    case True
    then show ?thesis by (simp add: scan_loop.simps)
  next
    case ne: False
    show ?thesis
    proof (cases "if sc_mode s = Ground then position ((=) 0x1b) input else Some 0")
      case None
      then have "sc_mode s = Ground" "0x1b \<notin> set input"
        by (auto simp: position_None_iff split: if_splits)
      then show ?thesis using None ne by (subst scan_loop.simps) (simp add: ref_scan_ground_skip)
    next
      case (Some n)
      have n: "n < length input" using Some ne by (auto simp: position_less split: if_splits)
      have skip: "ref_scan s off (take n input) = (s, [], [])"
        and byte: "ref_byte s (input ! n) o' = scan_byte s (input ! n) o'" for o'
      proof -
        show "ref_scan s off (take n input) = (s, [], [])"
        proof (cases "sc_mode s = Ground")
          case True
          then have "0x1b \<notin> set (take n input)"
            using Some by (auto simp: position_Some_iff in_set_conv_nth)
          then show ?thesis using True by (simp add: ref_scan_ground_skip)
        qed (use Some in simp)
        show "ref_byte s (input ! n) o' = scan_byte s (input ! n) o'"
          using Some by (auto simp: ref_byte_def position_Some_iff split: if_splits)
      qed
      have "input = take n input @ input ! n # drop (n + 1) input"
        using n by (simp add: id_take_nth_drop)
      then have "ref_scan s off input = ref_scan s (off + n) (input ! n # drop (n + 1) input)"
        using ref_scan_append [of s off "take n input" "input ! n # drop (n + 1) input"] skip n
        by (simp add: split_beta Let_def min_def)
      moreover obtain s1 m1 q1 where b: "scan_byte s (input ! n) (off + n + 1) = (s1, m1, q1)"
        by (cases "scan_byte s (input ! n) (off + n + 1)")
      moreover have "scan_loop s1 (off + n + 1) (drop (n + 1) input) =
          ref_scan s1 (off + n + 1) (drop (n + 1) input)"
        using 1 [OF ne Some b [symmetric]] by simp
      ultimately show ?thesis
        using Some ne byte by (subst scan_loop.simps) (simp add: split_beta Let_def)
    qed
  qed
qed

lemma scan_ref: "scan s input = ref_scan s 0 input"
  by (simp add: scan_def scan_loop_ref plain_chunk_def ref_scan_ground_skip)

text \<open>Offsets are only carried along.\<close>

lemma dispatch_shift: "dispatch b (k + off) = (fst (dispatch b off), map ((+) k) (snd (dispatch b off)))"
  by (auto simp: dispatch_def split: option.splits)

lemma ref_byte_shift:
  "ref_byte s b (k + off) =
     (fst (ref_byte s b off), fst (snd (ref_byte s b off)), map ((+) k) (snd (snd (ref_byte s b off))))"
  by (auto simp: ref_byte_def scan_byte_def Let_def dispatch_shift split: scan_mode.splits)

lemma ref_scan_shift:
  "ref_scan s (k + off) xs =
     (fst (ref_scan s off xs), fst (snd (ref_scan s off xs)), map ((+) k) (snd (snd (ref_scan s off xs))))"
proof (induction xs arbitrary: s off)
  case (Cons b xs)
  show ?case
    using ref_byte_shift [of s b k "off + 1"] Cons.IH [of "fst (ref_byte s b (off + 1))" "off + 1"]
    by (simp add: split_beta Let_def add.assoc)
qed simp

lemma scan_chunks_ref: "scan_chunks s base cs = ref_scan s base (concat cs)"
proof (induction cs arbitrary: s base)
  case (Cons c cs)
  show ?case
    using Cons.IH ref_scan_shift [of s base 0 c]
    by (simp add: scan_ref ref_scan_append split_beta Let_def)
qed simp

section \<open>Bounded continuation\<close>

definition scanner_inv :: "scanner \<Rightarrow> bool" where
  "scanner_inv s \<longleftrightarrow>
     (if sc_mode s = Osc then 2 \<le> unat (sc_length s) \<and> length (sc_body s) = min (unat (sc_length s)) 4096 - 2
      else sc_body s = [])"

lemma scanner_default_inv: "scanner_inv scanner_default"
  by (simp add: scanner_inv_def scanner_default_def)

lemma unat_saturating_one: "unat (saturating_add a 1) = min (unat a + 1) (2 ^ 64 - 1)" for a :: usize
proof (cases "a = - 1")
  case True
  then show ?thesis by (simp add: saturating_add_def Let_def unsigned_minus_1_eq_mask mask_eq_exp_minus_1)
next
  case False
  then have "checked_add a 1 \<noteq> None" by simp
  then have "unat a + 1 < 2 ^ 64" by (simp add: checked_add_eq split: if_splits)
  then show ?thesis by (simp add: saturating_add_eq unat_add_no_overflow)
qed

lemma grow_body:
  assumes "2 \<le> unat l" "length b = min (unat l) 4096 - 2"
  shows "2 \<le> unat (saturating_add l 1) \<and>
    length (if saturating_add l 1 \<le> (4096 :: usize) then b @ [x] else b) = min (unat (saturating_add l 1)) 4096 - 2"
  using assms by (auto simp: word_le_nat_alt unat_saturating_one)

lemma scan_byte_inv:
  assumes "scanner_inv s"
  shows "scanner_inv (fst (scan_byte s b off))"
proof (cases "sc_mode s = Osc")
  case True
  then have "2 \<le> unat (sc_length s)" "length (sc_body s) = min (unat (sc_length s)) 4096 - 2"
    using assms by (auto simp: scanner_inv_def)
  from grow_body [OF this, of b] True show ?thesis
    by (simp add: scan_byte_def Let_def scanner_inv_def)
next
  case False
  then show ?thesis
    using assms by (cases "sc_mode s") (auto simp: scan_byte_def Let_def scanner_inv_def)
qed

lemma ref_byte_inv: "scanner_inv s \<Longrightarrow> scanner_inv (fst (ref_byte s b off))"
  by (simp add: ref_byte_def scan_byte_inv)

lemma ref_scan_inv: "scanner_inv s \<Longrightarrow> scanner_inv (fst (ref_scan s off xs))"
  by (induction xs arbitrary: s off) (auto simp: split_beta Let_def ref_byte_inv)

lemma scanner_inv_bound: "scanner_inv s \<Longrightarrow> length (sc_body s) \<le> 4094"
  by (auto simp: scanner_inv_def split: if_splits)

section \<open>What a scan produces\<close>

lemma dispatch_out:
  "list_all mutation_ok (fst (dispatch b off))" "set (snd (dispatch b off)) \<subseteq> {off}"
  "length (fst (dispatch b off)) + length (snd (dispatch b off)) \<le> 1"
  by (auto simp: dispatch_def parse_mutation_ok split: option.splits)

lemma ref_byte_out:
  "list_all mutation_ok (fst (snd (ref_byte s b off)))" "set (snd (snd (ref_byte s b off))) \<subseteq> {off}"
  "length (fst (snd (ref_byte s b off))) + length (snd (snd (ref_byte s b off))) \<le> 1"
  using dispatch_out
  by (auto simp: ref_byte_def scan_byte_def Let_def split: scan_mode.splits)

lemma ref_scan_out:
  "list_all mutation_ok (fst (snd (ref_scan s off xs))) \<and>
   length (fst (snd (ref_scan s off xs))) \<le> length xs \<and>
   set (snd (snd (ref_scan s off xs))) \<subseteq> {off + 1 .. off + length xs}"
proof (induction xs arbitrary: s off)
  case (Cons b xs)
  show ?case
    using Cons.IH [of "fst (ref_byte s b (off + 1))" "off + 1"] ref_byte_out [of s b "off + 1"]
    by (fastforce simp: split_beta Let_def)
qed simp

text \<open>Queries are found left to right, so their positions cut the input into slices.\<close>

lemma ref_scan_queries_sorted: "sorted (snd (snd (ref_scan s off xs)))"
proof (induction xs arbitrary: s off)
  case (Cons b xs)
  obtain s1 m1 q1 where b: "ref_byte s b (off + 1) = (s1, m1, q1)" by (cases "ref_byte s b (off + 1)") auto
  have "q1 = [] \<or> q1 = [off + 1]"
    using ref_byte_out(2,3) [of s b "off + 1"] b by (cases q1) auto
  then show ?case
    using Cons.IH [of s1 "off + 1"] ref_scan_out [of s1 "off + 1" xs] b
    by (force simp: split_beta Let_def)
qed simp

lemma scan_queries_sorted: "scan s c = (s', ms, qs) \<Longrightarrow> sorted qs"
  using ref_scan_queries_sorted [of s 0 c] by (simp add: scan_ref)

lemma scan_out_ok:
  assumes "scan s c = (s', ms, qs)"
  shows "list_all mutation_ok ms" "length ms \<le> length c" "set qs \<subseteq> {1 .. length c}"
  using ref_scan_out [of s 0 c] assms by (simp_all add: scan_ref)

section \<open>Recognition\<close>

definition payload_byte :: "u8 \<Rightarrow> bool" where
  "payload_byte b \<longleftrightarrow> b \<notin> {0x07, 0x18, 0x1a, 0x1b}"

abbreviation in_osc :: "scanner \<Rightarrow> bytes \<Rightarrow> bool \<Rightarrow> scanner" where
  "in_osc s p e \<equiv> s\<lparr>sc_mode := Osc, sc_length := word_of_nat (2 + length p), sc_body := p, sc_escaped := e\<rparr>"

lemma saturating_small:
  assumes "n < 2 ^ 63"
  shows "saturating_add (word_of_nat n :: usize) 1 = word_of_nat (n + 1)"
proof -
  have "unat (word_of_nat (n + 1) :: usize) = n + 1" using assms by (intro unat_of_nat_u64) simp
  moreover have "unat (saturating_add (word_of_nat n :: usize) 1) = n + 1"
    using assms by (simp add: unat_saturating_one unat_of_nat_u64)
  ultimately show ?thesis by (simp only: word_unat_eq_iff)
qed

lemma ref_scan_payload:
  assumes "list_all payload_byte p" "2 + length q + length p \<le> 4096"
  shows "ref_scan (in_osc s q False) off p = (in_osc s (q @ p) False, [], [])"
  using assms
proof (induction p arbitrary: q off)
  case (Cons b p)
  have l: "saturating_add (word_of_nat (2 + length q) :: usize) 1 = word_of_nat (2 + length (q @ [b]))"
    using Cons.prems(2) saturating_small [of "2 + length q"] by simp
  have le: "(word_of_nat (2 + length (q @ [b])) :: usize) \<le> 4096"
    using Cons.prems(2) by (simp only: word_le_nat_alt) (simp add: unat_of_nat_u64 del: of_nat_add of_nat_Suc)
  have "ref_byte (in_osc s q False) b (off + 1) = (in_osc s (q @ [b]) False, [], [])"
    using Cons.prems(1) l le
    by (simp add: ref_byte_def scan_byte_def payload_byte_def Let_def del: of_nat_add of_nat_Suc)
  then show ?case
    using Cons.IH [of "q @ [b]" "off + 1"] Cons.prems by (simp add: Let_def)
qed simp

lemma ref_scan_open:
  "sc_mode s = Ground \<Longrightarrow> ref_scan s off [0x1b, 93] = (in_osc s [] False, [], [])"
  by (simp add: ref_byte_def scan_byte_def Let_def)

lemma ref_scan_bell:
  assumes "3 + length p \<le> 4096"
  shows "ref_scan (in_osc s p False) off [7] =
    (s\<lparr>sc_mode := Ground, sc_length := word_of_nat (3 + length p), sc_body := [], sc_escaped := False\<rparr>,
     fst (dispatch p (off + 1)), snd (dispatch p (off + 1)))"
proof -
  have l: "saturating_add (word_of_nat (2 + length p) :: usize) 1 = word_of_nat (3 + length p)"
    using assms saturating_small [of "2 + length p"] by (simp add: numeral_3_eq_3)
  have le: "(word_of_nat (3 + length p) :: usize) \<le> 4096"
    using assms by (simp only: word_le_nat_alt) (simp add: unat_of_nat_u64 del: of_nat_add of_nat_Suc)
  show ?thesis
    using l le by (simp add: ref_byte_def scan_byte_def Let_def del: of_nat_add of_nat_Suc)
qed

lemma ref_scan_st:
  assumes "4 + length p \<le> 4096"
  shows "ref_scan (in_osc s p False) off [0x1b, 92] =
    (s\<lparr>sc_mode := Ground, sc_length := word_of_nat (4 + length p), sc_body := [], sc_escaped := False\<rparr>,
     fst (dispatch p (off + 2)), snd (dispatch p (off + 2)))"
proof -
  have l: "saturating_add (word_of_nat (2 + length p) :: usize) 1 = word_of_nat (2 + length (p @ [0x1b]))"
    using assms saturating_small [of "2 + length p"] by simp
  have l2: "saturating_add (word_of_nat (2 + length (p @ [0x1b :: u8])) :: usize) 1 = word_of_nat (4 + length p)"
    using assms saturating_small [of "2 + length (p @ [0x1b])"] by simp
  have le: "(word_of_nat (2 + length (p @ [0x1b :: u8])) :: usize) \<le> 4096" "(word_of_nat (4 + length p) :: usize) \<le> 4096"
    using assms by (simp_all only: word_le_nat_alt) (simp_all add: unat_of_nat_u64 del: of_nat_add of_nat_Suc)
  have "ref_byte (in_osc s p False) 0x1b (off + 1) = (in_osc s (p @ [0x1b]) True, [], [])"
    using l le by (simp add: ref_byte_def scan_byte_def Let_def del: of_nat_add of_nat_Suc)
  moreover have "ref_byte (in_osc s (p @ [0x1b]) True) 92 (off + 2) =
    (s\<lparr>sc_mode := Ground, sc_length := word_of_nat (4 + length p), sc_body := [], sc_escaped := False\<rparr>,
     fst (dispatch p (off + 2)), snd (dispatch p (off + 2)))"
    using l2 le by (simp add: ref_byte_def scan_byte_def Let_def del: of_nat_add of_nat_Suc)
  ultimately show ?thesis by (simp add: Let_def)
qed

definition osc_sequence :: "bytes \<Rightarrow> bool \<Rightarrow> bytes" where
  "osc_sequence p bell = [0x1b, 93] @ p @ (if bell then [7] else [0x1b, 92])"

lemma ref_scan_osc:
  assumes "sc_mode s = Ground" "list_all payload_byte p" "length (osc_sequence p bell) \<le> 4096"
  shows "snd (ref_scan s off (osc_sequence p bell)) = dispatch p (off + length (osc_sequence p bell))
    \<and> sc_mode (fst (ref_scan s off (osc_sequence p bell))) = Ground"
proof -
  have p: "ref_scan (in_osc s [] False) (off + 2) p = (in_osc s p False, [], [])"
    using ref_scan_payload [OF assms(2), of "[]" s "off + 2"] assms(3) by (simp add: osc_sequence_def split: if_splits)
  show ?thesis
  proof (cases bell)
    case True
    then show ?thesis
      using ref_scan_open [OF assms(1), of off] p ref_scan_bell [of p s "off + 2 + length p"] assms(3)
      by (simp only: osc_sequence_def ref_scan_append if_True) (simp add: Let_def split_beta add.assoc add.commute)
  next
    case False
    then show ?thesis
      using ref_scan_open [OF assms(1), of off] p ref_scan_st [of p s "off + 2 + length p"] assms(3)
      by (simp only: osc_sequence_def ref_scan_append if_False) (simp add: Let_def split_beta add.assoc add.commute)
  qed
qed

section \<open>Properties\<close>

text \<open>
  C20. The scanner does not depend on how output is divided into reads, nor on its
  shortcuts: feeding any stream in any chunks gives the same continuation, the same
  mutations in the same order and the same absolute query positions as the machine that
  inspects every byte of the whole stream.
\<close>

theorem scan_chunking_irrelevant: "scan_chunks s 0 chunks = ref_scan s 0 (concat chunks)"
  by (rule scan_chunks_ref)

text \<open>
  The continuation a scan keeps is bounded for every output stream: never more than 4094
  body bytes, and none outside an operating-system command; and one scan yields at most one
  mutation per byte, all of them well-formed, and query positions inside its input.
\<close>

theorem scan_bounded:
  assumes "scan (fst (scan_chunks scanner_default 0 chunks)) c = (s', ms, qs)"
  shows "length (sc_body s') \<le> 4094 \<and> (sc_mode s' \<noteq> Osc \<longrightarrow> sc_body s' = [])
    \<and> length ms \<le> length c \<and> list_all mutation_ok ms \<and> set qs \<subseteq> {1 .. length c}"
proof -
  let ?s = "fst (scan_chunks scanner_default 0 chunks)"
  have "scanner_inv ?s" unfolding scan_chunks_ref by (rule ref_scan_inv [OF scanner_default_inv])
  from ref_scan_inv [OF this, of 0 c] have "scanner_inv s'" using assms by (simp add: scan_ref)
  with scanner_inv_bound scan_out_ok [OF assms] show ?thesis by (auto simp: scanner_inv_def)
qed

theorem scan_bounded_witness:
  "\<exists>s' ms qs. scan (fst (scan_chunks scanner_default 0 [[0x1b]])) [93, 55] = (s', ms, qs)
     \<and> length (sc_body s') \<le> 4094"
  using scan_bounded [of "[[0x1b]]" "[93, 55]"]
  by (cases "scan (fst (scan_chunks scanner_default 0 [[0x1b]])) [93, 55]") blast

text \<open>
  C35. A complete command is recognised: from the ground state, an operating-system command
  of at most 4096 bytes whose payload has no control terminators, ended by BEL or by
  ESC-backslash and cut into chunks anywhere, yields exactly the meaning of its payload
  (one query at the offset after the terminator, the parsed report, or the prompt mark) and
  returns to the ground state.
\<close>

theorem scan_recognises_command:
  assumes "sc_mode s = Ground" "list_all payload_byte p" "length (osc_sequence p bell) \<le> 4096"
    "concat chunks = osc_sequence p bell"
  shows "snd (scan_chunks s 0 chunks) = dispatch p (length (osc_sequence p bell))
    \<and> sc_mode (fst (scan_chunks s 0 chunks)) = Ground"
  using ref_scan_osc [OF assms(1-3), of 0] by (simp add: scan_chunks_ref assms(4))

theorem scan_recognises_command_witness:
  "snd (scan_chunks scanner_default 0 [[0x1b, 93, 55], bstr ''501;'', [63, 7]]) = ([], [9])"
proof -
  let ?p = "bstr ''7501;?''"
  have "snd (scan_chunks scanner_default 0 [[0x1b, 93, 55], bstr ''501;'', [63, 7]]) =
      dispatch ?p (length (osc_sequence ?p True))"
  proof (rule conjunct1 [OF scan_recognises_command])
    show "list_all payload_byte ?p" by code_simp
    show "concat [[0x1b, 93, 55], bstr ''501;'', [63, 7]] = osc_sequence ?p True" by code_simp
  qed (simp_all add: scanner_default_def osc_sequence_def bstr_def)
  also have "\<dots> = ([], [9])" by code_simp
  finally show ?thesis .
qed

end
