(* ===== verification/Status_Store.thy ===== *)
theory Status_Store
  imports Status_Scanner
begin

text \<open>
  The session's record set (\<^verbatim>\<open>crates/domain/src/terminal/program_status/store.rs\<close>): scans
  produce plans that leave the store alone, committing a current plan applies its mutations
  in order.  The shared identity of a store and its plans (\<open>Arc<()>\<close>) is a number; the sizes
  of the record and mutation structs are the compiler's and are arguments of the
  reservations.  Byte accounting over vector capacities is the allocator's and is left out.
\<close>

section \<open>State\<close>

record status_snapshot =
  sn_revision :: u64
  sn_records :: "program_status_record list"

record status_plan =
  sp_identity :: nat
  sp_generation :: u64
  sp_scanner :: scanner
  sp_mutations :: "mutation list"
  sp_queries :: "nat list"

record status_store =
  st_identity :: nat
  st_generation :: u64
  st_scanner :: scanner
  st_records :: "program_status_record list"
  st_revision :: u64
  st_limit :: nat

section \<open>Operations\<close>

definition store_default :: "nat \<Rightarrow> status_store" where
  "store_default i =
     \<lparr>st_identity = i, st_generation = 0, st_scanner = scanner_default, st_records = [],
      st_revision = 0, st_limit = 256\<rparr>"

definition store_new :: "nat \<Rightarrow> nat \<Rightarrow> (program_status_error, status_store) result" where
  "store_new i record_limit =
     (if \<not> (64 \<le> record_limit \<and> record_limit \<le> 256) then Err InvalidRecordLimit
      else Ok ((store_default i)\<lparr>st_limit := record_limit\<rparr>))"

definition record_reservation :: "nat \<Rightarrow> status_store \<Rightarrow> nat" where
  "record_reservation record_size s = 8192 + st_limit s * (2 * record_size + 128 + 32 + 32 + 2048 + 192)"

definition scan_reservation :: "nat \<Rightarrow> nat \<Rightarrow> (program_status_error, nat) result" where
  "scan_reservation mutation_size chunk_len =
     (if chunk_len > MAX_SCAN_BYTES then Err ChunkTooLarge
      else Ok (32768 + chunk_len * (2 * mutation_size + 2 * 8 + 4)))"

definition scan_reservation_for :: "nat \<Rightarrow> status_store \<Rightarrow> bytes \<Rightarrow> (program_status_error, nat) result" where
  "scan_reservation_for mutation_size s chunk =
     (if length chunk > MAX_SCAN_BYTES then Err ChunkTooLarge
      else if plain_chunk (st_scanner s) chunk then Ok 0
      else scan_reservation mutation_size (length chunk))"

definition store_scan :: "status_store \<Rightarrow> bytes \<Rightarrow> (program_status_error, status_plan) result" where
  "store_scan s chunk =
     bind_result (scan_reservation 0 (length chunk)) (\<lambda>_.
     if st_generation s = - 1 \<or> st_revision s > - 1 - (len_u64 chunk + 1) then Err RevisionExhausted
     else
       let (sc, ms, qs) = scan (st_scanner s) chunk in
       Ok \<lparr>sp_identity = st_identity s, sp_generation = st_generation s, sp_scanner = sc,
           sp_mutations = ms, sp_queries = qs\<rparr>)"

definition is_active :: "program_status_record \<Rightarrow> bool" where
  "is_active r \<longleftrightarrow> pr_state r = PsWorking \<or> pr_state r = PsBlocked"

definition cleared_by :: "rust_str \<Rightarrow> program_status_record \<Rightarrow> bool" where
  "cleared_by i r \<longleftrightarrow>
     \<not> (i \<noteq> [] \<and> pr_id r \<noteq> i
        \<and> \<not> (case strip_prefix i (pr_id r) of None \<Rightarrow> False
              | Some suffix \<Rightarrow> suffix \<noteq> [] \<and> hd suffix = 47))"

definition remove_nth :: "nat \<Rightarrow> 'a list \<Rightarrow> 'a list" where
  "remove_nth n xs = take n xs @ drop (Suc n) xs"

definition bump_if_changed :: "nat \<Rightarrow> status_store \<Rightarrow> status_store" where
  "bump_if_changed before s =
     (if length (st_records s) \<noteq> before then s\<lparr>st_revision := st_revision s + 1\<rparr> else s)"

fun store_apply :: "status_store \<Rightarrow> mutation \<Rightarrow> status_store" where
  "store_apply s (MReport r) =
     (let records = (case position (\<lambda>x. pr_id x = pr_id r) (st_records s) of
           Some index \<Rightarrow> remove_nth index (st_records s)
         | None \<Rightarrow> if length (st_records s) = st_limit s then remove_nth 0 (st_records s) else st_records s)
      in s\<lparr>st_records := records @ [r], st_revision := st_revision s + 1\<rparr>)"
| "store_apply s (MClear i) =
     bump_if_changed (length (st_records s)) (s\<lparr>st_records := filter (\<lambda>r. \<not> cleared_by i r) (st_records s)\<rparr>)"
| "store_apply s MReset = bump_if_changed (length (st_records s)) (s\<lparr>st_records := []\<rparr>)"
| "store_apply s MExit =
     bump_if_changed (length (st_records s)) (s\<lparr>st_records := filter (\<lambda>r. \<not> is_active r) (st_records s)\<rparr>)"

definition store_commit :: "status_store \<Rightarrow> status_plan \<Rightarrow> (program_status_error, status_store) result" where
  "store_commit s plan =
     (if st_identity s \<noteq> sp_identity plan \<or> st_generation s \<noteq> sp_generation plan then Err StalePlan
      else
        let s = foldl store_apply s (sp_mutations plan)
        in Ok (s\<lparr>st_scanner := sp_scanner plan, st_generation := st_generation s + 1\<rparr>))"

definition store_process_exited :: "status_store \<Rightarrow> (program_status_error, status_store) result" where
  "store_process_exited s =
     (if st_generation s = - 1 \<or> st_revision s = - 1 then Err RevisionExhausted
      else let s = store_apply s MExit in Ok (s\<lparr>st_generation := st_generation s + 1\<rparr>))"

text \<open>The loop that looks for the nearest ancestor with an application.\<close>

definition app_of :: "program_status_record list \<Rightarrow> rust_str \<Rightarrow> rust_str option" where
  "app_of rs i = Option.bind (List.find (\<lambda>r. pr_id r = i) rs) pr_app"

definition parent_of :: "rust_str \<Rightarrow> rust_str" where
  "parent_of i = (case rsplit_once_parent 47 i of None \<Rightarrow> [] | Some p \<Rightarrow> p)"

lemma parent_of_shorter: "i \<noteq> [] \<Longrightarrow> length (parent_of i) < length i"
  by (auto simp: parent_of_def rsplit_once_parent_shorter split: option.splits)

function resolve_app :: "program_status_record list \<Rightarrow> rust_str \<Rightarrow> rust_str option" where
  "resolve_app rs i =
     (case app_of rs i of
        Some app \<Rightarrow> Some app
      | None \<Rightarrow> if i = [] then None else resolve_app rs (parent_of i))"
  by pat_completeness auto

termination
  by (relation "measure (\<lambda>(rs, i). length i)") (auto simp: parent_of_shorter)

declare resolve_app.simps [simp del]

definition store_records :: "status_store \<Rightarrow> status_snapshot" where
  "store_records s =
     \<lparr>sn_revision = st_revision s,
      sn_records = map (\<lambda>r. r\<lparr>pr_resolved_app := resolve_app (st_records s) (pr_id r)\<rparr>) (st_records s)\<rparr>"

section \<open>Invariant\<close>

definition store_inv :: "status_store \<Rightarrow> bool" where
  "store_inv s \<longleftrightarrow>
     64 \<le> st_limit s \<and> st_limit s \<le> 256 \<and> length (st_records s) \<le> st_limit s \<and>
     distinct (map pr_id (st_records s)) \<and> list_all record_ok (st_records s) \<and>
     scanner_inv (st_scanner s)"

lemma store_new_inv: "store_new i n = Ok s \<Longrightarrow> store_inv s"
  by (auto simp: store_new_def store_default_def store_inv_def scanner_default_inv split: if_splits)

lemma remove_nth_map: "map f (remove_nth n xs) = remove_nth n (map f xs)"
  by (simp add: remove_nth_def take_map drop_map)

lemma remove_nth_distinct:
  assumes "distinct xs" "n < length xs"
  shows "distinct (remove_nth n xs) \<and> xs ! n \<notin> set (remove_nth n xs)"
proof -
  have "distinct (take n xs @ xs ! n # drop (Suc n) xs)"
    using assms by (simp flip: id_take_nth_drop)
  then show ?thesis by (auto simp: remove_nth_def)
qed

lemma remove_nth_set: "set (remove_nth n xs) \<subseteq> set xs"
  by (auto simp: remove_nth_def dest: in_set_takeD in_set_dropD)

lemma remove_nth_length: "n < length xs \<Longrightarrow> length (remove_nth n xs) = length xs - 1"
  by (simp add: remove_nth_def)

lemma remove_nth_distinct_any: "distinct xs \<Longrightarrow> distinct (remove_nth n xs)"
proof (cases "n < length xs")
  case True
  then show "distinct xs \<Longrightarrow> ?thesis" using remove_nth_distinct by blast
qed (simp add: remove_nth_def)

text \<open>A report lands at the end, replaces its identifier and evicts the oldest when full.\<close>

lemma apply_report:
  assumes "store_inv s"
  shows "\<exists>keep. st_records (store_apply s (MReport r)) = keep @ [r] \<and> set keep \<subseteq> set (st_records s)
    \<and> distinct (map pr_id keep) \<and> pr_id r \<notin> pr_id ` set keep \<and> length keep < st_limit s"
proof (cases "position (\<lambda>x. pr_id x = pr_id r) (st_records s)")
  case None
  then have fresh: "pr_id r \<notin> pr_id ` set (st_records s)" by (auto simp: position_None_iff)
  show ?thesis
  proof (cases "length (st_records s) = st_limit s")
    case True
    let ?k = "remove_nth 0 (st_records s)"
    have "length ?k < st_limit s" using assms True by (simp add: store_inv_def remove_nth_length)
    then show ?thesis
      using True None assms fresh remove_nth_set [of 0 "st_records s"]
        remove_nth_distinct_any [of "map pr_id (st_records s)" 0]
      by (intro exI [of _ ?k]) (auto simp: store_inv_def remove_nth_map)
  next
    case False
    then show ?thesis using None assms fresh by (intro exI [of _ "st_records s"]) (auto simp: store_inv_def)
  qed
next
  case (Some n)
  let ?k = "remove_nth n (st_records s)"
  have n: "n < length (st_records s)" "pr_id (st_records s ! n) = pr_id r"
    using Some by (auto simp: position_Some_iff)
  have d: "distinct (remove_nth n (map pr_id (st_records s)))"
    "map pr_id (st_records s) ! n \<notin> set (remove_nth n (map pr_id (st_records s)))"
    using remove_nth_distinct [of "map pr_id (st_records s)" n] assms n by (auto simp: store_inv_def)
  have "pr_id r \<notin> pr_id ` set ?k" using d(2) n by (simp flip: remove_nth_map)
  moreover have "length ?k < st_limit s"
    using assms n(1) by (auto simp: store_inv_def remove_nth_length)
  ultimately show ?thesis
    using Some d(1) remove_nth_set [of n "st_records s"]
    by (intro exI [of _ ?k]) (auto simp: remove_nth_map)
qed

lemma distinct_map_filter_id: "distinct (map f xs) \<Longrightarrow> distinct (map f (filter P xs))"
  by (induction xs) auto

lemma store_apply_same [simp]:
  "st_limit (store_apply s m) = st_limit s" "st_scanner (store_apply s m) = st_scanner s"
  "st_generation (store_apply s m) = st_generation s" "st_identity (store_apply s m) = st_identity s"
  by (cases m; simp add: bump_if_changed_def Let_def)+

lemma store_apply_inv:
  assumes "store_inv s" "mutation_ok m"
  shows "store_inv (store_apply s m)"
proof (cases m)
  case (MReport r)
  obtain keep where k: "st_records (store_apply s (MReport r)) = keep @ [r]" "set keep \<subseteq> set (st_records s)"
    "distinct (map pr_id keep)" "pr_id r \<notin> pr_id ` set keep" "length keep < st_limit s"
    using apply_report [OF assms(1)] by blast
  have "list_all record_ok (keep @ [r])"
    using k(2) assms MReport by (auto simp: store_inv_def list_all_iff)
  then show ?thesis
    using assms(1) k MReport by (simp add: store_inv_def del: store_apply.simps)
qed (use assms in \<open>auto simp: store_inv_def bump_if_changed_def list_all_iff distinct_map_filter_id
      intro: order_trans [OF length_filter_le]\<close>)

lemma store_apply_revision:
  "st_revision (store_apply s m) = st_revision s \<or> st_revision (store_apply s m) = st_revision s + 1"
  by (cases m) (auto simp: bump_if_changed_def Let_def)

lemma store_applies:
  assumes "store_inv s" "list_all mutation_ok ms" "unat (st_revision s) + length ms < 2 ^ 64"
  shows "store_inv (foldl store_apply s ms)
    \<and> unat (st_revision s) \<le> unat (st_revision (foldl store_apply s ms))
    \<and> unat (st_revision (foldl store_apply s ms)) \<le> unat (st_revision s) + length ms"
  using assms
proof (induction ms arbitrary: s)
  case (Cons m ms)
  have i: "store_inv (store_apply s m)" using Cons.prems store_apply_inv by simp
  have "unat (st_revision s + 1) = unat (st_revision s) + 1"
    using Cons.prems(3) by (subst unat_add_no_overflow) auto
  then have r: "unat (st_revision s) \<le> unat (st_revision (store_apply s m))"
    "unat (st_revision (store_apply s m)) \<le> unat (st_revision s) + 1"
    using store_apply_revision [of s m] by auto
  from Cons.IH [OF i] Cons.prems r show ?case by auto
qed simp

lemma foldl_apply_same [simp]:
  "st_limit (foldl store_apply s ms) = st_limit s" "st_scanner (foldl store_apply s ms) = st_scanner s"
  "st_generation (foldl store_apply s ms) = st_generation s" "st_identity (foldl store_apply s ms) = st_identity s"
  by (induction ms arbitrary: s) simp_all

section \<open>Scanning and committing\<close>

definition store_feed :: "status_store \<Rightarrow> bytes \<Rightarrow> (program_status_error, status_store) result" where
  "store_feed s chunk = bind_result (store_scan s chunk) (store_commit s)"

lemma revision_guard:
  fixes r :: u64
  assumes "k + 1 < 2 ^ 64" "\<not> r > - 1 - (word_of_nat k + 1)"
  shows "unat r + k + 1 < 2 ^ 64"
proof -
  have k: "unat (word_of_nat k + 1 :: u64) = k + 1"
    using assms(1) by (subst unat_add_no_overflow) (auto simp: unat_of_nat_u64)
  have m: "unat (- 1 :: u64) = 2 ^ 64 - 1" by (simp add: unsigned_minus_1_eq_mask mask_eq_exp_minus_1)
  have "unat (- 1 - (word_of_nat k + 1) :: u64) = 2 ^ 64 - 1 - (k + 1)"
    using k m assms(1) by (subst unat_sub_no_underflow) (auto simp: word_le_nat_alt)
  with assms show ?thesis by (simp add: word_less_nat_alt)
qed

lemma store_scan_Ok:
  assumes "store_scan s c = Ok plan"
  shows "scan (st_scanner s) c = (sp_scanner plan, sp_mutations plan, sp_queries plan)"
    "sp_identity plan = st_identity s" "sp_generation plan = st_generation s"
    "st_generation s \<noteq> - 1" "length c \<le> MAX_SCAN_BYTES" "unat (st_revision s) + length c + 1 < 2 ^ 64"
proof -
  show "scan (st_scanner s) c = (sp_scanner plan, sp_mutations plan, sp_queries plan)"
    "sp_identity plan = st_identity s" "sp_generation plan = st_generation s" "st_generation s \<noteq> - 1"
    and l: "length c \<le> MAX_SCAN_BYTES"
    using assms by (auto simp: store_scan_def scan_reservation_def bind_result_Ok_iff
        split: if_splits prod.splits)
  have "\<not> st_revision s > - 1 - (word_of_nat (length c) + 1)"
    using assms by (auto simp: store_scan_def len_u64_def bind_result_Ok_iff split: if_splits prod.splits)
  then show "unat (st_revision s) + length c + 1 < 2 ^ 64"
    using l by (intro revision_guard) (auto simp: MAX_SCAN_BYTES_def)
qed

lemma store_feed_Ok:
  assumes "store_feed s c = Ok s'" "store_inv s"
  shows "store_inv s'" "unat (st_revision s) \<le> unat (st_revision s')"
    "unat (st_revision s') \<le> unat (st_revision s) + length c"
    "unat (st_generation s') = unat (st_generation s) + 1"
proof -
  obtain plan where plan: "store_scan s c = Ok plan" and cm: "store_commit s plan = Ok s'"
    using assms(1) by (auto simp: store_feed_def bind_result_Ok_iff)
  note sc = store_scan_Ok [OF plan]
  note out = scan_out_ok [OF sc(1)]
  have s': "s' = (foldl store_apply s (sp_mutations plan))\<lparr>st_scanner := sp_scanner plan,
      st_generation := st_generation s + 1\<rparr>"
    using cm by (auto simp: store_commit_def Let_def split: if_splits)
  have ap: "store_inv (foldl store_apply s (sp_mutations plan))
    \<and> unat (st_revision s) \<le> unat (st_revision (foldl store_apply s (sp_mutations plan)))
    \<and> unat (st_revision (foldl store_apply s (sp_mutations plan))) \<le> unat (st_revision s) + length (sp_mutations plan)"
    using store_applies [OF assms(2) out(1)] out(2) sc(6) by linarith
  have "scanner_inv (sp_scanner plan)"
    using ref_scan_inv [of "st_scanner s" 0 c] sc(1) assms(2) by (simp add: scan_ref store_inv_def)
  with ap show "store_inv s'" by (simp add: s' store_inv_def)
  show "unat (st_revision s) \<le> unat (st_revision s')"
    "unat (st_revision s') \<le> unat (st_revision s) + length c"
    using ap out(2) by (auto simp: s')
  have "checked_add (st_generation s) 1 \<noteq> None" using sc(4) by simp
  then show "unat (st_generation s') = unat (st_generation s) + 1"
    by (auto simp: s' checked_add_eq unat_add_no_overflow split: if_splits)
qed

lemma store_exit_Ok:
  assumes "store_process_exited s = Ok s'" "store_inv s"
  shows "store_inv s'" "unat (st_generation s') = unat (st_generation s) + 1"
    "list_all (\<lambda>r. \<not> is_active r) (st_records s')"
proof -
  have s': "s' = (store_apply s MExit)\<lparr>st_generation := st_generation s + 1\<rparr>" and g: "st_generation s \<noteq> - 1"
    using assms(1) by (auto simp: store_process_exited_def Let_def bump_if_changed_def split: if_splits)
  have "store_inv (store_apply s MExit)" by (rule store_apply_inv [OF assms(2)]) simp
  then show "store_inv s'" by (simp add: s' store_inv_def del: store_apply.simps)
  have "checked_add (st_generation s) 1 \<noteq> None" using g by simp
  then show "unat (st_generation s') = unat (st_generation s) + 1"
    by (auto simp: s' checked_add_eq unat_add_no_overflow split: if_splits)
  show "list_all (\<lambda>r. \<not> is_active r) (st_records s')"
    by (auto simp: s' bump_if_changed_def list_all_iff)
qed

section \<open>Histories\<close>

text \<open>A store with the plans scanned from it so far.  A plan may be committed at any later time, in
  any order and more than once; a refused call changes nothing.\<close>

inductive store_step :: "status_store \<times> status_plan list \<Rightarrow> status_store \<times> status_plan list \<Rightarrow> bool" where
  st_scanned: "store_scan s c = Inr plan \<Longrightarrow> store_step (s, ps) (s, plan # ps)"
| st_committed: "plan \<in> set ps \<Longrightarrow> store_commit s plan = Inr s' \<Longrightarrow> store_step (s, ps) (s', ps)"
| st_exited: "store_process_exited s = Inr s' \<Longrightarrow> store_step (s, ps) (s', ps)"

abbreviation store_steps :: "status_store \<times> status_plan list \<Rightarrow> status_store \<times> status_plan list \<Rightarrow> bool" where
  "store_steps \<equiv> store_step\<^sup>*\<^sup>*"

text \<open>A plan of the current generation was scanned from the current store.\<close>

definition plans_inv :: "status_store \<Rightarrow> status_plan list \<Rightarrow> bool" where
  "plans_inv s ps \<longleftrightarrow> (\<forall>p\<in>set ps. unat (sp_generation p) \<le> unat (st_generation s)
     \<and> (sp_generation p = st_generation s \<longrightarrow> (\<exists>c. store_scan s c = Ok p)))"

text \<open>\<open>grows s s'\<close>: the identity and the limit stay, a change of the store raises the generation, and
  a change of the records raises the revision.\<close>

definition grows :: "status_store \<Rightarrow> status_store \<Rightarrow> bool" where
  "grows s s' \<longleftrightarrow> st_identity s' = st_identity s \<and> st_limit s' = st_limit s
     \<and> (s' = s \<or> unat (st_generation s) < unat (st_generation s'))
     \<and> unat (st_revision s) \<le> unat (st_revision s')
     \<and> (st_records s' \<noteq> st_records s \<longrightarrow> unat (st_revision s) < unat (st_revision s'))"

lemma grows_refl: "grows s s"
  by (simp add: grows_def)

lemma grows_trans: "grows s t \<Longrightarrow> grows t u \<Longrightarrow> grows s u"
  by (auto simp: grows_def)

lemma filter_shorter: "length (filter P xs) \<noteq> length xs \<or> filter P xs = xs"
  by (metis filter_id_conv length_filter_less order_less_irrefl)

text \<open>A mutation that changes the records counts.\<close>

lemma store_apply_counts:
  "st_records (store_apply s m) \<noteq> st_records s \<Longrightarrow> st_revision (store_apply s m) = st_revision s + 1"
  using filter_shorter [of _ "st_records s"] by (cases m) (auto simp: bump_if_changed_def Let_def)

lemma store_apply_grows:
  assumes "unat (st_revision s) + 1 < 2 ^ 64"
  shows "unat (st_revision s) \<le> unat (st_revision (store_apply s m))
    \<and> unat (st_revision (store_apply s m)) \<le> unat (st_revision s) + 1
    \<and> (st_records (store_apply s m) \<noteq> st_records s \<longrightarrow> unat (st_revision s) < unat (st_revision (store_apply s m)))"
proof -
  have "unat (st_revision s + 1) = unat (st_revision s) + 1" using assms by (subst unat_add_no_overflow) auto
  then show ?thesis using store_apply_revision [of s m] store_apply_counts [of s m] by auto
qed

lemma store_applies_grow:
  "unat (st_revision s) + length ms < 2 ^ 64 \<Longrightarrow> unat (st_revision s) \<le> unat (st_revision (foldl store_apply s ms))
    \<and> (st_records (foldl store_apply s ms) \<noteq> st_records s
        \<longrightarrow> unat (st_revision s) < unat (st_revision (foldl store_apply s ms)))"
proof (induction ms arbitrary: s)
  case (Cons m ms)
  have one: "unat (st_revision s) \<le> unat (st_revision (store_apply s m))"
    "unat (st_revision (store_apply s m)) \<le> unat (st_revision s) + 1"
    "st_records (store_apply s m) \<noteq> st_records s \<longrightarrow> unat (st_revision s) < unat (st_revision (store_apply s m))"
    using store_apply_grows [of s m] Cons.prems by auto
  with Cons.IH [of "store_apply s m"] Cons.prems show ?case by auto
qed simp

lemma commit_grows:
  assumes "store_scan s c = Ok plan" "store_commit s plan = Ok s'"
  shows "grows s s'" "unat (st_generation s) < unat (st_generation s')"
proof -
  note sc = store_scan_Ok [OF assms(1)]
  have s': "s' = (foldl store_apply s (sp_mutations plan))\<lparr>st_scanner := sp_scanner plan,
      st_generation := st_generation s + 1\<rparr>"
    using assms(2) by (auto simp: store_commit_def Let_def split: if_splits)
  have "checked_add (st_generation s) 1 \<noteq> None" using sc(4) by simp
  then show g: "unat (st_generation s) < unat (st_generation s')"
    by (auto simp: s' checked_add_eq unat_add_no_overflow split: if_splits)
  show "grows s s'"
    using store_applies_grow [of s "sp_mutations plan"] scan_out_ok(2) [OF sc(1)] sc(6) g by (simp add: grows_def s')
qed

lemma exit_grows:
  assumes "store_process_exited s = Ok s'"
  shows "grows s s'" "unat (st_generation s) < unat (st_generation s')"
proof -
  have s': "s' = (store_apply s MExit)\<lparr>st_generation := st_generation s + 1\<rparr>" and g: "st_generation s \<noteq> - 1" "st_revision s \<noteq> - 1"
    using assms by (auto simp: store_process_exited_def Let_def bump_if_changed_def split: if_splits)
  have "checked_add (st_generation s) 1 \<noteq> None" "checked_add (st_revision s) 1 \<noteq> None" using g by simp_all
  then have "unat (st_revision s) + 1 < 2 ^ 64" "unat (st_generation s + 1) = unat (st_generation s) + 1"
    by (auto simp: checked_add_eq unat_add_no_overflow split: if_splits)
  with store_apply_grows [of s MExit] show "grows s s'" "unat (st_generation s) < unat (st_generation s')"
    by (auto simp: grows_def s' simp del: store_apply.simps)
qed

lemma plans_inv_later: "plans_inv s ps \<Longrightarrow> unat (st_generation s) < unat (st_generation s') \<Longrightarrow> plans_inv s' ps"
  by (fastforce simp: plans_inv_def)

lemma store_step_inv:
  assumes "store_step (s, ps) (s', ps')" "store_inv s" "plans_inv s ps"
  shows "grows s s'" "store_inv s'" "plans_inv s' ps'" "set ps \<subseteq> set ps'"
proof -
  have "grows s s' \<and> store_inv s' \<and> plans_inv s' ps' \<and> set ps \<subseteq> set ps'"
    using assms(1)
  proof cases
    case (st_scanned c plan)
    with assms(2,3) store_scan_Ok(3) show ?thesis by (auto simp: plans_inv_def grows_refl)
  next
    case (st_committed plan)
    then have "sp_generation plan = st_generation s" by (auto simp: store_commit_def split: if_splits)
    then obtain c where c: "store_scan s c = Ok plan" using st_committed(2) assms(3) by (auto simp: plans_inv_def)
    have "store_feed s c = Ok s'" using c st_committed(3) by (simp add: store_feed_def)
    then have "store_inv s'" by (rule store_feed_Ok(1) [OF _ assms(2)])
    with st_committed(1) commit_grows [OF c st_committed(3)] plans_inv_later [OF assms(3)] show ?thesis by simp
  next
    case st_exited
    with exit_grows [OF st_exited(2)] store_exit_Ok(1) [OF st_exited(2) assms(2)] plans_inv_later [OF assms(3)]
    show ?thesis by simp
  qed
  then show "grows s s'" "store_inv s'" "plans_inv s' ps'" "set ps \<subseteq> set ps'" by simp_all
qed

lemma store_steps_inv:
  assumes "store_steps (s, ps) (s', ps')" "store_inv s" "plans_inv s ps"
  shows "grows s s' \<and> store_inv s' \<and> plans_inv s' ps' \<and> set ps \<subseteq> set ps'"
  using assms(1)
proof (induction rule: rtranclp_induct2)
  case refl
  then show ?case using assms(2,3) grows_refl by blast
next
  case (step s' ps' s'' ps'')
  then have "store_inv s'" "plans_inv s' ps'" "grows s s'" "set ps \<subseteq> set ps'" by blast+
  with store_step_inv [OF step(2)] show ?case by (blast intro: grows_trans)
qed

lemma store_reached:
  assumes "store_new i limit = Ok s0" "store_steps (s0, []) (s, ps)"
  shows "store_inv s" "plans_inv s ps" "st_limit s = limit"
proof -
  have "plans_inv s0 []" by (simp add: plans_inv_def)
  from store_steps_inv [OF assms(2) store_new_inv [OF assms(1)] this]
  show "store_inv s" "plans_inv s ps" "st_limit s = limit"
    using assms(1) by (auto simp: grows_def store_new_def split: if_splits)
qed

lemma store_feed_eq:
  assumes "store_feed t c = Ok t'"
  shows "st_scanner t' = fst (scan (st_scanner t) c)"
    "st_records t' = st_records (foldl store_apply t (fst (snd (scan (st_scanner t) c))))"
    "st_revision t' = st_revision (foldl store_apply t (fst (snd (scan (st_scanner t) c))))"
    "st_limit t' = st_limit t"
proof -
  obtain plan where plan: "store_scan t c = Ok plan" and cm: "store_commit t plan = Ok t'"
    using assms by (auto simp: store_feed_def bind_result_Ok_iff)
  have "t' = (foldl store_apply t (sp_mutations plan))\<lparr>st_scanner := sp_scanner plan,
      st_generation := st_generation t + 1\<rparr>"
    using cm by (auto simp: store_commit_def Let_def split: if_splits)
  with store_scan_Ok(1) [OF plan] show "st_scanner t' = fst (scan (st_scanner t) c)"
    "st_records t' = st_records (foldl store_apply t (fst (snd (scan (st_scanner t) c))))"
    "st_revision t' = st_revision (foldl store_apply t (fst (snd (scan (st_scanner t) c))))"
    "st_limit t' = st_limit t" by simp_all
qed

lemma store_apply_cong:
  assumes "st_records t = st_records u" "st_revision t = st_revision u" "st_limit t = st_limit u"
  shows "st_records (foldl store_apply t ms) = st_records (foldl store_apply u ms) \<and>
    st_revision (foldl store_apply t ms) = st_revision (foldl store_apply u ms)"
  using assms
proof (induction ms arbitrary: t u)
  case (Cons m ms)
  have "st_records (store_apply t m) = st_records (store_apply u m) \<and>
      st_revision (store_apply t m) = st_revision (store_apply u m)"
    using Cons.prems by (cases m) (simp_all add: bump_if_changed_def Let_def split: option.splits)
  with Cons.IH [of "store_apply t m" "store_apply u m"] Cons.prems(3) show ?case
    by (simp del: store_apply.simps)
qed simp

lemma scan_split:
  "fst (scan s (xs @ ys)) = fst (scan (fst (scan s xs)) ys)"
  "fst (snd (scan s (xs @ ys))) = fst (snd (scan s xs)) @ fst (snd (scan (fst (scan s xs)) ys))"
proof -
  have "ref_scan (fst (ref_scan s 0 xs)) (length xs) ys =
      (fst (ref_scan (fst (ref_scan s 0 xs)) 0 ys), fst (snd (ref_scan (fst (ref_scan s 0 xs)) 0 ys)),
       map ((+) (length xs)) (snd (snd (ref_scan (fst (ref_scan s 0 xs)) 0 ys))))"
    using ref_scan_shift [of "fst (ref_scan s 0 xs)" "length xs" 0 ys] by simp
  then show "fst (scan s (xs @ ys)) = fst (scan (fst (scan s xs)) ys)"
    "fst (snd (scan s (xs @ ys))) = fst (snd (scan s xs)) @ fst (snd (scan (fst (scan s xs)) ys))"
    by (simp_all add: scan_ref ref_scan_append split_beta Let_def)
qed

section \<open>Ancestors\<close>

text \<open>The ancestors of an identifier: itself, then every proper path prefix, then the root.\<close>

definition is_ancestor :: "rust_str \<Rightarrow> rust_str \<Rightarrow> bool" where
  "is_ancestor a i \<longleftrightarrow> a = i \<or> a = [] \<or> (\<exists>q. i = a @ 47 # q)"

lemma parent_is_longest:
  assumes "i \<noteq> []" "is_ancestor a i" "a \<noteq> i"
  shows "is_ancestor a (parent_of i)"
proof (cases "a = []")
  case True
  then show ?thesis by (simp add: is_ancestor_def)
next
  case False
  then obtain q where q: "i = a @ 47 # q" using assms by (auto simp: is_ancestor_def)
  have "47 \<in> set (rev i)" using q by simp
  then obtain p where rp: "rsplit_once_parent 47 i = Some p"
    by (cases "rsplit_once_parent 47 i")
      (auto simp: rsplit_once_parent_def position_None_iff split: option.splits)
  then obtain r where r: "i = p @ 47 # r" "47 \<notin> set r"
    using rsplit_once_parent_Some_iff [of 47 i p] by blast
  have p: "parent_of i = p" "i = p @ 47 # r" "47 \<notin> set r" using rp r by (simp_all add: parent_of_def)
  have "a @ 47 # q = p @ 47 # r" using q p by simp
  then obtain us where "a = p @ us \<and> us @ 47 # q = 47 # r \<or> a @ us = p \<and> 47 # q = us @ 47 # r"
    using append_eq_append_conv2 [of a "47 # q" p "47 # r"] by blast
  then consider "a = p @ us" "us @ 47 # q = 47 # r" | "p = a @ us" "us @ 47 # r = 47 # q" by auto
  then show ?thesis
  proof cases
    case 1
    then show ?thesis using p by (cases us) (auto simp: is_ancestor_def)
  next
    case 2
    then show ?thesis using p by (cases us) (auto simp: is_ancestor_def)
  qed
qed

lemma is_ancestor_parent: "i \<noteq> [] \<Longrightarrow> is_ancestor a (parent_of i) \<Longrightarrow> is_ancestor a i"
  by (auto simp: parent_of_def is_ancestor_def rsplit_once_parent_Some_iff split: option.splits)

lemma resolve_app_nearest:
  "resolve_app rs i = Some x \<longleftrightarrow>
     (\<exists>a. is_ancestor a i \<and> app_of rs a = Some x \<and>
        (\<forall>b. is_ancestor b i \<and> length a < length b \<longrightarrow> app_of rs b = None))"
proof (induction rs i rule: resolve_app.induct)
  case (1 rs i)
  show ?case
  proof (cases "app_of rs i")
    case (Some y)
    have short: "a = i \<or> length a < length i" if "is_ancestor a i" for a
      using that by (auto simp: is_ancestor_def)
    have self: "is_ancestor i i" by (simp add: is_ancestor_def)
    have "(\<exists>a. is_ancestor a i \<and> app_of rs a = Some x \<and>
        (\<forall>b. is_ancestor b i \<and> length a < length b \<longrightarrow> app_of rs b = None)) \<longleftrightarrow> y = x"
    proof
      assume "\<exists>a. is_ancestor a i \<and> app_of rs a = Some x \<and>
        (\<forall>b. is_ancestor b i \<and> length a < length b \<longrightarrow> app_of rs b = None)"
      then obtain a where a: "is_ancestor a i" "app_of rs a = Some x"
        "\<not> length a < length i" using Some self by fastforce
      then show "y = x" using short [OF a(1)] Some by auto
    next
      assume "y = x"
      moreover have "\<not> length i < length b" if "is_ancestor b i" for b using short [OF that] by auto
      ultimately show "\<exists>a. is_ancestor a i \<and> app_of rs a = Some x \<and>
        (\<forall>b. is_ancestor b i \<and> length a < length b \<longrightarrow> app_of rs b = None)"
        using Some self by blast
    qed
    then show ?thesis using Some by (subst resolve_app.simps) simp
  next
    case None
    show ?thesis
    proof (cases "i = []")
      case True
      then show ?thesis using None by (subst resolve_app.simps) (auto simp: is_ancestor_def)
    next
      case False
      have same: "is_ancestor a i \<longleftrightarrow> is_ancestor a (parent_of i)" if "app_of rs a \<noteq> None" for a
        using parent_is_longest [OF False, of a] is_ancestor_parent [OF False, of a] None that
        by (cases "a = i") auto
      have later: "(is_ancestor b i \<and> l \<longrightarrow> app_of rs b = None) \<longleftrightarrow>
          (is_ancestor b (parent_of i) \<and> l \<longrightarrow> app_of rs b = None)" for b l
        using same [of b] by blast
      have here: "is_ancestor a i \<and> app_of rs a = Some x \<and> l \<longleftrightarrow>
          is_ancestor a (parent_of i) \<and> app_of rs a = Some x \<and> l" for a l
        using same [of a] by auto
      show ?thesis
        unfolding later here using 1 [OF None False] None False by (subst resolve_app.simps) simp
    qed
  qed
qed

lemma cleared_by_iff: "cleared_by i r \<longleftrightarrow> is_ancestor i (pr_id r)"
proof (cases "strip_prefix i (pr_id r)")
  case None
  then have "pr_id r \<noteq> i @ q" for q by auto
  from this [of "[]"] this [of "47 # q" for q] None show ?thesis
    by (auto simp: cleared_by_def is_ancestor_def)
next
  case (Some q)
  then have "pr_id r = i @ q" by (simp add: strip_prefix_Some_iff)
  then show ?thesis using Some by (cases q) (auto simp: cleared_by_def is_ancestor_def)
qed

section \<open>Properties\<close>

text \<open>
  C31. Whatever a program prints, in whatever chunks, however scans and commits interleave and
  whenever the process exits, a store in any state it reaches holds at most its configured
  number of records, never two with one identifier, and only well-formed bounded records.  The
  revision never wraps: from any reached state to any later one it never decreases and, when
  the records changed, it has grown, so two snapshots with one revision have the same records.
\<close>

theorem store_always_bounded:
  assumes "store_new i limit = Ok s0" "store_steps (s0, []) (s, ps)" "store_steps (s, ps) (s', ps')"
  shows "length (st_records s') \<le> limit \<and> distinct (map pr_id (st_records s'))
    \<and> list_all record_ok (st_records s')
    \<and> unat (st_revision s) \<le> unat (st_revision s')
    \<and> (st_records s' \<noteq> st_records s \<longrightarrow> unat (st_revision s) < unat (st_revision s'))"
proof -
  note r = store_reached [OF assms(1,2)]
  have "grows s s' \<and> store_inv s'" using store_steps_inv [OF assms(3) r(1,2)] by blast
  with r(3) show ?thesis by (simp add: grows_def store_inv_def)
qed

definition sample_store :: status_store where
  "sample_store = (store_default 0)\<lparr>st_limit := 64\<rparr>"

definition sample_working :: program_status_record where
  "sample_working = \<lparr>pr_id = [], pr_state = PsWorking, pr_app = None, pr_resolved_app = None, pr_kind = None,
     pr_progress = None, pr_msg = None, pr_title = None\<rparr>"

text \<open>A report scanned and committed, and then the exit of the process.\<close>

theorem store_always_bounded_witness:
  "\<exists>s ps s' ps'. store_steps (sample_store, []) (s, ps) \<and> length (st_records s) = 1
     \<and> store_steps (s, ps) (s', ps') \<and> st_records s' = [] \<and> unat (st_revision s) < unat (st_revision s')"
proof -
  have n: "store_new 0 64 = Ok sample_store" by (simp add: store_new_def sample_store_def)
  let ?c = "osc_sequence (bstr ''7501;state=working'') True"
  have m: "snd (scan scanner_default ?c) = ([MReport sample_working], [])" by code_simp
  have len: "length ?c = 21" by (simp add: osc_sequence_def bstr_def)
  define plan where "plan = \<lparr>sp_identity = 0, sp_generation = 0, sp_scanner = fst (scan scanner_default ?c),
    sp_mutations = [MReport sample_working], sp_queries = []\<rparr>"
  have p: "store_scan sample_store ?c = Ok plan"
    using m by (simp add: store_scan_def scan_reservation_def sample_store_def store_default_def len_u64_def
        MAX_SCAN_BYTES_def len plan_def split_beta Let_def)
  define s where "s = sample_store\<lparr>st_records := [sample_working], st_revision := 1, st_scanner := sp_scanner plan, st_generation := 1\<rparr>"
  have s: "store_commit sample_store plan = Ok s"
    by (simp add: store_commit_def plan_def s_def sample_store_def store_default_def Let_def)
  define s' where "s' = s\<lparr>st_records := [], st_revision := 2, st_generation := 2\<rparr>"
  have s': "store_process_exited s = Ok s'"
    by (simp add: store_process_exited_def s_def s'_def sample_store_def store_default_def bump_if_changed_def
        is_active_def sample_working_def Let_def)
  have one: "store_steps (sample_store, []) (s, [plan])"
    using st_scanned [OF p, of "[]"] st_committed [of plan "[plan]", OF _ s] by (meson list.set_intros(1) r_into_rtranclp rtranclp_trans)
  have two: "store_steps (s, [plan]) (s', [plan])" using st_exited [OF s'] by (rule r_into_rtranclp)
  have "st_records s' \<noteq> st_records s" "length (st_records s) = 1" "st_records s' = []" by (simp_all add: s_def s'_def)
  with store_always_bounded [OF n one two] one two show ?thesis by blast
qed

text \<open>
  Committing output chunk by chunk or all at once is the same: if two chunks can be
  committed one after the other, and together, the stores end with the same records in the
  same order, the same revision and the same scanner continuation.
\<close>

theorem store_feed_split:
  assumes "store_feed s xs = Ok s1" "store_feed s1 ys = Ok s2" "store_feed s (xs @ ys) = Ok s3"
  shows "st_records s2 = st_records s3 \<and> st_revision s2 = st_revision s3 \<and> st_scanner s2 = st_scanner s3"
proof -
  let ?m1 = "fst (snd (scan (st_scanner s) xs))" and ?s1 = "fst (scan (st_scanner s) xs)"
  let ?m2 = "fst (snd (scan ?s1 ys))"
  note f1 = store_feed_eq [OF assms(1)] and f2 = store_feed_eq [OF assms(2)] and f3 = store_feed_eq [OF assms(3)]
  have "st_records (foldl store_apply s1 ?m2) = st_records (foldl store_apply (foldl store_apply s ?m1) ?m2) \<and>
      st_revision (foldl store_apply s1 ?m2) = st_revision (foldl store_apply (foldl store_apply s ?m1) ?m2)"
    using f1 by (intro store_apply_cong) auto
  then show ?thesis using f1 f2 f3 scan_split [of "st_scanner s" xs ys] by (simp only: foldl_append)
qed

theorem store_feed_split_witness:
  "\<exists>s1 s2 s3. store_feed sample_store [0x1b] = Ok s1 \<and> store_feed s1 [99] = Ok s2
     \<and> store_feed sample_store ([0x1b] @ [99]) = Ok s3 \<and> st_records s2 = st_records s3"
proof -
  obtain s1 where s1: "store_feed sample_store [0x1b] = Ok s1" and g: "st_generation s1 = 1" "st_revision s1 = 0"
    by (simp add: store_feed_def store_scan_def store_commit_def scan_reservation_def sample_store_def
        store_default_def len_u64_def MAX_SCAN_BYTES_def split_beta Let_def scan_ref ref_byte_def scan_byte_def
        scanner_default_def)
  obtain s2 where s2: "store_feed s1 [99] = Ok s2"
    using g by (simp add: store_feed_def store_scan_def store_commit_def scan_reservation_def
        len_u64_def MAX_SCAN_BYTES_def split_beta Let_def)
  obtain s3 where s3: "store_feed sample_store ([0x1b] @ [99]) = Ok s3"
    by (simp add: store_feed_def store_scan_def store_commit_def scan_reservation_def sample_store_def
        store_default_def len_u64_def MAX_SCAN_BYTES_def split_beta Let_def)
  from store_feed_split [OF s1 s2 s3] s1 s2 s3 show ?thesis by blast
qed

text \<open>
  A snapshot resolves each record's application to that of its nearest ancestor: the
  longest path prefix of its identifier, itself included and the root last, whose record
  carries an application; and the records and their order are otherwise unchanged.
\<close>

theorem store_snapshot_resolves_nearest:
  "length (sn_records (store_records s)) = length (st_records s)
   \<and> (\<forall>k. k < length (st_records s) \<longrightarrow>
        (sn_records (store_records s) ! k)\<lparr>pr_resolved_app := None\<rparr> = (st_records s ! k)\<lparr>pr_resolved_app := None\<rparr>
        \<and> (\<forall>x. pr_resolved_app (sn_records (store_records s) ! k) = Some x \<longleftrightarrow>
            (\<exists>a. is_ancestor a (pr_id (st_records s ! k)) \<and> app_of (st_records s) a = Some x
               \<and> (\<forall>b. is_ancestor b (pr_id (st_records s ! k)) \<and> length a < length b
                    \<longrightarrow> app_of (st_records s) b = None))))"
  by (simp add: store_records_def resolve_app_nearest)

definition sample_record :: "rust_str \<Rightarrow> rust_str option \<Rightarrow> program_status_record" where
  "sample_record i app = \<lparr>pr_id = i, pr_state = PsDone, pr_app = app, pr_resolved_app = None, pr_kind = None,
     pr_progress = None, pr_msg = None, pr_title = None\<rparr>"

theorem store_snapshot_resolves_nearest_witness:
  "pr_resolved_app (sn_records (store_records (sample_store
     \<lparr>st_records := [sample_record [97] (Some [120]), sample_record [97, 47, 98] None]\<rparr>)) ! 1) = Some [120]"
proof -
  let ?rs = "[sample_record [97] (Some [120]), sample_record [97, 47, 98] None]"
  have a: "is_ancestor [97] [97, 47, 98 :: u8]" "app_of ?rs [97] = Some [120]"
    by (auto simp: is_ancestor_def app_of_def sample_record_def)
  have b: "app_of ?rs b = None" if "is_ancestor b [97, 47, 98]" "length [97 :: u8] < length b" for b
    using that by (auto simp: app_of_def sample_record_def)
  let ?s = "sample_store\<lparr>st_records := ?rs\<rparr>"
  have id1: "pr_id (st_records ?s ! 1) = [97, 47, 98]" "st_records ?s = ?rs" by (simp_all add: sample_record_def)
  have "\<exists>a. is_ancestor a (pr_id (st_records ?s ! 1)) \<and> app_of (st_records ?s) a = Some [120]
      \<and> (\<forall>b. is_ancestor b (pr_id (st_records ?s ! 1)) \<and> length a < length b \<longrightarrow> app_of (st_records ?s) b = None)"
    unfolding id1(1) unfolding id1(2) using a b by blast
  moreover have "1 < length (st_records ?s)" by simp
  ultimately show ?thesis using store_snapshot_resolves_nearest [of ?s] by blast
qed

text \<open>
  C39. A plan is good for exactly one commit, on the state it was scanned from.  There it
  commits, and leaves the records, in order, and the scanner that applying its chunk gives;
  in any later state, once any plan has been committed (this one included) or the process exit
  has been recorded, committing it is refused; and a clear removes exactly a record and its
  descendants, an empty identifier all of them.
\<close>

theorem stale_plan_refused:
  assumes "store_new i limit = Ok s0" "store_steps (s0, []) (s, ps)" "store_scan s c = Ok plan"
    "store_steps (s, plan # ps) (s', ps')"
  shows "\<exists>t. store_commit s plan = Ok t \<and> t \<noteq> s
    \<and> st_records t = st_records (foldl store_apply s (fst (snd (scan (st_scanner s) c))))
    \<and> st_scanner t = fst (scan (st_scanner s) c)
    \<and> store_commit s' plan = (if s' = s then Ok t else Err StalePlan)
    \<and> (\<forall>u us. store_steps (t, plan # ps) (u, us) \<longrightarrow> store_commit u plan = Err StalePlan)
    \<and> st_records (store_apply s (MClear j)) = filter (\<lambda>r. \<not> is_ancestor j (pr_id r)) (st_records s)"
proof -
  note r = store_reached [OF assms(1,2)] and sc = store_scan_Ok [OF assms(3)]
  obtain t where t: "store_commit s plan = Ok t" using sc(2,3) by (auto simp: store_commit_def Let_def)
  have feed: "store_feed s c = Ok t" using t assms(3) by (simp add: store_feed_def)
  have g: "unat (st_generation s) < unat (st_generation t)" by (rule commit_grows(2) [OF assms(3) t])
  have scanned: "store_steps (s, ps) (s, plan # ps)" using st_scanned [OF assms(3)] by (rule r_into_rtranclp)
  have stale: "store_commit u plan = Err StalePlan" if "unat (st_generation s) < unat (st_generation u)" for u
    using that sc(3) by (auto simp: store_commit_def)
  have later: "u = s \<or> unat (st_generation s) < unat (st_generation u)" if "store_steps (s, ps) (u, us)" for u us
    using store_steps_inv [OF that r(1,2)] by (simp add: grows_def)
  have "store_commit s' plan = (if s' = s then Ok t else Err StalePlan)"
    using later [OF rtranclp_trans [OF scanned assms(4)]] t stale by auto
  moreover have "store_commit u plan = Err StalePlan" if u: "store_steps (t, plan # ps) (u, us)" for u us
  proof -
    have st: "store_step (s, plan # ps) (t, plan # ps)" using st_committed [of plan "plan # ps"] t by simp
    have "store_inv t" "plans_inv t (plan # ps)"
      using store_steps_inv [OF rtranclp.rtrancl_into_rtrancl [OF scanned st] r(1,2)] by blast+
    from store_steps_inv [OF u this] g show ?thesis by (intro stale) (auto simp: grows_def)
  qed
  moreover have "t \<noteq> s" using g by auto
  ultimately show ?thesis
    using t store_feed_eq(1,2) [OF feed] by (intro exI [of _ t]) (simp add: bump_if_changed_def cleared_by_iff)
qed

theorem stale_plan_refused_witness:
  "\<exists>plan t s'. store_scan sample_store [65] = Ok plan \<and> store_commit sample_store plan = Ok t
     \<and> store_commit t plan = Err StalePlan
     \<and> store_process_exited sample_store = Ok s' \<and> store_commit s' plan = Err StalePlan"
proof -
  obtain plan where p: "store_scan sample_store [65] = Ok plan"
    by (simp add: store_scan_def scan_reservation_def sample_store_def store_default_def len_u64_def
        MAX_SCAN_BYTES_def split_beta Let_def)
  obtain s' where e: "store_process_exited sample_store = Ok s'"
    by (simp add: store_process_exited_def sample_store_def store_default_def Let_def)
  have n: "store_new 0 64 = Ok sample_store" by (simp add: store_new_def sample_store_def)
  have steps: "store_steps (sample_store, [plan]) (s', [plan])" using st_exited [OF e] by (rule r_into_rtranclp)
  have "s' \<noteq> sample_store" using exit_grows(2) [OF e] by auto
  with stale_plan_refused [OF n rtranclp.rtrancl_refl p steps] p e show ?thesis by auto
qed

end
