(* ===== verification/Ticket.thy ===== *)
theory Ticket
  imports Projection_Values
begin

text \<open>
  The admitted bounded wait (\<^verbatim>\<open>crates/application/src/projection/observation.rs\<close>): a
  \<open>Ticket\<close> is completed at most once by the projection and polled or dropped by its caller.
  Each operation runs under the ticket's mutex; completing returns the waker to invoke.
\<close>

record 'a ticket =
  tk_result :: "(projection_error, 'a) result option"
  tk_waker :: "waker option"
  tk_complete :: bool
  tk_cancelled :: bool

datatype 'a poll = Pending | Ready 'a

definition ticket_new :: "'a ticket" where
  "ticket_new = \<lparr>tk_result = None, tk_waker = None, tk_complete = False, tk_cancelled = False\<rparr>"

definition ticket_complete :: "(projection_error, 'a) result \<Rightarrow> 'a ticket \<Rightarrow> waker option \<times> 'a ticket" where
  "ticket_complete result t =
     (if tk_complete t then (None, t)
      else (tk_waker t,
            t\<lparr>tk_complete := True, tk_result := (if tk_cancelled t then tk_result t else Some result),
              tk_waker := None\<rparr>))"

definition ticket_poll :: "waker \<Rightarrow> 'a ticket \<Rightarrow> (projection_error, 'a) result poll \<times> 'a ticket" where
  "ticket_poll w t =
     (case tk_result t of
        Some r \<Rightarrow> (Ready r, t\<lparr>tk_result := None, tk_waker := None\<rparr>)
      | None \<Rightarrow> if tk_complete t then (Ready (Err JClosed), t\<lparr>tk_waker := None\<rparr>)
                else (Pending, t\<lparr>tk_waker := Some w\<rparr>))"

definition wait_drop :: "'a ticket \<Rightarrow> 'a ticket" where
  "wait_drop t = t\<lparr>tk_cancelled := True, tk_waker := None, tk_result := None\<rparr>"

section \<open>Waiting\<close>

definition polled :: "waker list \<Rightarrow> 'a ticket \<Rightarrow> 'a ticket" where
  "polled ws t = foldl (\<lambda>t w. snd (ticket_poll w t)) t ws"

definition completed :: "(projection_error, 'a) result list \<Rightarrow> 'a ticket \<Rightarrow> 'a ticket" where
  "completed rs t = foldl (\<lambda>t r. snd (ticket_complete r t)) t rs"

lemma polled_new:
  "polled ws (ticket_new :: 'a ticket) = ticket_new\<lparr>tk_waker := (if ws = [] then None else Some (last ws))\<rparr>"
  by (induction ws rule: rev_induct) (auto simp: polled_def ticket_poll_def ticket_new_def)

lemma completed_done: "tk_complete t \<Longrightarrow> completed rs t = t"
  by (induction rs) (auto simp: completed_def ticket_complete_def)

text \<open>
  A wait resolves exactly once, with the first completion, and its task is always woken:
  every poll before the completion is pending, completing wakes the waker of the most recent
  poll and no other, completions after the first change nothing, the next poll returns the
  first result, and any later poll reports \<open>Closed\<close> rather than blocking; once the wait is
  dropped, a completion stores nothing and wakes nobody.
\<close>

theorem ticket_resolves_once:
  "fst (ticket_poll w (polled ws (ticket_new :: 'a ticket))) = Pending
   \<and> fst (ticket_complete r (polled ws (ticket_new :: 'a ticket))) = (if ws = [] then None else Some (last ws))
   \<and> fst (ticket_poll w (completed (r # rs) (polled ws (ticket_new :: 'a ticket)))) = Ready r
   \<and> fst (ticket_poll w' (snd (ticket_poll w (completed (r # rs) (polled ws (ticket_new :: 'a ticket)))))) = Ready (Err JClosed)
   \<and> fst (ticket_complete r (wait_drop (polled ws (ticket_new :: 'a ticket)))) = None
   \<and> tk_result (completed (r # rs) (wait_drop (polled ws (ticket_new :: 'a ticket)))) = None"
proof -
  have c: "completed (r # rs) t = snd (ticket_complete r t)" for t :: "'a ticket"
    using completed_done [of "snd (ticket_complete r t)" rs]
    by (simp add: completed_def ticket_complete_def split: if_splits)
  show ?thesis
    unfolding polled_new c by (simp add: ticket_poll_def ticket_complete_def wait_drop_def ticket_new_def)
qed

end
