(* ===== verification/Coordinator.thy ===== *)
theory Coordinator
  imports Source_Reaper Journal Status_Store Ticket
begin

text \<open>
  The projection coordinator (\<^verbatim>\<open>crates/application/src/projection/\<close>: \<^verbatim>\<open>coordinator.rs\<close>,
  \<^verbatim>\<open>wiring.rs\<close>, \<^verbatim>\<open>admission.rs\<close>, \<^verbatim>\<open>worker.rs\<close>, \<^verbatim>\<open>native.rs\<close>, \<^verbatim>\<open>output.rs\<close>,
  \<^verbatim>\<open>program_status.rs\<close>, \<^verbatim>\<open>snapshot.rs\<close>, \<^verbatim>\<open>io.rs\<close>, \<^verbatim>\<open>teardown.rs\<close>).  The state has a
  component for each mutex of the code: the admission state, the native workspace, the
  journal, the program status, and the wiring slots.

  What is external is an argument.  The native engine is a record of functions on an
  abstract model \<open>'m\<close>, each of which may succeed, fail or panic and may change the model
  whatever it answers.  The answers of one operation, namely clock readings, quota grants
  (the quotas are shared with every other session), the blocking pool, the process port, the
  allocator, and which waits were abandoned, are the record \<open>answers\<close>.

  A memory lease is its size and is alive while some value holds it.  Completing a ticket is
  an entry of the log \<open>co_done\<close>; the first entry of a ticket is the one its wait returns
  (theory \<open>Ticket\<close>).  \<open>co_fed\<close> is a ghost with two logs: \<open>fl_calls\<close>, written by
  \<open>feed_call\<close> alone, is what the engine's \<open>feed\<close> was really called with, call by call and
  whatever it answered; \<open>fl_recorded\<close> is the chunks whose position was recorded as processed.
  That the two agree is proved in theory \<open>Coordinator_Refinement\<close>, not defined.  Wakes of other tasks, timings and capacity notifications are
  not part of the state.
\<close>

section \<open>The engine and the answers of the environment\<close>

datatype 'a native = NOk 'a | NErr terminal_error | NPanic

record 'm engine =
  eg_feed :: "bytes \<Rightarrow> 'm \<Rightarrow> bytes native \<times> 'm"
  eg_resize :: "terminal_size \<Rightarrow> control_generation \<Rightarrow> 'm \<Rightarrow> unit native \<times> 'm"
  eg_view :: "'m \<Rightarrow> terminal_view native \<times> 'm"
  eg_checkpoint :: "checkpoint_descriptor \<Rightarrow> 'm \<Rightarrow> terminal_checkpoint native \<times> 'm"
  eg_progress :: "'m \<Rightarrow> restoration_progress native"
  eg_history_step :: "'m \<Rightarrow> restoration_progress native \<times> 'm"
  eg_restore :: "terminal_checkpoint \<Rightarrow> terminal_config \<Rightarrow> 'm native"
  eg_mutation_during_restore :: bool
  eg_cell_size :: usize
  eg_record_size :: nat
  eg_mutation_size :: nat

record answers =
  an_now :: duration
  an_scan_memory :: bool
  an_record_memory :: bool
  an_reply_memory :: bool
  an_retains :: bool
  an_views :: bool
  an_checkpoints :: bool
  an_io_memory :: bool
  an_disk :: "disk_lease option"
  an_resident :: bool
  an_input :: bool
  an_pool :: bool
  an_write :: "(process_error, unit) result"
  an_written :: "write_outcome poll"
  an_resize :: "(process_error, unit) result"
  an_resized :: "(process_error, unit) result poll"
  an_capacity :: "terminal_checkpoint \<Rightarrow> usize"
  an_journal :: "nat \<Rightarrow> bool"
  an_cancelled :: "ticket_id \<Rightarrow> bool"

section \<open>State\<close>

record program_state =
  pg_store :: "status_store option"
  pg_memory :: "nat option"
  pg_exited :: bool
  pg_drained :: bool

record reply =
  ry_bytes :: bytes
  ry_memory :: nat
  ry_operation :: bool

record resizing =
  rz_size :: terminal_size
  rz_generation :: control_generation
  rz_ticket :: ticket_id
  rz_staging :: staging_lease

record 'm workspace =
  ws_config :: terminal_config
  ws_history_step_owed :: bool
  ws_terminal :: "'m option"
  ws_resident :: "usize option"
  ws_source :: "committed_source option"
  ws_restore_memory :: "usize option"
  ws_io :: "pending_io option"
  ws_reply :: "reply option"
  ws_resize :: "resizing option"
  ws_reaper :: source_reaper

record coordinator_config =
  cf_options :: projection_options
  cf_compatibility :: compatibility_id
  cf_protected_bytes :: usize
  cf_view_limit :: usize

record projected_view =
  pv_view :: terminal_view
  pv_processed :: replay_cursor
  pv_control_generation :: control_generation
  pv_history :: restoration_progress
  pv_lease :: usize

record pinned_checkpoint =
  pk_checkpoint :: terminal_checkpoint
  pk_lease :: usize

datatype ticket_value =
    ValResize resize_outcome
  | ValView projected_view
  | ValCheckpoint pinned_checkpoint
  | ValTransfer pinned_checkpoint transfer_observer
  | ValClosed

record feed_log =
  fl_calls :: "bytes list"
  fl_recorded :: "bytes list"

record 'm coordinator =
  co_adm :: admission
  co_ws :: "'m workspace"
  co_journal :: journal
  co_program :: program_state
  co_config :: coordinator_config
  co_services :: bool
  co_handle :: bool
  co_process :: bool
  co_ledger :: "unreclaimed_source list"
  co_done :: "(ticket_id \<times> (projection_error, ticket_value) result) list"
  co_fed :: feed_log

definition on_ws :: "('m workspace \<Rightarrow> 'm workspace) \<Rightarrow> 'm coordinator \<Rightarrow> 'm coordinator" where
  "on_ws f c = c\<lparr>co_ws := f (co_ws c)\<rparr>"

definition on_adm :: "(admission \<Rightarrow> admission) \<Rightarrow> 'm coordinator \<Rightarrow> 'm coordinator" where
  "on_adm f c = c\<lparr>co_adm := f (co_adm c)\<rparr>"

abbreviation co_status :: "'m coordinator \<Rightarrow> projection_status" where
  "co_status c \<equiv> queue_status (co_adm c)"

abbreviation co_residency :: "'m coordinator \<Rightarrow> residency" where
  "co_residency c \<equiv> ps_residency (co_status c)"

definition complete ::
  "ticket_id \<Rightarrow> (projection_error, ticket_value) result \<Rightarrow> 'm coordinator \<Rightarrow> 'm coordinator" where
  "complete t r c = c\<lparr>co_done := co_done c @ [(t, r)]\<rparr>"

definition fail_command :: "projection_error \<Rightarrow> command \<Rightarrow> 'm coordinator \<Rightarrow> 'm coordinator" where
  "fail_command e cmd c = (case command_fail cmd of None \<Rightarrow> c | Some t \<Rightarrow> complete t (Err e) c)"

definition fail_commands :: "projection_error \<Rightarrow> command list \<Rightarrow> 'm coordinator \<Rightarrow> 'm coordinator" where
  "fail_commands e cmds c = foldl (\<lambda>c cmd. fail_command e cmd c) c cmds"

section \<open>Failing, requeueing, native calls\<close>

definition coord_fail :: "projection_error \<Rightarrow> 'm coordinator \<Rightarrow> 'm coordinator" where
  "coord_fail e c =
     (case queue_fail (co_adm c) e of (rejected, drain, a) \<Rightarrow>
        fail_commands e rejected
          (c\<lparr>co_adm := a, co_journal := snd (journal_end (co_journal c) drain (Some e))\<rparr>))"

definition coord_requeue :: "command \<Rightarrow> 'm coordinator \<Rightarrow> 'm coordinator" where
  "coord_requeue cmd c =
     (case queue_requeue cmd (co_adm c) of (rejected, a) \<Rightarrow>
        (case rejected of None \<Rightarrow> c\<lparr>co_adm := a\<rparr> | Some r \<Rightarrow> fail_command JClosed r (c\<lparr>co_adm := a\<rparr>)))"

definition native_call :: "'a native \<Rightarrow> 'm coordinator \<Rightarrow> (projection_error, 'a) result \<times> 'm coordinator" where
  "native_call r c =
     (case r of
        NOk x \<Rightarrow> (Ok x, c)
      | NErr e \<Rightarrow> (Err (JTerminal e), c)
      | NPanic \<Rightarrow> (Err JWorker, coord_fail JWorker c))"

text \<open>A call on the live model, \<open>Closed\<close> when there is none.\<close>

definition engine_call ::
  "('m \<Rightarrow> 'a native \<times> 'm) \<Rightarrow> 'm coordinator \<Rightarrow> (projection_error, 'a) result \<times> 'm coordinator" where
  "engine_call f c =
     (case ws_terminal (co_ws c) of
        None \<Rightarrow> (Err JClosed, c)
      | Some m \<Rightarrow> (case f m of (r, m') \<Rightarrow> native_call r (on_ws (\<lambda>w. w\<lparr>ws_terminal := Some m'\<rparr>) c)))"

definition coord_descriptor :: "'m coordinator \<Rightarrow> checkpoint_descriptor" where
  "coord_descriptor c =
     \<lparr>cd_compatibility = cf_compatibility (co_config c), cd_processed = ps_processed (co_status c),
      cd_control_generation = ps_control_generation (co_status c)\<rparr>"

section \<open>Program status\<close>

datatype status_admission_error = StatusRetry | StatusFailed projection_error

record prepared_status =
  pr_plan :: status_plan
  pr_record_memory :: "nat option"
  pr_reply_memory :: nat

definition program_state_new :: "nat \<Rightarrow> nat \<Rightarrow> (projection_error, program_state) result" where
  "program_state_new identity limit =
     bind_result (map_err (\<lambda>_. JInvalidConfiguration) (store_new identity limit)) (\<lambda>s.
       Ok \<lparr>pg_store = Some s, pg_memory = None, pg_exited = False, pg_drained = False\<rparr>)"

definition prepare_status ::
  "answers \<Rightarrow> 'm engine \<Rightarrow> bytes \<Rightarrow> nat \<Rightarrow> 'm coordinator \<Rightarrow> (status_admission_error, prepared_status) result" where
  "prepare_status an eg bs reply_limit c =
     (let state = co_program c; limit = unat (cf_view_limit (co_config c)) in
      bind_result (ok_or (pg_store state) (StatusFailed JClosed)) (\<lambda>store.
      bind_result (map_err (\<lambda>_. StatusFailed JCapacity) (scan_reservation_for (eg_mutation_size eg) store bs)) (\<lambda>scratch.
      let owned = (if pg_memory state \<noteq> None then record_reservation (eg_record_size eg) store else 0) in
      if owned + scratch + reply_limit > limit then Err (StatusFailed JCapacity)
      else if \<not> an_scan_memory an then Err StatusRetry
      else bind_result (map_err (\<lambda>_. StatusFailed JCapacity) (store_scan store bs)) (\<lambda>plan.
        let reply_reservation = (if sp_queries plan = [] then reply_limit else reply_limit * 2);
            record_res = (if pg_memory state = None \<and> an_retains an
                          then record_reservation (eg_record_size eg) store else 0)
        in if owned + scratch + reply_reservation + record_res > limit then Err (StatusFailed JCapacity)
           else if record_res > 0 \<and> \<not> an_record_memory an then Err StatusRetry
           else if \<not> an_reply_memory an then Err StatusRetry
           else Ok \<lparr>pr_plan = plan, pr_record_memory = (if record_res > 0 then Some record_res else None),
                    pr_reply_memory = reply_reservation\<rparr>))))"

definition commit_status ::
  "status_plan \<Rightarrow> nat option \<Rightarrow> 'm coordinator \<Rightarrow> (projection_error, 'm coordinator) result" where
  "commit_status plan record_memory c =
     (let state = co_program c in
      bind_result (ok_or (pg_store state) JClosed) (\<lambda>store.
      bind_result (map_err (\<lambda>_. JWorker) (store_commit store plan)) (\<lambda>store.
        Ok (c\<lparr>co_program := state\<lparr>pg_store := Some store,
              pg_memory := (if record_memory \<noteq> None then record_memory else pg_memory state)\<rparr>\<rparr>))))"

definition apply_program_exit :: "'m coordinator \<Rightarrow> (projection_error, 'm coordinator) result" where
  "apply_program_exit c =
     (let state = co_program c in
      bind_result (ok_or (pg_store state) JClosed) (\<lambda>store.
      bind_result (map_err (\<lambda>_. JCapacity) (store_process_exited store)) (\<lambda>store.
        Ok (c\<lparr>co_program := state\<lparr>pg_store := Some store, pg_exited := True\<rparr>\<rparr>))))"

definition finish_program_drain :: "'m coordinator \<Rightarrow> (projection_error, 'm coordinator) result" where
  "finish_program_drain c =
     (let state = co_program c in
      if pg_exited state \<and> \<not> pg_drained state then
        bind_result (ok_or (pg_store state) JClosed) (\<lambda>store.
        bind_result (map_err (\<lambda>_. JCapacity) (store_process_exited store)) (\<lambda>store.
          Ok (c\<lparr>co_program := state\<lparr>pg_store := Some store, pg_drained := True\<rparr>\<rparr>)))
      else Ok c)"

definition clear_program_status :: "'m coordinator \<Rightarrow> 'm coordinator" where
  "clear_program_status c = c\<lparr>co_program := (co_program c)\<lparr>pg_store := None, pg_memory := None\<rparr>\<rparr>"

text \<open>The read side: a copy under its own view lease, without waking the model.\<close>

definition program_status ::
  "bool \<Rightarrow> 'm coordinator \<Rightarrow> (projection_error, status_snapshot) result" where
  "program_status granted c =
     (if is_closed_residency (co_residency c) then Err JClosed
      else case ps_failure (co_status c) of
        Some e \<Rightarrow> Err e
      | None \<Rightarrow>
          bind_result (ok_or (pg_store (co_program c)) JClosed) (\<lambda>store.
            if granted then Ok (store_records store) else Err JCapacity))"

section \<open>Output\<close>

definition reply_append :: "bytes \<Rightarrow> bytes \<Rightarrow> nat \<Rightarrow> (projection_error, bytes) result" where
  "reply_append aggregate bs limit =
     (if length bs > limit - length aggregate then Err JCapacity else Ok (aggregate @ bs))"

text \<open>\<open>native_call(|| terminal.feed(bytes))\<close> on the live model, logged.\<close>

definition log_call :: "bytes \<Rightarrow> 'm coordinator \<Rightarrow> 'm coordinator" where
  "log_call bs c = c\<lparr>co_fed := (co_fed c)\<lparr>fl_calls := fl_calls (co_fed c) @ [bs]\<rparr>\<rparr>"

definition feed_call ::
  "'m engine \<Rightarrow> bytes \<Rightarrow> 'm coordinator \<Rightarrow> (projection_error, bytes) result \<times> 'm coordinator" where
  "feed_call eg bs c =
     engine_call (eg_feed eg bs) (if ws_terminal (co_ws c) = None then c else log_call bs c)"

definition feed_status_slice ::
  "'m engine \<Rightarrow> bytes \<Rightarrow> bytes \<Rightarrow> nat \<Rightarrow> 'm coordinator \<Rightarrow> (projection_error, bytes) result \<times> 'm coordinator" where
  "feed_status_slice eg bs aggregate limit c =
     (case feed_call eg bs c of
        (Err e, c) \<Rightarrow> (Err e, c)
      | (Ok effects, c) \<Rightarrow> (reply_append aggregate effects limit, c))"

fun feed_slices ::
  "'m engine \<Rightarrow> bytes \<Rightarrow> nat \<Rightarrow> nat list \<Rightarrow> bytes \<Rightarrow> nat \<Rightarrow> 'm coordinator
    \<Rightarrow> (projection_error, bytes) result \<times> 'm coordinator" where
  "feed_slices eg bs start [] aggregate limit c =
     (if start < length bs then feed_status_slice eg (drop start bs) aggregate limit c else (Ok aggregate, c))"
| "feed_slices eg bs start (q # qs) aggregate limit c =
     (case feed_status_slice eg (drop start (take q bs)) aggregate limit c of
        (Err e, c) \<Rightarrow> (Err e, c)
      | (Ok aggregate, c) \<Rightarrow>
          (case reply_append aggregate PROGRAM_STATUS_REPLY limit of
             Err e \<Rightarrow> (Err e, c)
           | Ok aggregate \<Rightarrow> feed_slices eg bs q qs aggregate limit c))"

definition feed_status_slices ::
  "'m engine \<Rightarrow> bytes \<Rightarrow> nat list \<Rightarrow> nat \<Rightarrow> 'm coordinator \<Rightarrow> (projection_error, bytes) result \<times> 'm coordinator" where
  "feed_status_slices eg bs queries limit c =
     (if queries = [] then
        (case feed_call eg bs c of
           (Err e, c) \<Rightarrow> (Err e, c)
         | (Ok effects, c) \<Rightarrow> (if length effects > limit then Err JCapacity else Ok effects, c))
      else feed_slices eg bs 0 queries [] limit c)"

text \<open>After the model took every byte: commit the status plan, then the position.\<close>

definition commit_output ::
  "prepared_status \<Rightarrow> bytes \<Rightarrow> 'm coordinator \<Rightarrow> (projection_error, 'm coordinator) result \<times> 'm coordinator" where
  "commit_output p bs c =
     (case commit_status (pr_plan p) (pr_record_memory p) c of
        Err e \<Rightarrow> (Err e, c)
      | Ok c \<Rightarrow>
          (case queue_record_processed (co_adm c) (len_u64 bs) of
             Err e \<Rightarrow> (Err e, c)
           | Ok a \<Rightarrow> (Ok (c\<lparr>co_adm := a\<rparr>), c)))"

definition apply_output ::
  "answers \<Rightarrow> 'm engine \<Rightarrow> bytes \<Rightarrow> staging_lease \<Rightarrow> 'm coordinator \<Rightarrow> work_schedule \<times> 'm coordinator" where
  "apply_output an eg bs staging c =
     (let limit = unat (tc_reply_bytes (ws_config (co_ws c))) in
      case prepare_status an eg bs limit c of
        Err StatusRetry \<Rightarrow> (WorkAfter (from_millis 5), coord_requeue (CmdOutput bs staging) c)
      | Err (StatusFailed e) \<Rightarrow> (WorkDormant, coord_fail e (coord_requeue (CmdOutput bs staging) c))
      | Ok p \<Rightarrow>
          (case feed_status_slices eg bs (sp_queries (pr_plan p)) limit c of
             (Err e, c) \<Rightarrow> (WorkDormant, coord_fail e (coord_requeue (CmdOutput bs staging) c))
           | (Ok effects, c) \<Rightarrow>
               (case commit_output p bs c of
                  (Err e, c) \<Rightarrow> (WorkDormant, coord_fail e (coord_requeue (CmdOutput bs staging) c))
                | (Ok c, _) \<Rightarrow>
                    let c = c\<lparr>co_journal := snd (journal_output (an_journal an) (co_journal c) bs (ps_processed (co_status c))),
                              co_fed := (co_fed c)\<lparr>fl_recorded := fl_recorded (co_fed c) @ [bs]\<rparr>\<rparr>;
                        c = (if effects = [] then c
                             else on_ws (\<lambda>w. w\<lparr>ws_reply := Some \<lparr>ry_bytes = effects, ry_memory = pr_reply_memory p,
                                                  ry_operation = False\<rparr>\<rparr>) c)
                    in (WorkAfter 0, c))))"

section \<open>Snapshots\<close>

definition request_cancelled :: "answers \<Rightarrow> snapshot_request \<Rightarrow> bool" where
  "request_cancelled an r = an_cancelled an (request_ticket r)"

definition request_fail :: "snapshot_request \<Rightarrow> projection_error \<Rightarrow> 'm coordinator \<Rightarrow> 'm coordinator" where
  "request_fail r e c = complete (request_ticket r) (Err e) c"

text \<open>A continuation observer opened at another boundary than the checkpoint is dropped again.\<close>

definition request_complete ::
  "answers \<Rightarrow> snapshot_request \<Rightarrow> (projection_error, pinned_checkpoint) result \<Rightarrow> 'm coordinator \<Rightarrow> 'm coordinator" where
  "request_complete an r result c =
     (case r of
        SnapCheckpoint t \<Rightarrow>
          complete t (case result of Err e \<Rightarrow> Err e | Ok p \<Rightarrow> Ok (ValCheckpoint p)) c
      | SnapTransfer t _ \<Rightarrow>
          if an_cancelled an t then c
          else (case result of
            Err e \<Rightarrow> complete t (Err e) c
          | Ok p \<Rightarrow>
              (case journal_open (co_journal c) of
                 Err e \<Rightarrow> complete t (Err e) c
               | Ok (observer, j) \<Rightarrow>
                   let d = tk_descriptor (pk_checkpoint p) in
                   if tb_processed (ob_start observer) \<noteq> cd_processed d
                      \<or> tb_control_generation (ob_start observer) \<noteq> cd_control_generation d
                   then complete t (Err JInvalidConfiguration) (c\<lparr>co_journal := journal_remove j (ob_id observer)\<rparr>)
                   else complete t (Ok (ValTransfer p observer)) (c\<lparr>co_journal := j\<rparr>))))"

text \<open>The extraction shared by a snapshot and a park: the answer must carry the descriptor
  it was asked for and fit its buffer.\<close>

definition extract_checkpoint ::
  "answers \<Rightarrow> 'm engine \<Rightarrow> 'm coordinator \<Rightarrow> (projection_error, terminal_checkpoint) result \<times> 'm coordinator" where
  "extract_checkpoint an eg c =
     (let descriptor = coord_descriptor c in
      case engine_call (eg_checkpoint eg descriptor) c of
        (Err e, c) \<Rightarrow> (Err e, c)
      | (Ok checkpoint, c) \<Rightarrow>
          (if tk_descriptor checkpoint \<noteq> descriptor then Err JInvalidConfiguration
           else if an_capacity an checkpoint > tc_checkpoint_bytes (ws_config (co_ws c)) then Err JCapacity
           else Ok checkpoint, c))"

definition coord_snapshot :: "answers \<Rightarrow> 'm engine \<Rightarrow> snapshot_request \<Rightarrow> 'm coordinator \<Rightarrow> 'm coordinator" where
  "coord_snapshot an eg request c =
     (if request_cancelled an request then c
      else
        let lease = tc_checkpoint_bytes (ws_config (co_ws c)) in
        case (if an_checkpoints an then extract_checkpoint an eg c else (Err JCapacity, c)) of
          (r, c) \<Rightarrow>
            if is_closed_residency (co_residency c) then request_fail request JClosed c
            else request_complete an request
              (case r of Err e \<Rightarrow> Err e | Ok k \<Rightarrow> Ok \<lparr>pk_checkpoint = k, pk_lease = lease\<rparr>) c)"

section \<open>Native operations\<close>

definition poll_reply :: "answers \<Rightarrow> reply \<Rightarrow> 'm coordinator \<Rightarrow> work_schedule option \<times> 'm coordinator" where
  "poll_reply an reply c =
     (case an_written an of
        Pending \<Rightarrow> (Some WorkDormant, c)
      | Ready outcome \<Rightarrow>
          (None,
           on_ws (\<lambda>w. w\<lparr>ws_reply := None\<rparr>)
             (if wo_error outcome \<noteq> None \<or> unat (wo_written outcome) \<noteq> length (ry_bytes reply)
              then coord_fail (JProcess (case wo_error outcome of Some e \<Rightarrow> e | None \<Rightarrow> PIo)) c
              else c)))"

definition drive_reply :: "answers \<Rightarrow> 'm coordinator \<Rightarrow> work_schedule option \<times> 'm coordinator" where
  "drive_reply an c =
     (case ws_reply (co_ws c) of
        None \<Rightarrow> (None, c)
      | Some reply \<Rightarrow>
          if ry_operation reply then poll_reply an reply c
          else if \<not> co_process c then (Some WorkDormant, c)
          else if \<not> an_input an then (Some (WorkAfter (from_millis 5)), c)
          else case an_write an of
            Err PCapacity \<Rightarrow> (Some (WorkAfter (from_millis 5)), c)
          | Err e \<Rightarrow> (Some WorkDormant, on_ws (\<lambda>w. w\<lparr>ws_reply := None\<rparr>) (coord_fail (JProcess e) c))
          | Ok _ \<Rightarrow> poll_reply an reply (on_ws (\<lambda>w. w\<lparr>ws_reply := Some (reply\<lparr>ry_operation := True\<rparr>)\<rparr>) c))"

text \<open>Applying an OS resize to the model.\<close>

definition resize_model ::
  "'m engine \<Rightarrow> resizing \<Rightarrow> (process_error, unit) result \<Rightarrow> 'm coordinator
    \<Rightarrow> (projection_error, unit) result \<times> 'm coordinator" where
  "resize_model eg rz os c =
     (case os of
        Err e \<Rightarrow> (Err (JProcess e), c)
      | Ok _ \<Rightarrow> engine_call (eg_resize eg (rz_size rz) (rz_generation rz)) c)"

definition settle_resize ::
  "answers \<Rightarrow> 'm engine \<Rightarrow> resizing \<Rightarrow> (process_error, unit) result \<Rightarrow> 'm coordinator \<Rightarrow> 'm coordinator" where
  "settle_resize an eg rz os c =
     (case resize_model eg rz os c of (model, c) \<Rightarrow>
        let c = (case model of
              Ok _ \<Rightarrow>
                let c = on_ws (\<lambda>w. w\<lparr>ws_config := (ws_config w)\<lparr>tc_size := rz_size rz\<rparr>\<rparr>) c in
                (case queue_record_control_applied (co_adm c) (rz_generation rz) of
                   Err e \<Rightarrow> coord_fail e c
                 | Ok a \<Rightarrow> c\<lparr>co_adm := a,
                     co_journal := snd (journal_resized (an_journal an) (co_journal c) (rz_size rz) (rz_generation rz))\<rparr>)
            | Err e \<Rightarrow> if is_ok os then coord_fail e c else c)
        in on_ws (\<lambda>w. w\<lparr>ws_resize := None\<rparr>)
             (complete (rz_ticket rz)
               (Ok (ValResize \<lparr>ro_generation = rz_generation rz, ro_os = os, ro_model = model\<rparr>)) c))"

definition drive_resize :: "answers \<Rightarrow> 'm engine \<Rightarrow> 'm coordinator \<Rightarrow> work_schedule option \<times> 'm coordinator" where
  "drive_resize an eg c =
     (case ws_resize (co_ws c) of
        None \<Rightarrow> (None, c)
      | Some rz \<Rightarrow>
          (case an_resized an of
             Pending \<Rightarrow> (Some WorkDormant, c)
           | Ready os \<Rightarrow> (None, settle_resize an eg rz os c)))"

definition poll_inflight_operations ::
  "answers \<Rightarrow> 'm engine \<Rightarrow> 'm coordinator \<Rightarrow> work_schedule option \<times> 'm coordinator" where
  "poll_inflight_operations an eg c =
     (if \<not> co_handle c then (None, c)
      else case drive_reply an c of
        (Some w, c) \<Rightarrow> (Some w, c)
      | (None, c) \<Rightarrow> drive_resize an eg c)"

definition closing_resize :: "answers \<Rightarrow> 'm coordinator \<Rightarrow> work_schedule option \<times> 'm coordinator" where
  "closing_resize an c =
     (case ws_resize (co_ws c) of
        None \<Rightarrow> (None, c)
      | Some rz \<Rightarrow>
          if \<not> co_handle c then (None, c)
          else case an_resized an of
            Pending \<Rightarrow> (Some WorkDormant, c)
          | Ready os \<Rightarrow>
              (None, on_ws (\<lambda>w. w\<lparr>ws_resize := None\<rparr>)
                 (complete (rz_ticket rz)
                    (Ok (ValResize \<lparr>ro_generation = rz_generation rz, ro_os = os, ro_model = Err JClosed\<rparr>)) c)))"

definition apply_resize ::
  "answers \<Rightarrow> terminal_size \<Rightarrow> ticket_id \<Rightarrow> staging_lease \<Rightarrow> 'm coordinator \<Rightarrow> work_schedule \<times> 'm coordinator" where
  "apply_resize an sz ticket staging c =
     (if \<not> co_process c then (WorkDormant, coord_requeue (CmdResize sz ticket staging) c)
      else case control_next (ps_control_generation (co_status c)) of
        None \<Rightarrow> (WorkDormant, coord_fail JCapacity (complete ticket (Err JCapacity) c))
      | Some generation \<Rightarrow>
          (WorkAfter 0,
           (case an_resize an of
              Ok _ \<Rightarrow> on_ws (\<lambda>w. w\<lparr>ws_resize := Some \<lparr>rz_size = sz, rz_generation = generation,
                        rz_ticket = ticket, rz_staging = staging\<rparr>\<rparr>) c
            | Err e \<Rightarrow> complete ticket
                (Ok (ValResize \<lparr>ro_generation = generation, ro_os = Err e, ro_model = Err (JProcess e)\<rparr>)) c)))"

definition extract_view :: "answers \<Rightarrow> 'm engine \<Rightarrow> 'm coordinator \<Rightarrow> (projection_error, projected_view) result \<times> 'm coordinator"
where
  "extract_view an eg c =
     (case view_reservation (eg_cell_size eg) ((cf_options (co_config c))\<lparr>po_terminal := ws_config (co_ws c)\<rparr>) of
        Err e \<Rightarrow> (Err e, c)
      | Ok cnt \<Rightarrow>
          if \<not> an_views an then (Err JCapacity, c)
          else case engine_call (eg_view eg) c of
            (Err e, c) \<Rightarrow> (Err e, c)
          | (Ok view, c) \<Rightarrow>
              (case engine_call (\<lambda>m. (eg_progress eg m, m)) c of
                 (Err e, c) \<Rightarrow> (Err e, c)
               | (Ok history, c) \<Rightarrow>
                   (Ok \<lparr>pv_view = view, pv_processed = ps_processed (co_status c),
                        pv_control_generation = ps_control_generation (co_status c),
                        pv_history = history, pv_lease = cnt\<rparr>, c)))"

definition apply_view :: "answers \<Rightarrow> 'm engine \<Rightarrow> ticket_id \<Rightarrow> 'm coordinator \<Rightarrow> 'm coordinator" where
  "apply_view an eg ticket c =
     (if an_cancelled an ticket then c
      else case extract_view an eg c of (r, c) \<Rightarrow>
        complete ticket
          (if is_closed_residency (co_residency c) then Err JClosed
           else case r of Err e \<Rightarrow> Err e | Ok v \<Rightarrow> Ok (ValView v)) c)"

definition apply_exit :: "'m coordinator \<Rightarrow> 'm coordinator" where
  "apply_exit c = (case apply_program_exit c of Ok c \<Rightarrow> c | Err e \<Rightarrow> coord_fail e c)"

fun apply_command :: "answers \<Rightarrow> 'm engine \<Rightarrow> command \<Rightarrow> 'm coordinator \<Rightarrow> work_schedule \<times> 'm coordinator" where
  "apply_command an eg (CmdOutput bs staging) c = apply_output an eg bs staging c"
| "apply_command an eg CmdProcessExited c = (WorkAfter 0, apply_exit c)"
| "apply_command an eg (CmdResize sz ticket staging) c = apply_resize an sz ticket staging c"
| "apply_command an eg (CmdView ticket _) c = (WorkAfter 0, apply_view an eg ticket c)"
| "apply_command an eg (CmdCheckpoint request _) c = (WorkAfter 0, coord_snapshot an eg request c)"

section \<open>Blocking input and output\<close>

definition RETRY_SOON :: duration where
  "RETRY_SOON = from_millis 5"

definition io_memory_of :: "'m coordinator \<Rightarrow> io_memory" where
  "io_memory_of c = (tc_checkpoint_bytes (ws_config (co_ws c)), cf_protected_bytes (co_config c))"

definition start_read :: "answers \<Rightarrow> command option \<Rightarrow> 'm coordinator \<Rightarrow> work_schedule \<times> 'm coordinator" where
  "start_read an transfer c =
     (if \<not> co_services c then (WorkFinished, c)
      else case ws_source (co_ws c) of
        None \<Rightarrow> (WorkDormant, coord_fail JWorker c)
      | Some source \<Rightarrow>
          if \<not> an_io_memory an then
            (WorkAfter RETRY_SOON, case transfer of None \<Rightarrow> c | Some cmd \<Rightarrow> fail_command JCapacity cmd c)
          else case transfer of
            Some (CmdCheckpoint request staging) \<Rightarrow>
              (case io_submit (an_pool an) (ws_io (co_ws c)) (request, io_memory_of c, staging)
                      (\<lambda>(request, memory, staging). PendTransfer request memory staging) of
                 (Ok _, io) \<Rightarrow> (WorkDormant, on_ws (\<lambda>w. w\<lparr>ws_io := io\<rparr>) c)
               | (Err ((request, _), e), io) \<Rightarrow>
                   (WorkAfter RETRY_SOON, request_fail request e (on_ws (\<lambda>w. w\<lparr>ws_io := io\<rparr>) c)))
          | _ \<Rightarrow>
              if \<not> an_resident an then (WorkAfter RETRY_SOON, c)
              else case io_submit (an_pool an) (ws_io (co_ws c))
                     (tc_native_bytes (ws_config (co_ws c)), io_memory_of c)
                     (\<lambda>(resident, memory). PendRestore resident memory) of
                (Ok _, io) \<Rightarrow>
                  (let c = on_ws (\<lambda>w. w\<lparr>ws_io := io\<rparr>) c in
                   (WorkDormant,
                    case queue_begin_restore (co_adm c) of Ok a \<Rightarrow> c\<lparr>co_adm := a\<rparr> | Err e \<Rightarrow> coord_fail e c))
              | (Err _, io) \<Rightarrow> (WorkAfter RETRY_SOON, on_ws (\<lambda>w. w\<lparr>ws_io := io\<rparr>) c))"

text \<open>The closure of \<open>start_park\<close>: memory, disk, then the checkpoint.\<close>

definition park_resources ::
  "answers \<Rightarrow> 'm engine \<Rightarrow> 'm coordinator
    \<Rightarrow> (projection_error, terminal_checkpoint \<times> io_memory \<times> disk_lease) result \<times> 'm coordinator" where
  "park_resources an eg c =
     (if \<not> an_io_memory an then (Err JCapacity, c)
      else case an_disk an of
        None \<Rightarrow> (Err JCapacity, c)
      | Some disk \<Rightarrow>
          (case extract_checkpoint an eg c of
             (Err e, c) \<Rightarrow> (Err e, c)
           | (Ok k, c) \<Rightarrow> (Ok (k, io_memory_of c, disk), c)))"

definition start_park :: "answers \<Rightarrow> 'm engine \<Rightarrow> 'm coordinator \<Rightarrow> work_schedule \<times> 'm coordinator" where
  "start_park an eg c =
     (if \<not> co_services c then (WorkFinished, c)
      else case queue_begin_park (co_adm c) (an_now an) of
        (ParkBusy, a) \<Rightarrow> (WorkAfter 0, c\<lparr>co_adm := a\<rparr>)
      | (ParkNotDue, a) \<Rightarrow> (WorkDormant, c\<lparr>co_adm := a\<rparr>)
      | (ParkReady attempt, a) \<Rightarrow>
          (let retry = po_retry_after (cf_options (co_config c)) in
           case park_resources an eg (c\<lparr>co_adm := a\<rparr>) of
             (Err e, c) \<Rightarrow> (WorkAfter retry, on_adm (\<lambda>a. queue_park_failed a e (an_now an)) c)
           | (Ok (checkpoint, memory, disk), c) \<Rightarrow>
               (case io_submit (an_pool an) (ws_io (co_ws c)) (attempt, disk, memory)
                       (\<lambda>(attempt, disk, memory). PendCommit attempt disk memory) of
                  (Ok _, io) \<Rightarrow> (WorkDormant, on_ws (\<lambda>w. w\<lparr>ws_io := io\<rparr>) c)
                | (Err (_, e), io) \<Rightarrow>
                    (WorkAfter retry,
                     on_adm (\<lambda>a. queue_park_failed a e (an_now an)) (on_ws (\<lambda>w. w\<lparr>ws_io := io\<rparr>) c)))))"

definition coord_retire :: "committed_source \<Rightarrow> 'm coordinator \<Rightarrow> 'm coordinator" where
  "coord_retire s c = on_ws (\<lambda>w. w\<lparr>ws_reaper := retire s (ws_reaper w)\<rparr>) c"

definition retire_source :: "'m coordinator \<Rightarrow> 'm coordinator" where
  "retire_source c =
     (case ws_source (co_ws c) of
        None \<Rightarrow> c
      | Some s \<Rightarrow> coord_retire s (on_ws (\<lambda>w. w\<lparr>ws_source := None\<rparr>) c))"

definition history_progress :: "restoration_progress \<Rightarrow> 'm coordinator \<Rightarrow> 'm coordinator" where
  "history_progress progress c =
     (case Admission_Queue.record_restoration_progress (co_adm c) progress of
        Err e \<Rightarrow> coord_fail e c
      | Ok a \<Rightarrow>
          let c = c\<lparr>co_adm := a\<rparr> in
          if is_finished progress then retire_source (on_ws (\<lambda>w. w\<lparr>ws_restore_memory := None\<rparr>) c) else c)"

definition finish_commit ::
  "answers \<Rightarrow> park_attempt \<Rightarrow> disk_lease \<Rightarrow> (projection_error, commit_outcome) result \<Rightarrow> 'm coordinator \<Rightarrow> 'm coordinator" where
  "finish_commit an attempt disk result c =
     (case (case result of Ok r \<Rightarrow> r | Err e \<Rightarrow> Uncertain e) of
        Published reference \<Rightarrow>
          (let source = \<lparr>cs_reference = reference,
                 cs_descriptor = \<lparr>cd_compatibility = cf_compatibility (co_config c),
                   cd_processed = pa_processed attempt, cd_control_generation = pa_control_generation attempt\<rparr>,
                 cs_disk = disk\<rparr>
           in case queue_commit_park (co_adm c) attempt of (release, a) \<Rightarrow>
             let c = c\<lparr>co_adm := a\<rparr> in
             if release
             then on_ws (\<lambda>w. w\<lparr>ws_terminal := None, ws_resident := None, ws_source := Some source\<rparr>) c
             else coord_retire source c)
      | Uncertain e \<Rightarrow>
          on_adm (\<lambda>a. park_outcome_uncertain a e (an_now an))
            (c\<lparr>co_ledger := co_ledger c @ [from_uncertain_park (cf_compatibility (co_config c)) attempt disk]\<rparr>)
      | Rejected e \<Rightarrow> on_adm (\<lambda>a. queue_park_failed a e (an_now an)) c)"

definition finish_restore ::
  "'m engine \<Rightarrow> usize \<Rightarrow> io_memory \<Rightarrow> (projection_error, terminal_checkpoint) result \<Rightarrow> 'm coordinator \<Rightarrow> 'm coordinator" where
  "finish_restore eg resident memory result c =
     (case (case result of
              Err e \<Rightarrow> (Err e, c)
            | Ok checkpoint \<Rightarrow> native_call (eg_restore eg checkpoint (ws_config (co_ws c))) c) of
        (Err e, c) \<Rightarrow> coord_fail e c
      | (Ok m, c) \<Rightarrow>
          (case native_call (eg_progress eg m) c of
             (Err _, c) \<Rightarrow> c
           | (Ok progress, c) \<Rightarrow>
               history_progress progress
                 (on_ws (\<lambda>w. w\<lparr>ws_terminal := Some m, ws_resident := Some resident,
                              ws_restore_memory := Some (fst memory), ws_history_step_owed := False\<rparr>) c)))"

definition finish_io :: "answers \<Rightarrow> 'm engine \<Rightarrow> 'm coordinator \<Rightarrow> 'm coordinator" where
  "finish_io an eg c =
     (if \<not> co_services c then c
      else case take_finished (ws_io (co_ws c)) of (finished, io) \<Rightarrow>
        let c = on_ws (\<lambda>w. w\<lparr>ws_io := io\<rparr>) c; closing = is_closed_residency (co_residency c) in
        case finished of
          None \<Rightarrow> c
        | Some (FinCommit attempt disk _ result) \<Rightarrow> finish_commit an attempt disk result c
        | Some (FinRestore resident memory result) \<Rightarrow>
            if closing then c else finish_restore eg resident memory result c
        | Some (FinTransfer request memory _ result) \<Rightarrow>
            request_complete an request
              (if closing then Err JClosed
               else case result of Err e \<Rightarrow> Err e | Ok k \<Rightarrow> Ok \<lparr>pk_checkpoint = k, pk_lease = fst memory\<rparr>) c
        | Some (FinDelete attempt result) \<Rightarrow>
            (case finish_delete attempt result (ws_reaper (co_ws c)) of (failure, r) \<Rightarrow>
               let c = on_ws (\<lambda>w. w\<lparr>ws_reaper := r\<rparr>) c in
               case failure of None \<Rightarrow> c | Some e \<Rightarrow> on_adm (\<lambda>a. queue_maintenance_failed a e) c))"

section \<open>The worker\<close>

definition OUTPUT_BATCH :: nat where
  "OUTPUT_BATCH = 32"

definition OUTPUT_BATCH_BYTES :: nat where
  "OUTPUT_BATCH_BYTES = 256 * 1024"

definition start_delete :: "answers \<Rightarrow> 'm coordinator \<Rightarrow> work_schedule \<times> 'm coordinator" where
  "start_delete an c =
     (case reaper_start_delete (an_pool an) (ws_io (co_ws c)) (ws_reaper (co_ws c)) of (w, io, r) \<Rightarrow>
        (w, on_ws (\<lambda>x. x\<lparr>ws_io := io, ws_reaper := r\<rparr>) c))"

definition work_while_failed :: "answers \<Rightarrow> 'm coordinator \<Rightarrow> work_schedule \<times> 'm coordinator" where
  "work_while_failed an c =
     (if \<not> io_busy (ws_io (co_ws c)) \<and> holds_sources (ws_reaper (co_ws c)) then start_delete an c
      else (WorkDormant, c))"

definition read_back_source :: "answers \<Rightarrow> 'm coordinator \<Rightarrow> work_schedule \<times> 'm coordinator" where
  "read_back_source an c =
     (if io_busy (ws_io (co_ws c)) then (WorkDormant, c)
      else case take_checkpoint_if_any_work (co_adm c) of
        (None, a) \<Rightarrow> (WorkDormant, c\<lparr>co_adm := a\<rparr>)
      | (Some transfer, a) \<Rightarrow> start_read an transfer (c\<lparr>co_adm := a\<rparr>))"

fun admitted_while_restoring :: "'m engine \<Rightarrow> command \<Rightarrow> bool" where
  "admitted_while_restoring eg (CmdView _ _) = True"
| "admitted_while_restoring eg (CmdOutput _ _) = eg_mutation_during_restore eg"
| "admitted_while_restoring eg (CmdResize _ _ _) = eg_mutation_during_restore eg"
| "admitted_while_restoring eg _ = False"

definition restore_step :: "answers \<Rightarrow> 'm engine \<Rightarrow> 'm coordinator \<Rightarrow> work_schedule \<times> 'm coordinator" where
  "restore_step an eg c =
     (case (if ws_history_step_owed (co_ws c) then (None, co_adm c)
            else take_next_if (admitted_while_restoring eg) (co_adm c)) of
        (Some cmd, a) \<Rightarrow>
          apply_command an eg cmd (on_ws (\<lambda>w. w\<lparr>ws_history_step_owed := True\<rparr>) (c\<lparr>co_adm := a\<rparr>))
      | (None, a) \<Rightarrow>
          (let c = c\<lparr>co_adm := a\<rparr> in
           if ws_terminal (co_ws c) = None then (WorkDormant, c)
           else case engine_call (eg_history_step eg) c of (r, c) \<Rightarrow>
             let c = on_ws (\<lambda>w. w\<lparr>ws_history_step_owed := False\<rparr>) c in
             (WorkAfter 0,
              case r of Ok progress \<Rightarrow> history_progress progress c | Err e \<Rightarrow> coord_fail e c)))"

text \<open>The batch loop: \<open>n\<close> chunks may still be applied, \<open>k\<close> of them have been, \<open>batched\<close> bytes in
  all.\<close>

fun serve_batch ::
  "(nat \<Rightarrow> answers) \<Rightarrow> 'm engine \<Rightarrow> nat \<Rightarrow> nat \<Rightarrow> nat \<Rightarrow> work_schedule \<Rightarrow> 'm coordinator
    \<Rightarrow> work_schedule \<times> 'm coordinator" where
  "serve_batch ans eg 0 k batched w c = (w, c)"
| "serve_batch ans eg (Suc n) k batched w c =
     (if batched < OUTPUT_BATCH_BYTES \<and> w = WorkAfter 0 \<and> ws_reply (co_ws c) = None \<and> ws_resize (co_ws c) = None
      then case take_next_output_while_serving (co_adm c) of
          (None, a) \<Rightarrow> (w, c\<lparr>co_adm := a\<rparr>)
        | (Some cmd, a) \<Rightarrow>
            (case apply_command (ans k) eg cmd (c\<lparr>co_adm := a\<rparr>) of (w, c) \<Rightarrow>
               serve_batch ans eg n (Suc k) (batched + length (command_bytes cmd)) w c)
      else (w, c))"

definition serve :: "(nat \<Rightarrow> answers) \<Rightarrow> 'm engine \<Rightarrow> 'm coordinator \<Rightarrow> work_schedule \<times> 'm coordinator" where
  "serve ans eg c =
     (case (if \<not> io_busy (ws_io (co_ws c)) \<and> holds_sources (ws_reaper (co_ws c))
            then (case start_delete (ans 0) c of (w, c) \<Rightarrow> (Some w, c)) else (None, c)) of
        (maintenance, c) \<Rightarrow>
          (case take_next (co_adm c) of
             (Some cmd, a) \<Rightarrow>
               (case apply_command (ans 0) eg cmd (c\<lparr>co_adm := a\<rparr>) of (w, c) \<Rightarrow>
                  if is_output cmd then serve_batch ans eg (OUTPUT_BATCH - 1) 1 (length (command_bytes cmd)) w c
                  else (w, c))
           | (None, a) \<Rightarrow>
               (let c = c\<lparr>co_adm := a\<rparr> in
                case maintenance of
                  Some w \<Rightarrow> (w, c)
                | None \<Rightarrow>
                    if io_busy (ws_io (co_ws c)) then (WorkDormant, c)
                    else if holds_sources (ws_reaper (co_ws c)) then start_delete (ans 0) c
                    else case queue_park_delay (co_adm c) (an_now (ans 0)) of
                      Some delay \<Rightarrow> if delay = 0 then start_park (ans 0) eg c else (WorkAfter delay, c)
                    | None \<Rightarrow> (WorkDormant, c))))"

definition seal_journal_if_drained :: "'m coordinator \<Rightarrow> 'm coordinator" where
  "seal_journal_if_drained c =
     (let engine_idle = (ws_resize (co_ws c) = None \<and> ws_reply (co_ws c) = None) in
      case settled_drain (co_adm c) engine_idle of
        None \<Rightarrow> c
      | Some drain \<Rightarrow>
          (case finish_program_drain c of
             Err e \<Rightarrow> coord_fail e c
           | Ok c \<Rightarrow> c\<lparr>co_journal := snd (journal_end (co_journal c) (Some drain) None)\<rparr>))"

text \<open>The end of cleanup: waiters are answered and every collaborator is released.\<close>

definition complete_all ::
  "ticket_id list \<Rightarrow> (projection_error, ticket_value) result \<Rightarrow> 'm coordinator \<Rightarrow> 'm coordinator" where
  "complete_all ts r c = foldl (\<lambda>c t. complete t r c) c ts"

definition close_result :: "projection_error option \<Rightarrow> (projection_error, ticket_value) result" where
  "close_result failed = (case failed of None \<Rightarrow> Ok ValClosed | Some e \<Rightarrow> Err e)"

definition cleanup_finish :: "projection_error option \<Rightarrow> 'm coordinator \<Rightarrow> work_schedule \<times> 'm coordinator" where
  "cleanup_finish failed c =
     (case finish_close (co_adm c) failed of (waiters, failed, a) \<Rightarrow>
        (WorkFinished,
         (complete_all waiters (close_result failed) (c\<lparr>co_adm := a, co_process := False\<rparr>))
           \<lparr>co_services := False, co_handle := False\<rparr>))"

definition cleanup :: "answers \<Rightarrow> 'm coordinator \<Rightarrow> work_schedule \<times> 'm coordinator" where
  "cleanup an c =
     (let c = on_ws (\<lambda>w. w\<lparr>ws_terminal := None, ws_resident := None, ws_restore_memory := None, ws_reply := None\<rparr>)
                (clear_program_status c) in
      case closing_resize an c of
        (Some w, c) \<Rightarrow> (w, c)
      | (None, c) \<Rightarrow>
          if io_busy (ws_io (co_ws c)) then (WorkDormant, c)
          else
            let c = retire_source c in
            case take_cleanup_retry (co_adm c) of (failed, retry, a) \<Rightarrow>
              let c = c\<lparr>co_adm := a\<rparr>;
                  c = (if retry then on_ws (\<lambda>w. w\<lparr>ws_reaper := restore_attempts (ws_reaper w)\<rparr>) c else c)
              in if holds_sources (ws_reaper (co_ws c)) then
                   (if failed \<noteq> None then
                      (case surrender (ws_reaper (co_ws c)) of (us, r) \<Rightarrow>
                         cleanup_finish failed
                           (on_ws (\<lambda>w. w\<lparr>ws_reaper := r\<rparr>) (c\<lparr>co_ledger := co_ledger c @ us\<rparr>)))
                    else start_delete an c)
                 else cleanup_finish failed c)"

definition consume_exit :: "'m coordinator \<Rightarrow> 'm coordinator" where
  "consume_exit c =
     (case take_next_if (\<lambda>cmd. cmd = CmdProcessExited) (co_adm c) of
        (None, a) \<Rightarrow> c\<lparr>co_adm := a\<rparr>
      | (Some _, a) \<Rightarrow> apply_exit (c\<lparr>co_adm := a\<rparr>))"

text \<open>\<open>run\<close> from the point where the phase is decided by the residency observed before polling.\<close>

definition run_phase ::
  "(nat \<Rightarrow> answers) \<Rightarrow> 'm engine \<Rightarrow> residency \<Rightarrow> 'm coordinator \<Rightarrow> work_schedule \<times> 'm coordinator" where
  "run_phase ans eg residency c =
     (if ws_terminal (co_ws c) = None then read_back_source (ans 0) c
      else if residency = Usable then restore_step (ans 0) eg c
      else serve ans eg c)"

definition coord_run :: "(nat \<Rightarrow> answers) \<Rightarrow> 'm engine \<Rightarrow> 'm coordinator \<Rightarrow> work_schedule \<times> 'm coordinator" where
  "coord_run ans eg c =
     (if \<not> co_services c then (WorkFinished, c)
      else
        let c = finish_io (ans 0) eg c; residency = co_residency c in
        if is_closed_residency residency then cleanup (ans 0) c
        else if residency = Failed then work_while_failed (ans 0) c
        else case poll_inflight_operations (ans 0) eg c of
          (Some w, c) \<Rightarrow> (w, c)
        | (None, c) \<Rightarrow>
            if ps_failure (co_status c) \<noteq> None then work_while_failed (ans 0) c
            else run_phase ans eg residency (seal_journal_if_drained (consume_exit c)))"

definition discard_operations :: "'m coordinator \<Rightarrow> 'm coordinator" where
  "discard_operations c =
     (let c = on_ws (\<lambda>w. w\<lparr>ws_reply := None\<rparr>) c in
      case ws_resize (co_ws c) of
        None \<Rightarrow> c
      | Some rz \<Rightarrow> complete (rz_ticket rz) (Err JWorker) (on_ws (\<lambda>w. w\<lparr>ws_resize := None\<rparr>) c))"

text \<open>\<open>failed\<close>: what the scheduler calls after a run panicked.\<close>

definition coord_failed :: "'m coordinator \<Rightarrow> work_schedule \<times> 'm coordinator" where
  "coord_failed c =
     (let c = discard_operations (coord_fail JWorker c) in
      (if co_residency c = Closing then WorkAfter 0
       else if co_residency c = Closed then WorkFinished else WorkDormant, c))"

section \<open>Teardown\<close>

definition abandon_pending :: "pending_io \<Rightarrow> 'm coordinator \<Rightarrow> 'm coordinator" where
  "abandon_pending p c =
     (case p of
        PendCommit attempt disk _ _ \<Rightarrow>
          c\<lparr>co_ledger := co_ledger c @ [from_uncertain_park (cf_compatibility (co_config c)) attempt disk]\<rparr>
      | PendDelete attempt _ \<Rightarrow> c\<lparr>co_ledger := co_ledger c @ [unreclaimed_from (da_source attempt)]\<rparr>
      | PendTransfer request _ _ _ \<Rightarrow> request_fail request JWorker c
      | PendRestore _ _ _ \<Rightarrow> c)"

text \<open>The second half of the teardown: what is still in flight, the stored source and the
  retired ones go to the host's ledger, and the workspace and its waiters are released.\<close>

definition release_after_shutdown :: "'m coordinator \<Rightarrow> 'm coordinator" where
  "release_after_shutdown c =
     (case io_abandon (ws_io (co_ws c)) of (p, io) \<Rightarrow>
        let c = on_ws (\<lambda>w. w\<lparr>ws_io := io\<rparr>) c;
            c = (case p of None \<Rightarrow> c | Some p \<Rightarrow> abandon_pending p c);
            c = retire_source c in
        case surrender (ws_reaper (co_ws c)) of (us, r) \<Rightarrow>
          let c = on_ws (\<lambda>w. w\<lparr>ws_reaper := r\<rparr>) (c\<lparr>co_ledger := co_ledger c @ us\<rparr>);
              c = discard_operations c;
              c = on_ws (\<lambda>w. w\<lparr>ws_terminal := None, ws_resident := None, ws_restore_memory := None\<rparr>) c in
          case abandon_waiters (co_adm c) of (waiters, a) \<Rightarrow>
            (complete_all waiters (Err JWorker) (c\<lparr>co_adm := a\<rparr>))
              \<lparr>co_process := False, co_services := False, co_handle := False\<rparr>)"

definition finish_after_shutdown :: "answers \<Rightarrow> 'm engine \<Rightarrow> 'm coordinator \<Rightarrow> 'm coordinator" where
  "finish_after_shutdown an eg c =
     (if co_residency c = Closed then c
      else
        let c = clear_program_status c;
            c = c\<lparr>co_journal := snd (journal_close (co_journal c))\<rparr> in
        case abandon_close (co_adm c) of (rejected, a) \<Rightarrow>
          release_after_shutdown (finish_io an eg (fail_commands JWorker rejected (c\<lparr>co_adm := a\<rparr>))))"

section \<open>Admission\<close>

text \<open>What the environment answers to a caller: quota grants, the allocator, the scheduler's
  wake, the clock, and the identity of the fresh ticket.\<close>

record caller =
  cl_slot :: bool
  cl_bytes :: bool
  cl_request :: bool
  cl_observer :: bool
  cl_alloc :: bool
  cl_wake :: bool
  cl_now :: duration
  cl_ticket :: ticket_id

definition coord_wake :: "caller \<Rightarrow> 'm coordinator \<Rightarrow> (projection_error, unit) result" where
  "coord_wake cl c = (if co_handle c \<and> cl_wake cl then Ok () else Err JWorker)"

definition reserve_staging :: "caller \<Rightarrow> usize \<Rightarrow> 'm coordinator \<Rightarrow> (projection_error, staging_lease) result" where
  "reserve_staging cl n c =
     (if n \<noteq> 0 \<and> \<not> (cl_slot cl \<and> cl_bytes cl) then Err JCapacity
      else if \<not> co_services c then Err JClosed
      else Ok \<lparr>sl_bytes = (if n = 0 then None else Some n), sl_slots = (if n = 0 then None else Some 1)\<rparr>)"

definition reserve_request_slot :: "caller \<Rightarrow> (projection_error, ticket_id) result" where
  "reserve_request_slot cl = (if cl_request cl then Ok (cl_ticket cl) else Err JCapacity)"

definition wake_or_fail :: "caller \<Rightarrow> 'm coordinator \<Rightarrow> 'm coordinator" where
  "wake_or_fail cl c = (case coord_wake cl c of Ok _ \<Rightarrow> c | Err e \<Rightarrow> coord_fail e c)"

definition stage_output :: "caller \<Rightarrow> bytes \<Rightarrow> 'm coordinator \<Rightarrow> output_acceptance \<times> 'm coordinator" where
  "stage_output cl bs c =
     (if \<not> co_services c then (OutClosed, c)
      else
        let feed = tc_feed_bytes (po_terminal (cf_options (co_config c)));
            lease = (case reserve_staging cl (len_u64 bs) c of Ok l \<Rightarrow> Some l | Err _ \<Rightarrow> None) in
        case queue_admit_output (stage_accept feed bs lease (cl_alloc cl) (cl_now cl)) (co_adm c) of
          (OutRejected r, a) \<Rightarrow> (r, c\<lparr>co_adm := a\<rparr>)
        | (OutTaken, a) \<Rightarrow> (OutAccepted, c\<lparr>co_adm := a\<rparr>)
        | (OutQueued, a) \<Rightarrow> (OutAccepted, wake_or_fail cl (c\<lparr>co_adm := a\<rparr>)))"

definition coord_admit ::
  "caller \<Rightarrow> (admission \<Rightarrow> (projection_error, command \<times> admission) result) \<Rightarrow> 'm coordinator
    \<Rightarrow> (projection_error, unit) result \<times> 'm coordinator" where
  "coord_admit cl build c =
     (case queue_admit build (co_adm c) of
        Err e \<Rightarrow> (Err e, c)
      | Ok a \<Rightarrow> (Ok (), wake_or_fail cl (c\<lparr>co_adm := a\<rparr>)))"

text \<open>The four controls; \<open>Ok t\<close> is the wait on ticket \<open>t\<close>.\<close>

definition admit_control ::
  "caller \<Rightarrow> (ticket_id \<Rightarrow> staging_lease \<Rightarrow> admission \<Rightarrow> (projection_error, command \<times> admission) result)
    \<Rightarrow> 'm coordinator \<Rightarrow> (projection_error, ticket_id) result \<times> 'm coordinator" where
  "admit_control cl build c =
     (case bind_result (reserve_request_slot cl) (\<lambda>t.
             bind_result (reserve_staging cl 0 c) (\<lambda>lease. Ok (t, lease))) of
        Err e \<Rightarrow> (Err e, c)
      | Ok (t, lease) \<Rightarrow>
          (case coord_admit cl (build t lease) c of (Ok _, c) \<Rightarrow> (Ok t, c) | (Err e, c) \<Rightarrow> (Err e, c)))"

definition coord_resize ::
  "caller \<Rightarrow> terminal_size \<Rightarrow> 'm coordinator \<Rightarrow> (projection_error, ticket_id) result \<times> 'm coordinator" where
  "coord_resize cl sz c =
     (if \<not> co_services c then (Err JClosed, c)
      else admit_control cl (\<lambda>t lease. resize_build sz t lease (cl_now cl)) c)"

definition coord_view :: "caller \<Rightarrow> 'm coordinator \<Rightarrow> (projection_error, ticket_id) result \<times> 'm coordinator" where
  "coord_view cl c = admit_control cl view_build c"

definition coord_checkpoint :: "caller \<Rightarrow> 'm coordinator \<Rightarrow> (projection_error, ticket_id) result \<times> 'm coordinator" where
  "coord_checkpoint cl c = admit_control cl (\<lambda>t. checkpoint_build (SnapCheckpoint t)) c"

definition begin_transfer :: "caller \<Rightarrow> 'm coordinator \<Rightarrow> (projection_error, ticket_id) result \<times> 'm coordinator" where
  "begin_transfer cl c =
     (if \<not> cl_observer cl then (Err JCapacity, c)
      else admit_control cl (\<lambda>t. checkpoint_build (SnapTransfer t 1)) c)"

definition coord_close :: "caller \<Rightarrow> 'm coordinator \<Rightarrow> (projection_error, ticket_id) result \<times> 'm coordinator" where
  "coord_close cl c =
     (let pair = reserve_request_slot cl;
          waiter = (case pair of Ok t \<Rightarrow> Some t | Err _ \<Rightarrow> None) in
      case request_close (co_adm c) waiter of
        (AlreadyClosed outcome, a) \<Rightarrow>
          (pair,
           case waiter of
             None \<Rightarrow> c\<lparr>co_adm := a\<rparr>
           | Some t \<Rightarrow> complete t (case outcome of Ok _ \<Rightarrow> Ok ValClosed | Err e \<Rightarrow> Err e) (c\<lparr>co_adm := a\<rparr>))
      | (CloseStarted rejected, a) \<Rightarrow>
          (let c = fail_commands JClosed rejected
                     (c\<lparr>co_adm := a, co_journal := snd (journal_close (co_journal c))\<rparr>) in
           case coord_wake cl c of
             Err e \<Rightarrow> (if close_outcome (co_adm c) = None then Err e else pair, c)
           | Ok _ \<Rightarrow> (pair, c)))"

definition notify_process_exited :: "caller \<Rightarrow> 'm coordinator \<Rightarrow> 'm coordinator" where
  "notify_process_exited cl c =
     (case record_process_exit (co_adm c) of (queued, a) \<Rightarrow>
        let c = c\<lparr>co_adm := a\<rparr> in if queued then wake_or_fail cl c else c)"

definition notify_output_drained :: "caller \<Rightarrow> drain_outcome \<Rightarrow> 'm coordinator \<Rightarrow> 'm coordinator" where
  "notify_output_drained cl outcome c =
     (case queue_record_drain (co_adm c) outcome of (failure, a) \<Rightarrow>
        let c = c\<lparr>co_adm := a\<rparr>;
            c = (case failure of None \<Rightarrow> c
                 | Some e \<Rightarrow> c\<lparr>co_journal := snd (journal_end (co_journal c) (Some outcome) (Some e))\<rparr>)
        in if coord_wake cl c = Err JWorker \<and> co_residency c \<noteq> Closed then coord_fail JWorker c else c)"

definition coord_bind_process :: "caller \<Rightarrow> 'm coordinator \<Rightarrow> (projection_error, unit) result \<times> 'm coordinator" where
  "coord_bind_process cl c =
     (if is_closed_residency (co_residency c) then (Err JClosed, c)
      else if co_process c then (Err JInvalidConfiguration, c)
      else let c = c\<lparr>co_process := True\<rparr> in (coord_wake cl c, wake_or_fail cl c))"

section \<open>Creation\<close>

text \<open>What the environment answers while a coordinator is created.  A panicking protector is
  \<open>None\<close>.\<close>

record 'm creation =
  mk_protected :: "(checkpoint_error, usize) result option"
  mk_checkpoints :: bool
  mk_resident :: bool
  mk_compatibility :: "(terminal_error, compatibility_id) result"
  mk_terminal :: "'m native"
  mk_queue :: bool
  mk_now :: duration
  mk_identity :: nat
  mk_register :: bool
  mk_wake :: bool

definition queue_slots :: "projection_options \<Rightarrow> (projection_error, usize) result" where
  "queue_slots opt =
     ok_or (Option.bind (checked_add (po_staging_slots opt) (po_request_slots opt)) (\<lambda>slots. checked_add slots 1))
       JInvalidConfiguration"

definition caught :: "'a native \<Rightarrow> (projection_error, 'a) result" where
  "caught r = (case r of NOk x \<Rightarrow> Ok x | NErr e \<Rightarrow> Err (JTerminal e) | NPanic \<Rightarrow> Err JWorker)"

definition coordinator_new ::
  "session_lifetime \<Rightarrow> projection_options \<Rightarrow> projection_limits \<Rightarrow> compatibility_id \<Rightarrow> usize \<Rightarrow> projection_policy
    \<Rightarrow> program_state \<Rightarrow> 'm \<Rightarrow> 'm coordinator" where
  "coordinator_new l opt limits compatibility protected_bytes policy program m =
     \<lparr>co_adm = admission_new policy,
      co_ws = \<lparr>ws_config = po_terminal opt, ws_history_step_owed = False, ws_terminal = Some m,
               ws_resident = Some (tc_native_bytes (po_terminal opt)), ws_source = None, ws_restore_memory = None,
               ws_io = None, ws_reply = None, ws_resize = None, ws_reaper = reaper_new (po_max_delete_attempts opt)\<rparr>,
      co_journal = journal_new l, co_program = program,
      co_config = \<lparr>cf_options = opt, cf_compatibility = compatibility, cf_protected_bytes = protected_bytes,
                   cf_view_limit = jl_view_bytes limits\<rparr>,
      co_services = True, co_handle = True, co_process = False, co_ledger = [], co_done = [], co_fed = \<lparr>fl_calls = [], fl_recorded = []\<rparr>\<rparr>"

definition coord_create ::
  "'m engine \<Rightarrow> 'm creation \<Rightarrow> session_lifetime \<Rightarrow> projection_options \<Rightarrow> projection_limits
    \<Rightarrow> (projection_error, 'm coordinator) result" where
  "coord_create eg mk l opt limits =
     bind_result (projection_options_validate (eg_cell_size eg) opt) (\<lambda>opt.
     bind_result (queue_slots opt) (\<lambda>_.
     bind_result (case mk_protected mk of None \<Rightarrow> Err JWorker | Some r \<Rightarrow> map_err JStorage r) (\<lambda>protected_bytes.
     bind_result (ok_or (checked_add protected_bytes (tc_checkpoint_bytes (po_terminal opt))) JInvalidConfiguration) (\<lambda>peak.
     bind_result (view_reservation (eg_cell_size eg) opt) (\<lambda>view.
       if protected_bytes = 0 \<or> protected_bytes > isize_max_word
          \<or> jl_checkpoint_bytes limits < peak \<or> jl_stored_bytes limits < protected_bytes
          \<or> jl_staging_bytes limits < tc_feed_bytes (po_terminal opt)
          \<or> jl_view_bytes limits < max view (tc_reply_bytes (po_terminal opt))
       then Err JInvalidConfiguration
       else if \<not> mk_checkpoints mk then Err JInvalidConfiguration
       else if \<not> mk_resident mk then Err JCapacity
       else bind_result (map_err JTerminal (mk_compatibility mk)) (\<lambda>compatibility.
         bind_result (caught (mk_terminal mk)) (\<lambda>m.
           if \<not> mk_queue mk then Err JCapacity
           else bind_result (policy_new (eg_cell_size eg) l opt (mk_now mk)) (\<lambda>policy.
             bind_result (program_state_new (mk_identity mk) (unat (po_program_status_records opt))) (\<lambda>program.
               if \<not> mk_register mk \<or> \<not> mk_wake mk then Err JWorker
               else Ok (coordinator_new l opt limits compatibility protected_bytes policy program m))))))))))"

end
