(* ===== verification/Coordinator_Refinement.thy ===== *)
theory Coordinator_Refinement
  imports Coordinator
begin

text \<open>
  Every operation of the coordinator is, on the admission state, a sequence of operations of
  the admission queue with at most one command in the worker's hand: the coordinator refines
  the interleavings \<open>queue_step\<close> of theory \<open>Admission_Queue\<close>.  The bytes it has fed to the
  model are the bytes that interleaving counts as processed, so the queue's ledger theorem
  holds of the whole coordinator.
\<close>

section \<open>The view of the queue\<close>

definition queue_view :: "bytes \<Rightarrow> command option \<Rightarrow> 'm coordinator \<Rightarrow> queue_sys" where
  "queue_view A h c = \<lparr>aq_adm = co_adm c, aq_hand = h, aq_accepted = A, aq_processed = concat (fl_recorded (co_fed c))\<rparr>"

text \<open>\<open>fsteps\<close> is the refinement; \<open>qsteps\<close> says besides that the engine was not fed.\<close>

definition fsteps :: "bytes \<Rightarrow> command option \<Rightarrow> 'm coordinator \<Rightarrow> command option \<Rightarrow> 'm coordinator \<Rightarrow> bool" where
  "fsteps A h c h' c' \<longleftrightarrow> queue_steps (queue_view A h c) (queue_view A h' c')"

definition qsteps :: "bytes \<Rightarrow> command option \<Rightarrow> 'm coordinator \<Rightarrow> command option \<Rightarrow> 'm coordinator \<Rightarrow> bool" where
  "qsteps A h c h' c' \<longleftrightarrow> queue_steps (queue_view A h c) (queue_view A h' c') \<and> co_fed c' = co_fed c"

named_theorems qstep "what each operation does to the admission queue"

lemma qsteps_trans [trans]: "qsteps A h c h' c' \<Longrightarrow> qsteps A h' c' h'' c'' \<Longrightarrow> qsteps A h c h'' c''"
  unfolding qsteps_def by (auto intro: rtranclp_trans)

lemma fsteps_trans [trans]: "fsteps A h c h' c' \<Longrightarrow> fsteps A h' c' h'' c'' \<Longrightarrow> fsteps A h c h'' c''"
  unfolding fsteps_def by (rule rtranclp_trans)

lemma qsteps_fsteps: "qsteps A h c h' c' \<Longrightarrow> fsteps A h c h' c'"
  by (simp add: qsteps_def fsteps_def)

lemma qsteps_fed: "qsteps A h c h' c' \<Longrightarrow> co_fed c' = co_fed c"
  by (simp add: qsteps_def)

lemma qsteps_same: "co_adm c' = co_adm c \<Longrightarrow> co_fed c' = co_fed c \<Longrightarrow> qsteps A h c h c'"
  by (simp add: qsteps_def queue_view_def)

lemma queue_view_simps [simp]:
  "aq_adm (queue_view A h c) = co_adm c" "aq_hand (queue_view A h c) = h"
  "aq_accepted (queue_view A h c) = A" "aq_processed (queue_view A h c) = concat (fl_recorded (co_fed c))"
  by (simp_all add: queue_view_def)

lemma queue_view_upd:
  "(queue_view A h c)\<lparr>aq_adm := a\<rparr> = queue_view A h (c\<lparr>co_adm := a\<rparr>)"
  "(queue_view A h c)\<lparr>aq_adm := a, aq_hand := h'\<rparr> = queue_view A h' (c\<lparr>co_adm := a\<rparr>)"
  by (simp_all add: queue_view_def)

text \<open>One step that only changes the admission state.\<close>

lemma qsteps_adm:
  assumes "queue_step (queue_view A h c) ((queue_view A h c)\<lparr>aq_adm := a\<rparr>)" "co_adm c' = a" "co_fed c' = co_fed c"
  shows "qsteps A h c h c'"
  using assms by (auto simp: qsteps_def queue_view_def)

section \<open>What an operation leaves alone\<close>

lemma complete_simps [simp]:
  "co_adm (complete t r c) = co_adm c" "co_fed (complete t r c) = co_fed c" "co_ws (complete t r c) = co_ws c"
  "co_journal (complete t r c) = co_journal c" "co_config (complete t r c) = co_config c"
  "co_services (complete t r c) = co_services c" "co_handle (complete t r c) = co_handle c"
  "co_process (complete t r c) = co_process c" "co_ledger (complete t r c) = co_ledger c"
  "co_program (complete t r c) = co_program c"
  by (simp_all add: complete_def)

lemma fail_command_simps [simp]:
  "co_adm (fail_command e cmd c) = co_adm c" "co_fed (fail_command e cmd c) = co_fed c"
  "co_ws (fail_command e cmd c) = co_ws c" "co_journal (fail_command e cmd c) = co_journal c"
  "co_config (fail_command e cmd c) = co_config c" "co_services (fail_command e cmd c) = co_services c"
  "co_handle (fail_command e cmd c) = co_handle c" "co_process (fail_command e cmd c) = co_process c"
  "co_ledger (fail_command e cmd c) = co_ledger c" "co_program (fail_command e cmd c) = co_program c"
  by (simp_all add: fail_command_def split: option.splits)

lemma fail_commands_simps [simp]:
  "co_adm (fail_commands e cmds c) = co_adm c" "co_fed (fail_commands e cmds c) = co_fed c"
  "co_ws (fail_commands e cmds c) = co_ws c" "co_journal (fail_commands e cmds c) = co_journal c"
  "co_config (fail_commands e cmds c) = co_config c" "co_services (fail_commands e cmds c) = co_services c"
  "co_handle (fail_commands e cmds c) = co_handle c" "co_process (fail_commands e cmds c) = co_process c"
  "co_ledger (fail_commands e cmds c) = co_ledger c" "co_program (fail_commands e cmds c) = co_program c"
proof -
  have "co_adm (fail_commands e cmds c) = co_adm c \<and> co_fed (fail_commands e cmds c) = co_fed c
      \<and> co_ws (fail_commands e cmds c) = co_ws c \<and> co_journal (fail_commands e cmds c) = co_journal c
      \<and> co_config (fail_commands e cmds c) = co_config c \<and> co_services (fail_commands e cmds c) = co_services c
      \<and> co_handle (fail_commands e cmds c) = co_handle c \<and> co_process (fail_commands e cmds c) = co_process c
      \<and> co_ledger (fail_commands e cmds c) = co_ledger c \<and> co_program (fail_commands e cmds c) = co_program c"
    by (induction cmds rule: rev_induct) (auto simp: fail_commands_def)
  then show "co_adm (fail_commands e cmds c) = co_adm c" "co_fed (fail_commands e cmds c) = co_fed c"
    "co_ws (fail_commands e cmds c) = co_ws c" "co_journal (fail_commands e cmds c) = co_journal c"
    "co_config (fail_commands e cmds c) = co_config c" "co_services (fail_commands e cmds c) = co_services c"
    "co_handle (fail_commands e cmds c) = co_handle c" "co_process (fail_commands e cmds c) = co_process c"
    "co_ledger (fail_commands e cmds c) = co_ledger c" "co_program (fail_commands e cmds c) = co_program c"
    by auto
qed

lemma complete_all_simps [simp]:
  "co_adm (complete_all ts r c) = co_adm c" "co_fed (complete_all ts r c) = co_fed c"
  "co_ws (complete_all ts r c) = co_ws c" "co_ledger (complete_all ts r c) = co_ledger c"
proof -
  have "co_adm (complete_all ts r c) = co_adm c \<and> co_fed (complete_all ts r c) = co_fed c
      \<and> co_ws (complete_all ts r c) = co_ws c \<and> co_ledger (complete_all ts r c) = co_ledger c"
    by (induction ts rule: rev_induct) (auto simp: complete_all_def)
  then show "co_adm (complete_all ts r c) = co_adm c" "co_fed (complete_all ts r c) = co_fed c"
    "co_ws (complete_all ts r c) = co_ws c" "co_ledger (complete_all ts r c) = co_ledger c" by auto
qed

lemma on_simps [simp]:
  "co_adm (on_ws f c) = co_adm c" "co_fed (on_ws f c) = co_fed c" "co_ws (on_ws f c) = f (co_ws c)"
  "co_journal (on_ws f c) = co_journal c" "co_config (on_ws f c) = co_config c"
  "co_services (on_ws f c) = co_services c" "co_handle (on_ws f c) = co_handle c"
  "co_process (on_ws f c) = co_process c" "co_ledger (on_ws f c) = co_ledger c"
  "co_program (on_ws f c) = co_program c" "co_done (on_ws f c) = co_done c"
  "co_adm (on_adm g c) = g (co_adm c)" "co_fed (on_adm g c) = co_fed c" "co_ws (on_adm g c) = co_ws c"
  "co_journal (on_adm g c) = co_journal c" "co_config (on_adm g c) = co_config c"
  "co_services (on_adm g c) = co_services c" "co_handle (on_adm g c) = co_handle c"
  "co_process (on_adm g c) = co_process c" "co_ledger (on_adm g c) = co_ledger c"
  "co_done (on_adm g c) = co_done c"
  by (simp_all add: on_ws_def on_adm_def)

lemma coord_fail_simps [simp]:
  "co_fed (coord_fail e c) = co_fed c" "co_ws (coord_fail e c) = co_ws c"
  "co_config (coord_fail e c) = co_config c" "co_services (coord_fail e c) = co_services c"
  "co_handle (coord_fail e c) = co_handle c" "co_process (coord_fail e c) = co_process c"
  "co_ledger (coord_fail e c) = co_ledger c" "co_program (coord_fail e c) = co_program c"
  "co_adm (coord_fail e c) = snd (snd (queue_fail (co_adm c) e))"
  by (simp_all add: coord_fail_def queue_fail_def)

lemma coord_requeue_simps [simp]:
  "co_fed (coord_requeue cmd c) = co_fed c" "co_ws (coord_requeue cmd c) = co_ws c"
  "co_config (coord_requeue cmd c) = co_config c" "co_services (coord_requeue cmd c) = co_services c"
  "co_handle (coord_requeue cmd c) = co_handle c" "co_process (coord_requeue cmd c) = co_process c"
  "co_ledger (coord_requeue cmd c) = co_ledger c" "co_program (coord_requeue cmd c) = co_program c"
  "co_adm (coord_requeue cmd c) = snd (queue_requeue cmd (co_adm c))"
  by (simp_all add: coord_requeue_def split: prod.splits option.splits)

section \<open>Failing and calling the engine\<close>

lemma qsteps_fail [qstep]: "qsteps A h c h (coord_fail e c)"
  by (rule qsteps_adm, rule step_fail [of "queue_view A h c" e]) (auto simp: queue_fail_def)

lemma qsteps_requeue [qstep]: "qsteps A (Some cmd) c None (coord_requeue cmd c)"
  unfolding qsteps_def
  using step_requeue [of "queue_view A (Some cmd) c" cmd "fst (queue_requeue cmd (co_adm c))" "snd (queue_requeue cmd (co_adm c))"]
  by (auto simp: queue_view_def)

lemma qsteps_native: "native_call r c = (x, c') \<Longrightarrow> qsteps A h c h c'"
  by (auto simp: native_call_def intro: qsteps_same qstep split: native.splits)

lemma qsteps_left: "qsteps A h d h' c' \<Longrightarrow> co_adm d = co_adm c \<Longrightarrow> co_fed d = co_fed c \<Longrightarrow> qsteps A h c h' c'"
  by (auto simp: qsteps_def queue_view_def)

lemma qsteps_right: "qsteps A h c h' d \<Longrightarrow> co_adm c' = co_adm d \<Longrightarrow> co_fed c' = co_fed d \<Longrightarrow> qsteps A h c h' c'"
  by (auto simp: qsteps_def queue_view_def)

lemma qsteps_engine: "engine_call f c = (x, c') \<Longrightarrow> qsteps A h c h c'"
proof -
  assume e: "engine_call f c = (x, c')"
  show ?thesis
  proof (cases "ws_terminal (co_ws c)")
    case None
    with e show ?thesis by (auto simp: engine_call_def intro: qsteps_same)
  next
    case (Some m)
    obtain r m' where "f m = (r, m')" by force
    with e Some have "native_call r (on_ws (\<lambda>w. w\<lparr>ws_terminal := Some m'\<rparr>) c) = (x, c')" by (simp add: engine_call_def)
    from qsteps_left [OF qsteps_native [OF this], of c] show ?thesis by simp
  qed
qed

section \<open>Output\<close>

lemma log_call_simps [simp]:
  "co_adm (log_call bs c) = co_adm c" "co_ws (log_call bs c) = co_ws c"
  "fl_recorded (co_fed (log_call bs c)) = fl_recorded (co_fed c)"
  "fl_calls (co_fed (log_call bs c)) = fl_calls (co_fed c) @ [bs]"
  by (simp_all add: log_call_def)

text \<open>What running the engine's \<open>feed\<close> on a list of chunks makes of a model.\<close>

definition feed_model :: "'m engine \<Rightarrow> bytes list \<Rightarrow> 'm \<Rightarrow> 'm" where
  "feed_model eg xs m = foldl (\<lambda>m bs. snd (eg_feed eg bs m)) m xs"

lemma feed_model_simps [simp]:
  "feed_model eg [] m = m" "feed_model eg (bs # xs) m = feed_model eg xs (snd (eg_feed eg bs m))"
  "feed_model eg (xs @ ys) m = feed_model eg ys (feed_model eg xs m)"
  by (simp_all add: feed_model_def)

text \<open>\<open>fed_by eg xs c d\<close>: from \<open>c\<close> to \<open>d\<close> the engine was called on \<open>xs\<close>, in this order, and that
  is what happened to the live model.\<close>

definition fed_by :: "'m engine \<Rightarrow> bytes list \<Rightarrow> 'm coordinator \<Rightarrow> 'm coordinator \<Rightarrow> bool" where
  "fed_by eg xs c d \<longleftrightarrow>
     fl_calls (co_fed d) = fl_calls (co_fed c) @ xs \<and> fl_recorded (co_fed d) = fl_recorded (co_fed c)
     \<and> ws_terminal (co_ws d) = map_option (feed_model eg xs) (ws_terminal (co_ws c))"

lemma fed_by_none: "co_fed d = co_fed c \<Longrightarrow> ws_terminal (co_ws d) = ws_terminal (co_ws c) \<Longrightarrow> fed_by eg [] c d"
  by (simp add: fed_by_def option.map_ident cong: option.map_cong)

lemma fed_by_trans: "fed_by eg xs c d \<Longrightarrow> fed_by eg ys d e \<Longrightarrow> fed_by eg (xs @ ys) c e"
  by (cases "ws_terminal (co_ws c)") (auto simp: fed_by_def)

lemma fed_by_right: "fed_by eg xs c d \<Longrightarrow> co_fed e = co_fed d \<Longrightarrow> co_ws e = co_ws d \<Longrightarrow> fed_by eg xs c e"
  by (simp add: fed_by_def)

lemma native_call_keeps: "native_call r c = (x, d) \<Longrightarrow> co_fed d = co_fed c \<and> co_ws d = co_ws c"
  by (auto simp: native_call_def split: native.splits)

text \<open>One call: the log grows by what was passed, unless there is no model to call.\<close>

lemma fsteps_call:
  assumes "feed_call eg bs c = (x, c')"
  shows "fsteps A h c h c'"
proof -
  let ?d = "if ws_terminal (co_ws c) = None then c else log_call bs c"
  have "queue_view A h ?d = queue_view A h c" by (simp add: queue_view_def)
  with qsteps_engine [OF assms [unfolded feed_call_def], of A h] show ?thesis by (simp add: qsteps_def fsteps_def)
qed

lemma feed_call_fed:
  assumes "feed_call eg bs c = (r, c')"
  shows "\<exists>xs. fed_by eg xs c c' \<and> (xs = [bs] \<or> (xs = [] \<and> (\<exists>e. r = Err e)))"
proof (cases "ws_terminal (co_ws c)")
  case None
  with assms show ?thesis by (auto simp: feed_call_def engine_call_def intro: fed_by_none)
next
  case (Some m)
  obtain y m' where f: "eg_feed eg bs m = (y, m')" by force
  let ?d = "on_ws (\<lambda>w. w\<lparr>ws_terminal := Some m'\<rparr>) (log_call bs c)"
  have "native_call y ?d = (r, c')" using assms Some f by (simp add: feed_call_def engine_call_def)
  from native_call_keeps [OF this] Some f have "fed_by eg [bs] c c'" by (simp add: fed_by_def)
  then show ?thesis by blast
qed

lemma slice_call:
  assumes "feed_status_slice eg bs agg limit c = (x, c')"
  obtains r where "feed_call eg bs c = (r, c')" "x \<noteq> r \<longrightarrow> (\<exists>y. r = Ok y)"
proof -
  obtain r d where e: "feed_call eg bs c = (r, d)" by force
  with assms that [of r] show thesis by (auto simp: feed_status_slice_def split: sum.splits)
qed

lemma fsteps_slice: "feed_status_slice eg bs agg limit c = (x, c') \<Longrightarrow> fsteps A h c h c'"
  by (erule slice_call) (rule fsteps_call)

lemma slice_fed:
  assumes "feed_status_slice eg bs agg limit c = (r, c')"
  shows "\<exists>xs. fed_by eg xs c c' \<and> (xs = [bs] \<or> (xs = [] \<and> (\<exists>e. r = Err e)))"
proof -
  obtain r' d where f: "feed_call eg bs c = (r', d)" by force
  with assms have "c' = d" "(\<exists>e. r' = Err e) \<longrightarrow> (\<exists>e. r = Err e)" by (auto simp: feed_status_slice_def split: sum.splits)
  with feed_call_fed [OF f] show ?thesis by blast
qed

lemma fsteps_slices: "feed_slices eg bs start qs agg limit c = (x, c') \<Longrightarrow> fsteps A h c h c'"
proof (induction eg bs start qs agg limit c rule: feed_slices.induct)
  case (1 eg bs start agg limit c)
  then show ?case by (auto intro: qsteps_fsteps qsteps_same fsteps_slice split: if_splits)
next
  case (2 eg bs start q qs agg limit c)
  obtain r d where s: "feed_status_slice eg (drop start (take q bs)) agg limit c = (r, d)" by force
  note one = fsteps_slice [OF s, of A h]
  consider "c' = d" | agg' agg'' where "r = Inr agg'" "reply_append agg' PROGRAM_STATUS_REPLY limit = Inr agg''"
      "feed_slices eg bs q qs agg'' limit d = (x, c')"
    using 2(2) s by (auto split: sum.splits)
  then show ?case
  proof cases
    case 2
    from fsteps_trans [OF one "2.IH" [OF s [symmetric] 2]] show ?thesis .
  qed (use one in simp)
qed

text \<open>The slices cover the rest of the chunk, or, when a call or a reply fails, a prefix of it.\<close>

definition covers :: "(projection_error, bytes) result \<Rightarrow> bytes list \<Rightarrow> bytes \<Rightarrow> bool" where
  "covers r xs bs \<longleftrightarrow> (\<exists>rest. bs = concat xs @ rest \<and> ((\<exists>e. r = Err e) \<or> rest = []))"

lemma slices_fed:
  "feed_slices eg bs start qs agg limit c = (r, c') \<Longrightarrow> sorted (start # qs) \<Longrightarrow> set qs \<subseteq> {..length bs}
    \<Longrightarrow> \<exists>xs. fed_by eg xs c c' \<and> covers r xs (drop start bs)"
proof (induction eg bs start qs agg limit c rule: feed_slices.induct)
  case (1 eg bs start agg limit c)
  show ?case
  proof (cases "start < length bs")
    case True
    with 1(1) have s: "feed_status_slice eg (drop start bs) agg limit c = (r, c')" by simp
    from slice_fed [OF this] show ?thesis by (auto simp: covers_def)
  next
    case False
    with 1(1) show ?thesis by (auto simp: covers_def intro: fed_by_none)
  qed
next
  case (2 eg bs start q qs agg limit c)
  obtain y d where s: "feed_status_slice eg (drop start (take q bs)) agg limit c = (y, d)" by force
  obtain xs where xs: "fed_by eg xs c d" "xs = [drop start (take q bs)] \<or> (xs = [] \<and> (\<exists>e. y = Err e))"
    using slice_fed [OF s] by blast
  have "start \<le> q" using 2(3) by simp
  then have cut: "drop start bs = drop start (take q bs) @ drop q bs"
    by (metis append_take_drop_id drop_append drop_drop drop_take le_add_diff_inverse2)
  consider e where "c' = d" "r = Err e" | agg' agg'' where "y = Inr agg'" "reply_append agg' PROGRAM_STATUS_REPLY limit = Inr agg''"
      "feed_slices eg bs q qs agg'' limit d = (r, c')"
    using 2(2) s by (cases y; cases "reply_append (projr y) PROGRAM_STATUS_REPLY limit") (auto, metis)
  then show ?case
  proof cases
    case 1
    with xs cut show ?thesis by (auto simp: covers_def)
  next
    case 2
    obtain ys where ys: "fed_by eg ys d c'" "covers r ys (drop q bs)"
      using "2.IH" [OF s [symmetric] 2] "2.prems"(2,3) by auto
    from fed_by_trans [OF xs(1) ys(1)] xs(2) ys(2) 2(1) cut show ?thesis by (auto simp: covers_def)
  qed
qed

lemma fsteps_feed:
  assumes "feed_status_slices eg bs qs limit c = (x, c')"
  shows "fsteps A h c h c'"
proof (cases "qs = []")
  case True
  obtain r d where e: "feed_call eg bs c = (r, d)" by force
  with assms True have "c' = d" by (auto simp: feed_status_slices_def split: sum.splits)
  with fsteps_call [OF e] show ?thesis by simp
next
  case False
  with assms show ?thesis by (auto simp: feed_status_slices_def intro: fsteps_slices)
qed

lemma feed_fed:
  assumes "feed_status_slices eg bs qs limit c = (r, c')" "sorted qs" "set qs \<subseteq> {..length bs}"
  shows "\<exists>xs. fed_by eg xs c c' \<and> covers r xs bs"
proof (cases "qs = []")
  case True
  obtain y d where f: "feed_call eg bs c = (y, d)" by force
  with assms(1) True have "c' = d" "(\<exists>e. y = Err e) \<longrightarrow> (\<exists>e. r = Err e)"
    by (auto simp: feed_status_slices_def split: sum.splits)
  with feed_call_fed [OF f] show ?thesis by (auto simp: covers_def)
next
  case False
  with assms slices_fed [of eg bs 0 qs "[]" limit c r c'] show ?thesis by (simp add: feed_status_slices_def)
qed

lemma prepare_status_queries:
  assumes "prepare_status an eg bs limit c = Ok p"
  shows "sorted (sp_queries (pr_plan p))" "set (sp_queries (pr_plan p)) \<subseteq> {..length bs}"
proof -
  obtain store where s: "store_scan store bs = Ok (pr_plan p)"
    using assms by (auto simp: prepare_status_def Let_def bind_result_Ok_iff split: if_splits)
  from scan_queries_sorted [OF store_scan_Ok(1) [OF s]] scan_out_ok(3) [OF store_scan_Ok(1) [OF s]]
  show "sorted (sp_queries (pr_plan p))" "set (sp_queries (pr_plan p)) \<subseteq> {..length bs}" by auto
qed

lemma commit_status_Ok [simp]:
  "commit_status p m c = Ok c' \<Longrightarrow> co_adm c' = co_adm c \<and> co_fed c' = co_fed c \<and> co_ws c' = co_ws c
     \<and> co_done c' = co_done c \<and> co_ledger c' = co_ledger c \<and> co_config c' = co_config c
     \<and> co_services c' = co_services c \<and> co_handle c' = co_handle c \<and> co_process c' = co_process c
     \<and> co_journal c' = co_journal c"
  by (auto simp: commit_status_def bind_result_Ok_iff Let_def)

lemma commit_output_Err:
  "commit_output p bs c = (Err e, d) \<Longrightarrow> co_adm d = co_adm c \<and> co_fed d = co_fed c \<and> co_ws d = co_ws c
     \<and> co_done d = co_done c \<and> co_ledger d = co_ledger c"
  by (auto simp: commit_output_def dest!: commit_status_Ok split: sum.splits)

lemma commit_output_Ok:
  "commit_output p bs c = (Ok d, x) \<Longrightarrow>
     queue_record_processed (co_adm c) (len_u64 bs) = Ok (co_adm d) \<and> co_fed d = co_fed c \<and> co_ws d = co_ws c
     \<and> co_done d = co_done c \<and> co_ledger d = co_ledger c"
  by (auto simp: commit_output_def dest!: commit_status_Ok split: sum.splits)

lemma fsteps_processed:
  assumes "queue_record_processed (co_adm c) (len_u64 bs) = Ok (co_adm d)"
    "fl_recorded (co_fed d) = fl_recorded (co_fed c) @ [bs]"
  shows "fsteps A (Some (CmdOutput bs l)) c None d"
  using step_processed [of "queue_view A (Some (CmdOutput bs l)) c" bs l "co_adm d"] assms
  by (auto simp: fsteps_def queue_view_def)

text \<open>The ways an output command ends: retried before any call; returned to the queue with the
  projection failed, after no call, some calls, or all of them; or recorded.\<close>

lemma output_cases:
  assumes "apply_output an eg bs staging c = (w, c')"
  obtains (retry) "w = WorkAfter (from_millis 5)" "c' = coord_requeue (CmdOutput bs staging) c"
  | (refused) e where "w = WorkDormant" "c' = coord_fail e (coord_requeue (CmdOutput bs staging) c)"
  | (returned) p r d e d' where
      "prepare_status an eg bs (unat (tc_reply_bytes (ws_config (co_ws c)))) c = Ok p"
      "feed_status_slices eg bs (sp_queries (pr_plan p)) (unat (tc_reply_bytes (ws_config (co_ws c)))) c = (r, d)"
      "co_adm d' = co_adm d" "co_fed d' = co_fed d" "co_ws d' = co_ws d"
      "w = WorkDormant" "c' = coord_fail e (coord_requeue (CmdOutput bs staging) d')"
  | (recorded) p r d where
      "prepare_status an eg bs (unat (tc_reply_bytes (ws_config (co_ws c)))) c = Ok p"
      "feed_status_slices eg bs (sp_queries (pr_plan p)) (unat (tc_reply_bytes (ws_config (co_ws c)))) c = (Ok r, d)"
      "queue_record_processed (co_adm d) (len_u64 bs) = Ok (co_adm c')" "w = WorkAfter 0"
      "co_fed c' = (co_fed d)\<lparr>fl_recorded := fl_recorded (co_fed d) @ [bs]\<rparr>"
      "ws_terminal (co_ws c') = ws_terminal (co_ws d)"
proof -
  let ?limit = "unat (tc_reply_bytes (ws_config (co_ws c)))"
  show thesis
  proof (cases "prepare_status an eg bs ?limit c")
    case (Inl e)
    with assms retry refused show thesis by (cases e) (auto simp: apply_output_def Let_def)
  next
    case p: (Inr p)
    obtain r d where f: "feed_status_slices eg bs (sp_queries (pr_plan p)) ?limit c = (r, d)" by force
    show thesis
    proof (cases r)
      case (Inl e)
      with assms p f show thesis by (intro returned [OF p f, of d e]) (auto simp: apply_output_def Let_def)
    next
      case r: (Inr effects)
      obtain k d' where k: "commit_output p bs d = (k, d')" by force
      show thesis
      proof (cases k)
        case (Inl e)
        note kept = commit_output_Err [OF k [unfolded Inl]]
        show thesis
          by (rule returned [OF p f, of d' e]) (use kept assms p f r k Inl in \<open>auto simp: apply_output_def Let_def\<close>)
      next
        case (Inr d'')
        note kept = commit_output_Ok [OF k [unfolded Inr]]
        show thesis
          by (rule recorded [OF p f [unfolded r]])
            (use kept assms p f r k Inr in \<open>auto simp: apply_output_def Let_def split: if_splits\<close>)
      qed
    qed
  qed
qed

lemma fsteps_output:
  assumes "apply_output an eg bs staging c = (w, c')"
  shows "fsteps A (Some (CmdOutput bs staging)) c None c'"
proof -
  let ?cmd = "CmdOutput bs staging"
  have failed: "fsteps A (Some ?cmd) d None (coord_fail e (coord_requeue ?cmd d))" for e d
    by (rule qsteps_fsteps [OF qsteps_trans [OF qsteps_requeue qsteps_fail]])
  from assms show ?thesis
  proof (cases rule: output_cases)
    case retry
    then show ?thesis by (simp add: qsteps_fsteps qsteps_requeue)
  next
    case (refused e)
    then show ?thesis by (simp add: failed)
  next
    case (returned p r d e d')
    have "fsteps A (Some ?cmd) d (Some ?cmd) d'" by (rule qsteps_fsteps [OF qsteps_same]) (use returned in simp_all)
    with fsteps_feed [OF returned(2)] failed returned(7) show ?thesis by (blast intro: fsteps_trans)
  next
    case (recorded p r d)
    from fsteps_trans [OF fsteps_feed [OF recorded(2)] fsteps_processed [OF recorded(3)]] recorded(5)
    show ?thesis by simp
  qed
qed

section \<open>What the engine has been fed\<close>

text \<open>\<open>settled\<close>: the engine was called on exactly the recorded chunks.  \<open>stopped\<close>: no chunk is fed
  again.  Between operations the calls are a prefix of what was accepted, and a projection
  whose calls went beyond the recorded position has stopped.\<close>

abbreviation calls :: "'m coordinator \<Rightarrow> bytes" where
  "calls c \<equiv> concat (fl_calls (co_fed c))"

abbreviation recorded :: "'m coordinator \<Rightarrow> bytes" where
  "recorded c \<equiv> concat (fl_recorded (co_fed c))"

definition settled :: "'m coordinator \<Rightarrow> bool" where
  "settled c \<longleftrightarrow> calls c = recorded c"

definition stopped :: "'m coordinator \<Rightarrow> bool" where
  "stopped c \<longleftrightarrow> ps_failure (co_status c) \<noteq> None \<or> ad_closed (co_adm c)"

definition fed_ok :: "bytes \<Rightarrow> 'm coordinator \<Rightarrow> bool" where
  "fed_ok A c \<longleftrightarrow> (\<exists>part rest. calls c = recorded c @ part \<and> A = calls c @ rest) \<and> (settled c \<or> stopped c)"

lemma queue_fail_stops: "ps_failure (queue_status (snd (snd (queue_fail a e)))) \<noteq> None \<or> ad_closed (snd (snd (queue_fail a e)))"
  by (simp add: queue_fail_def queue_status_def policy_fail_def map_status_def)

lemma coord_fail_stopped: "stopped (coord_fail e c)"
  using queue_fail_stops [of "co_adm c" e] by (simp add: stopped_def)

lemma output_fed:
  assumes "apply_output an eg bs staging c = (w, c')"
  obtains xs rest where "bs = concat xs @ rest" "fl_calls (co_fed c') = fl_calls (co_fed c) @ xs"
    "ws_terminal (co_ws c') = map_option (feed_model eg xs) (ws_terminal (co_ws c))"
    "if w = WorkAfter 0 then rest = [] \<and> fl_recorded (co_fed c') = fl_recorded (co_fed c) @ [bs]
     else fl_recorded (co_fed c') = fl_recorded (co_fed c) \<and> (xs = [] \<or> stopped c')"
proof -
  have none: "map_option (feed_model eg []) t = t" for t by (simp add: option.map_ident cong: option.map_cong)
  from assms show thesis
  proof (cases rule: output_cases)
    case retry
    then show thesis by (intro that [of "[]" bs]) (auto simp: none from_millis_def)
  next
    case (refused e)
    then show thesis by (intro that [of "[]" bs]) (auto simp: none)
  next
    case (returned p r d e d')
    from feed_fed [OF returned(2) prepare_status_queries [OF returned(1)]]
    obtain xs rest where "fed_by eg xs c d" "bs = concat xs @ rest" by (auto simp: covers_def)
    with returned show thesis by (intro that [of xs rest]) (auto simp: fed_by_def coord_fail_stopped)
  next
    case (recorded p r d)
    from feed_fed [OF recorded(2) prepare_status_queries [OF recorded(1)]]
    obtain xs where "fed_by eg xs c d" "bs = concat xs" by (auto simp: covers_def)
    with recorded show thesis by (intro that [of xs "[]"]) (auto simp: fed_by_def)
  qed
qed

text \<open>From a settled state the accepted bytes bound what one output command feeds.\<close>

lemma settled_fed_ok: "settled c \<Longrightarrow> queue_inv l (queue_view A h c) \<Longrightarrow> fed_ok A c"
  by (auto simp: fed_ok_def settled_def queue_inv_def)

lemma fed_ok_output:
  assumes "apply_output an eg bs staging c = (w, c')" "settled c" "queue_inv l (queue_view A (Some (CmdOutput bs staging)) c)"
  shows "fed_ok A c' \<and> (w = WorkAfter 0 \<longrightarrow> settled c')"
proof -
  obtain tail where A: "A = calls c @ bs @ tail" using assms(2,3) by (auto simp: queue_inv_def settled_def command_bytes_def)
  obtain xs rest where xs: "bs = concat xs @ rest" "fl_calls (co_fed c') = fl_calls (co_fed c) @ xs"
    and w: "if w = WorkAfter 0 then rest = [] \<and> fl_recorded (co_fed c') = fl_recorded (co_fed c) @ [bs]
      else fl_recorded (co_fed c') = fl_recorded (co_fed c) \<and> (xs = [] \<or> stopped c')"
    by (rule output_fed [OF assms(1)])
  with A assms(2) show ?thesis by (auto simp: fed_ok_def settled_def split: if_splits)
qed

section \<open>Commands\<close>

lemma qsteps_done: "\<not> is_output cmd \<Longrightarrow> co_adm c' = co_adm c \<Longrightarrow> co_fed c' = co_fed c \<Longrightarrow> qsteps A (Some cmd) c None c'"
  using step_done [of "queue_view A (Some cmd) c" cmd] by (auto simp: qsteps_def queue_view_def)

lemma request_complete_simps [simp]:
  "co_adm (request_complete an r x c) = co_adm c" "co_fed (request_complete an r x c) = co_fed c"
  "co_ws (request_complete an r x c) = co_ws c" "co_ledger (request_complete an r x c) = co_ledger c"
  by (auto simp: request_complete_def Let_def split: snapshot_request.splits sum.splits prod.splits)

lemma request_fail_simps [simp]:
  "co_adm (request_fail r e c) = co_adm c" "co_fed (request_fail r e c) = co_fed c"
  "co_ws (request_fail r e c) = co_ws c" "co_ledger (request_fail r e c) = co_ledger c"
  by (simp_all add: request_fail_def)

lemma qsteps_extract:
  assumes "extract_checkpoint an eg c = (x, c')"
  shows "qsteps A h c h c'"
proof -
  obtain r d where e: "engine_call (eg_checkpoint eg (coord_descriptor c)) c = (r, d)" by force
  with assms have "c' = d" by (auto simp: extract_checkpoint_def Let_def split: sum.splits)
  with qsteps_engine [OF e] show ?thesis by simp
qed

lemma qsteps_snapshot: "qsteps A h c h (coord_snapshot an eg r c)"
proof (cases "request_cancelled an r")
  case True
  then show ?thesis by (simp add: coord_snapshot_def qsteps_same)
next
  case False
  obtain x d where x: "(if an_checkpoints an then extract_checkpoint an eg c else (Err JCapacity, c)) = (x, d)" by force
  then have "qsteps A h c h d" by (auto intro: qsteps_extract qsteps_same split: if_splits)
  moreover have "co_adm (coord_snapshot an eg r c) = co_adm d" "co_fed (coord_snapshot an eg r c) = co_fed d"
    using False x by (auto simp: coord_snapshot_def Let_def)
  ultimately show ?thesis by (rule qsteps_right)
qed

lemma qsteps_extract_view:
  assumes "extract_view an eg c = (x, c')"
  shows "qsteps A h c h c'"
proof -
  obtain r d where e: "engine_call (eg_view eg) c = (r, d)" by force
  obtain r' d' where e': "engine_call (\<lambda>m. (eg_progress eg m, m)) d = (r', d')" by force
  have "c' = c \<or> c' = d \<or> c' = d'"
    using assms e e' by (auto simp: extract_view_def split: sum.splits if_splits)
  with qsteps_engine [OF e, of A h] qsteps_trans [OF qsteps_engine [OF e] qsteps_engine [OF e'], of A h]
  show ?thesis by (auto intro: qsteps_same)
qed

lemma qsteps_view: "qsteps A h c h (apply_view an eg t c)"
proof -
  obtain x d where x: "extract_view an eg c = (x, d)" by force
  from qsteps_extract_view [OF x, of A h] x show ?thesis
    by (auto simp: apply_view_def intro: qsteps_same qsteps_right)
qed

lemma apply_program_exit_Ok:
  "apply_program_exit c = Ok d \<Longrightarrow> co_adm d = co_adm c \<and> co_fed d = co_fed c \<and> co_ws d = co_ws c
     \<and> co_done d = co_done c \<and> co_ledger d = co_ledger c \<and> co_config d = co_config c"
  by (auto simp: apply_program_exit_def bind_result_Ok_iff Let_def)

lemma finish_program_drain_Ok:
  "finish_program_drain c = Ok d \<Longrightarrow> co_adm d = co_adm c \<and> co_fed d = co_fed c \<and> co_ws d = co_ws c
     \<and> co_done d = co_done c \<and> co_ledger d = co_ledger c \<and> co_config d = co_config c"
  by (auto simp: finish_program_drain_def bind_result_Ok_iff Let_def split: if_splits)

lemma qsteps_exit: "qsteps A h c h (apply_exit c)"
  using apply_program_exit_Ok [of c] by (auto simp: apply_exit_def intro: qsteps_same qstep split: sum.splits)

lemma qsteps_drop: "\<not> is_output cmd \<Longrightarrow> qsteps A None c None c' \<Longrightarrow> qsteps A (Some cmd) c None c'"
  by (rule qsteps_trans [OF qsteps_done]) simp_all

lemma qsteps_apply_resize:
  "apply_resize an sz t s c = (w, c') \<Longrightarrow> qsteps A (Some (CmdResize sz t s)) c None c'"
proof -
  assume r: "apply_resize an sz t s c = (w, c')"
  have f: "qsteps A None c None (coord_fail e (complete t x c))" for e x
    by (rule qsteps_left [OF qsteps_fail]) simp_all
  show ?thesis
  proof (cases "co_process c \<and> control_next (ps_control_generation (co_status c)) = None")
    case True
    with r qsteps_drop [OF _ f, of "CmdResize sz t s"] show ?thesis by (auto simp: apply_resize_def)
  next
    case False
    with r show ?thesis
      by (auto simp: apply_resize_def intro!: qsteps_done qstep split: if_splits option.splits sum.splits)
  qed
qed

lemma qsteps_command:
  assumes "apply_command an eg cmd c = (w, c')" "\<not> is_output cmd"
  shows "qsteps A (Some cmd) c None c'"
  using assms
  by (cases cmd) (auto intro: qsteps_apply_resize qsteps_drop qsteps_exit qsteps_view qsteps_snapshot)

text \<open>An operation that may feed: it refines the queue, and from a settled state it leaves the
  calls within what was accepted.\<close>

definition feeding :: "session_lifetime \<Rightarrow> bytes \<Rightarrow> command option \<Rightarrow> 'm coordinator \<Rightarrow> 'm coordinator \<Rightarrow> bool" where
  "feeding l A h c c' \<longleftrightarrow>
     fsteps A h c None c' \<and> (settled c \<and> queue_inv l (queue_view A h c) \<longrightarrow> fed_ok A c')"

lemma fsteps_inv: "fsteps A h c h' c' \<Longrightarrow> queue_inv l (queue_view A h c) \<Longrightarrow> queue_inv l (queue_view A h' c')"
  unfolding fsteps_def by (rule queue_steps_inv)

lemma qsteps_settled: "qsteps A h c h' c' \<Longrightarrow> settled c' = settled c"
  by (simp add: qsteps_def settled_def)

lemma feeding_kept: "qsteps A h c None c' \<Longrightarrow> feeding l A h c c'"
  using qsteps_settled qsteps_fsteps fsteps_inv settled_fed_ok unfolding feeding_def by metis

lemma feeding_after: "qsteps A h c h' d \<Longrightarrow> feeding l A h' d c' \<Longrightarrow> feeding l A h c c'"
  using qsteps_settled qsteps_fsteps fsteps_inv fsteps_trans unfolding feeding_def by metis

lemma feeding_command:
  assumes "apply_command an eg cmd c = (w, c')"
  shows "feeding l A (Some cmd) c c'"
    "settled c \<Longrightarrow> queue_inv l (queue_view A (Some cmd) c) \<Longrightarrow> is_output cmd \<Longrightarrow> w = WorkAfter 0 \<Longrightarrow> settled c'"
proof -
  have out: "apply_output an eg bs st c = (w, c')" if "cmd = CmdOutput bs st" for bs st
    using assms that by simp
  show "feeding l A (Some cmd) c c'"
  proof (cases "is_output cmd")
    case True
    then obtain bs st where cmd: "cmd = CmdOutput bs st" by (cases cmd) auto
    show ?thesis unfolding cmd feeding_def using fsteps_output [OF out [OF cmd]] fed_ok_output [OF out [OF cmd]] by blast
  qed (auto intro: feeding_kept qsteps_command [OF assms])
  show "settled c'" if "settled c" "queue_inv l (queue_view A (Some cmd) c)" "is_output cmd" "w = WorkAfter 0"
  proof -
    obtain bs st where cmd: "cmd = CmdOutput bs st" using \<open>is_output cmd\<close> by (cases cmd) auto
    show ?thesis using fed_ok_output [OF out [OF cmd] that(1)] that(2,4) cmd by blast
  qed
qed

section \<open>Operations in flight\<close>

lemma qsteps_fail_ws [qstep]: "qsteps A h c h (on_ws f (coord_fail e c))"
  by (rule qsteps_right [OF qsteps_fail]) simp_all

lemma qsteps_ws [qstep]: "qsteps A h c h (on_ws f c)"
  by (rule qsteps_same) simp_all

lemma qsteps_poll_reply: "poll_reply an r c = (w, c') \<Longrightarrow> qsteps A h c h c'"
  by (auto simp: poll_reply_def intro: qsteps_same qstep split: poll.splits)

lemma qsteps_drive_reply: "drive_reply an c = (w, c') \<Longrightarrow> qsteps A h c h c'"
proof -
  assume d: "drive_reply an c = (w, c')"
  show ?thesis
  proof (cases "ws_reply (co_ws c)")
    case None
    with d show ?thesis by (auto simp: drive_reply_def intro: qsteps_same)
  next
    case (Some r)
    have p: "poll_reply an r (on_ws g c) = (w, c') \<Longrightarrow> qsteps A h c h c'" for g
      by (erule qsteps_left [OF qsteps_poll_reply]) simp_all
    from d Some show ?thesis
      by (auto simp: drive_reply_def intro: qsteps_same qsteps_poll_reply p qstep
          split: if_splits sum.splits process_error.splits)
  qed
qed

lemma qsteps_controlled: "queue_record_control_applied (co_adm c) g = Ok a \<Longrightarrow> co_adm d = a \<Longrightarrow> co_fed d = co_fed c
    \<Longrightarrow> qsteps A h c h d"
  by (rule qsteps_adm [OF step_controlled]) simp_all

lemma qsteps_settle: "qsteps A h c h (settle_resize an eg rz os c)"
proof -
  obtain model d where m: "resize_model eg rz os c = (model, d)" by force
  have one: "qsteps A h c h d"
    using m by (auto simp: resize_model_def intro: qsteps_same qsteps_engine split: sum.splits)
  have cfg: "qsteps A h d h x" if "qsteps A h (on_ws f d) h x" for f x
    using qsteps_left [OF that, of d] by simp
  define k where "k = (case model of
              Ok _ \<Rightarrow>
                let c = on_ws (\<lambda>w. w\<lparr>ws_config := (ws_config w)\<lparr>tc_size := rz_size rz\<rparr>\<rparr>) d in
                (case queue_record_control_applied (co_adm c) (rz_generation rz) of
                   Err e \<Rightarrow> coord_fail e c
                 | Ok a \<Rightarrow> c\<lparr>co_adm := a,
                     co_journal := snd (journal_resized (an_journal an) (co_journal c) (rz_size rz) (rz_generation rz))\<rparr>)
            | Err e \<Rightarrow> if is_ok os then coord_fail e d else d)"
  have two: "qsteps A h d h k"
    unfolding k_def
    by (auto simp: Let_def intro: qsteps_same qsteps_fail cfg [OF qsteps_fail] qsteps_controlled split: sum.splits)
  have "co_adm (settle_resize an eg rz os c) = co_adm k" "co_fed (settle_resize an eg rz os c) = co_fed k"
    by (simp_all add: settle_resize_def m k_def Let_def)
  from qsteps_right [OF qsteps_trans [OF one two] this] show ?thesis .
qed

lemma qsteps_poll: "poll_inflight_operations an eg c = (w, c') \<Longrightarrow> qsteps A h c h c'"
proof -
  assume p: "poll_inflight_operations an eg c = (w, c')"
  obtain x d where d: "drive_reply an c = (x, d)" by force
  note one = qsteps_drive_reply [OF d, of A h]
  have two: "drive_resize an eg d = (w, c') \<Longrightarrow> qsteps A h d h c'"
    by (auto simp: drive_resize_def intro: qsteps_same qsteps_settle split: option.splits poll.splits)
  from p d one qsteps_trans [OF one two] show ?thesis
    by (auto simp: poll_inflight_operations_def intro: qsteps_same split: if_splits option.splits)
qed

lemma closing_resize_keeps:
  "closing_resize an c = (w, c') \<Longrightarrow> co_adm c' = co_adm c \<and> co_fed c' = co_fed c \<and> co_ledger c' = co_ledger c
     \<and> co_ws c' = (co_ws c)\<lparr>ws_resize := ws_resize (co_ws c')\<rparr>"
  by (auto simp: closing_resize_def split: option.splits if_splits poll.splits)

section \<open>Blocking work\<close>

lemma qsteps_take:
  "take_next (co_adm c) = (Some cmd, a) \<or> take_next_if P (co_adm c) = (Some cmd, a)
    \<or> take_next_output_while_serving (co_adm c) = (Some cmd, a)
    \<or> take_checkpoint_if_any_work (co_adm c) = (Some (Some cmd), a)
   \<Longrightarrow> qsteps A None c (Some cmd) (c\<lparr>co_adm := a\<rparr>)"
  using step_take [of "queue_view A None c" cmd a P]
  by (auto simp: qsteps_def queue_view_def)

lemma take_none:
  "take_next a = (None, b) \<Longrightarrow> b = a" "take_next_if P a = (None, b) \<Longrightarrow> b = a"
  "take_next_output_while_serving a = (None, b) \<Longrightarrow> b = a"
  "take_checkpoint_if_any_work a = (None, b) \<Longrightarrow> b = a"
  "take_checkpoint_if_any_work a = (Some None, b) \<Longrightarrow> b = a"
  by (auto simp: take_next_def take_next_if_def take_next_output_while_serving_def take_checkpoint_if_any_work_def
      Let_def split: list.splits if_splits prod.splits)

lemma take_checkpoint_kind: "take_checkpoint_if_any_work a = (Some (Some cmd), b) \<Longrightarrow> is_checkpoint cmd"
  by (auto simp: take_checkpoint_if_any_work_def take_next_if_def split: list.splits if_splits)

lemma is_checkpoint_iff: "is_checkpoint cmd \<longleftrightarrow> (\<exists>r s. cmd = CmdCheckpoint r s)"
  by (cases cmd) auto

lemma qsteps_restore: "queue_begin_restore (co_adm c) = Ok a \<Longrightarrow> co_adm d = a \<Longrightarrow> co_fed d = co_fed c \<Longrightarrow> qsteps A h c h d"
  by (rule qsteps_adm [OF step_restore]) simp_all

lemma qsteps_start_read_none: "start_read an None c = (w, c') \<Longrightarrow> qsteps A h c h c'"
proof -
  assume s: "start_read an None c = (w, c')"
  have f: "qsteps A h c h (coord_fail e (on_ws g c))" for e g by (rule qsteps_left [OF qsteps_fail]) simp_all
  have r: "qsteps A h c h ((on_ws g c)\<lparr>co_adm := a\<rparr>)" if "queue_begin_restore (co_adm c) = Ok a" for a g
    by (rule qsteps_restore [OF that]) simp_all
  from s show ?thesis
    by (auto simp: start_read_def Let_def intro: qsteps_same qstep f r
        split: if_splits option.splits sum.splits prod.splits)
qed

lemma qsteps_start_read_some:
  assumes "start_read an (Some (CmdCheckpoint r l)) c = (w, c')"
  shows "qsteps A (Some (CmdCheckpoint r l)) c None c'"
proof (cases "co_services c \<and> ws_source (co_ws c) = None")
  case True
  with assms qsteps_drop [OF _ qsteps_fail, of "CmdCheckpoint r l"] show ?thesis by (auto simp: start_read_def)
next
  case False
  with assms have "co_adm c' = co_adm c \<and> co_fed c' = co_fed c"
    by (auto simp: start_read_def Let_def split: if_splits option.splits sum.splits prod.splits)
  then show ?thesis by (auto intro: qsteps_done)
qed

lemma qsteps_read_back: "read_back_source an c = (w, c') \<Longrightarrow> qsteps A None c None c'"
proof -
  assume r: "read_back_source an c = (w, c')"
  show ?thesis
  proof (cases "io_busy (ws_io (co_ws c))")
    case True
    with r show ?thesis by (auto simp: read_back_source_def intro: qsteps_same)
  next
    case False
    obtain x a where x: "take_checkpoint_if_any_work (co_adm c) = (x, a)" by force
    consider "x = None" | "x = Some None" | cmd where "x = Some (Some cmd)" by (cases x) auto
    then show ?thesis
    proof cases
      case 1
      with False r x show ?thesis by (auto simp: read_back_source_def dest!: take_none(4) intro: qsteps_same)
    next
      case 2
      with False r x take_none(5) [of "co_adm c" a] have "start_read an None c = (w, c')" by (auto simp: read_back_source_def)
      then show ?thesis by (rule qsteps_start_read_none)
    next
      case 3
      with x take_checkpoint_kind obtain q l where cmd: "cmd = CmdCheckpoint q l" by (force simp: is_checkpoint_iff)
      have s: "start_read an (Some (CmdCheckpoint q l)) (c\<lparr>co_adm := a\<rparr>) = (w, c')"
        using False r x 3 cmd by (simp add: read_back_source_def)
      have "qsteps A None c (Some (CmdCheckpoint q l)) (c\<lparr>co_adm := a\<rparr>)"
        using x 3 cmd by (intro qsteps_take) simp
      from qsteps_trans [OF this qsteps_start_read_some [OF s]] show ?thesis .
    qed
  qed
qed

lemma qsteps_park_failed [qstep]: "co_adm d = queue_park_failed (co_adm c) e now \<Longrightarrow> co_fed d = co_fed c \<Longrightarrow> qsteps A h c h d"
  by (rule qsteps_adm [OF step_park_failed]) simp_all

lemma qsteps_start_park: "start_park an eg c = (w, c') \<Longrightarrow> qsteps A None c None c'"
proof -
  assume s: "start_park an eg c = (w, c')"
  obtain p a where p: "queue_begin_park (co_adm c) (an_now an) = (p, a)" by force
  have one: "qsteps A None c None (c\<lparr>co_adm := a\<rparr>)"
    by (rule qsteps_adm [OF step_begin_park]) (use p in auto)
  show ?thesis
  proof (cases "co_services c")
    case False
    with s show ?thesis by (auto simp: start_park_def intro: qsteps_same)
  next
    case True
    show ?thesis
    proof (cases p)
      case (ParkReady attempt)
      obtain r d where r: "park_resources an eg (c\<lparr>co_adm := a\<rparr>) = (r, d)" by force
      then have two: "qsteps A None (c\<lparr>co_adm := a\<rparr>) None d"
        by (auto simp: park_resources_def intro: qsteps_same qsteps_extract
            split: if_splits option.splits sum.splits prod.splits)
      have three: "qsteps A None d None c'"
        using s True p ParkReady r
        by (auto simp: start_park_def Let_def intro: qstep
            split: sum.splits prod.splits)
      from qsteps_trans [OF one qsteps_trans [OF two three]] show ?thesis .
    qed (use s True p one in \<open>auto simp: start_park_def\<close>)
  qed
qed

lemma coord_retire_simps [simp]:
  "co_adm (coord_retire s c) = co_adm c" "co_fed (coord_retire s c) = co_fed c"
  "co_adm (retire_source c) = co_adm c" "co_fed (retire_source c) = co_fed c"
  by (simp_all add: coord_retire_def retire_source_def split: option.splits)

lemma qsteps_progress: "qsteps A h c h (history_progress p c)"
proof (cases "Admission_Queue.record_restoration_progress (co_adm c) p")
  case (Inl e)
  then show ?thesis by (simp add: history_progress_def qsteps_fail)
next
  case (Inr a)
  have "qsteps A h c h (c\<lparr>co_adm := a\<rparr>)" by (rule qsteps_adm [OF step_progress]) (use Inr in auto)
  then show ?thesis using Inr by (auto simp: history_progress_def Let_def intro: qsteps_right)
qed

lemma qsteps_finish_commit: "qsteps A None c None (finish_commit an attempt disk result c)"
proof (cases "case result of Ok r \<Rightarrow> r | Err e \<Rightarrow> Uncertain e")
  case (Published r)
  obtain b a where b: "queue_commit_park (co_adm c) attempt = (b, a)" by force
  have "qsteps A None c None (c\<lparr>co_adm := a\<rparr>)" by (rule qsteps_adm [OF step_commit_park]) (use b in auto)
  then show ?thesis using Published b by (auto simp: finish_commit_def Let_def intro: qsteps_right)
next
  case (Rejected e)
  then show ?thesis by (auto simp: finish_commit_def intro: qstep)
next
  case (Uncertain e)
  have "qsteps A None c None (on_adm (\<lambda>a. park_outcome_uncertain a e (an_now an)) (c\<lparr>co_ledger := l\<rparr>))" for l
    by (rule qsteps_adm [OF step_park_uncertain]) simp_all
  with Uncertain show ?thesis by (simp add: finish_commit_def)
qed

lemma qsteps_finish_restore: "qsteps A h c h (finish_restore eg resident memory result c)"
proof -
  obtain r d where r: "(case result of Err e \<Rightarrow> (Err e, c)
      | Ok checkpoint \<Rightarrow> native_call (eg_restore eg checkpoint (ws_config (co_ws c))) c) = (r, d)" by force
  then have one: "qsteps A h c h d" by (auto intro: qsteps_same qsteps_native split: sum.splits)
  show ?thesis
  proof (cases r)
    case (Inl e)
    with r qsteps_trans [OF one qsteps_fail] show ?thesis by (simp add: finish_restore_def)
  next
    case (Inr m)
    obtain k d' where k: "native_call (eg_progress eg m) d = (k, d')" by force
    note two = qsteps_trans [OF one qsteps_native [OF k]]
    have "qsteps A h d' h (history_progress p (on_ws f d'))" for p f
      by (rule qsteps_left [OF qsteps_progress]) simp_all
    with qsteps_trans [OF two] two r Inr k show ?thesis by (auto simp: finish_restore_def split: sum.splits)
  qed
qed

lemma qsteps_finish_io: "qsteps A None c None (finish_io an eg c)"
proof -
  obtain f io where f: "take_finished (ws_io (co_ws c)) = (f, io)" by force
  let ?d = "on_ws (\<lambda>w. w\<lparr>ws_io := io\<rparr>) c"
  have left: "qsteps A None c None x" if "qsteps A None ?d None x" for x
    using qsteps_left [OF that, of c] by simp
  have m: "qsteps A None c None (on_adm (\<lambda>a. queue_maintenance_failed a e) (on_ws g ?d))" for e g
    by (rule qsteps_adm [OF step_maintenance]) simp_all
  show ?thesis
  proof (cases "co_services c")
    case False
    then show ?thesis by (simp add: finish_io_def qsteps_same)
  next
    case True
    with f show ?thesis
      by (auto simp: finish_io_def Let_def intro: left [OF qsteps_finish_commit] left [OF qsteps_finish_restore] qsteps_same m
          split: option.splits finished_io.splits prod.splits)
  qed
qed

section \<open>The worker\<close>

lemma start_delete_keeps:
  "start_delete an c = (w, c') \<Longrightarrow> co_adm c' = co_adm c \<and> co_fed c' = co_fed c"
  by (auto simp: start_delete_def split: prod.splits)

lemma qsteps_delete: "start_delete an c = (w, c') \<Longrightarrow> qsteps A h c h c'"
  using start_delete_keeps by (metis qsteps_same)

lemma qsteps_while_failed: "work_while_failed an c = (w, c') \<Longrightarrow> qsteps A h c h c'"
  by (auto simp: work_while_failed_def intro: qsteps_same qsteps_delete split: if_splits)

lemma qsteps_pop:
  assumes "take_next (co_adm c) = (Some cmd, a) \<or> take_next_if P (co_adm c) = (Some cmd, a)
      \<or> take_next_output_while_serving (co_adm c) = (Some cmd, a)" "co_adm d = a" "co_fed d = co_fed c"
  shows "qsteps A None c (Some cmd) d"
proof -
  from assms(1) have "qsteps A None c (Some cmd) (c\<lparr>co_adm := a\<rparr>)" by (auto intro!: qsteps_take)
  then show ?thesis by (rule qsteps_right) (simp_all add: assms)
qed

lemma feeding_taken:
  assumes "take_next (co_adm c) = (Some cmd, a) \<or> take_next_if P (co_adm c) = (Some cmd, a)
      \<or> take_next_output_while_serving (co_adm c) = (Some cmd, a)"
    "apply_command an eg cmd d = (w, c')" "co_adm d = a" "co_fed d = co_fed c"
  shows "feeding l A None c c'"
    "settled c \<Longrightarrow> queue_inv l (queue_view A None c) \<Longrightarrow> is_output cmd \<Longrightarrow> w = WorkAfter 0 \<Longrightarrow> settled c'"
proof -
  note pop = qsteps_pop [OF assms(1,3,4), of A]
  show "feeding l A None c c'" by (rule feeding_after [OF pop feeding_command(1) [OF assms(2)]])
  show "settled c'" if "settled c" "queue_inv l (queue_view A None c)" "is_output cmd" "w = WorkAfter 0"
    by (rule feeding_command(2) [OF assms(2), where l = l and A = A])
      (use that qsteps_settled [OF pop] fsteps_inv [OF qsteps_fsteps [OF pop]] in auto)
qed

lemma feeding_restore_step:
  assumes "restore_step an eg c = (w, c')"
  shows "feeding l A None c c'"
proof -
  obtain x a where x: "(if ws_history_step_owed (co_ws c) then (None, co_adm c)
      else take_next_if (admitted_while_restoring eg) (co_adm c)) = (x, a)" by force
  show ?thesis
  proof (cases x)
    case (Some cmd)
    with x have t: "take_next_if (admitted_while_restoring eg) (co_adm c) = (Some cmd, a)" by (simp split: if_splits)
    with assms x Some show ?thesis
      by (auto simp: restore_step_def intro: feeding_taken(1) [where P = "admitted_while_restoring eg"])
  next
    case None
    with x have a: "a = co_adm c" by (auto dest: take_none(2) split: if_splits)
    obtain r d where r: "engine_call (eg_history_step eg) c = (r, d)" by force
    note one = qsteps_engine [OF r, of A None]
    have two: "qsteps A None d None (history_progress p (on_ws f d))" "qsteps A None d None (coord_fail e (on_ws f d))" for p e f
      by (rule qsteps_left [OF qsteps_progress], simp_all, rule qsteps_left [OF qsteps_fail], simp_all)
    from assms x None r show ?thesis
      by (auto simp: restore_step_def Let_def a intro!: feeding_kept intro: qsteps_same qsteps_trans [OF one two(1)] qsteps_trans [OF one two(2)]
          split: if_splits sum.splits)
  qed
qed

text \<open>The batch goes on only after a chunk that was recorded.\<close>

lemma batch_fed:
  "serve_batch ans eg n k batched w c = (w', c') \<Longrightarrow> fsteps A None c None c' \<and>
    (queue_inv l (queue_view A None c) \<and> fed_ok A c \<and> (w = WorkAfter 0 \<longrightarrow> settled c) \<longrightarrow> fed_ok A c')"
proof (induction ans eg n k batched w c rule: serve_batch.induct)
  case (1 ans eg k batched w c)
  then show ?case by (simp add: qsteps_fsteps qsteps_same)
next
  case (2 ans eg n k batched w c)
  let ?go = "batched < OUTPUT_BATCH_BYTES \<and> w = WorkAfter 0 \<and> ws_reply (co_ws c) = None \<and> ws_resize (co_ws c) = None"
  obtain x a where x: "take_next_output_while_serving (co_adm c) = (x, a)" by force
  show ?case
  proof (cases "?go \<and> x \<noteq> None")
    case False
    have "co_adm c' = co_adm c \<and> co_fed c' = co_fed c"
      using 2(2) False x take_none(3) [of "co_adm c" a] by (auto split: if_splits)
    then show ?thesis by (auto simp: fed_ok_def settled_def stopped_def intro: qsteps_fsteps qsteps_same)
  next
    case True
    then obtain cmd where cmd: "x = Some cmd" by blast
    obtain v d where v: "apply_command (ans k) eg cmd (c\<lparr>co_adm := a\<rparr>) = (v, d)" by force
    have out: "is_output cmd"
      using x cmd by (auto simp: take_next_output_while_serving_def take_next_if_def Let_def split: if_splits list.splits)
    have fed: "feeding l A None c d"
      by (rule feeding_taken(1) [OF _ v, where a = a]) (use x cmd in auto)
    have set: "settled d" if "settled c" "queue_inv l (queue_view A None c)" "v = WorkAfter 0"
      by (rule feeding_taken(2) [OF _ v, where a = a]) (use x cmd out that in auto)
    have "serve_batch ans eg n (Suc k) (batched + length (command_bytes cmd)) v d = (w', c')"
      using 2(2) True x cmd v by auto
    note IH = 2(1) [OF conjunct1 [OF True] x [symmetric] cmd v [symmetric] this]
    from IH fed have "fsteps A None c None c'" by (auto simp: feeding_def intro: fsteps_trans)
    moreover have "fed_ok A c'" if i: "queue_inv l (queue_view A None c)" "settled c"
    proof -
      have "queue_inv l (queue_view A None d)" "fed_ok A d" "v = WorkAfter 0 \<longrightarrow> settled d"
        using fed i set fsteps_inv by (auto simp: feeding_def)
      with IH show ?thesis by blast
    qed
    ultimately show ?thesis using True by blast
  qed
qed

lemma feeding_served:
  assumes "take_next (co_adm c) = (Some cmd, a)" "apply_command an eg cmd (c\<lparr>co_adm := a\<rparr>) = (v, d)"
  shows "feeding l A None c d"
    "is_output cmd \<Longrightarrow> serve_batch ans eg n k batched v d = (w, c') \<Longrightarrow> feeding l A None c c'"
proof -
  note one = feeding_taken [OF disjI1 [OF assms(1)] assms(2), where l = l and A = A]
  show d: "feeding l A None c d" by (rule one(1)) simp_all
  assume o: "is_output cmd" and b: "serve_batch ans eg n k batched v d = (w, c')"
  have "fed_ok A c'" if i: "settled c" "queue_inv l (queue_view A None c)"
  proof -
    have "queue_inv l (queue_view A None d)" "fed_ok A d" using d i fsteps_inv by (auto simp: feeding_def)
    with batch_fed [OF b, of A l] one(2) i o show ?thesis by auto
  qed
  with d batch_fed [OF b, of A l] show "feeding l A None c c'" unfolding feeding_def by (blast intro: fsteps_trans)
qed

lemma feeding_serve:
  assumes "serve ans eg c = (w, c')"
  shows "feeding l A None c c'"
proof -
  obtain maintenance c1 where m: "(if \<not> io_busy (ws_io (co_ws c)) \<and> holds_sources (ws_reaper (co_ws c))
            then (case start_delete (ans 0) c of (w, c) \<Rightarrow> (Some w, c)) else (None, c)) = (maintenance, c1)" by force
  then have one: "qsteps A None c None c1" by (auto intro: qsteps_same qsteps_delete split: if_splits prod.splits)
  obtain x a where x: "take_next (co_adm c1) = (x, a)" by force
  have "feeding l A None c1 c'"
  proof (cases x)
    case (Some cmd)
    obtain v d where v: "apply_command (ans 0) eg cmd (c1\<lparr>co_adm := a\<rparr>) = (v, d)" by force
    have "(if is_output cmd then serve_batch ans eg (OUTPUT_BATCH - 1) 1 (length (command_bytes cmd)) v d else (v, d)) = (w, c')"
      using assms m x Some v by (simp add: serve_def)
    with feeding_served [OF x [unfolded Some] v] show ?thesis by (auto split: if_splits)
  next
    case None
    with x have "a = co_adm c1" by (auto dest: take_none(1))
    with None assms m x show ?thesis
      by (auto simp: serve_def Let_def intro!: feeding_kept intro: qsteps_same qsteps_delete qsteps_start_park
          split: option.splits if_splits)
  qed
  with one show ?thesis by (rule feeding_after)
qed

lemma qsteps_seal: "qsteps A h c h (seal_journal_if_drained c)"
proof (cases "settled_drain (co_adm c) (ws_resize (co_ws c) = None \<and> ws_reply (co_ws c) = None)")
  case None
  then show ?thesis by (simp add: seal_journal_if_drained_def Let_def qsteps_same)
next
  case (Some drain)
  show ?thesis
  proof (cases "finish_program_drain c")
    case (Inl e)
    with Some show ?thesis by (simp add: seal_journal_if_drained_def Let_def qsteps_fail)
  next
    case (Inr d)
    with Some finish_program_drain_Ok [OF Inr] show ?thesis by (simp add: seal_journal_if_drained_def Let_def qsteps_same)
  qed
qed

lemma qsteps_consume: "qsteps A None c None (consume_exit c)"
proof -
  obtain x a where x: "take_next_if (\<lambda>cmd. cmd = CmdProcessExited) (co_adm c) = (x, a)" by force
  show ?thesis
  proof (cases x)
    case None
    with x show ?thesis by (auto simp: consume_exit_def dest!: take_none(2) intro: qsteps_same)
  next
    case (Some cmd)
    then have cmd: "cmd = CmdProcessExited" using x by (auto simp: take_next_if_def split: list.splits if_splits)
    have "qsteps A None c (Some cmd) (c\<lparr>co_adm := a\<rparr>)"
      using x Some by (intro qsteps_take [where P = "\<lambda>cmd. cmd = CmdProcessExited"]) simp
    moreover have "qsteps A (Some cmd) (c\<lparr>co_adm := a\<rparr>) None (apply_exit (c\<lparr>co_adm := a\<rparr>))"
      using cmd by (intro qsteps_drop qsteps_exit) simp
    ultimately show ?thesis using x Some by (auto simp: consume_exit_def intro: qsteps_trans)
  qed
qed

lemma qsteps_cleanup_finish:
  assumes "cleanup_finish failed c = (w, c')" "ad_closed (co_adm c)"
  shows "qsteps A None c None c'"
proof -
  obtain ws f a where f: "finish_close (co_adm c) failed = (ws, f, a)" by (metis prod_cases3)
  have "qsteps A None c None (c\<lparr>co_adm := a\<rparr>)" by (rule qsteps_adm [OF step_finish_close]) (use f assms(2) in auto)
  then show ?thesis using assms(1) f by (auto simp: cleanup_finish_def intro: qsteps_right)
qed

lemma qsteps_retry: "take_cleanup_retry (co_adm c) = (e, b, a) \<Longrightarrow> co_adm d = a \<Longrightarrow> co_fed d = co_fed c \<Longrightarrow> qsteps A h c h d"
  by (rule qsteps_adm [OF step_cleanup_retry]) simp_all

lemma qsteps_cleanup:
  assumes "cleanup an c = (w, c')" "ad_closed (co_adm c)"
  shows "qsteps A None c None c'"
proof -
  let ?d = "on_ws (\<lambda>w. w\<lparr>ws_terminal := None, ws_resident := None, ws_restore_memory := None, ws_reply := None\<rparr>)
                (clear_program_status c)"
  have d: "co_adm ?d = co_adm c" "co_fed ?d = co_fed c" by (simp_all add: clear_program_status_def)
  obtain x e where x: "closing_resize an ?d = (x, e)" by force
  from closing_resize_keeps [OF this] d have e: "co_adm e = co_adm c" "co_fed e = co_fed c" by auto
  show ?thesis
  proof (cases "x = None \<and> \<not> io_busy (ws_io (co_ws e))")
    case False
    with assms(1) x e show ?thesis by (auto simp: cleanup_def Let_def intro: qsteps_same split: option.splits if_splits)
  next
    case True
    obtain failed retry a where t: "take_cleanup_retry (co_adm e) = (failed, retry, a)" by (metis prod_cases3)
    let ?f = "(if retry then on_ws (\<lambda>w. w\<lparr>ws_reaper := restore_attempts (ws_reaper w)\<rparr>) ((retire_source e)\<lparr>co_adm := a\<rparr>)
      else (retire_source e)\<lparr>co_adm := a\<rparr>)"
    have f: "co_adm ?f = a" "co_fed ?f = co_fed c" using e by auto
    have one: "qsteps A None c None ?f" by (rule qsteps_retry [of c failed retry a]) (use t e f in auto)
    have closed: "ad_closed a" using t e assms(2) by (auto simp: take_cleanup_retry_def)
    have fin: "qsteps A None ?f None y" if "cleanup_finish failed g = (v, y)" "co_adm g = co_adm ?f" "co_fed g = co_fed ?f" for g v y
      by (rule qsteps_left [OF qsteps_cleanup_finish [OF that(1)]]) (use that f closed in simp_all)
    have del: "qsteps A None ?f None y" if "start_delete an ?f = (v, y)" for v y
      using that by (rule qsteps_delete)
    have c': "(if holds_sources (ws_reaper (co_ws ?f)) then
                   (if failed \<noteq> None then
                      (case surrender (ws_reaper (co_ws ?f)) of (us, r) \<Rightarrow>
                         cleanup_finish failed
                           (on_ws (\<lambda>w. w\<lparr>ws_reaper := r\<rparr>) (?f\<lparr>co_ledger := co_ledger ?f @ us\<rparr>)))
                    else start_delete an ?f)
                 else cleanup_finish failed ?f) = (w, c')"
      using assms(1) x True t unfolding cleanup_def Let_def by (simp only: coord_retire_simps prod.case option.case simp_thms if_False)
    have "qsteps A None ?f None c'"
    proof (cases "holds_sources (ws_reaper (co_ws ?f)) \<and> failed \<noteq> None")
      case True
      obtain us r where "surrender (ws_reaper (co_ws ?f)) = (us, r)" by force
      with c' True have "cleanup_finish failed (on_ws (\<lambda>w. w\<lparr>ws_reaper := r\<rparr>) (?f\<lparr>co_ledger := co_ledger ?f @ us\<rparr>)) = (w, c')"
        by (simp only: prod.case simp_thms if_True)
      then show ?thesis by (rule fin) simp_all
    next
      case False
      with c' have "start_delete an ?f = (w, c') \<or> cleanup_finish failed ?f = (w, c')"
        by (simp only: split: if_splits) blast+
      with del fin [of ?f] show ?thesis by blast
    qed
    with one show ?thesis by (rule qsteps_trans)
  qed
qed

text \<open>A failure is never forgotten, and a close never undone.\<close>

lemma queue_step_failure:
  "queue_step s t \<Longrightarrow> ps_failure (queue_status (aq_adm s)) \<noteq> None \<Longrightarrow> ps_failure (queue_status (aq_adm t)) \<noteq> None"
proof (induction rule: queue_step.induct)
  case (step_take s c a P)
  then show ?case using takes_keep_policy by (fastforce simp: queue_status_def)
next
  case (step_requeue s c r a)
  then show ?case using takes_keep_policy(5) by (fastforce simp: queue_status_def)
next
  case (step_commit_park s attempt b a)
  then show ?case
    by (auto simp: queue_commit_park_def commit_park_def queue_status_def Let_def map_status_def split: prod.splits if_splits)
next
  case (step_finish_close s e ws f a)
  then show ?case
    by (auto simp: finish_close_def Let_def queue_status_def mark_closed_def cleanup_failed_def map_status_def split: option.splits)
qed (auto simp: queue_status_def queue_admit_output_def stage_accept_def admit_output_bytes_def queue_admit_def resize_build_def
    view_build_def checkpoint_build_def admitting_record_activity_def record_process_exit_def queue_record_drain_def
    queue_record_processed_def queue_begin_park_def queue_park_failed_def park_outcome_uncertain_def
    queue_maintenance_failed_def queue_begin_restore_def record_restoration_progress_def queue_record_control_applied_def
    queue_fail_def mark_failed_def request_close_def take_cleanup_retry_def abandon_close_def abandon_waiters_def policy_defs
    bind_result_Ok_iff Let_def split: if_splits option.splits sum.splits prod.splits)

lemma queue_steps_stopped:
  "queue_steps s t \<Longrightarrow> (ad_closed (aq_adm s) \<longrightarrow> ad_closed (aq_adm t))
    \<and> (ps_failure (queue_status (aq_adm s)) \<noteq> None \<longrightarrow> ps_failure (queue_status (aq_adm t)) \<noteq> None)"
proof (induction rule: rtranclp_induct)
  case (step t u)
  then show ?case using queue_step_closed [of t u] queue_step_failure [of t u] by blast
qed simp

lemma closed_kept: "qsteps A h c h' c' \<Longrightarrow> ad_closed (co_adm c) \<Longrightarrow> ad_closed (co_adm c')"
  and failure_kept: "qsteps A h c h' c' \<Longrightarrow> ps_failure (co_status c) \<noteq> None \<Longrightarrow> ps_failure (co_status c') \<noteq> None"
  using queue_steps_stopped [of "queue_view A h c" "queue_view A h' c'"] unfolding qsteps_def queue_view_simps by blast+

lemma fed_ok_kept: "qsteps A h c h' c' \<Longrightarrow> fed_ok A c \<Longrightarrow> fed_ok A c'"
  using closed_kept failure_kept qsteps_settled qsteps_fed unfolding fed_ok_def stopped_def by metis

text \<open>Whoever reaches the serving part of a run is settled: the two checks on the way there
  exclude a projection that has stopped.\<close>

definition run_serves :: "(nat \<Rightarrow> answers) \<Rightarrow> 'm engine \<Rightarrow> 'm coordinator \<Rightarrow> 'm coordinator \<Rightarrow> bool" where
  "run_serves ans eg c e \<longleftrightarrow>
     (let d = finish_io (ans 0) eg c in
      co_services c \<and> \<not> is_closed_residency (co_residency d) \<and> co_residency d \<noteq> Failed
      \<and> poll_inflight_operations (ans 0) eg d = (None, e) \<and> ps_failure (co_status e) = None)"

lemma qsteps_run_serves:
  assumes "run_serves ans eg c e"
  shows "qsteps A None c None e"
  using assms qsteps_trans [OF qsteps_finish_io qsteps_poll] by (fastforce simp: run_serves_def Let_def)

lemma run_serves_settled:
  assumes "run_serves ans eg c e" "fed_ok A c"
  shows "settled c"
proof -
  let ?d = "finish_io (ans 0) eg c"
  have d: "qsteps A None c None ?d" by (rule qsteps_finish_io)
  have e: "qsteps A None ?d None e" using assms(1) by (auto simp: run_serves_def Let_def intro: qsteps_poll)
  have "\<not> ad_closed (co_adm ?d)" "ps_failure (co_status e) = None"
    using assms(1) by (auto simp: run_serves_def Let_def queue_status_def)
  then have "\<not> stopped c" using closed_kept [OF d] failure_kept [OF qsteps_trans [OF d e]]
    unfolding stopped_def by blast
  with assms(2) show "settled c" by (auto simp: fed_ok_def)
qed

lemma feeding_phase: "run_phase ans eg residency c = (w, c') \<Longrightarrow> feeding l A None c c'"
  by (auto simp: run_phase_def intro: feeding_kept qsteps_read_back feeding_restore_step feeding_serve split: if_splits)

lemma run_cases:
  assumes "coord_run ans eg c = (w, c')"
  obtains "\<And>A. qsteps A None c None c'"
  | e residency where "run_serves ans eg c e" "run_phase ans eg residency (seal_journal_if_drained (consume_exit e)) = (w, c')"
proof -
  let ?d = "finish_io (ans 0) eg c"
  have one: "qsteps A None c None ?d" for A by (rule qsteps_finish_io)
  obtain v e where v: "poll_inflight_operations (ans 0) eg ?d = (v, e)" by force
  have two: "qsteps A None c None e" for A by (rule qsteps_trans [OF one qsteps_poll [OF v]])
  consider "\<not> co_services c" | "co_services c" "is_closed_residency (co_residency ?d) \<or> co_residency ?d = Failed"
    | "co_services c" "\<not> is_closed_residency (co_residency ?d)" "co_residency ?d \<noteq> Failed" by blast
  then show thesis
  proof cases
    case 1
    with assms that(1) show thesis by (simp add: coord_run_def qsteps_same)
  next
    case 2
    then have "qsteps A None ?d None c'" for A
      using assms by (auto simp: coord_run_def Let_def queue_status_def intro: qsteps_cleanup qsteps_while_failed split: if_splits)
    with one show thesis using that(1) qsteps_trans by blast
  next
    case 3
    note c' = assms [unfolded coord_run_def Let_def]
    show thesis
    proof (cases "v = None \<and> ps_failure (co_status e) = None")
      case True
      with 3 v c' have "run_phase ans eg (co_residency ?d) (seal_journal_if_drained (consume_exit e)) = (w, c')" by simp
      moreover have "run_serves ans eg c e" using True 3 v by (simp add: run_serves_def Let_def)
      ultimately show thesis using that(2) by blast
    next
      case False
      with 3 v c' have "c' = e \<or> work_while_failed (ans 0) e = (w, c')" by (auto split: option.splits)
      with two qsteps_trans [OF two qsteps_while_failed] show thesis by (intro that(1)) auto
    qed
  qed
qed

text \<open>An operation of the running coordinator, with an empty hand before and after.\<close>

definition keeps_fed :: "session_lifetime \<Rightarrow> bytes \<Rightarrow> 'm coordinator \<Rightarrow> 'm coordinator \<Rightarrow> bool" where
  "keeps_fed l A c c' \<longleftrightarrow>
     fsteps A None c None c' \<and> (fed_ok A c \<and> queue_inv l (queue_view A None c) \<longrightarrow> fed_ok A c')"

lemma keeps_fed_kept: "qsteps A None c None c' \<Longrightarrow> keeps_fed l A c c'"
  unfolding keeps_fed_def using fed_ok_kept qsteps_fsteps by blast

lemma keeps_fed_trans: "keeps_fed l A c d \<Longrightarrow> keeps_fed l A d c' \<Longrightarrow> keeps_fed l A c c'"
  unfolding keeps_fed_def using fsteps_inv fsteps_trans by blast

lemma qsteps_run_sealed:
  "run_serves ans eg c e \<Longrightarrow> qsteps A None c None (seal_journal_if_drained (consume_exit e))"
  by (rule qsteps_trans [OF qsteps_run_serves qsteps_trans [OF qsteps_consume qsteps_seal]])

lemma keeps_fed_serving:
  assumes "run_serves ans eg c e" "feeding l A None (seal_journal_if_drained (consume_exit e)) c'"
  shows "keeps_fed l A c c'"
  using feeding_after [OF qsteps_run_sealed [OF assms(1)] assms(2)] run_serves_settled [OF assms(1), of A]
  by (auto simp: feeding_def keeps_fed_def)

lemma keeps_fed_run: "coord_run ans eg c = (w, c') \<Longrightarrow> keeps_fed l A c c'"
  by (erule run_cases) (blast intro: keeps_fed_kept keeps_fed_serving feeding_phase)+

section \<open>Callers\<close>

lemma qsteps_wake: "qsteps A h c h (wake_or_fail cl c)"
  by (auto simp: wake_or_fail_def intro: qsteps_same qstep split: sum.splits)

lemma qsteps_stage:
  assumes "stage_output cl bs c = (r, c')"
  shows "\<exists>A'. (A' = A \<or> (A' = A @ bs \<and> r = OutAccepted)) \<and> queue_steps (queue_view A None c) (queue_view A' None c')
    \<and> (r = OutAccepted \<longrightarrow> A' = A @ bs) \<and> co_fed c' = co_fed c"
proof -
  let ?lease = "case reserve_staging cl (len_u64 bs) c of Ok l \<Rightarrow> Some l | Err _ \<Rightarrow> None"
  let ?acc = "stage_accept (tc_feed_bytes (po_terminal (cf_options (co_config c)))) bs ?lease (cl_alloc cl) (cl_now cl)"
  obtain out a where q: "queue_admit_output ?acc (co_adm c) = (out, a)" by force
  consider "\<not> co_services c" | "co_services c" "out = OutQueued" | "co_services c" "out \<noteq> OutQueued" by blast
  then show ?thesis
  proof cases
    case 1
    with assms show ?thesis by (auto simp: stage_output_def queue_view_def)
  next
    case 2
    let ?d = "c\<lparr>co_adm := a\<rparr>"
    have "queue_step (queue_view A None c) ((queue_view A None c)\<lparr>aq_adm := a, aq_accepted := A @ bs\<rparr>)"
      using step_output [of _ bs ?lease "cl_alloc cl" "cl_now cl" "queue_view A None c" a] q 2 by simp
    also have "(queue_view A None c)\<lparr>aq_adm := a, aq_accepted := A @ bs\<rparr> = queue_view (A @ bs) None ?d"
      by (simp add: queue_view_def)
    finally have "queue_steps (queue_view A None c) (queue_view (A @ bs) None ?d)" by auto
    moreover have "queue_steps (queue_view (A @ bs) None ?d) (queue_view (A @ bs) None c')" "r = OutAccepted" "co_fed c' = co_fed c"
      using assms q 2 qsteps_wake [of "A @ bs" None ?d cl] by (auto simp: stage_output_def Let_def qsteps_def)
    ultimately show ?thesis by (meson rtranclp_trans)
  next
    case 3
    have "queue_step (queue_view A None c) ((queue_view A None c)\<lparr>aq_adm := a\<rparr>)"
      using step_output_refused [of _ bs ?lease "cl_alloc cl" "cl_now cl" "queue_view A None c" out a] q 3 by simp
    moreover have "c' = c\<lparr>co_adm := a\<rparr>" "r = OutAccepted \<longrightarrow> bs = []"
      using assms q 3
      by (auto simp: stage_output_def Let_def queue_admit_output_def stage_accept_def
          split: output_outcome.splits if_splits option.splits sum.splits prod.splits output_admission.splits)
    ultimately show ?thesis by (auto simp: queue_view_def)
  qed
qed

definition control_build :: "(ticket_id \<Rightarrow> staging_lease \<Rightarrow> admission \<Rightarrow> (projection_error, command \<times> admission) result) \<Rightarrow> bool"
where
  "control_build b \<longleftrightarrow> (\<exists>sz now. b = (\<lambda>t lease. resize_build sz t lease now)) \<or> b = view_build
     \<or> (\<exists>r. b = (\<lambda>t. checkpoint_build (r t)))"

lemma qsteps_admit_control:
  assumes "admit_control cl b c = (r, c')" "control_build b"
  shows "qsteps A None c None c'"
proof (cases "\<exists>t lease a. reserve_request_slot cl = Ok t \<and> reserve_staging cl 0 c = Ok lease \<and> queue_admit (b t lease) (co_adm c) = Ok a")
  case False
  with assms(1) have "c' = c"
    by (auto simp: admit_control_def coord_admit_def bind_result_Ok_iff split: sum.splits)
  then show ?thesis by (simp add: qsteps_same)
next
  case True
  then obtain t lease a where g: "reserve_request_slot cl = Ok t" "reserve_staging cl 0 c = Ok lease"
    "queue_admit (b t lease) (co_adm c) = Ok a" by blast
  obtain sz now r where kind: "b t lease = resize_build sz t lease now \<or> b t lease = view_build t lease \<or> b t lease = checkpoint_build r lease"
    using assms(2) by (auto simp: control_build_def)
  have "queue_step (queue_view A None c) ((queue_view A None c)\<lparr>aq_adm := a\<rparr>)"
    by (rule step_control [OF _ kind]) (simp add: g(3))
  then have "qsteps A None c None (c\<lparr>co_adm := a\<rparr>)" by (rule qsteps_adm) simp_all
  moreover have "c' = wake_or_fail cl (c\<lparr>co_adm := a\<rparr>)"
    using assms(1) g by (simp add: admit_control_def coord_admit_def)
  ultimately show ?thesis using qsteps_trans [OF _ qsteps_wake] by blast
qed

lemma qsteps_close: "coord_close cl c = (r, c') \<Longrightarrow> qsteps A None c None c'"
proof -
  assume k: "coord_close cl c = (r, c')"
  obtain x a where x: "request_close (co_adm c) (case reserve_request_slot cl of Ok t \<Rightarrow> Some t | Err _ \<Rightarrow> None) = (x, a)" by force
  have "qsteps A None c None (c\<lparr>co_adm := a\<rparr>)" by (rule qsteps_adm [OF step_close]) (use x in auto)
  moreover have "co_adm c' = a" "co_fed c' = co_fed c"
    using k x by (auto simp: coord_close_def Let_def split: close_request.splits sum.splits option.splits)
  ultimately show ?thesis by (auto intro: qsteps_right)
qed

lemma qsteps_notify_exit: "qsteps A None c None (notify_process_exited cl c)"
proof -
  obtain b a where b: "record_process_exit (co_adm c) = (b, a)" by force
  have one: "qsteps A None c None (c\<lparr>co_adm := a\<rparr>)" by (rule qsteps_adm [OF step_exit]) (use b in auto)
  with b qsteps_trans [OF one qsteps_wake] show ?thesis by (auto simp: notify_process_exited_def Let_def)
qed

lemma qsteps_notify_drain: "qsteps A None c None (notify_output_drained cl d c)"
proof -
  obtain e a where e: "queue_record_drain (co_adm c) d = (e, a)" by force
  have one: "qsteps A None c None x" if "co_adm x = a" "co_fed x = co_fed c" for x
    by (rule qsteps_adm [OF step_drain]) (use e that in auto)
  from e show ?thesis
    by (auto simp: notify_output_drained_def Let_def intro: one qsteps_trans [OF one qsteps_fail] split: option.splits)
qed

lemma qsteps_bind: "coord_bind_process cl c = (r, c') \<Longrightarrow> qsteps A None c None c'"
proof -
  assume "coord_bind_process cl c = (r, c')"
  moreover have "qsteps A None c None (wake_or_fail cl (c\<lparr>co_process := True\<rparr>))"
    by (rule qsteps_left [OF qsteps_wake]) simp_all
  ultimately show ?thesis by (auto simp: coord_bind_process_def Let_def intro: qsteps_same split: if_splits)
qed

lemma discard_simps [simp]:
  "co_adm (discard_operations c) = co_adm c" "co_fed (discard_operations c) = co_fed c"
  "co_ledger (discard_operations c) = co_ledger c"
  by (auto simp: discard_operations_def Let_def split: option.splits)

lemma qsteps_failed: "coord_failed c = (w, c') \<Longrightarrow> qsteps A None c None c'"
  by (auto simp: coord_failed_def Let_def intro: qsteps_right [OF qsteps_fail])

lemma abandon_pending_simps [simp]:
  "co_adm (abandon_pending p c) = co_adm c" "co_fed (abandon_pending p c) = co_fed c"
  by (auto simp: abandon_pending_def split: pending_io.splits)

lemma abandon_close_closed: "abandon_close a = (cs, b) \<Longrightarrow> ad_closed b"
  by (auto simp: abandon_close_def policy_close_def map_status_def is_closed_residency_def)

lemma release_after_shutdown_adm:
  "co_adm (release_after_shutdown c) = snd (abandon_waiters (co_adm c))"
  "co_fed (release_after_shutdown c) = co_fed c"
  by (simp_all add: release_after_shutdown_def Let_def surrender_def split: option.split prod.split)

lemma qsteps_release_after_shutdown:
  assumes "ad_closed (co_adm c)"
  shows "qsteps A None c None (release_after_shutdown c)"
  by (rule qsteps_adm [OF step_abandon_waiters [where ws = "fst (abandon_waiters (co_adm c))"]])
    (use assms in \<open>simp_all add: release_after_shutdown_adm\<close>)

lemma qsteps_shutdown: "qsteps A None c None (finish_after_shutdown an eg c)"
proof (cases "co_residency c = Closed")
  case True
  then show ?thesis by (simp add: finish_after_shutdown_def qsteps_same)
next
  case False
  obtain rejected a where a: "abandon_close (co_adm c) = (rejected, a)" by force
  define c1 where "c1 = fail_commands JWorker rejected
    ((clear_program_status c)\<lparr>co_journal := snd (journal_close (co_journal c)), co_adm := a\<rparr>)"
  have c1: "co_adm c1 = a" "co_fed c1 = co_fed c" by (simp_all add: c1_def clear_program_status_def)
  have "qsteps A None c None c1" by (rule qsteps_adm [OF step_abandon]) (use a c1 in auto)
  then have "qsteps A None c None (finish_io an eg c1)" by (rule qsteps_trans [OF _ qsteps_finish_io])
  moreover have "ad_closed (co_adm (finish_io an eg c1))"
    by (rule closed_kept [OF qsteps_finish_io]) (use c1 abandon_close_closed [OF a] in simp)
  ultimately have "qsteps A None c None (release_after_shutdown (finish_io an eg c1))"
    by (rule qsteps_trans [OF _ qsteps_release_after_shutdown])
  moreover have "finish_after_shutdown an eg c = release_after_shutdown (finish_io an eg c1)"
    using False a by (simp add: finish_after_shutdown_def Let_def clear_program_status_def c1_def)
  ultimately show ?thesis by simp
qed

section \<open>Interleavings of the coordinator\<close>

text \<open>
  The callers, the worker, the blocking pool and the owner's last-resort teardown, each
  taking one whole operation at a time.  (At the finer grain, where callers run between the
  queue operations of one worker run, the same ledger holds by theory \<open>Admission_Queue\<close>.)
  \<open>cy_accepted\<close> is a ghost: the bytes whose staging was accepted.
\<close>

datatype job_answer =
    AnsCommit "(projection_error, commit_outcome) result"
  | AnsRead "(projection_error, terminal_checkpoint) result"
  | AnsDelete "(projection_error, unit) result"

fun publish :: "pending_io \<Rightarrow> job_answer \<Rightarrow> pending_io option" where
  "publish (PendCommit a d m None) (AnsCommit r) = Some (PendCommit a d m (Some r))"
| "publish (PendRestore x m None) (AnsRead r) = Some (PendRestore x m (Some r))"
| "publish (PendTransfer q m s None) (AnsRead r) = Some (PendTransfer q m s (Some r))"
| "publish (PendDelete a None) (AnsDelete r) = Some (PendDelete a (Some r))"
| "publish _ _ = None"

record 'm coord_sys =
  cy_co :: "'m coordinator"
  cy_accepted :: bytes

text \<open>
  A run that panics.  A panic of the engine is caught by \<open>native_call\<close> and is an answer of the
  engine here; a panic of another port (the process, a future, the blocking pool, the clock)
  unwinds the run, which keeps what it had done: \<open>run_unwinds\<close> gives the states at which it may
  stop, at every boundary between its operations, up to any number of applied chunks, and with a
  control command lost from the worker's hand.  An output command calls no such port while it
  is in hand (\<^verbatim>\<open>output.rs\<close>), so none is lost.  The scheduler then calls \<open>failed\<close>.
\<close>

definition run_serving :: "(nat \<Rightarrow> answers) \<Rightarrow> 'm engine \<Rightarrow> 'm coordinator \<Rightarrow> 'm coordinator \<Rightarrow> bool" where
  "run_serving ans eg c f \<longleftrightarrow>
     (\<exists>e. run_serves ans eg c e \<and>
       (f = seal_journal_if_drained (consume_exit e)
        \<or> (\<exists>w. start_delete (ans 0) (seal_journal_if_drained (consume_exit e)) = (w, f))))"

inductive run_unwinds :: "(nat \<Rightarrow> answers) \<Rightarrow> 'm engine \<Rightarrow> 'm coordinator \<Rightarrow> 'm coordinator \<Rightarrow> bool"
  for ans eg c where
  unwind_start: "run_unwinds ans eg c c"
| unwind_io: "run_unwinds ans eg c (finish_io (ans 0) eg c)"
| unwind_poll: "poll_inflight_operations (ans 0) eg (finish_io (ans 0) eg c) = (v, e) \<Longrightarrow> run_unwinds ans eg c e"
| unwind_exit: "run_serves ans eg c e \<Longrightarrow> run_unwinds ans eg c (consume_exit e)"
| unwind_serving: "run_serving ans eg c f \<Longrightarrow> run_unwinds ans eg c f"
| unwind_control:
    "run_serving ans eg c f \<Longrightarrow> take_next (co_adm f) = (Some cmd, a) \<Longrightarrow> \<not> is_output cmd
     \<Longrightarrow> run_unwinds ans eg c (f\<lparr>co_adm := a\<rparr>)"
| unwind_batch:
    "run_serving ans eg c f \<Longrightarrow> take_next (co_adm f) = (Some cmd, a) \<Longrightarrow> is_output cmd
     \<Longrightarrow> apply_command (ans 0) eg cmd (f\<lparr>co_adm := a\<rparr>) = (w, d) \<Longrightarrow> n \<le> OUTPUT_BATCH - 1
     \<Longrightarrow> serve_batch ans eg n 1 (length (command_bytes cmd)) w d = (w', d') \<Longrightarrow> run_unwinds ans eg c d'"

inductive coord_step :: "'m engine \<Rightarrow> 'm coord_sys \<Rightarrow> 'm coord_sys \<Rightarrow> bool" for eg where
  co_stage:
    "stage_output cl bs (cy_co s) = (r, c)
     \<Longrightarrow> coord_step eg s (s\<lparr>cy_co := c, cy_accepted := cy_accepted s @ (if r = OutAccepted then bs else [])\<rparr>)"
| co_resize: "coord_resize cl sz (cy_co s) = (r, c) \<Longrightarrow> coord_step eg s (s\<lparr>cy_co := c\<rparr>)"
| co_view: "coord_view cl (cy_co s) = (r, c) \<Longrightarrow> coord_step eg s (s\<lparr>cy_co := c\<rparr>)"
| co_checkpoint: "coord_checkpoint cl (cy_co s) = (r, c) \<Longrightarrow> coord_step eg s (s\<lparr>cy_co := c\<rparr>)"
| co_transfer: "begin_transfer cl (cy_co s) = (r, c) \<Longrightarrow> coord_step eg s (s\<lparr>cy_co := c\<rparr>)"
| co_exited: "coord_step eg s (s\<lparr>cy_co := notify_process_exited cl (cy_co s)\<rparr>)"
| co_drained: "coord_step eg s (s\<lparr>cy_co := notify_output_drained cl d (cy_co s)\<rparr>)"
| co_bind: "coord_bind_process cl (cy_co s) = (r, c) \<Longrightarrow> coord_step eg s (s\<lparr>cy_co := c\<rparr>)"
| co_close: "coord_close cl (cy_co s) = (r, c) \<Longrightarrow> coord_step eg s (s\<lparr>cy_co := c\<rparr>)"
| co_run: "coord_run ans eg (cy_co s) = (w, c) \<Longrightarrow> coord_step eg s (s\<lparr>cy_co := c\<rparr>)"
| co_failed:
    "run_unwinds ans eg (cy_co s) d \<Longrightarrow> coord_failed d = (w, c) \<Longrightarrow> coord_step eg s (s\<lparr>cy_co := c\<rparr>)"
| co_publish:
    "ws_io (co_ws (cy_co s)) = Some p \<Longrightarrow> publish p answer = Some p'
     \<Longrightarrow> coord_step eg s (s\<lparr>cy_co := on_ws (\<lambda>w. w\<lparr>ws_io := Some p'\<rparr>) (cy_co s)\<rparr>)"
| co_shutdown: "coord_step eg s (s\<lparr>cy_co := finish_after_shutdown an eg (cy_co s)\<rparr>)"

abbreviation coord_steps :: "'m engine \<Rightarrow> 'm coord_sys \<Rightarrow> 'm coord_sys \<Rightarrow> bool" where
  "coord_steps eg \<equiv> (coord_step eg)\<^sup>*\<^sup>*"

definition sys_view :: "'m coord_sys \<Rightarrow> queue_sys" where
  "sys_view s = queue_view (cy_accepted s) None (cy_co s)"

lemma control_builds [simp]:
  "control_build (\<lambda>t lease. resize_build sz t lease now)" "control_build view_build"
  "control_build (\<lambda>t. checkpoint_build (f t))"
  by (auto simp: control_build_def)

lemma qsteps_controls:
  "coord_resize cl sz c = (r, c') \<Longrightarrow> qsteps A None c None c'"
  "coord_view cl c = (r, c') \<Longrightarrow> qsteps A None c None c'"
  "coord_checkpoint cl c = (r, c') \<Longrightarrow> qsteps A None c None c'"
  "begin_transfer cl c = (r, c') \<Longrightarrow> qsteps A None c None c'"
  by (auto simp: coord_resize_def coord_view_def coord_checkpoint_def begin_transfer_def
      intro: qsteps_same qsteps_admit_control split: if_splits)

lemma run_serving_fed:
  assumes "run_serving ans eg c f"
  shows "qsteps A None c None f" "feeding l A None f c' \<Longrightarrow> keeps_fed l A c c'"
proof -
  obtain e where e: "run_serves ans eg c e" "qsteps A None (seal_journal_if_drained (consume_exit e)) None f" for A
    using assms unfolding run_serving_def by (metis qsteps_same qsteps_delete)
  show "qsteps A None c None f" by (rule qsteps_trans [OF qsteps_run_sealed [OF e(1)] e(2)])
  show "feeding l A None f c' \<Longrightarrow> keeps_fed l A c c'" by (rule keeps_fed_serving [OF e(1) feeding_after [OF e(2)]])
qed

lemma keeps_fed_unwinds:
  assumes "run_unwinds ans eg c d"
  shows "keeps_fed l A c d"
  using assms
proof cases
  case (unwind_control f cmd a)
  have "qsteps A None f (Some cmd) (f\<lparr>co_adm := a\<rparr>)" by (rule qsteps_pop) (use unwind_control in auto)
  from qsteps_trans [OF this qsteps_done [OF unwind_control(4)]] have "qsteps A None f None d"
    using unwind_control(1) by simp
  then show ?thesis by (rule run_serving_fed(2) [OF unwind_control(2) feeding_kept])
next
  case (unwind_batch f cmd a w b n w')
  from run_serving_fed(2) [OF unwind_batch(1) feeding_served(2) [OF unwind_batch(2,4,3,6)]] show ?thesis .
qed (auto intro: keeps_fed_kept qsteps_same qsteps_finish_io qsteps_trans [OF qsteps_finish_io qsteps_poll]
      qsteps_trans [OF qsteps_run_serves qsteps_consume] run_serving_fed(1))

lemma coord_step_fed:
  assumes "coord_step eg s t" "queue_inv l (sys_view s)" "fed_ok (cy_accepted s) (cy_co s)"
  shows "queue_inv l (sys_view t) \<and> fed_ok (cy_accepted t) (cy_co t)"
proof -
  have one: ?thesis if "keeps_fed l (cy_accepted s) (cy_co s) c" "t = s\<lparr>cy_co := c\<rparr>" for c
    using that assms(2,3) fsteps_inv [of "cy_accepted s" None "cy_co s" None c l] by (simp add: keeps_fed_def sys_view_def)
  from assms(1) show ?thesis
  proof cases
    case (co_stage cl bs r c)
    from qsteps_stage [OF co_stage(2), of "cy_accepted s"]
    obtain A where A: "A = cy_accepted s \<or> (A = cy_accepted s @ bs \<and> r = OutAccepted)"
      "queue_steps (queue_view (cy_accepted s) None (cy_co s)) (queue_view A None c)" "r = OutAccepted \<longrightarrow> A = cy_accepted s @ bs"
      "co_fed c = co_fed (cy_co s)" by blast
    have "stopped (cy_co s) \<longrightarrow> stopped c" using queue_steps_stopped [OF A(2)] by (simp add: stopped_def)
    note A = A this
    have t: "cy_accepted t = A" "cy_co t = c" using co_stage(1) A(1,3) by auto
    have "queue_inv l (sys_view t)" using queue_steps_inv [OF A(2)] assms(2) t by (simp add: sys_view_def)
    moreover have "fed_ok A c" using assms(3) A(1,4,5) by (auto simp: fed_ok_def settled_def)
    ultimately show ?thesis using t by simp
  next
    case (co_failed ans d w c)
    show ?thesis
      by (rule one [OF keeps_fed_trans [OF keeps_fed_unwinds [OF co_failed(2)] keeps_fed_kept [OF qsteps_failed [OF co_failed(3)]]]])
        (rule co_failed(1))
  next
    case (co_run ans w c)
    then show ?thesis by (intro one [of c] keeps_fed_run)
  next
    case (co_publish p answer p')
    then show ?thesis by (intro one [OF keeps_fed_kept [OF qsteps_same]]) simp_all
  qed (erule one [rotated], blast intro: keeps_fed_kept qsteps_controls qsteps_notify_exit qsteps_notify_drain qsteps_bind
      qsteps_close qsteps_shutdown)+
qed

definition coord_sys_new :: "'m coordinator \<Rightarrow> 'm coord_sys" where
  "coord_sys_new c = \<lparr>cy_co = c, cy_accepted = []\<rparr>"

lemma coord_create_Ok:
  assumes "coord_create eg mk l opt limits = Ok c"
  obtains p compatible prot prog m where "policy_new (eg_cell_size eg) l opt (mk_now mk) = Ok p"
    "c = coordinator_new l opt limits compatible prot p prog m" "0 < po_max_delete_attempts opt"
proof -
  from assms have v: "projection_options_validate (eg_cell_size eg) opt = Ok opt"
    using projection_options_validate_Ok(1) by (fastforce simp: coord_create_def bind_result_Ok_iff)
  then have "0 < po_max_delete_attempts opt"
    by (auto simp: projection_options_validate_def bind_result_Ok_iff word_neq_0_conv split: if_splits)
  moreover from assms v obtain p compatible prot prog m where "policy_new (eg_cell_size eg) l opt (mk_now mk) = Ok p"
    "c = coordinator_new l opt limits compatible prot p prog m"
    by (auto simp: coord_create_def bind_result_Ok_iff split: if_splits)
  ultimately show thesis using that by blast
qed

lemma sys_view_new: "c = coordinator_new l opt limits compatible prot p prog m \<Longrightarrow> sys_view (coord_sys_new c) = queue_sys_new p"
  by (simp add: sys_view_def coord_sys_new_def coordinator_new_def queue_view_def queue_sys_new_def)

lemma coord_fed_inv:
  assumes "coord_create eg mk l opt limits = Ok c" "coord_steps eg (coord_sys_new c) s"
  shows "queue_inv l (sys_view s) \<and> fed_ok (cy_accepted s) (cy_co s)"
  using assms(2)
proof (induction rule: rtranclp_induct)
  case base
  obtain p compatible prot prog m where p: "policy_new (eg_cell_size eg) l opt (mk_now mk) = Ok p"
    "c = coordinator_new l opt limits compatible prot p prog m" by (rule coord_create_Ok [OF assms(1)])
  have "fed_ok [] c" by (simp add: p(2) coordinator_new_def fed_ok_def settled_def)
  with sys_view_new [OF p(2)] queue_new_inv [OF p(1)] show ?case by (simp add: coord_sys_new_def)
qed (auto dest: coord_step_fed)

text \<open>A projection over an engine that keeps the bytes it was fed, with one chunk staged.\<close>

definition example_engine :: "bytes engine" where
  "example_engine = \<lparr>eg_feed = (\<lambda>bs m. (NOk [], m @ bs)), eg_resize = (\<lambda>_ _ m. (NOk (), m)),
     eg_view = (\<lambda>m. (NErr TUnsupported, m)),
     eg_checkpoint = (\<lambda>d m. (NOk \<lparr>tk_descriptor = d, tk_bytes = m\<rparr>, m)),
     eg_progress = (\<lambda>m. NOk ProgressUsable), eg_history_step = (\<lambda>m. (NOk ProgressUsable, m)),
     eg_restore = (\<lambda>k cfg. NOk (tk_bytes k)), eg_mutation_during_restore = True, eg_cell_size = 64,
     eg_record_size = 200, eg_mutation_size = 200\<rparr>"
definition example_creation :: "bytes creation" where
  "example_creation = \<lparr>mk_protected = Some (Ok (8 * 1024 * 1024 + 40)), mk_checkpoints = True, mk_resident = True,
     mk_compatibility = Ok (CompatibilityId (bstr ''e'')), mk_terminal = NOk [], mk_queue = True, mk_now = 0,
     mk_identity = 0, mk_register = True, mk_wake = True\<rparr>"
definition example_caller :: caller where
  "example_caller = \<lparr>cl_slot = True, cl_bytes = True, cl_request = True, cl_observer = True, cl_alloc = True,
     cl_wake = True, cl_now = 5, cl_ticket = 1\<rparr>"
definition example_answers :: answers where
  "example_answers = \<lparr>an_now = 6, an_scan_memory = True, an_record_memory = True, an_reply_memory = True,
     an_retains = False, an_views = True, an_checkpoints = True, an_io_memory = True, an_disk = None,
     an_resident = True, an_input = True, an_pool = True, an_write = Ok (), an_written = Pending,
     an_resize = Ok (), an_resized = Pending, an_capacity = (\<lambda>k. 0), an_journal = (\<lambda>_. True),
     an_cancelled = (\<lambda>_. False)\<rparr>"



lemma sample_view_reservation: "view_reservation 64 sample_options = Ok 1171456"
  by (simp add: view_reservation_def sample_options_def projection_options_new_def terminal_config_new_def
      checked_mul_def checked_add_def)

definition example_program :: program_state where
  "example_program = (case program_state_new 0 (unat (po_program_status_records sample_options)) of Ok p \<Rightarrow> p)"

lemma example_program: "program_state_new 0 (unat (po_program_status_records sample_options)) = Ok example_program"
  by (simp add: example_program_def program_state_new_def store_new_def sample_options_def projection_options_new_def)

definition example_coordinator :: "bytes coordinator" where
  "example_coordinator = coordinator_new (lifetime_new 1 1) sample_options projection_limits_default
     (CompatibilityId (bstr ''e'')) (8 * 1024 * 1024 + 40) sample_policy example_program []"


lemma sample_fields:
  "tc_checkpoint_bytes (po_terminal sample_options) = 8388608" "tc_feed_bytes (po_terminal sample_options) = 4096"
  "tc_reply_bytes (po_terminal sample_options) = 4096" "queue_slots sample_options = Ok 289"
  "po_staging_bytes sample_options = 2097152"  "po_staging_slots sample_options = 256"
  by (simp_all add: sample_options_def projection_options_new_def terminal_config_new_def queue_slots_def checked_add_def)

lemma example_created:
  "coord_create example_engine example_creation (lifetime_new 1 1) sample_options projection_limits_default = Ok example_coordinator"
  by (simp add: coord_create_def example_engine_def example_creation_def sample_policy_new sample_options_valid
      example_program sample_view_reservation sample_fields example_coordinator_def caught_def checked_add_def
      isize_max_word_def)
    (simp add: projection_limits_default_def)


definition example_lease :: staging_lease where
  "example_lease = \<lparr>sl_bytes = Some 2, sl_slots = Some 1\<rparr>"

lemma example_staged:
  "fst (stage_output example_caller [104, 105] example_coordinator) = OutAccepted"
  by (simp add: example_coordinator_def coordinator_new_def stage_output_def example_caller_def Let_def
      reserve_staging_def queue_admit_output_def stage_accept_def sample_fields admission_new_def sample_policy_def
      admit_output_bytes_def policy_defs is_draining_def len_u64_def checked_add_def)

definition example_sys :: "bytes coord_sys" where
  "example_sys = (coord_sys_new example_coordinator)
     \<lparr>cy_co := snd (stage_output example_caller [104, 105] example_coordinator), cy_accepted := [104, 105]\<rparr>"

lemma example_reached: "coord_steps example_engine (coord_sys_new example_coordinator) example_sys"
proof (rule r_into_rtranclp)
  show "coord_step example_engine (coord_sys_new example_coordinator) example_sys"
    using co_stage [of example_caller "[104, 105]" "coord_sys_new example_coordinator" OutAccepted
        "snd (stage_output example_caller [104, 105] example_coordinator)" example_engine] example_staged
    by (simp add: example_sys_def coord_sys_new_def prod_eq_iff)
qed

lemma example_staged_state:
  "snd (stage_output example_caller [104, 105] example_coordinator) = example_coordinator
     \<lparr>co_adm := snd (queue_admit_output (stage_accept 4096 [104, 105] (Some example_lease) True 5) (co_adm example_coordinator))\<rparr>"
  by (simp add: example_coordinator_def coordinator_new_def stage_output_def example_caller_def Let_def
      reserve_staging_def queue_admit_output_def stage_accept_def sample_fields admission_new_def sample_policy_def
      admit_output_bytes_def policy_defs is_draining_def len_u64_def checked_add_def wake_or_fail_def coord_wake_def
      example_lease_def)

lemma example_sys_co:
  "cy_co example_sys = example_coordinator
     \<lparr>co_adm := snd (queue_admit_output (stage_accept 4096 [104, 105] (Some example_lease) True 5) (co_adm example_coordinator))\<rparr>"
  by (simp add: example_sys_def example_staged_state)

lemmas example_eval = example_sys_co example_coordinator_def coordinator_new_def
  queue_admit_output_def stage_accept_def admission_new_def sample_policy_def
  admit_output_bytes_def policy_defs is_draining_def len_u64_def checked_add_def queue_status_def

lemma example_state:
  "cy_accepted example_sys = [104, 105]" "calls (cy_co example_sys) = []"
  "ps_failure (co_status (cy_co example_sys)) = None" "\<not> ad_closed (co_adm (cy_co example_sys))"
  by (simp add: example_sys_def) (simp_all add: example_eval)

lemma example_model: "ws_terminal (co_ws (cy_co example_sys)) = Some []"
  by (simp add: example_eval)

lemma example_feeds: "feed_model example_engine xs m = m @ concat xs"
  by (induction xs arbitrary: m) (simp_all add: example_engine_def)

definition example_store :: status_store where
  "example_store = (store_default 0)\<lparr>st_limit := 256\<rparr>"

definition example_plan :: status_plan where
  "example_plan = \<lparr>sp_identity = 0, sp_generation = 0, sp_scanner = scanner_default, sp_mutations = [], sp_queries = []\<rparr>"

lemma example_program_eq:
  "example_program = \<lparr>pg_store = Some example_store, pg_memory = None, pg_exited = False, pg_drained = False\<rparr>"
  by (simp add: example_program_def program_state_new_def store_new_def sample_options_def projection_options_new_def
      example_store_def)

lemma example_scan:
  "store_scan example_store [104, 105] = Ok example_plan" "scan_reservation_for n example_store [104, 105] = Ok 0"
  by (simp_all add: store_scan_def scan_reservation_def scan_reservation_for_def MAX_SCAN_BYTES_def example_store_def
      store_default_def scan_def plain_chunk_def scanner_default_def example_plan_def len_u64_def)

lemma example_prepared:
  "prepare_status example_answers example_engine [104, 105] 4096 (cy_co example_sys)
     = Ok \<lparr>pr_plan = example_plan, pr_record_memory = None, pr_reply_memory = 4096\<rparr>"
  by (simp add: example_eval prepare_status_def Let_def example_program_eq example_scan)
    (simp add: example_answers_def example_plan_def projection_limits_default_def)

lemma example_limit: "tc_reply_bytes (ws_config (co_ws (cy_co example_sys))) = 4096"
  by (simp add: example_eval sample_fields)

definition example_fed :: "bytes coordinator" where
  "example_fed = snd (feed_status_slices example_engine [104, 105] [] 4096 (cy_co example_sys))"

lemma example_fed: "feed_status_slices example_engine [104, 105] [] 4096 (cy_co example_sys) = (Ok [], example_fed)"
  by (simp add: example_fed_def feed_status_slices_def feed_call_def engine_call_def example_model native_call_def
      example_engine_def)

lemma example_fed_keeps: "co_adm example_fed = co_adm (cy_co example_sys)" "co_program example_fed = co_program (cy_co example_sys)"
  by (simp_all add: example_fed_def feed_status_slices_def feed_call_def engine_call_def example_model native_call_def
      example_engine_def log_call_def)

lemma example_recorded: "\<exists>a. queue_record_processed (co_adm example_fed) 2 = Ok a"
  by (simp add: example_fed_keeps) (simp add: example_eval queue_record_processed_def)

lemma example_committed:
  "\<exists>c'. commit_status example_plan None example_fed = Ok c' \<and> co_adm c' = co_adm example_fed"
  by (simp add: commit_status_def example_fed_keeps(2))
    (simp add: example_eval example_program_eq example_store_def example_plan_def store_default_def store_commit_def)

lemma example_output:
  "fst (apply_output example_answers example_engine [104, 105] example_lease (cy_co example_sys)) = WorkAfter 0"
proof -
  obtain d x where "commit_output \<lparr>pr_plan = example_plan, pr_record_memory = None, pr_reply_memory = 4096\<rparr> [104, 105]
      example_fed = (Ok d, x)"
    using example_recorded example_committed by (auto simp: commit_output_def len_u64_def)
  with example_prepared example_limit example_fed show ?thesis
    by (auto simp: apply_output_def Let_def example_plan_def)
qed

text \<open>
  C1. The coordinator feeds the engine exactly what readers staged.  In every state reached
  from a created projection by callers, worker runs, runs that panicked partway, blocking-job
  completions and teardown, for any engine and any environment answers: the bytes of all
  calls of the engine's \<open>feed\<close>, in order, are a prefix of the accepted bytes, so no byte is
  fed twice, skipped or reordered; while the projection has not failed or been closed they
  are exactly the processed ones, and a call that failed midway leaves at most more than
  that, never to be repeated; the published and processed positions count the accepted and
  the processed bytes, and until a close the queue holds exactly the unprocessed rest.  Each
  output command changes the live model by calling \<open>feed\<close> on slices that add up to its
  chunk, or, when it fails, to a prefix of it.
\<close>

theorem projected_output_exact:
  assumes "coord_create eg mk l opt limits = Ok c" "coord_steps eg (coord_sys_new c) s"
  shows "(\<exists>rest. cy_accepted s = calls (cy_co s) @ rest)
    \<and> unat (ad_published (co_adm (cy_co s))) = length (cy_accepted s)
    \<and> unat (ad_processed (co_adm (cy_co s))) \<le> length (calls (cy_co s))
    \<and> (ps_failure (co_status (cy_co s)) = None \<and> \<not> ad_closed (co_adm (cy_co s))
        \<longrightarrow> unat (ad_processed (co_adm (cy_co s))) = length (calls (cy_co s)))
    \<and> queue_bytes (ad_queue (co_adm (cy_co s))) =
        (if ad_closed (co_adm (cy_co s)) then []
         else drop (unat (ad_processed (co_adm (cy_co s)))) (cy_accepted s))
    \<and> (\<forall>an bs staging w d. apply_output an eg bs staging (cy_co s) = (w, d) \<longrightarrow>
        (\<exists>xs rest. fl_calls (co_fed d) = fl_calls (co_fed (cy_co s)) @ xs \<and> bs = concat xs @ rest
          \<and> (w = WorkAfter 0 \<longrightarrow> rest = [])
          \<and> ws_terminal (co_ws d) = map_option (feed_model eg xs) (ws_terminal (co_ws (cy_co s)))))"
proof -
  note inv = coord_fed_inv [OF assms]
  have q: "unat (ad_published (co_adm (cy_co s))) = length (cy_accepted s)"
    "unat (ad_processed (co_adm (cy_co s))) = length (recorded (cy_co s))"
    "ad_closed (co_adm (cy_co s)) \<longrightarrow> ad_queue (co_adm (cy_co s)) = []"
    "\<not> ad_closed (co_adm (cy_co s)) \<longrightarrow> cy_accepted s = recorded (cy_co s) @ queue_bytes (ad_queue (co_adm (cy_co s)))"
    using inv by (auto simp: queue_inv_def sys_view_def)
  have f: "\<exists>part rest. calls (cy_co s) = recorded (cy_co s) @ part \<and> cy_accepted s = calls (cy_co s) @ rest"
    "settled (cy_co s) \<or> stopped (cy_co s)" using inv by (auto simp: fed_ok_def)
  have e: "\<exists>xs rest. fl_calls (co_fed d) = fl_calls (co_fed (cy_co s)) @ xs \<and> bs = concat xs @ rest
      \<and> (w = WorkAfter 0 \<longrightarrow> rest = [])
      \<and> ws_terminal (co_ws d) = map_option (feed_model eg xs) (ws_terminal (co_ws (cy_co s)))"
    if "apply_output an eg bs staging (cy_co s) = (w, d)" for an bs staging w d
    by (rule output_fed [OF that]) auto
  have "queue_bytes (ad_queue (co_adm (cy_co s))) =
      (if ad_closed (co_adm (cy_co s)) then []
       else drop (unat (ad_processed (co_adm (cy_co s)))) (cy_accepted s))"
    using q by (cases "ad_closed (co_adm (cy_co s))") (simp, metis append_eq_conv_conj)
  moreover have "unat (ad_processed (co_adm (cy_co s))) = length (calls (cy_co s))"
    if "ps_failure (co_status (cy_co s)) = None" "\<not> ad_closed (co_adm (cy_co s))"
    using f(2) that q(2) by (auto simp: settled_def stopped_def)
  ultimately show ?thesis using f(1) q(1,2) e by auto
qed

theorem projected_output_exact_witness:
  "cy_accepted example_sys = [104, 105] \<and> calls (cy_co example_sys) = []
   \<and> queue_bytes (ad_queue (co_adm (cy_co example_sys))) = [104, 105]
   \<and> ws_terminal (co_ws (snd (apply_output example_answers example_engine [104, 105] example_lease (cy_co example_sys))))
       = Some [104, 105]"
proof -
  note p = projected_output_exact [OF example_created example_reached]
  obtain w d where d: "apply_output example_answers example_engine [104, 105] example_lease (cy_co example_sys) = (w, d)" by force
  with example_output have w: "w = WorkAfter 0" by simp
  obtain xs rest where "[104, 105] = concat xs @ rest" "rest = []"
    "ws_terminal (co_ws d) = map_option (feed_model example_engine xs) (ws_terminal (co_ws (cy_co example_sys)))"
    using p d w by blast
  with example_model example_feeds have "ws_terminal (co_ws d) = Some [104, 105]" by simp
  moreover have "unat (ad_processed (co_adm (cy_co example_sys))) = length (calls (cy_co example_sys))"
    "\<not> ad_closed (co_adm (cy_co example_sys))" using p example_state by auto
  moreover have "calls (cy_co example_sys) = []" "cy_accepted example_sys = [104, 105]" using example_state by simp_all
  ultimately show ?thesis using p d by simp
qed

end
