(* ===== verification/Blocking_Pool.thy ===== *)
theory Blocking_Pool
  imports Scheduler "HOL-Library.Multiset"
begin

text \<open>
  The worker pool for blocking provider calls
  (\<^verbatim>\<open>crates/infrastructure/src/scheduling/blocking.rs\<close>) and the capacity signal
  (\<^verbatim>\<open>signals.rs\<close>).  A job is its identity; a panicking job is caught, so to the pool it ends
  like any other.  As in theory \<open>Scheduler\<close> an operation is one critical section and the
  threads interleave between them.
\<close>

section \<open>State and operations\<close>

type_synonym job = nat

record executor =
  bx_jobs :: "job list"
  bx_active :: nat
  bx_closed :: bool
  bx_max_jobs :: nat

definition executor_new :: "nat \<Rightarrow> nat \<Rightarrow> bool \<Rightarrow> nat \<Rightarrow> (scheduling_error, executor) result" where
  "executor_new max_jobs workers alloc threads =
     (if max_jobs = 0 \<or> workers = 0 \<or> workers > 64 then Err SchedCapacity
      else if \<not> alloc then Err SchedCapacity
      else if threads < workers then Err SchedFailed
      else Ok \<lparr>bx_jobs = [], bx_active = 0, bx_closed = False, bx_max_jobs = max_jobs\<rparr>)"

definition executor_submit :: "job \<Rightarrow> executor \<Rightarrow> (scheduling_error, unit) result \<times> executor" where
  "executor_submit work x =
     (if bx_closed x then (Err SchedClosed, x)
      else if length (bx_jobs x) + bx_active x \<ge> bx_max_jobs x then (Err SchedCapacity, x)
      else (Ok (), x\<lparr>bx_jobs := bx_jobs x @ [work]\<rparr>))"

definition executor_shutdown :: "executor \<Rightarrow> executor" where
  "executor_shutdown x = x\<lparr>bx_closed := True\<rparr>"

datatype worker_turn = TurnJob job | TurnExit | TurnWait

definition executor_next :: "executor \<Rightarrow> worker_turn \<times> executor" where
  "executor_next x =
     (case bx_jobs x of
        job # rest \<Rightarrow> (TurnJob job, x\<lparr>bx_jobs := rest, bx_active := bx_active x + 1\<rparr>)
      | [] \<Rightarrow> if bx_closed x then (TurnExit, x) else (TurnWait, x))"

definition executor_done :: "executor \<Rightarrow> executor" where
  "executor_done x = x\<lparr>bx_active := bx_active x - 1\<rparr>"

section \<open>Threads\<close>

text \<open>\<open>pl_idle\<close> workers are at the top of their loop, \<open>pl_running\<close> are the jobs being executed,
  \<open>pl_exited\<close> workers have returned; the remaining fields record what was accepted, started and
  finished, in order.\<close>

record pool_sys =
  pl_pool :: executor
  pl_idle :: nat
  pl_running :: "job list"
  pl_exited :: nat
  pl_accepted :: "job list"
  pl_started :: "job list"
  pl_finished :: "job list"

inductive pool_step :: "pool_sys \<Rightarrow> pool_sys \<Rightarrow> bool" where
  pool_submit:
    "executor_submit w (pl_pool s) = (r, x)
     \<Longrightarrow> pool_step s (s\<lparr>pl_pool := x, pl_accepted := pl_accepted s @ (if r = Ok () then [w] else [])\<rparr>)"
| pool_shutdown: "pool_step s (s\<lparr>pl_pool := executor_shutdown (pl_pool s)\<rparr>)"
| pool_start:
    "pl_idle s = Suc n \<Longrightarrow> executor_next (pl_pool s) = (TurnJob w, x)
     \<Longrightarrow> pool_step s (s\<lparr>pl_pool := x, pl_idle := n, pl_running := w # pl_running s,
          pl_started := pl_started s @ [w]\<rparr>)"
| pool_exit:
    "pl_idle s = Suc n \<Longrightarrow> executor_next (pl_pool s) = (TurnExit, x)
     \<Longrightarrow> pool_step s (s\<lparr>pl_pool := x, pl_idle := n, pl_exited := pl_exited s + 1\<rparr>)"
| pool_done:
    "w \<in> set (pl_running s)
     \<Longrightarrow> pool_step s (s\<lparr>pl_pool := executor_done (pl_pool s), pl_running := remove1 w (pl_running s),
          pl_idle := pl_idle s + 1, pl_finished := pl_finished s @ [w]\<rparr>)"

definition pool_sys_new :: "executor \<Rightarrow> nat \<Rightarrow> pool_sys" where
  "pool_sys_new x workers = \<lparr>pl_pool = x, pl_idle = workers, pl_running = [], pl_exited = 0,
     pl_accepted = [], pl_started = [], pl_finished = []\<rparr>"

definition pool_inv :: "nat \<Rightarrow> pool_sys \<Rightarrow> bool" where
  "pool_inv workers s \<longleftrightarrow>
     bx_active (pl_pool s) = length (pl_running s)
     \<and> length (bx_jobs (pl_pool s)) + bx_active (pl_pool s) \<le> bx_max_jobs (pl_pool s)
     \<and> pl_accepted s = pl_started s @ bx_jobs (pl_pool s)
     \<and> mset (pl_started s) = mset (pl_finished s) + mset (pl_running s)
     \<and> pl_idle s + length (pl_running s) + pl_exited s = workers
     \<and> (pl_exited s > 0 \<longrightarrow> bx_closed (pl_pool s) \<and> bx_jobs (pl_pool s) = [])"

lemma pool_step_inv: "pool_step s t \<Longrightarrow> pool_inv n s \<Longrightarrow> pool_inv n t"
proof (induction rule: pool_step.induct)
  case (pool_submit w s r x)
  then show ?case by (auto simp: pool_inv_def executor_submit_def split: if_splits)
next
  case (pool_shutdown s)
  then show ?case by (simp add: pool_inv_def executor_shutdown_def)
next
  case (pool_start s m w x)
  then show ?case by (auto simp: pool_inv_def executor_next_def split: list.splits if_splits)
next
  case (pool_exit s m x)
  then show ?case by (auto simp: pool_inv_def executor_next_def split: list.splits if_splits)
next
  case (pool_done w s)
  then have "length (pl_running s) > 0" by auto
  with pool_done show ?case
    by (auto simp: pool_inv_def executor_done_def length_remove1 mset_remove1)
qed

lemma pool_step_max: "pool_step s t \<Longrightarrow> bx_max_jobs (pl_pool t) = bx_max_jobs (pl_pool s)"
  by (induction rule: pool_step.induct)
    (auto simp: executor_submit_def executor_shutdown_def executor_next_def executor_done_def
      split: if_splits list.splits)

lemma pool_steps_inv:
  assumes "pool_step\<^sup>*\<^sup>* s t" "pool_inv n s"
  shows "pool_inv n t \<and> bx_max_jobs (pl_pool t) = bx_max_jobs (pl_pool s)"
  using assms by (induction rule: rtranclp_induct) (auto intro: pool_step_inv simp: pool_step_max)

lemma executor_new_inv:
  "executor_new m workers alloc threads = Ok x \<Longrightarrow> pool_inv workers (pool_sys_new x workers) \<and> bx_max_jobs x = m"
  by (auto simp: executor_new_def pool_inv_def pool_sys_new_def split: if_splits)

section \<open>The capacity signal\<close>

definition signal_notify :: "u64 \<Rightarrow> u64" where
  "signal_notify generation = generation + 1"

text \<open>One turn of \<open>wait_after\<close>: keep waiting while the generation is the one the caller saw and
  the deadline is in the future.\<close>

definition signal_waits :: "u64 \<Rightarrow> u64 \<Rightarrow> duration \<Rightarrow> duration \<Rightarrow> bool" where
  "signal_waits seen current deadline now \<longleftrightarrow> current = seen \<and> now \<le> deadline"

section \<open>Properties\<close>

definition sample_executor :: executor where
  "sample_executor = \<lparr>bx_jobs = [], bx_active = 0, bx_closed = False, bx_max_jobs = 2\<rparr>"

definition sample_drained :: pool_sys where
  "sample_drained = \<lparr>pl_pool = \<lparr>bx_jobs = [], bx_active = 0, bx_closed = True, bx_max_jobs = 2\<rparr>, pl_idle = 0,
     pl_running = [], pl_exited = 1, pl_accepted = [7], pl_started = [7], pl_finished = [7]\<rparr>"

lemma sample_executor_new: "executor_new 2 1 True 1 = Ok sample_executor"
  by (simp add: executor_new_def sample_executor_def)

lemma sample_executor_steps: "pool_step\<^sup>*\<^sup>* (pool_sys_new sample_executor 1) sample_drained"
proof -
  let ?s = "\<lambda>jobs active closed idle running exited started finished.
    \<lparr>pl_pool = \<lparr>bx_jobs = jobs, bx_active = active, bx_closed = closed, bx_max_jobs = 2\<rparr>, pl_idle = idle,
     pl_running = running, pl_exited = exited, pl_accepted = [7], pl_started = started, pl_finished = finished\<rparr>"
  have "pool_step (pool_sys_new sample_executor 1) (?s [7] 0 False 1 [] 0 [] [])"
    using pool_submit [of 7 "pool_sys_new sample_executor 1"]
    by (simp add: executor_submit_def pool_sys_new_def sample_executor_def)
  moreover have "pool_step (?s [7] 0 False 1 [] 0 [] []) (?s [7] 0 True 1 [] 0 [] [])"
    using pool_shutdown [of "?s [7] 0 False 1 [] 0 [] []"] by (simp add: executor_shutdown_def)
  moreover have "pool_step (?s [7] 0 True 1 [] 0 [] []) (?s [] 1 True 0 [7] 0 [7] [])"
    using pool_start [of "?s [7] 0 True 1 [] 0 [] []" 0 7] by (simp add: executor_next_def)
  moreover have "pool_step (?s [] 1 True 0 [7] 0 [7] []) (?s [] 0 True 1 [] 0 [7] [7])"
    using pool_done [of 7 "?s [] 1 True 0 [7] 0 [7] []"] by (simp add: executor_done_def)
  moreover have "pool_step (?s [] 0 True 1 [] 0 [7] [7]) sample_drained"
    using pool_exit [of "?s [] 0 True 1 [] 0 [7] [7]" 0] by (simp add: executor_next_def sample_drained_def)
  ultimately show ?thesis by (meson converse_rtranclp_into_rtranclp r_into_rtranclp)
qed

text \<open>
  C23. The blocking pool is bounded and loses no job: in every reachable state queued and
  executing jobs together are within the limit, accepted jobs start in the order they were
  accepted, each is at any time queued, executing or finished, and once the last worker has
  returned after a shutdown every accepted job has run to its end exactly once.
\<close>

theorem blocking_pool_drains:
  assumes "executor_new max_jobs workers alloc threads = Ok x" "pool_step\<^sup>*\<^sup>* (pool_sys_new x workers) s"
  shows "length (bx_jobs (pl_pool s)) + length (pl_running s) \<le> max_jobs
    \<and> pl_accepted s = pl_started s @ bx_jobs (pl_pool s)
    \<and> mset (pl_accepted s) = mset (pl_finished s) + mset (pl_running s) + mset (bx_jobs (pl_pool s))
    \<and> (pl_exited s = workers \<longrightarrow> bx_closed (pl_pool s) \<and> mset (pl_finished s) = mset (pl_accepted s))"
proof -
  have inv: "pool_inv workers s" "bx_max_jobs (pl_pool s) = max_jobs"
    using pool_steps_inv [OF assms(2)] executor_new_inv [OF assms(1)] by (auto simp: pool_sys_new_def)
  moreover have "workers > 0" using assms(1) by (simp add: executor_new_def split: if_splits)
  ultimately show ?thesis by (auto simp: pool_inv_def)
qed

theorem blocking_pool_drains_witness:
  "pl_exited sample_drained = 1 \<and> mset (pl_finished sample_drained) = {#7#}"
  using blocking_pool_drains [OF sample_executor_new sample_executor_steps] by (simp add: sample_drained_def)

end
