(* ===== verification/Process_Session.thy ===== *)
theory Process_Session
  imports Session_Context
begin

text \<open>
  The process side of a session (\<^verbatim>\<open>crates/infrastructure/src/process/session.rs\<close> and \<^verbatim>\<open>io.rs\<close>): the
  bounded queue of writes with its one resize slot, the owner's write to the pseudoterminal, and
  the reader thread that drains it.

  A write is answered through a oneshot channel, here the number its admission was given; what an
  operation sends on such channels is part of its result.  The pseudoterminal answers through
  arguments.  \<open>finish_inputs\<close> publishes that the session is closed before it takes the queue's lock,
  so it is two steps; every other operation holds the lock throughout.  Diagnostics and timings
  are not part of the state.
\<close>

section \<open>Errors of the operating system\<close>

datatype errno = EMFILE | ENFILE | ENOMEM | ENOSPC | EAGAIN | OtherErrno i32

datatype io_kind = KindNotFound | KindPermissionDenied | KindOther

record os_failure =
  of_errno :: "errno option"
  of_kind :: io_kind

definition process_error_of :: "os_failure \<Rightarrow> process_error" where
  "process_error_of f =
     (if of_errno f \<in> Some ` {EMFILE, ENFILE, ENOMEM, ENOSPC} then PCapacity
      else case of_kind f of
        KindNotFound \<Rightarrow> PNotFound
      | KindPermissionDenied \<Rightarrow> PPermissionDenied
      | KindOther \<Rightarrow> PIo)"

definition creation_error :: "os_failure \<Rightarrow> process_error" where
  "creation_error f = (if of_errno f = Some EAGAIN then PCapacity else process_error_of f)"

section \<open>State\<close>

type_synonym reply_id = nat

record input =
  in_reply :: reply_id
  in_bytes :: bytes
  in_offset :: nat
  in_deadline :: duration

record resize_request =
  rr_size :: terminal_size
  rr_reply :: reply_id

record process_session =
  ps_limits :: process_limits
  ps_input :: "input list"
  ps_bytes :: nat
  ps_resize :: "resize_request option"
  ps_cancel :: bool
  ps_closed :: bool
  ps_stop_reader :: bool
  ps_workload_exited :: bool
  ps_reader_done :: bool
  ps_reader_failed :: bool

definition process_session_new :: "process_limits \<Rightarrow> process_session" where
  "process_session_new limits = \<lparr>ps_limits = limits, ps_input = [], ps_bytes = 0, ps_resize = None, ps_cancel = False,
     ps_closed = False, ps_stop_reader = False, ps_workload_exited = False, ps_reader_done = False, ps_reader_failed = False\<rparr>"

section \<open>Operations of the session\<close>

definition write_reserved :: "reply_id \<Rightarrow> bytes \<Rightarrow> duration \<Rightarrow> process_session \<Rightarrow> (process_error, unit) result \<times> process_session" where
  "write_reserved reply bs now s =
     (if ps_closed s then (Err PClosed, s)
      else if length bs > unat (pl_input_chunk (ps_limits s))
           \<or> length (ps_input s) \<ge> unat (pl_input_slots (ps_limits s))
           \<or> length bs > unat (pl_input_bytes (ps_limits s)) - ps_bytes s
      then (Err PCapacity, s)
      else (Ok (), s\<lparr>ps_bytes := ps_bytes s + length bs,
              ps_input := ps_input s @ [\<lparr>in_reply = reply, in_bytes = bs, in_offset = 0,
                in_deadline = now + pl_write_timeout (ps_limits s)\<rparr>]\<rparr>))"

definition request_cancel :: "process_session \<Rightarrow> (process_error, unit) result \<times> process_session" where
  "request_cancel s = (if ps_closed s then (Err PClosed, s) else (Ok (), s\<lparr>ps_cancel := True\<rparr>))"

definition resize_timed :: "reply_id \<Rightarrow> terminal_size \<Rightarrow> process_session \<Rightarrow> (process_error, unit) result \<times> process_session" where
  "resize_timed reply geometry s =
     (if ps_closed s then (Err PClosed, s)
      else if ps_resize s \<noteq> None then (Err PCapacity, s)
      else (Ok (), s\<lparr>ps_resize := Some \<lparr>rr_size = geometry, rr_reply = reply\<rparr>\<rparr>))"

definition stop_reader :: "process_session \<Rightarrow> process_session" where
  "stop_reader s = s\<lparr>ps_stop_reader := True\<rparr>"

definition note_workload_exit :: "process_session \<Rightarrow> process_session" where
  "note_workload_exit s = s\<lparr>ps_workload_exited := True\<rparr>"

type_synonym write_replies = "(reply_id \<times> write_outcome) list"

definition finish_publish :: "process_session \<Rightarrow> process_session" where
  "finish_publish s = s\<lparr>ps_closed := True\<rparr>"

definition finish_drain :: "process_error \<Rightarrow> process_session
    \<Rightarrow> write_replies \<times> (reply_id \<times> (process_error, unit) result) option \<times> process_session" where
  "finish_drain reason s =
     (map (\<lambda>i. (in_reply i, \<lparr>wo_written = word_of_nat (in_offset i), wo_error = Some reason\<rparr>)) (ps_input s),
      map_option (\<lambda>r. (rr_reply r, Err reason)) (ps_resize s),
      s\<lparr>ps_input := [], ps_resize := None, ps_bytes := 0\<rparr>)"

definition finish_inputs :: "process_error \<Rightarrow> process_session
    \<Rightarrow> write_replies \<times> (reply_id \<times> (process_error, unit) result) option \<times> process_session" where
  "finish_inputs reason s = finish_drain reason (finish_publish s)"

section \<open>The owner's write\<close>

datatype host_write = HostWrote nat | HostRetry | HostFailed os_failure

text \<open>The attempt on the front input: a failure and the bytes the pseudoterminal took.\<close>

definition write_front :: "duration \<Rightarrow> host_write \<Rightarrow> input \<Rightarrow> process_error option \<times> bytes \<times> input" where
  "write_front now answer i =
     (if in_deadline i \<le> now then (Some PTimeout, [], i)
      else if in_offset i < length (in_bytes i) then
        (case answer of
           HostWrote n \<Rightarrow>
             if n = 0 then (Some PIo, [], i)
             else (None, take n (drop (in_offset i) (in_bytes i)), i\<lparr>in_offset := in_offset i + n\<rparr>)
         | HostRetry \<Rightarrow> (None, [], i)
         | HostFailed f \<Rightarrow> (Some (process_error_of f), [], i))
      else (None, [], i))"

definition write_ready :: "duration \<Rightarrow> host_write \<Rightarrow> process_session \<Rightarrow> bytes \<times> write_replies \<times> process_session" where
  "write_ready now answer s =
     (case ps_input s of
        [] \<Rightarrow> ([], [], s)
      | front # rest \<Rightarrow>
          (case write_front now answer front of (failure, took, i) \<Rightarrow>
             if failure \<noteq> None \<or> in_offset i = length (in_bytes i)
             then (took, [(in_reply i, \<lparr>wo_written = word_of_nat (in_offset i), wo_error = failure\<rparr>)],
                   s\<lparr>ps_input := rest, ps_bytes := ps_bytes s - length (in_bytes i)\<rparr>)
             else (took, [], s\<lparr>ps_input := i # rest\<rparr>)))"

section \<open>The reader\<close>

datatype poll_answer = PollReady | PollInterrupted | PollFailed

datatype host_read = ReadSome bytes | ReadNothing | ReadInterrupted | ReadWouldBlock | ReadEio | ReadError os_failure

datatype reader_phase = Polling | Reading | Publishing bytes | Drained drain_outcome
  | ReaderDone drain_outcome

record reader =
  re_phase :: reader_phase
  re_retained :: bool

text \<open>
  One iteration of each of the three nested loops of \<open>read_loop\<close>.  \<open>stop\<close> and \<open>exited\<close> are what the
  atomic flags of the session said when they were loaded; \<open>stopped\<close> is the second load after the poll.
\<close>

definition reader_poll :: "bool \<Rightarrow> poll_answer \<Rightarrow> bool \<Rightarrow> reader \<Rightarrow> reader" where
  "reader_poll stop answer stopped r =
     r\<lparr>re_phase :=
        (if stop then Drained Truncated
         else case answer of
           PollInterrupted \<Rightarrow> Polling
         | PollFailed \<Rightarrow> Drained (DrainFailed PIo)
         | PollReady \<Rightarrow> if stopped then Drained Truncated else Reading)\<rparr>"

definition reader_read :: "bool \<Rightarrow> bool \<Rightarrow> host_read \<Rightarrow> reader \<Rightarrow> reader" where
  "reader_read stop exited answer r =
     (if stop then r\<lparr>re_phase := Drained Truncated\<rparr>
      else case answer of
        ReadSome bs \<Rightarrow> r\<lparr>re_phase := Publishing bs\<rparr>
      | ReadNothing \<Rightarrow>
          if \<not> re_retained r then r\<lparr>re_phase := Drained Eof\<rparr>
          else if exited then r\<lparr>re_retained := False\<rparr>
          else r\<lparr>re_phase := Polling\<rparr>
      | ReadInterrupted \<Rightarrow> r
      | ReadWouldBlock \<Rightarrow>
          if exited \<and> re_retained r then r\<lparr>re_retained := False\<rparr> else r\<lparr>re_phase := Polling\<rparr>
      | ReadEio \<Rightarrow>
          if \<not> re_retained r then r\<lparr>re_phase := Drained Eof\<rparr> else r\<lparr>re_phase := Polling\<rparr>
      | ReadError f \<Rightarrow> r\<lparr>re_phase := Drained (DrainFailed (process_error_of f))\<rparr>)"

definition reader_publish :: "bool \<Rightarrow> output_acceptance \<Rightarrow> bytes \<Rightarrow> reader \<Rightarrow> reader" where
  "reader_publish stop answer bs r =
     (if stop then r\<lparr>re_phase := Drained Truncated\<rparr>
      else case answer of
        OutAccepted \<Rightarrow> r\<lparr>re_phase := Reading\<rparr>
      | OutClosed \<Rightarrow> r\<lparr>re_phase := Drained Truncated\<rparr>
      | OutBackpressure \<Rightarrow> r)"

text \<open>The end of the reader thread: the child endpoint is released if it is still held, whatever
  ended the loop; a failure is flagged, the outcome is reported, and only then is the reader
  done.  \<open>result\<close> is what the loop returned, \<open>None\<close> when it panicked, which is a failure.\<close>

definition reader_end ::
  "drain_outcome option \<Rightarrow> reader \<Rightarrow> process_session \<Rightarrow> drain_outcome \<times> reader \<times> process_session" where
  "reader_end result r s =
     (let outcome = (case result of Some d \<Rightarrow> d | None \<Rightarrow> DrainFailed PInternal);
          r = r\<lparr>re_retained := False\<rparr>;
          s = (case outcome of DrainFailed _ \<Rightarrow> s\<lparr>ps_reader_failed := True\<rparr> | _ \<Rightarrow> s)
      in (outcome, r\<lparr>re_phase := ReaderDone outcome\<rparr>, s\<lparr>ps_reader_done := True\<rparr>))"

section \<open>Callers and owner, interleaved\<close>

record write_sys =
  wr_session :: process_session
  wr_admitted :: "bytes list"
  wr_host :: bytes
  wr_replies :: write_replies
  wr_drained :: bool

inductive write_step :: "write_sys \<Rightarrow> write_sys \<Rightarrow> bool" where
  ws_admit:
    "write_reserved (length (wr_admitted w)) bs now (wr_session w) = (Inr (), s)
     \<Longrightarrow> write_step w (w\<lparr>wr_session := s, wr_admitted := wr_admitted w @ [bs]\<rparr>)"
| ws_refuse: "write_reserved r bs now (wr_session w) = (Inl e, s) \<Longrightarrow> write_step w (w\<lparr>wr_session := s\<rparr>)"
| ws_cancel: "request_cancel (wr_session w) = (r, s) \<Longrightarrow> write_step w (w\<lparr>wr_session := s\<rparr>)"
| ws_resize: "resize_timed i geometry (wr_session w) = (r, s) \<Longrightarrow> write_step w (w\<lparr>wr_session := s\<rparr>)"
| ws_write:
    "(\<forall>n. answer = HostWrote n \<longrightarrow> (\<forall>i rest. ps_input (wr_session w) = i # rest \<longrightarrow> n \<le> length (in_bytes i) - in_offset i))
     \<Longrightarrow> write_ready now answer (wr_session w) = (took, replies, s)
     \<Longrightarrow> write_step w (w\<lparr>wr_session := s, wr_host := wr_host w @ took, wr_replies := wr_replies w @ replies\<rparr>)"
| ws_close: "write_step w (w\<lparr>wr_session := finish_publish (wr_session w)\<rparr>)"
| ws_drain:
    "ps_closed (wr_session w) \<Longrightarrow> finish_drain reason (wr_session w) = (replies, resized, s)
     \<Longrightarrow> write_step w (w\<lparr>wr_session := s, wr_replies := wr_replies w @ replies, wr_drained := True\<rparr>)"

abbreviation write_steps :: "write_sys \<Rightarrow> write_sys \<Rightarrow> bool" where
  "write_steps \<equiv> write_step\<^sup>*\<^sup>*"

definition write_sys_new :: "process_limits \<Rightarrow> write_sys" where
  "write_sys_new limits = \<lparr>wr_session = process_session_new limits, wr_admitted = [], wr_host = [], wr_replies = [], wr_drained = False\<rparr>"

text \<open>
  The invariant: replies and queue together are the admissions in order; the queue holds what was
  admitted, only its front has been started; the pseudoterminal has the accepted part of every
  answered write followed by the started part of the front.
\<close>

definition accepted_part :: "bytes list \<Rightarrow> reply_id \<times> write_outcome \<Rightarrow> bytes" where
  "accepted_part admitted r = take (unat (wo_written (snd r))) (admitted ! fst r)"

definition started_part :: "input \<Rightarrow> bytes" where
  "started_part i = take (in_offset i) (in_bytes i)"

definition writes_ordered :: "bytes list \<Rightarrow> write_replies \<Rightarrow> input list \<Rightarrow> bool" where
  "writes_ordered admitted replies q \<longleftrightarrow> map fst replies @ map in_reply q = [0..<length admitted]"

definition queue_ok :: "process_limits \<Rightarrow> bytes list \<Rightarrow> input list \<Rightarrow> bool" where
  "queue_ok limits admitted q \<longleftrightarrow> (\<forall>bs\<in>set admitted. length bs \<le> unat (pl_input_chunk limits))
     \<and> (\<forall>i\<in>set q. in_bytes i = admitted ! in_reply i \<and> in_offset i \<le> length (in_bytes i))
     \<and> (\<forall>i\<in>set (tl q). in_offset i = 0)"

definition host_ok :: "bytes list \<Rightarrow> write_replies \<Rightarrow> input list \<Rightarrow> bytes \<Rightarrow> bool" where
  "host_ok admitted replies q host \<longleftrightarrow>
     host = concat (map (accepted_part admitted) replies) @ concat (map started_part q)"

definition reply_ok :: "bytes list \<Rightarrow> reply_id \<times> write_outcome \<Rightarrow> bool" where
  "reply_ok admitted r \<longleftrightarrow> unat (wo_written (snd r)) \<le> length (admitted ! fst r)
     \<and> (wo_error (snd r) = None \<longrightarrow> unat (wo_written (snd r)) = length (admitted ! fst r))"

definition queue_bounded :: "process_limits \<Rightarrow> input list \<Rightarrow> nat \<Rightarrow> bool" where
  "queue_bounded limits q n \<longleftrightarrow> n = sum_list (map (length \<circ> in_bytes) q)
     \<and> n \<le> unat (pl_input_bytes limits) \<and> length q \<le> unat (pl_input_slots limits)"

definition write_inv :: "process_limits \<Rightarrow> write_sys \<Rightarrow> bool" where
  "write_inv limits w \<longleftrightarrow>
     (let s = wr_session w; q = ps_input s in
      ps_limits s = limits \<and> writes_ordered (wr_admitted w) (wr_replies w) q \<and> queue_ok limits (wr_admitted w) q
      \<and> host_ok (wr_admitted w) (wr_replies w) q (wr_host w) \<and> list_all (reply_ok (wr_admitted w)) (wr_replies w)
      \<and> queue_bounded limits q (ps_bytes s) \<and> (wr_drained w \<longrightarrow> ps_closed s \<and> q = []))"

lemma write_inv_new: "write_inv limits (write_sys_new limits)"
  by (simp add: write_inv_def write_sys_new_def process_session_new_def Let_def writes_ordered_def queue_ok_def host_ok_def
      queue_bounded_def)

lemma ordered_bound:
  assumes "writes_ordered admitted replies q"
  shows "r \<in> set replies \<Longrightarrow> fst r < length admitted" "i \<in> set q \<Longrightarrow> in_reply i < length admitted"
proof -
  have "set (map fst replies @ map in_reply q) = {0..<length admitted}"
    using assms unfolding writes_ordered_def by (metis set_upt)
  then have "fst ` set replies \<union> in_reply ` set q = {0..<length admitted}" by simp
  then show "r \<in> set replies \<Longrightarrow> fst r < length admitted" "i \<in> set q \<Longrightarrow> in_reply i < length admitted" by force+
qed

text \<open>Admission appends to every part of the picture.\<close>

lemma admit_parts:
  assumes "writes_ordered admitted replies q" "i = \<lparr>in_reply = length admitted, in_bytes = bs, in_offset = 0, in_deadline = d\<rparr>"
  shows "writes_ordered (admitted @ [bs]) replies (q @ [i])"
    "queue_ok limits admitted q \<Longrightarrow> length bs \<le> unat (pl_input_chunk limits) \<Longrightarrow> queue_ok limits (admitted @ [bs]) (q @ [i])"
    "host_ok admitted replies q host \<Longrightarrow> host_ok (admitted @ [bs]) replies (q @ [i]) host"
    "list_all (reply_ok admitted) replies \<Longrightarrow> list_all (reply_ok (admitted @ [bs])) replies"
proof -
  have nth: "(admitted @ [bs]) ! fst r = admitted ! fst r" if "r \<in> set replies" for r
    using ordered_bound(1) [OF assms(1) that] by (simp add: nth_append)
  show "writes_ordered (admitted @ [bs]) replies (q @ [i])"
    using assms by (simp add: writes_ordered_def upt_Suc_append flip: append_assoc)
  show "queue_ok limits (admitted @ [bs]) (q @ [i])"
    if "queue_ok limits admitted q" "length bs \<le> unat (pl_input_chunk limits)"
  proof -
    have "set (tl (q @ [i])) \<subseteq> insert i (set (tl q))" by (cases q) auto
    moreover have "(admitted @ [bs]) ! in_reply j = admitted ! in_reply j" if "j \<in> set q" for j
      using ordered_bound(2) [OF assms(1) that] by (simp add: nth_append)
    ultimately show ?thesis using that assms(2) unfolding queue_ok_def by auto
  qed
  show "list_all (reply_ok (admitted @ [bs])) replies" if "list_all (reply_ok admitted) replies"
    using that nth by (simp add: list_all_iff reply_ok_def)
  show "host_ok (admitted @ [bs]) replies (q @ [i]) host" if "host_ok admitted replies q host"
  proof -
    have "map (accepted_part (admitted @ [bs])) replies = map (accepted_part admitted) replies"
      using nth by (simp add: accepted_part_def)
    then show ?thesis using that unfolding host_ok_def by (simp only: assms(2)) (simp add: started_part_def)
  qed
qed

lemma write_inv_admit:
  assumes "write_inv limits w" "write_reserved (length (wr_admitted w)) bs now (wr_session w) = (Inr (), s)"
  shows "write_inv limits (w\<lparr>wr_session := s, wr_admitted := wr_admitted w @ [bs]\<rparr>)"
proof -
  let ?q = "ps_input (wr_session w)" and ?i = "\<lparr>in_reply = length (wr_admitted w), in_bytes = bs, in_offset = 0,
    in_deadline = now + pl_write_timeout (ps_limits (wr_session w))\<rparr>"
  have s: "s = (wr_session w)\<lparr>ps_bytes := ps_bytes (wr_session w) + length bs, ps_input := ?q @ [?i]\<rparr>"
    and c: "\<not> ps_closed (wr_session w)" "length bs \<le> unat (pl_input_chunk (ps_limits (wr_session w)))"
      "length ?q < unat (pl_input_slots (ps_limits (wr_session w)))"
      "length bs \<le> unat (pl_input_bytes (ps_limits (wr_session w))) - ps_bytes (wr_session w)"
    using assms(2) by (auto simp: write_reserved_def split: if_splits)
  have inv: "ps_limits (wr_session w) = limits" "writes_ordered (wr_admitted w) (wr_replies w) ?q"
    "queue_ok limits (wr_admitted w) ?q" "host_ok (wr_admitted w) (wr_replies w) ?q (wr_host w)"
    "list_all (reply_ok (wr_admitted w)) (wr_replies w)" "queue_bounded limits ?q (ps_bytes (wr_session w))" "\<not> wr_drained w"
    using assms(1) c(1) by (auto simp: write_inv_def Let_def)
  have "queue_bounded limits (?q @ [?i]) (ps_bytes (wr_session w) + length bs)"
    using inv(1,6) c(3,4) by (auto simp: queue_bounded_def)
  then show ?thesis
    using admit_parts [OF inv(2) refl] inv c(2) by (simp add: write_inv_def s)
qed

text \<open>Answering the front moves its started part to the accepted ones.\<close>

lemma reply_front:
  assumes "writes_ordered admitted replies (i # q)" "queue_ok limits admitted (i # q)" "host_ok admitted replies (i # q) host"
    "list_all (reply_ok admitted) replies" "error = None \<longrightarrow> in_offset i = length (in_bytes i)"
    "r = (in_reply i, \<lparr>wo_written = word_of_nat (in_offset i), wo_error = error\<rparr>)"
  shows "writes_ordered admitted (replies @ [r]) q" "queue_ok limits admitted q" "host_ok admitted (replies @ [r]) q host"
    "list_all (reply_ok admitted) (replies @ [r])"
proof -
  have i: "in_bytes i = admitted ! in_reply i" "in_offset i \<le> length (in_bytes i)" "in_reply i < length admitted"
    using assms(2) ordered_bound(2) [OF assms(1)] by (auto simp: queue_ok_def)
  have "length (in_bytes i) \<le> unat (pl_input_chunk limits)" using assms(2) i(1,3) by (auto simp: queue_ok_def)
  then have "in_offset i < 2 ^ 64" using i(2) unat_u64_less [of "pl_input_chunk limits"] by linarith
  then have w: "unat (word_of_nat (in_offset i) :: usize) = in_offset i" by (rule unat_of_nat_u64)
  show "writes_ordered admitted (replies @ [r]) q" using assms(1,6) by (simp add: writes_ordered_def)
  show "queue_ok limits admitted q" using assms(2) by (cases q) (auto simp: queue_ok_def)
  show "host_ok admitted (replies @ [r]) q host"
    using assms(3,6) w i(1) by (simp add: host_ok_def accepted_part_def started_part_def)
  show "list_all (reply_ok admitted) (replies @ [r])"
    using assms(4-6) w i(1,2) by (auto simp: reply_ok_def)
qed

lemma write_front_cases:
  assumes "write_front now answer i = (failure, took, j)" "\<forall>n. answer = HostWrote n \<longrightarrow> n \<le> length (in_bytes i) - in_offset i"
    "in_offset i \<le> length (in_bytes i)"
  shows "in_reply j = in_reply i \<and> in_bytes j = in_bytes i \<and> in_offset j \<le> length (in_bytes i)
    \<and> started_part j = started_part i @ took"
  using assms by (auto simp: write_front_def started_part_def take_add split: if_splits host_write.splits)

lemma write_inv_write:
  assumes "write_inv limits w" "write_ready now answer (wr_session w) = (took, replies, s)"
    "\<forall>n. answer = HostWrote n \<longrightarrow> (\<forall>i rest. ps_input (wr_session w) = i # rest \<longrightarrow> n \<le> length (in_bytes i) - in_offset i)"
  shows "write_inv limits (w\<lparr>wr_session := s, wr_host := wr_host w @ took, wr_replies := wr_replies w @ replies\<rparr>)"
proof (cases "ps_input (wr_session w)")
  case Nil
  then have "took = []" "replies = []" "s = wr_session w" using assms(2) by (auto simp: write_ready_def)
  then show ?thesis using assms(1) by simp
next
  case (Cons i q)
  let ?a = "wr_admitted w"
  have inv: "ps_limits (wr_session w) = limits" "writes_ordered ?a (wr_replies w) (i # q)"
    "queue_ok limits ?a (i # q)" "host_ok ?a (wr_replies w) (i # q) (wr_host w)"
    "list_all (reply_ok ?a) (wr_replies w)" "queue_bounded limits (i # q) (ps_bytes (wr_session w))" "\<not> wr_drained w"
    using assms(1) Cons by (auto simp: write_inv_def Let_def)
  obtain failure took' j where f: "write_front now answer i = (failure, took', j)" by (cases "write_front now answer i") auto
  have j: "in_reply j = in_reply i" "in_bytes j = in_bytes i" "in_offset j \<le> length (in_bytes i)" "started_part j = started_part i @ took'"
    using write_front_cases [OF f] assms(3) Cons inv(3) by (auto simp: queue_ok_def)
  have q: "\<forall>k\<in>set q. in_offset k = 0" using inv(3) by (simp add: queue_ok_def)
  then have rest: "concat (map started_part q) = []" by (simp add: started_part_def)
  have new: "writes_ordered ?a (wr_replies w) (j # q)" "queue_ok limits ?a (j # q)" "host_ok ?a (wr_replies w) (j # q) (wr_host w @ took')"
    "queue_bounded limits (j # q) (ps_bytes (wr_session w))"
    using inv j rest by (simp_all add: writes_ordered_def queue_ok_def host_ok_def queue_bounded_def)
  show ?thesis
  proof (cases "failure \<noteq> None \<or> in_offset j = length (in_bytes j)")
    case True
    have r: "took = took'" "replies = [(in_reply j, \<lparr>wo_written = word_of_nat (in_offset j), wo_error = failure\<rparr>)]"
      "s = (wr_session w)\<lparr>ps_input := q, ps_bytes := ps_bytes (wr_session w) - length (in_bytes j)\<rparr>"
      using assms(2) Cons f True by (auto simp: write_ready_def)
    have "failure = None \<longrightarrow> in_offset j = length (in_bytes j)" using True by auto
    note popped = reply_front [OF new(1-3) inv(5) this refl]
    have "queue_bounded limits q (ps_bytes (wr_session w) - length (in_bytes j))" using new(4) by (auto simp: queue_bounded_def)
    then show ?thesis using popped inv(1,7) by (simp add: write_inv_def r)
  next
    case False
    then have "took = took'" "replies = []" "s = (wr_session w)\<lparr>ps_input := j # q\<rparr>"
      using assms(2) Cons f by (auto simp: write_ready_def)
    then show ?thesis using new inv(1,5,7) by (simp add: write_inv_def)
  qed
qed

lemma drain_replies:
  assumes "writes_ordered admitted replies q" "queue_ok limits admitted q" "host_ok admitted replies q host" "list_all (reply_ok admitted) replies"
    "rs = map (\<lambda>i. (in_reply i, \<lparr>wo_written = word_of_nat (in_offset i), wo_error = Some reason\<rparr>)) q"
  shows "writes_ordered admitted (replies @ rs) [] \<and> queue_ok limits admitted [] \<and> host_ok admitted (replies @ rs) [] host
    \<and> list_all (reply_ok admitted) (replies @ rs)"
  using assms
proof (induction q arbitrary: replies rs)
  case (Cons i q)
  let ?r = "(in_reply i, \<lparr>wo_written = word_of_nat (in_offset i), wo_error = Some reason\<rparr>)"
  note front = reply_front [OF Cons.prems(1-4), where error = "Some reason", OF _ refl]
  show ?case using Cons.IH [OF front refl] Cons.prems(5) by simp
qed simp

lemma write_inv_drain:
  assumes "write_inv limits w" "finish_drain reason (wr_session w) = (replies, resized, s)" "ps_closed (wr_session w)"
  shows "write_inv limits (w\<lparr>wr_session := s, wr_replies := wr_replies w @ replies, wr_drained := True\<rparr>)"
proof -
  let ?q = "ps_input (wr_session w)"
  have inv: "ps_limits (wr_session w) = limits" "writes_ordered (wr_admitted w) (wr_replies w) ?q"
    "queue_ok limits (wr_admitted w) ?q" "host_ok (wr_admitted w) (wr_replies w) ?q (wr_host w)"
    "list_all (reply_ok (wr_admitted w)) (wr_replies w)" "queue_bounded limits ?q (ps_bytes (wr_session w))"
    using assms(1) by (auto simp: write_inv_def Let_def)
  have r: "replies = map (\<lambda>i. (in_reply i, \<lparr>wo_written = word_of_nat (in_offset i), wo_error = Some reason\<rparr>)) ?q"
    "s = (wr_session w)\<lparr>ps_input := [], ps_resize := None, ps_bytes := 0\<rparr>"
    using assms(2) by (auto simp: finish_drain_def)
  show ?thesis
    using drain_replies [OF inv(2-5) r(1)] inv(1) assms(3) by (simp add: write_inv_def r(2) queue_bounded_def)
qed

lemma write_inv_step:
  assumes "write_step w w'" "write_inv limits w"
  shows "write_inv limits w'"
  using assms
proof (induction rule: write_step.induct)
  case (ws_admit w bs now s)
  then show ?case using write_inv_admit by blast
next
  case (ws_write answer w now took replies s)
  then show ?case using write_inv_write by blast
next
  case (ws_drain w reason replies resized s)
  then show ?case using write_inv_drain by blast
qed (auto simp: write_reserved_def request_cancel_def resize_timed_def finish_publish_def write_inv_def Let_def split: if_splits)

lemma write_inv_steps: "write_steps w w' \<Longrightarrow> write_inv limits w \<Longrightarrow> write_inv limits w'"
  by (induction rule: rtranclp_induct) (auto intro: write_inv_step)

section \<open>The reader at work\<close>

text \<open>
  The reader with the flags its owner sets, what it has taken from the pseudoterminal and what the
  session has accepted.  Flags are only ever set, so the load after the poll may see a later value.
\<close>

record read_sys =
  rs_reader :: reader
  rs_stop :: bool
  rs_exited :: bool
  rs_read :: bytes
  rs_out :: bytes
  rs_session :: process_session
  rs_reports :: "drain_outcome list"

definition loop_ended :: "reader \<Rightarrow> bool" where
  "loop_ended r \<longleftrightarrow> (case re_phase r of Drained _ \<Rightarrow> True | ReaderDone _ \<Rightarrow> True | _ \<Rightarrow> False)"

inductive read_step :: "read_sys \<Rightarrow> read_sys \<Rightarrow> bool" where
  rs_set_stop: "read_step r (r\<lparr>rs_stop := True\<rparr>)"
| rs_set_exited: "read_step r (r\<lparr>rs_exited := True\<rparr>)"
| rs_poll:
    "re_phase (rs_reader r) = Polling \<Longrightarrow> (rs_stop r \<longrightarrow> stopped)
     \<Longrightarrow> read_step r (r\<lparr>rs_reader := reader_poll (rs_stop r) answer stopped (rs_reader r), rs_stop := stopped\<rparr>)"
| rs_take:
    "re_phase (rs_reader r) = Reading \<Longrightarrow> answer = ReadSome bs \<Longrightarrow> bs \<noteq> [] \<Longrightarrow> \<not> rs_stop r
     \<Longrightarrow> read_step r (r\<lparr>rs_reader := reader_read (rs_stop r) (rs_exited r) answer (rs_reader r), rs_read := rs_read r @ bs\<rparr>)"
| rs_nothing:
    "re_phase (rs_reader r) = Reading \<Longrightarrow> (\<forall>bs. answer \<noteq> ReadSome bs) \<or> rs_stop r
     \<Longrightarrow> read_step r (r\<lparr>rs_reader := reader_read (rs_stop r) (rs_exited r) answer (rs_reader r)\<rparr>)"
| rs_publish:
    "re_phase (rs_reader r) = Publishing bs
     \<Longrightarrow> read_step r (r\<lparr>rs_reader := reader_publish (rs_stop r) answer bs (rs_reader r),
          rs_out := rs_out r @ (if \<not> rs_stop r \<and> answer = OutAccepted then bs else [])\<rparr>)"
| rs_end:
    "re_phase (rs_reader r) = Drained d \<Longrightarrow> reader_end (Some d) (rs_reader r) (rs_session r) = (outcome, x, s)
     \<Longrightarrow> read_step r (r\<lparr>rs_reader := x, rs_session := s, rs_reports := rs_reports r @ [outcome]\<rparr>)"
| rs_panic:
    "\<not> loop_ended (rs_reader r) \<Longrightarrow> reader_end None (rs_reader r) (rs_session r) = (outcome, x, s)
     \<Longrightarrow> read_step r (r\<lparr>rs_reader := x, rs_session := s, rs_reports := rs_reports r @ [outcome]\<rparr>)"

abbreviation read_steps :: "read_sys \<Rightarrow> read_sys \<Rightarrow> bool" where
  "read_steps \<equiv> read_step\<^sup>*\<^sup>*"

definition read_sys_new :: "process_limits \<Rightarrow> read_sys" where
  "read_sys_new limits = \<lparr>rs_reader = \<lparr>re_phase = Polling, re_retained = True\<rparr>, rs_stop = False, rs_exited = False,
     rs_read = [], rs_out = [], rs_session = process_session_new limits, rs_reports = []\<rparr>"

fun unpublished :: "reader_phase \<Rightarrow> bytes \<Rightarrow> bool" where
  "unpublished (Publishing bs) rest \<longleftrightarrow> rest = bs"
| "unpublished (Drained Truncated) rest \<longleftrightarrow> True"
| "unpublished (ReaderDone Truncated) rest \<longleftrightarrow> True"
| "unpublished (ReaderDone (DrainFailed PInternal)) rest \<longleftrightarrow> True"
| "unpublished _ rest \<longleftrightarrow> rest = []"

text \<open>What the session knows of the reader: nothing before its end, then the one outcome reported.\<close>

definition reported :: "read_sys \<Rightarrow> drain_outcome list \<Rightarrow> bool" where
  "reported r ds \<longleftrightarrow> rs_reports r = ds \<and> ps_reader_done (rs_session r) = (ds \<noteq> [])
     \<and> ps_reader_failed (rs_session r) = (\<exists>e. ds = [DrainFailed e])"

definition end_inv :: "read_sys \<Rightarrow> bool" where
  "end_inv r \<longleftrightarrow> (case re_phase (rs_reader r) of
       ReaderDone d \<Rightarrow> reported r [d] \<and> \<not> re_retained (rs_reader r)
     | _ \<Rightarrow> reported r [] \<and> (\<not> re_retained (rs_reader r) \<longrightarrow> rs_exited r))"

definition read_inv :: "read_sys \<Rightarrow> bool" where
  "read_inv r \<longleftrightarrow> (\<exists>rest. rs_read r = rs_out r @ rest \<and> unpublished (re_phase (rs_reader r)) rest)
     \<and> (re_phase (rs_reader r) \<in> {Drained Eof, ReaderDone Eof} \<longrightarrow> \<not> re_retained (rs_reader r) \<and> rs_exited r)"

lemma unpublished_end:
  "unpublished (Drained d) rest \<Longrightarrow> unpublished (ReaderDone d) rest"
proof (cases d)
  case (DrainFailed e)
  then show "unpublished (Drained d) rest \<Longrightarrow> unpublished (ReaderDone d) rest" by (cases e) simp_all
qed simp_all

lemma read_inv_step:
  assumes "read_step r r'" "read_inv r" "end_inv r"
  shows "read_inv r'"
  using assms
proof (induction rule: read_step.induct)
  case (rs_poll r stopped answer)
  then show ?case by (auto simp: read_inv_def reader_poll_def split: poll_answer.splits)
next
  case (rs_nothing r answer)
  then show ?case by (auto simp: read_inv_def end_inv_def reader_read_def split: host_read.splits)
next
  case (rs_take r answer bs)
  then show ?case by (auto simp: read_inv_def reader_read_def)
next
  case (rs_publish r bs answer)
  then show ?case by (auto simp: read_inv_def reader_publish_def split: output_acceptance.splits)
next
  case (rs_end r d outcome x s)
  then show ?case by (auto simp: read_inv_def reader_end_def Let_def intro: unpublished_end)
next
  case (rs_panic r outcome x s)
  then show ?case by (auto simp: read_inv_def reader_end_def Let_def)
qed (auto simp: read_inv_def)

lemma end_inv_step:
  assumes "read_step r r'" "end_inv r"
  shows "end_inv r'"
  using assms
proof (induction rule: read_step.induct)
  case (rs_poll r stopped answer)
  then show ?case by (auto simp: end_inv_def reported_def reader_poll_def split: poll_answer.splits)
next
  case (rs_nothing r answer)
  then show ?case by (auto simp: end_inv_def reported_def reader_read_def split: host_read.splits)
next
  case (rs_take r answer bs)
  then show ?case by (auto simp: end_inv_def reported_def reader_read_def)
next
  case (rs_publish r bs answer)
  then show ?case by (auto simp: end_inv_def reported_def reader_publish_def split: output_acceptance.splits)
next
  case (rs_end r d outcome x s)
  then show ?case by (auto simp: end_inv_def reported_def reader_end_def Let_def split: drain_outcome.splits)
next
  case (rs_panic r outcome x s)
  then show ?case
    by (auto simp: end_inv_def reported_def reader_end_def loop_ended_def Let_def split: reader_phase.splits)
qed (auto simp: end_inv_def reported_def split: reader_phase.splits)

lemma read_inv_steps: "read_steps r r' \<Longrightarrow> read_inv r \<and> end_inv r \<Longrightarrow> read_inv r' \<and> end_inv r'"
  by (induction rule: rtranclp_induct) (auto intro: read_inv_step end_inv_step)

lemma read_inv_new: "read_inv (read_sys_new limits) \<and> end_inv (read_sys_new limits)"
  by (simp add: read_inv_def end_inv_def reported_def read_sys_new_def process_session_new_def)

section \<open>Properties\<close>

text \<open>
  C7. Writes to the process are accounted for.  Whatever callers and owner do and however the
  pseudoterminal cuts the writes, every admitted write is answered at most once and in the order
  of admission; the bytes the pseudoterminal received are, in order, the accepted part each answer
  reports, followed by the started part of the write at the front; an answer without an error
  means all of it was accepted; the queue never exceeds its slots and bytes; and once the session
  has been finished nothing is left unanswered and nothing more is admitted.
\<close>

theorem process_writes_accounted:
  assumes "write_steps (write_sys_new limits) w"
  shows "map fst (wr_replies w) @ map in_reply (ps_input (wr_session w)) = [0..<length (wr_admitted w)]
    \<and> wr_host w = concat (map (\<lambda>r. take (unat (wo_written (snd r))) (wr_admitted w ! fst r)) (wr_replies w))
        @ concat (map (\<lambda>i. take (in_offset i) (wr_admitted w ! in_reply i)) (ps_input (wr_session w)))
    \<and> (\<forall>(r, out)\<in>set (wr_replies w). wo_error out = None \<longrightarrow> unat (wo_written out) = length (wr_admitted w ! r))
    \<and> length (ps_input (wr_session w)) \<le> unat (pl_input_slots limits)
    \<and> sum_list (map (length \<circ> in_bytes) (ps_input (wr_session w))) \<le> unat (pl_input_bytes limits)
    \<and> (wr_drained w \<longrightarrow> map fst (wr_replies w) = [0..<length (wr_admitted w)]
        \<and> (\<forall>r bs now. fst (write_reserved r bs now (wr_session w)) = Err PClosed))"
proof -
  let ?q = "ps_input (wr_session w)"
  have inv: "writes_ordered (wr_admitted w) (wr_replies w) ?q" "queue_ok limits (wr_admitted w) ?q"
    "host_ok (wr_admitted w) (wr_replies w) ?q (wr_host w)" "list_all (reply_ok (wr_admitted w)) (wr_replies w)"
    "queue_bounded limits ?q (ps_bytes (wr_session w))" "wr_drained w \<longrightarrow> ps_closed (wr_session w) \<and> ?q = []"
    using write_inv_steps [OF assms write_inv_new] by (auto simp: write_inv_def Let_def)
  have parts: "map started_part ?q = map (\<lambda>i. take (in_offset i) (wr_admitted w ! in_reply i)) ?q"
    using inv(2) by (simp add: started_part_def queue_ok_def)
  have host: "wr_host w = concat (map (\<lambda>r. take (unat (wo_written (snd r))) (wr_admitted w ! fst r)) (wr_replies w))
        @ concat (map (\<lambda>i. take (in_offset i) (wr_admitted w ! in_reply i)) ?q)"
    using inv(3) unfolding host_ok_def parts accepted_part_def .
  have full: "\<forall>(r, out)\<in>set (wr_replies w). wo_error out = None \<longrightarrow> unat (wo_written out) = length (wr_admitted w ! r)"
    using inv(4) by (auto simp: list_all_iff reply_ok_def)
  have bounds: "length ?q \<le> unat (pl_input_slots limits)" "sum_list (map (length \<circ> in_bytes) ?q) \<le> unat (pl_input_bytes limits)"
    using inv(5) by (auto simp: queue_bounded_def)
  have drained: "map fst (wr_replies w) = [0..<length (wr_admitted w)] \<and> (\<forall>r bs now. fst (write_reserved r bs now (wr_session w)) = Err PClosed)"
    if "wr_drained w"
    using inv(1,6) that by (simp add: writes_ordered_def write_reserved_def)
  show ?thesis using inv(1) host full bounds drained unfolding writes_ordered_def by blast
qed

definition sample_limits :: process_limits where
  "sample_limits = process_limits_default\<lparr>pl_input_slots := 2\<rparr>"

definition sample_input :: "nat \<Rightarrow> nat \<Rightarrow> input" where
  "sample_input r n = \<lparr>in_reply = r, in_bytes = [104, 105], in_offset = n, in_deadline = from_secs 5\<rparr>"

definition sample_writes :: "input list \<Rightarrow> bytes \<Rightarrow> write_replies \<Rightarrow> bool \<Rightarrow> nat \<Rightarrow> bool \<Rightarrow> write_sys" where
  "sample_writes q host replies closed n drained = \<lparr>wr_session = (process_session_new sample_limits)\<lparr>ps_input := q,
     ps_bytes := sum_list (map (length \<circ> in_bytes) q), ps_closed := closed\<rparr>,
     wr_admitted = replicate n [104, 105], wr_host = host, wr_replies = replies, wr_drained = drained\<rparr>"

theorem process_writes_accounted_witness:
  "\<exists>w. write_steps (write_sys_new sample_limits) w \<and> wr_host w = [104] \<and> wr_drained w
     \<and> wr_replies w = [(0, \<lparr>wo_written = 1, wo_error = Some PClosed\<rparr>)] \<and> map fst (wr_replies w) = [0..<length (wr_admitted w)]"
proof -
  let ?w = "sample_writes [] [104] [(0, \<lparr>wo_written = 1, wo_error = Some PClosed\<rparr>)] True 1 True"
  note ev = sample_writes_def sample_input_def sample_limits_def process_limits_default_def process_session_new_def
  have a: "write_step (write_sys_new sample_limits) (sample_writes [sample_input 0 0] [] [] False 1 False)"
    using ws_admit [of "write_sys_new sample_limits" "[104, 105]" 0]
    by (simp add: ev write_sys_new_def write_reserved_def)
  have b: "write_step (sample_writes [sample_input 0 0] [] [] False 1 False) (sample_writes [sample_input 0 1] [104] [] False 1 False)"
    using ws_write [of "HostWrote 1" "sample_writes [sample_input 0 0] [] [] False 1 False" 0]
    by (simp add: ev write_ready_def write_front_def from_secs_def)
  have c: "write_step (sample_writes [sample_input 0 1] [104] [] False 1 False) (sample_writes [sample_input 0 1] [104] [] True 1 False)"
    using ws_close [of "sample_writes [sample_input 0 1] [104] [] False 1 False"] by (simp add: ev finish_publish_def)
  have d: "write_step (sample_writes [sample_input 0 1] [104] [] True 1 False) ?w"
    using ws_drain [of "sample_writes [sample_input 0 1] [104] [] True 1 False" PClosed] by (simp add: ev finish_drain_def)
  have steps: "write_steps (write_sys_new sample_limits) ?w" using a b c d by (meson r_into_rtranclp rtranclp_trans)
  have "wr_drained ?w" by (simp add: sample_writes_def)
  then show ?thesis using process_writes_accounted [OF steps] steps by (auto simp: sample_writes_def)
qed


definition sample_read :: "reader_phase \<Rightarrow> bool \<Rightarrow> bool \<Rightarrow> bytes \<Rightarrow> bytes \<Rightarrow> read_sys" where
  "sample_read phase retained exited input output = (read_sys_new sample_limits)
     \<lparr>rs_reader := \<lparr>re_phase = phase, re_retained = retained\<rparr>, rs_exited := exited, rs_read := input, rs_out := output\<rparr>"


end
