(* ===== verification/Guardian_Protocol.thy ===== *)
theory Guardian_Protocol
  imports Text
begin

text \<open>
  The fixed, versioned records between the runtime and its guardian helper and the channel that
  carries them (\<^verbatim>\<open>scripts/guardian/protocol.rs\<close>, compiled into both programs).

  An array of four \<open>i32\<close> is a list, and \<open>frame_ok\<close> says it has four elements; the partial
  incoming record is the array and the number of bytes received.  What the socket answers to
  each \<open>read\<close> and \<open>write\<close> is an argument.
\<close>

section \<open>Records\<close>

datatype guardian_kind = KHello | KStarted | KAdmitted | KWorkloadExit | KStartFailed | KFault | KRetiring
  | KTerminate | KKill | KRelease | KFinish | KAbort | KSuccessor | KExecute | KSignalApplied | KEscalated

fun kind_code :: "guardian_kind \<Rightarrow> u16" where
  "kind_code KHello = 1" | "kind_code KStarted = 2" | "kind_code KAdmitted = 3" | "kind_code KWorkloadExit = 4"
| "kind_code KStartFailed = 5" | "kind_code KFault = 6" | "kind_code KRetiring = 7" | "kind_code KTerminate = 10"
| "kind_code KKill = 11" | "kind_code KRelease = 12" | "kind_code KFinish = 13" | "kind_code KAbort = 14"
| "kind_code KSuccessor = 15" | "kind_code KExecute = 16" | "kind_code KSignalApplied = 17" | "kind_code KEscalated = 18"

datatype io_error = IoInvalidData | IoWouldBlock | IoWriteZero | IoOther nat

definition kind_table :: "(u16 \<times> guardian_kind) list" where
  "kind_table = [(1, KHello), (2, KStarted), (3, KAdmitted), (4, KWorkloadExit), (5, KStartFailed), (6, KFault),
     (7, KRetiring), (10, KTerminate), (11, KKill), (12, KRelease), (13, KFinish), (14, KAbort), (15, KSuccessor),
     (16, KExecute), (17, KSignalApplied), (18, KEscalated)]"

definition kind_decode :: "u16 \<Rightarrow> (io_error, guardian_kind) result" where
  "kind_decode v = (case map_of kind_table v of Some k \<Rightarrow> Ok k | None \<Rightarrow> Err IoInvalidData)"

record frame =
  fr_kind :: guardian_kind
  fr_generation :: u64
  fr_values :: "i32 list"

definition FRAME_BYTES :: nat where "FRAME_BYTES = 32"
definition QUEUE_RECORDS :: nat where "QUEUE_RECORDS = 8"
definition PROTOCOL_VERSION :: u16 where "PROTOCOL_VERSION = 1"
definition FRAME_MAGIC :: bytes where "FRAME_MAGIC = bstr ''PTGR''"

definition frame_ok :: "frame \<Rightarrow> bool" where
  "frame_ok f \<longleftrightarrow> length (fr_values f) = 4"

definition frame_encode :: "frame \<Rightarrow> bytes" where
  "frame_encode f =
     FRAME_MAGIC @ to_le_bytes 2 PROTOCOL_VERSION @ to_le_bytes 2 (kind_code (fr_kind f))
     @ to_le_bytes 8 (fr_generation f) @ concat (map (to_le_bytes 4) (fr_values f))"

definition frame_slice :: "nat \<Rightarrow> nat \<Rightarrow> bytes \<Rightarrow> bytes" where
  "frame_slice a b bs = take (b - a) (drop a bs)"

definition frame_decode :: "bytes \<Rightarrow> u64 \<Rightarrow> (io_error, frame) result" where
  "frame_decode bs generation =
     (if frame_slice 0 4 bs \<noteq> FRAME_MAGIC \<or> frame_slice 4 6 bs \<noteq> to_le_bytes 2 PROTOCOL_VERSION
         \<or> frame_slice 8 16 bs \<noteq> to_le_bytes 8 generation
      then Err IoInvalidData
      else bind_result (kind_decode (from_le_bytes (frame_slice 6 8 bs))) (\<lambda>kind.
        Ok \<lparr>fr_kind = kind, fr_generation = generation,
            fr_values = map (\<lambda>i. from_le_bytes (frame_slice (16 + i * 4) (20 + i * 4) bs)) [0..<4]\<rparr>))"

section \<open>Channels\<close>

record channel =
  ch_generation :: u64
  ch_incoming :: bytes
  ch_received :: nat
  ch_outgoing :: "bytes list"
  ch_sent :: nat
  ch_eof :: bool

definition channel_new :: "u64 \<Rightarrow> channel" where
  "channel_new generation = \<lparr>ch_generation = generation, ch_incoming = replicate FRAME_BYTES 0, ch_received = 0,
     ch_outgoing = [], ch_sent = 0, ch_eof = False\<rparr>"

definition wants_write :: "channel \<Rightarrow> bool" where
  "wants_write ch \<longleftrightarrow> ch_outgoing ch \<noteq> []"

definition channel_enqueue :: "frame \<Rightarrow> channel \<Rightarrow> (io_error, unit) result \<times> channel" where
  "channel_enqueue f ch =
     (if fr_generation f \<noteq> ch_generation ch then (Err IoInvalidData, ch)
      else let bs = frame_encode f in
        if bs \<in> set (ch_outgoing ch) then (Ok (), ch)
        else if length (ch_outgoing ch) = QUEUE_RECORDS then (Err IoWouldBlock, ch)
        else (Ok (), ch\<lparr>ch_outgoing := ch_outgoing ch @ [bs]\<rparr>))"

datatype write_answer = Wrote nat | WriteInterrupted | WriteWouldBlock | WriteFailed nat

text \<open>The loop of \<open>flush\<close>: at most \<open>n\<close> more writes.  The second component is what the socket
  took.\<close>

fun flush_loop :: "nat \<Rightarrow> (nat \<Rightarrow> write_answer) \<Rightarrow> channel \<Rightarrow> (io_error, unit) result \<times> bytes \<times> channel" where
  "flush_loop 0 answer ch = (Ok (), [], ch)"
| "flush_loop (Suc n) answer ch =
     (case ch_outgoing ch of
        [] \<Rightarrow> (Ok (), [], ch)
      | front # rest \<Rightarrow>
          (case answer n of
             Wrote count \<Rightarrow>
               if count = 0 then (Err IoWriteZero, [], ch)
               else
                 let took = take count (drop (ch_sent ch) front);
                     sent = ch_sent ch + count;
                     ch = (if sent = FRAME_BYTES then ch\<lparr>ch_outgoing := rest, ch_sent := 0\<rparr> else ch\<lparr>ch_sent := sent\<rparr>)
                 in (case flush_loop n answer ch of (r, written, ch) \<Rightarrow> (r, took @ written, ch))
           | WriteInterrupted \<Rightarrow> flush_loop n answer ch
           | WriteWouldBlock \<Rightarrow> (Ok (), [], ch)
           | WriteFailed e \<Rightarrow> (Err (IoOther e), [], ch)))"

definition channel_flush :: "(nat \<Rightarrow> write_answer) \<Rightarrow> channel \<Rightarrow> (io_error, unit) result \<times> bytes \<times> channel" where
  "channel_flush answer ch = flush_loop QUEUE_RECORDS answer ch"

datatype read_answer = ReadBytes bytes | ReadReset | ReadRetry | ReadFailed nat

definition finish_receive :: "channel \<Rightarrow> (io_error, frame option) result \<times> channel" where
  "finish_receive ch =
     (let ch = ch\<lparr>ch_eof := True\<rparr> in
      if ch_received ch = 0 then (Ok None, ch) else (Err IoInvalidData, ch))"

definition channel_receive :: "read_answer \<Rightarrow> channel \<Rightarrow> (io_error, frame option) result \<times> channel" where
  "channel_receive answer ch =
     (if ch_eof ch then (Ok None, ch)
      else case answer of
        ReadBytes bs \<Rightarrow>
          if bs = [] then finish_receive ch
          else
            let n = ch_received ch;
                ch = ch\<lparr>ch_incoming := take n (ch_incoming ch) @ bs @ drop (n + length bs) (ch_incoming ch),
                        ch_received := n + length bs\<rparr> in
            if ch_received ch = FRAME_BYTES
            then (case frame_decode (ch_incoming ch) (ch_generation ch) of
                    Err e \<Rightarrow> (Err e, ch\<lparr>ch_received := 0\<rparr>)
                  | Ok f \<Rightarrow> (Ok (Some f), ch\<lparr>ch_received := 0\<rparr>))
            else (Ok None, ch)
      | ReadReset \<Rightarrow> finish_receive ch
      | ReadRetry \<Rightarrow> (Ok None, ch)
      | ReadFailed e \<Rightarrow> (Err (IoOther e), ch))"

section \<open>Encoding\<close>

lemma kind_decode_code [simp]: "kind_decode (kind_code k) = Ok k"
  by (cases k) (simp_all add: kind_decode_def kind_table_def)

lemma kind_code_decode: "kind_decode v = Ok k \<Longrightarrow> kind_code k = v"
  by (auto simp: kind_decode_def kind_table_def split: option.splits if_splits)

lemma slice_append: "length a = i \<Longrightarrow> length b = j - i \<Longrightarrow> frame_slice i j (a @ b @ c) = b"
  by (simp add: frame_slice_def)

lemma length_magic [simp]: "length FRAME_MAGIC = 4"
  by (simp add: FRAME_MAGIC_def bstr_def)

lemma length_values: "length (concat (map (to_le_bytes 4) vs)) = 4 * length vs"
  by (induction vs) simp_all

lemma length_frame_encode: "frame_ok f \<Longrightarrow> length (frame_encode f) = FRAME_BYTES"
  by (simp add: frame_encode_def frame_ok_def FRAME_BYTES_def length_values)

lemma four_values: "length vs = 4 \<Longrightarrow> vs = [vs ! 0, vs ! 1, vs ! 2, vs ! 3]"
  by (auto simp: numeral_eq_Suc length_Suc_conv)

lemma encode_slices:
  assumes "frame_ok f"
  shows "frame_slice 0 4 (frame_encode f) = FRAME_MAGIC" "frame_slice 4 6 (frame_encode f) = to_le_bytes 2 PROTOCOL_VERSION"
    "frame_slice 6 8 (frame_encode f) = to_le_bytes 2 (kind_code (fr_kind f))"
    "frame_slice 8 16 (frame_encode f) = to_le_bytes 8 (fr_generation f)"
    "i < 4 \<Longrightarrow> frame_slice (16 + i * 4) (20 + i * 4) (frame_encode f) = to_le_bytes 4 (fr_values f ! i)"
proof -
  obtain a b c d where v: "fr_values f = [a, b, c, d]" using assms four_values unfolding frame_ok_def by metis
  show "frame_slice 0 4 (frame_encode f) = FRAME_MAGIC" "frame_slice 4 6 (frame_encode f) = to_le_bytes 2 PROTOCOL_VERSION"
    "frame_slice 6 8 (frame_encode f) = to_le_bytes 2 (kind_code (fr_kind f))"
    "frame_slice 8 16 (frame_encode f) = to_le_bytes 8 (fr_generation f)"
    by (simp_all add: frame_encode_def frame_slice_def)
  show "frame_slice (16 + i * 4) (20 + i * 4) (frame_encode f) = to_le_bytes 4 (fr_values f ! i)" if "i < 4"
  proof -
    from that have "i = 0 \<or> i = 1 \<or> i = 2 \<or> i = 3" by auto
    then show ?thesis by (elim disjE) (simp_all add: frame_encode_def frame_slice_def v)
  qed
qed

lemma frame_decode_encode:
  assumes "frame_ok f"
  shows "frame_decode (frame_encode f) (fr_generation f) = Ok f"
proof -
  have "map (\<lambda>i. from_le_bytes (frame_slice (16 + i * 4) (20 + i * 4) (frame_encode f))) [0..<4] = fr_values f"
    by (rule nth_equalityI) (use assms encode_slices(5) [OF assms] in \<open>simp_all add: frame_ok_def from_to_le_bytes\<close>)
  then show ?thesis
    using encode_slices(1-4) [OF assms] by (simp add: frame_decode_def from_to_le_bytes)
qed

lemma slices_join:
  assumes "length bs = 32"
  shows "frame_slice 0 4 bs @ frame_slice 4 6 bs @ frame_slice 6 8 bs @ frame_slice 8 16 bs
    @ concat (map (\<lambda>i. frame_slice (16 + i * 4) (20 + i * 4) bs) [0..<4]) = bs"
proof -
  have u: "[0..<4] = [0, 1, 2, 3 :: nat]" by (simp add: upt_rec)
  have t: "take m (drop i bs) @ take n (drop (i + m) bs) = take (m + n) (drop i bs)" for i m n :: nat
    by (simp add: take_add add.commute)
  have "frame_slice 0 4 bs @ frame_slice 4 6 bs @ frame_slice 6 8 bs @ frame_slice 8 16 bs
    @ concat (map (\<lambda>i. frame_slice (16 + i * 4) (20 + i * 4) bs) [0..<4])
    = take 4 (drop 0 bs) @ take 2 (drop 4 bs) @ take 2 (drop 6 bs) @ take 8 (drop 8 bs)
      @ take 4 (drop 16 bs) @ take 4 (drop 20 bs) @ take 4 (drop 24 bs) @ take 4 (drop 28 bs)"
    by (simp add: u frame_slice_def)
  also have "\<dots> = take 32 bs"
    using t [of 4 28 4] t [of 8 24 4] t [of 12 20 4] t [of 16 16 8] t [of 24 8 2] t [of 26 6 2] t [of 28 4 4]
      t [of 4 24 4] t [of 4 20 8] t [of 4 16 12] t [of 8 8 16] t [of 2 6 24] t [of 2 4 26] t [of 4 0 28]
    by simp
  finally show ?thesis using assms by simp
qed

lemma frame_encode_decode:
  assumes "frame_decode bs g = Ok f" "length bs = FRAME_BYTES"
  shows "frame_encode f = bs \<and> frame_ok f \<and> fr_generation f = g"
proof -
  have len: "length bs = 32" using assms(2) by (simp add: FRAME_BYTES_def)
  from assms(1) obtain k where d: "frame_slice 0 4 bs = FRAME_MAGIC" "frame_slice 4 6 bs = to_le_bytes 2 PROTOCOL_VERSION"
    "frame_slice 8 16 bs = to_le_bytes 8 g" "kind_decode (from_le_bytes (frame_slice 6 8 bs)) = Ok k"
    "f = \<lparr>fr_kind = k, fr_generation = g,
      fr_values = map (\<lambda>i. from_le_bytes (frame_slice (16 + i * 4) (20 + i * 4) bs)) [0..<4]\<rparr>"
    by (auto simp: frame_decode_def bind_result_Ok_iff split: if_splits)
  have k: "to_le_bytes 2 (kind_code k) = frame_slice 6 8 bs"
    unfolding kind_code_decode [OF d(4)] by (rule to_from_le_bytes) (simp_all add: frame_slice_def len)
  have v: "to_le_bytes 4 (from_le_bytes (frame_slice (16 + i * 4) (20 + i * 4) bs) :: i32)
      = frame_slice (16 + i * 4) (20 + i * 4) bs" if "i < 4" for i
    by (rule to_from_le_bytes) (use that in \<open>simp_all add: frame_slice_def len\<close>)
  have "map (to_le_bytes 4) (fr_values f) = map (\<lambda>i. frame_slice (16 + i * 4) (20 + i * 4) bs) [0..<4]"
    using v by (simp add: d(5))
  moreover have "fr_kind f = k" "fr_generation f = g" using d(5) by simp_all
  ultimately have "frame_encode f = FRAME_MAGIC @ to_le_bytes 2 PROTOCOL_VERSION @ to_le_bytes 2 (kind_code k)
      @ to_le_bytes 8 g @ concat (map (\<lambda>i. frame_slice (16 + i * 4) (20 + i * 4) bs) [0..<4])"
    unfolding frame_encode_def by (simp only:)
  then have "frame_encode f = bs" using slices_join [OF len] d(1-3) k by simp
  then show ?thesis using d(5) by (simp add: frame_ok_def)
qed

section \<open>A link\<close>

text \<open>Two channels of one generation and the bytes in transit between them.  A write puts what
  the socket took on the wire; a read takes any non-empty prefix of the wire that fits the
  partial record.  \<open>lk_enqueued\<close> and \<open>lk_delivered\<close> list the records queued by the sender and
  returned by the receiver.\<close>

record link =
  lk_sender :: channel
  lk_wire :: bytes
  lk_receiver :: channel
  lk_enqueued :: "frame list"
  lk_delivered :: "frame list"

text \<open>The answers are a socket's: it never takes more than it was offered.\<close>

fun offered :: "nat \<Rightarrow> (nat \<Rightarrow> write_answer) \<Rightarrow> channel \<Rightarrow> bool" where
  "offered 0 answer ch = True"
| "offered (Suc n) answer ch =
     (case ch_outgoing ch of
        [] \<Rightarrow> True
      | front # rest \<Rightarrow>
          (case answer n of
             Wrote count \<Rightarrow>
               count \<le> length front - ch_sent ch
               \<and> (count = 0 \<or> offered n answer
                    (if ch_sent ch + count = FRAME_BYTES then ch\<lparr>ch_outgoing := rest, ch_sent := 0\<rparr>
                     else ch\<lparr>ch_sent := ch_sent ch + count\<rparr>))
           | WriteInterrupted \<Rightarrow> offered n answer ch
           | _ \<Rightarrow> True))"

inductive link_step :: "link \<Rightarrow> link \<Rightarrow> bool" where
  link_enqueue:
    "frame_ok f \<Longrightarrow> channel_enqueue f (lk_sender l) = (r, ch)
     \<Longrightarrow> link_step l (l\<lparr>lk_sender := ch,
          lk_enqueued := lk_enqueued l @ (if ch_outgoing ch = ch_outgoing (lk_sender l) then [] else [f])\<rparr>)"
| link_flush:
    "offered QUEUE_RECORDS answer (lk_sender l) \<Longrightarrow> channel_flush answer (lk_sender l) = (r, bs, ch)
     \<Longrightarrow> link_step l (l\<lparr>lk_sender := ch, lk_wire := lk_wire l @ bs\<rparr>)"
| link_receive:
    "lk_wire l = bs @ rest \<Longrightarrow> bs \<noteq> [] \<Longrightarrow> ch_received (lk_receiver l) + length bs \<le> FRAME_BYTES
     \<Longrightarrow> \<not> ch_eof (lk_receiver l) \<Longrightarrow> channel_receive (ReadBytes bs) (lk_receiver l) = (r, ch)
     \<Longrightarrow> link_step l (l\<lparr>lk_wire := rest, lk_receiver := ch,
          lk_delivered := lk_delivered l @ (case r of Inr (Some f) \<Rightarrow> [f] | _ \<Rightarrow> [])\<rparr>)"
| link_pause:
    "answer = ReadRetry \<or> answer = ReadFailed e \<or> (lk_wire l = [] \<and> (answer = ReadReset \<or> answer = ReadBytes []))
     \<Longrightarrow> channel_receive answer (lk_receiver l) = (r, ch) \<Longrightarrow> link_step l (l\<lparr>lk_receiver := ch\<rparr>)"

definition link_new :: "u64 \<Rightarrow> link" where
  "link_new g = \<lparr>lk_sender = channel_new g, lk_wire = [], lk_receiver = channel_new g, lk_enqueued = [], lk_delivered = []\<rparr>"

text \<open>What is on its way: the partial record, the wire and the unsent rest of the queue.\<close>

definition in_transit :: "link \<Rightarrow> bytes" where
  "in_transit l = take (ch_received (lk_receiver l)) (ch_incoming (lk_receiver l)) @ lk_wire l
     @ drop (ch_sent (lk_sender l)) (concat (ch_outgoing (lk_sender l)))"

definition link_inv :: "u64 \<Rightarrow> link \<Rightarrow> bool" where
  "link_inv g l \<longleftrightarrow>
     (\<exists>undelivered. lk_enqueued l = lk_delivered l @ undelivered
        \<and> in_transit l = concat (map frame_encode undelivered)
        \<and> (\<forall>f\<in>set undelivered. frame_ok f \<and> fr_generation f = g))
     \<and> (\<forall>bs\<in>set (ch_outgoing (lk_sender l)). length bs = FRAME_BYTES)
     \<and> length (ch_outgoing (lk_sender l)) \<le> QUEUE_RECORDS
     \<and> (ch_outgoing (lk_sender l) = [] \<longrightarrow> ch_sent (lk_sender l) = 0) \<and> ch_sent (lk_sender l) < FRAME_BYTES
     \<and> ch_generation (lk_sender l) = g \<and> ch_generation (lk_receiver l) = g
     \<and> length (ch_incoming (lk_receiver l)) = FRAME_BYTES \<and> ch_received (lk_receiver l) < FRAME_BYTES"

definition sender_ok :: "channel \<Rightarrow> bool" where
  "sender_ok ch \<longleftrightarrow> (\<forall>bs\<in>set (ch_outgoing ch). length bs = FRAME_BYTES) \<and> length (ch_outgoing ch) \<le> QUEUE_RECORDS
     \<and> (ch_outgoing ch = [] \<longrightarrow> ch_sent ch = 0) \<and> ch_sent ch < FRAME_BYTES"

definition unsent :: "channel \<Rightarrow> bytes" where
  "unsent ch = drop (ch_sent ch) (concat (ch_outgoing ch))"

lemma sent_within: "sender_ok ch \<Longrightarrow> ch_sent ch \<le> length (concat (ch_outgoing ch))"
  by (cases "ch_outgoing ch") (auto simp: sender_ok_def)

lemma take_drop_step: "take c (drop a xs) @ drop (a + c) xs = drop a xs"
  by (metis add.commute append_take_drop_id drop_drop)

lemma flush_loop_sends:
  assumes "flush_loop n answer ch = (r, bs, ch')" "offered n answer ch" "sender_ok ch"
  shows "bs @ unsent ch' = unsent ch \<and> sender_ok ch' \<and> ch_generation ch' = ch_generation ch"
  using assms
proof (induction n answer ch arbitrary: r bs ch' rule: flush_loop.induct)
  case (1 answer ch)
  then show ?case by simp
next
  case (2 n answer ch)
  show ?case
  proof (cases "ch_outgoing ch")
    case Nil
    then show ?thesis using 2 by simp
  next
    case (Cons front rest)
    have len: "length front = FRAME_BYTES" using 2(5) Cons by (simp add: sender_ok_def)
    show ?thesis
    proof (cases "answer n")
      case (Wrote count)
      show ?thesis
      proof (cases "count = 0")
        case True
        then show ?thesis using 2 Cons Wrote by simp
      next
        case False
        let ?c = "if ch_sent ch + count = FRAME_BYTES then ch\<lparr>ch_outgoing := rest, ch_sent := 0\<rparr>
          else ch\<lparr>ch_sent := ch_sent ch + count\<rparr>"
        obtain r1 more1 c1 where rec: "flush_loop n answer ?c = (r1, more1, c1)" by (cases "flush_loop n answer ?c") auto
        have res: "bs = take count (drop (ch_sent ch) front) @ more1" "ch' = c1"
          using 2(3) Cons Wrote False rec by (auto simp: Let_def split: if_splits)
        have off: "offered n answer ?c" "count \<le> length front - ch_sent ch" using 2(4) Cons Wrote False by simp_all
        have ok: "sender_ok ?c" using 2(5) Cons off(2) len by (auto simp: sender_ok_def)
        have gen: "ch_generation ?c = ch_generation ch" by simp
        have IH: "more1 @ unsent c1 = unsent ?c \<and> sender_ok c1 \<and> ch_generation c1 = ch_generation ?c"
          using 2(1) [OF Cons Wrote False refl refl refl rec off(1) ok] by simp
        have "take count (drop (ch_sent ch) front) = take count (drop (ch_sent ch) (concat (ch_outgoing ch)))"
          using off(2) len Cons by simp
        moreover have "unsent ?c = drop (ch_sent ch + count) (concat (ch_outgoing ch))"
          using len Cons by (cases "ch_sent ch + count = FRAME_BYTES") (simp_all add: unsent_def)
        ultimately have "take count (drop (ch_sent ch) front) @ unsent ?c = unsent ch"
          using take_drop_step [of count "ch_sent ch" "concat (ch_outgoing ch)"] by (simp only: unsent_def)
        with IH have "bs @ unsent ch' = unsent ch" unfolding res by (simp only: append_assoc)
        moreover have "sender_ok ch'" "ch_generation ch' = ch_generation ch" using IH res gen by (simp_all only:)
        ultimately show ?thesis by blast
      qed
    next
      case WriteInterrupted
      have "flush_loop n answer ch = (r, bs, ch')" "offered n answer ch"
        using 2(3,4) Cons WriteInterrupted by simp_all
      then show ?thesis using 2(2) [OF Cons WriteInterrupted _ _ 2(5)] by blast
    next
      case WriteWouldBlock
      then show ?thesis using 2(3,5) Cons by simp
    next
      case (WriteFailed e)
      then show ?thesis using 2(3,5) Cons by simp
    qed
  qed
qed

lemma link_inv_alt:
  "link_inv g l \<longleftrightarrow>
     (\<exists>undelivered. lk_enqueued l = lk_delivered l @ undelivered
        \<and> take (ch_received (lk_receiver l)) (ch_incoming (lk_receiver l)) @ lk_wire l @ unsent (lk_sender l)
            = concat (map frame_encode undelivered)
        \<and> (\<forall>f\<in>set undelivered. frame_ok f \<and> fr_generation f = g))
     \<and> sender_ok (lk_sender l)
     \<and> ch_generation (lk_sender l) = g \<and> ch_generation (lk_receiver l) = g
     \<and> length (ch_incoming (lk_receiver l)) = FRAME_BYTES \<and> ch_received (lk_receiver l) < FRAME_BYTES"
  by (auto simp: link_inv_def in_transit_def sender_ok_def unsent_def)

lemma enqueue_link_inv:
  assumes "link_inv g l" "frame_ok f" "channel_enqueue f (lk_sender l) = (r, ch)"
  shows "link_inv g (l\<lparr>lk_sender := ch,
    lk_enqueued := lk_enqueued l @ (if ch_outgoing ch = ch_outgoing (lk_sender l) then [] else [f])\<rparr>)"
proof (cases "ch = lk_sender l")
  case True
  then show ?thesis using assms(1) by (simp add: link_inv_alt)
next
  case False
  let ?s = "lk_sender l"
  have new: "ch = ?s\<lparr>ch_outgoing := ch_outgoing ?s @ [frame_encode f]\<rparr>" "fr_generation f = ch_generation ?s"
    "length (ch_outgoing ?s) \<noteq> QUEUE_RECORDS"
    using assms(3) False by (auto simp: channel_enqueue_def Let_def split: if_splits)
  have ok: "sender_ok ?s" "ch_generation ?s = g" using assms(1) by (simp_all add: link_inv_alt)
  have "unsent ch = unsent ?s @ frame_encode f" using new(1) sent_within [OF ok(1)] by (simp add: unsent_def)
  moreover have "sender_ok ch" using new(1,3) ok(1) length_frame_encode [OF assms(2)] by (auto simp: sender_ok_def)
  moreover obtain u where "lk_enqueued l = lk_delivered l @ u" "\<forall>f\<in>set u. frame_ok f \<and> fr_generation f = g"
    "take (ch_received (lk_receiver l)) (ch_incoming (lk_receiver l)) @ lk_wire l @ unsent ?s = concat (map frame_encode u)"
    using assms(1) by (auto simp: link_inv_alt)
  ultimately show ?thesis
    using assms(1,2) new ok(2) unfolding link_inv_alt by (intro conjI exI [of _ "u @ [f]"]) (simp_all flip: append_assoc)
qed

lemma receive_link_inv:
  assumes "link_inv g l" "lk_wire l = bs @ rest" "bs \<noteq> []" "ch_received (lk_receiver l) + length bs \<le> FRAME_BYTES"
    "\<not> ch_eof (lk_receiver l)" "channel_receive (ReadBytes bs) (lk_receiver l) = (r, ch)"
  shows "link_inv g (l\<lparr>lk_wire := rest, lk_receiver := ch,
      lk_delivered := lk_delivered l @ (case r of Inr (Some f) \<Rightarrow> [f] | _ \<Rightarrow> [])\<rparr>) \<and> (\<exists>x. r = Ok x)"
proof -
  let ?c = "lk_receiver l" and ?n = "ch_received (lk_receiver l)"
  let ?in = "take ?n (ch_incoming ?c) @ bs @ drop (?n + length bs) (ch_incoming ?c)"
  have c: "length (ch_incoming ?c) = FRAME_BYTES" "?n < FRAME_BYTES" "ch_generation ?c = g"
    using assms(1) by (simp_all add: link_inv_alt)
  obtain u where u: "lk_enqueued l = lk_delivered l @ u" "\<forall>f\<in>set u. frame_ok f \<and> fr_generation f = g"
    "take ?n (ch_incoming ?c) @ bs @ rest @ unsent (lk_sender l) = concat (map frame_encode u)"
    using assms(1,2) by (auto simp: link_inv_alt)
  have len: "length ?in = FRAME_BYTES" using c assms(4) by simp
  show ?thesis
  proof (cases "?n + length bs = FRAME_BYTES")
    case True
    then have full: "?in = take ?n (ch_incoming ?c) @ bs" using c(1) by simp
    have "u \<noteq> []" using u(3) assms(3) by auto
    then obtain f fs where fs: "u = f # fs" by (cases u) auto
    have f: "frame_ok f" "fr_generation f = g" using u(2) fs by simp_all
    have "?in @ rest @ unsent (lk_sender l) = frame_encode f @ concat (map frame_encode fs)"
      using u(3) fs full by simp
    then have split: "?in = frame_encode f" "rest @ unsent (lk_sender l) = concat (map frame_encode fs)"
      using append_eq_append_conv [of ?in "frame_encode f"] len length_frame_encode [OF f(1)] by auto
    have "frame_decode ?in g = Ok f" unfolding split(1) using frame_decode_encode [OF f(1)] f(2) by simp
    then have "r = Ok (Some f)" "ch = ?c\<lparr>ch_incoming := ?in, ch_received := 0\<rparr>"
      using assms(3,5,6) True c(3) by (auto simp: channel_receive_def Let_def)
    then show ?thesis
      using assms(1) u(1,2) fs split(2) len c(3) unfolding link_inv_alt
      by (intro conjI exI [of _ fs]) (auto simp: FRAME_BYTES_def)
  next
    case False
    then have "r = Ok None" "ch = ?c\<lparr>ch_incoming := ?in, ch_received := ?n + length bs\<rparr>"
      using assms(3,5,6) by (auto simp: channel_receive_def Let_def)
    moreover have "take (?n + length bs) ?in = take ?n (ch_incoming ?c) @ bs" using c by simp
    ultimately show ?thesis
      using assms(1,4) u len c False unfolding link_inv_alt by (intro conjI exI [of _ u]) auto
  qed
qed

lemma link_step_inv: "link_step l m \<Longrightarrow> link_inv g l \<Longrightarrow> link_inv g m"
proof (induction rule: link_step.induct)
  case (link_flush answer l r bs ch)
  have "sender_ok (lk_sender l)" using link_flush(3) by (simp add: link_inv_alt)
  with flush_loop_sends link_flush(1,2)
  have "bs @ unsent ch = unsent (lk_sender l) \<and> sender_ok ch \<and> ch_generation ch = ch_generation (lk_sender l)"
    unfolding channel_flush_def by blast
  then show ?case using link_flush(3) by (auto simp: link_inv_alt)
next
  case (link_pause answer e l r ch)
  then show ?case
    by (auto simp: link_inv_alt channel_receive_def finish_receive_def Let_def split: if_splits)
qed (auto dest: enqueue_link_inv receive_link_inv)

lemma link_steps_inv: "link_step\<^sup>*\<^sup>* l m \<Longrightarrow> link_inv g l \<Longrightarrow> link_inv g m"
  by (induction rule: rtranclp_induct) (auto intro: link_step_inv)

lemma link_new_inv: "link_inv g (link_new g)"
  by (simp add: link_inv_def link_new_def channel_new_def in_transit_def FRAME_BYTES_def QUEUE_RECORDS_def)

section \<open>Properties\<close>

definition sample_frame :: frame where
  "sample_frame = \<lparr>fr_kind = KStarted, fr_generation = 7, fr_values = [1, 2, 3, 4]\<rparr>"

definition sample_link :: link where
  "sample_link = (link_new 7)\<lparr>lk_sender := (channel_new 7)\<lparr>ch_outgoing := [frame_encode sample_frame]\<rparr>,
     lk_enqueued := [sample_frame]\<rparr>"

lemma sample_link_steps: "link_step\<^sup>*\<^sup>* (link_new 7) sample_link"
proof -
  let ?ch = "(channel_new 7)\<lparr>ch_outgoing := [frame_encode sample_frame]\<rparr>"
  have "channel_enqueue sample_frame (lk_sender (link_new 7)) = (Ok (), ?ch)"
    by (simp add: channel_enqueue_def link_new_def channel_new_def sample_frame_def QUEUE_RECORDS_def Let_def)
  moreover have "frame_ok sample_frame" by (simp add: frame_ok_def sample_frame_def)
  ultimately have "link_step (link_new 7) sample_link"
    using link_enqueue [of sample_frame "link_new 7" "Ok ()" ?ch] by (simp add: sample_link_def link_new_def channel_new_def)
  then show ?thesis by blast
qed

text \<open>
  C33. Records survive the wire: decoding inverts encoding for the right generation, every other
  generation is refused, and whatever 32 bytes decode are the encoding of the record they
  decode to.
\<close>

theorem frame_roundtrip:
  assumes "frame_ok f" "length bs = FRAME_BYTES"
  shows "frame_decode (frame_encode f) g = (if g = fr_generation f then Ok f else Err IoInvalidData)
    \<and> (\<forall>x. frame_decode bs g = Ok x \<longrightarrow> frame_encode x = bs \<and> fr_generation x = g)"
proof -
  have "frame_decode (frame_encode f) g = Err IoInvalidData" if "g \<noteq> fr_generation f"
  proof -
    have "to_le_bytes 8 g \<noteq> to_le_bytes 8 (fr_generation f)"
      using that from_to_le_bytes [of 8 g] from_to_le_bytes [of 8 "fr_generation f"] by auto
    then show ?thesis using encode_slices(4) [OF assms(1)] by (simp add: frame_decode_def)
  qed
  then show ?thesis using frame_decode_encode [OF assms(1)] frame_encode_decode [OF _ assms(2)] by auto
qed

theorem frame_roundtrip_witness:
  "frame_decode (frame_encode sample_frame) 7 = Ok sample_frame \<and> frame_decode (frame_encode sample_frame) 6 = Err IoInvalidData"
proof -
  have ok: "frame_ok sample_frame" by (simp add: frame_ok_def sample_frame_def)
  have generation: "fr_generation sample_frame = 7" by (simp add: sample_frame_def)
  show ?thesis
    using conjunct1 [OF frame_roundtrip [OF ok length_frame_encode [OF ok], of 7]]
      conjunct1 [OF frame_roundtrip [OF ok length_frame_encode [OF ok], of 6]]
    by (simp only: generation) simp
qed

text \<open>
  C13. The channel delivers records whole, in order and without loss: however the socket splits
  writes and reads, what the receiver has returned is a prefix of what was queued, the queue
  holds at most eight records, no queued record is ever rejected on arrival, and when nothing
  is queued, in transit or partially received, everything has been delivered.
\<close>

theorem channel_delivers:
  assumes "link_step\<^sup>*\<^sup>* (link_new g) l"
  shows "(\<exists>undelivered. lk_enqueued l = lk_delivered l @ undelivered \<and> length undelivered * FRAME_BYTES = length (in_transit l))
    \<and> length (ch_outgoing (lk_sender l)) \<le> QUEUE_RECORDS
    \<and> (\<forall>bs rest. lk_wire l = bs @ rest \<longrightarrow> bs \<noteq> [] \<longrightarrow> ch_received (lk_receiver l) + length bs \<le> FRAME_BYTES
        \<longrightarrow> \<not> ch_eof (lk_receiver l) \<longrightarrow> (\<exists>x. fst (channel_receive (ReadBytes bs) (lk_receiver l)) = Ok x))
    \<and> (in_transit l = [] \<longrightarrow> lk_delivered l = lk_enqueued l)"
proof -
  have inv: "link_inv g l" by (rule link_steps_inv [OF assms link_new_inv])
  then obtain u where u: "lk_enqueued l = lk_delivered l @ u" "in_transit l = concat (map frame_encode u)"
    "\<forall>f\<in>set u. frame_ok f" by (auto simp: link_inv_def)
  have "length (concat (map frame_encode u)) = length u * FRAME_BYTES"
    using u(3) by (induction u) (auto simp: length_frame_encode)
  then have n: "length u * FRAME_BYTES = length (in_transit l)" using u(2) by simp
  have last': "in_transit l = [] \<Longrightarrow> lk_delivered l = lk_enqueued l" using n u(1) by (simp add: FRAME_BYTES_def)
  have read: "\<exists>x. fst (channel_receive (ReadBytes bs) (lk_receiver l)) = Ok x"
    if "lk_wire l = bs @ rest" "bs \<noteq> []" "ch_received (lk_receiver l) + length bs \<le> FRAME_BYTES" "\<not> ch_eof (lk_receiver l)"
    for bs rest
    using receive_link_inv [OF inv that, of "fst (channel_receive (ReadBytes bs) (lk_receiver l))"
        "snd (channel_receive (ReadBytes bs) (lk_receiver l))"] by auto
  have "length (ch_outgoing (lk_sender l)) \<le> QUEUE_RECORDS" using inv by (simp add: link_inv_def)
  then show ?thesis using u(1) n last' read by blast
qed

theorem channel_delivers_witness:
  "lk_enqueued sample_link = [sample_frame] \<and> length (in_transit sample_link) = 32"
  using channel_delivers [OF sample_link_steps]
  by (auto simp: sample_link_def link_new_def FRAME_BYTES_def)

end
