(* ===== verification/Guardian_Client.thy ===== *)
theory Guardian_Client
  imports Process_Session Guardian_Protocol
begin

text \<open>
  The runtime's side of the guardian protocol (\<^verbatim>\<open>crates/infrastructure/src/process/guardian.rs\<close>): two
  channels to the helper processes of one session (0 the session's sentinel, 1 its guardian) and
  the direct child that is reaped here.

  Sockets and \<open>waitpid\<close> answer through arguments.  What is read of a raw wait status or an errno is
  the platform's: \<open>os_wait\<close> says whether a status is final, \<open>os_errno\<close> classifies an errno.  The
  exit watch is only whether one exists, and the extra descriptor kept for cleanup is not part of
  the state.
\<close>

section \<open>State\<close>

record guardian =
  gd_sid :: i32
  gd_watch :: bool
  gd_channels :: "channel option list"
  gd_generation :: u64
  gd_hello :: "i32 list option list"
  gd_started :: "i32 list option"
  gd_admitted :: bool
  gd_execution_granted :: bool
  gd_start_error :: "process_error option"
  gd_control :: "guardian_kind option"
  gd_sent :: "guardian_kind option list"
  gd_retiring :: "bool list"
  gd_reaped :: bool
  gd_observed_exit :: "i32 option"
  gd_pending_exit :: "i32 option"
  gd_fault :: bool
  gd_pending_fault :: bool
  gd_term_applied :: bool
  gd_escalation_applied :: bool
  gd_escalation_reported :: bool

record platform =
  os_wait :: "i32 \<Rightarrow> bool"
  os_errno :: "i32 \<Rightarrow> os_failure"

definition guardian_new :: "i32 \<Rightarrow> bool \<Rightarrow> u64 \<Rightarrow> guardian" where
  "guardian_new sid watch generation = \<lparr>gd_sid = sid, gd_watch = watch,
     gd_channels = [Some (channel_new generation), Some (channel_new generation)], gd_generation = generation,
     gd_hello = [None, None], gd_started = None, gd_admitted = False, gd_execution_granted = False, gd_start_error = None,
     gd_control = None, gd_sent = [None, None], gd_retiring = [False, False], gd_reaped = False, gd_observed_exit = None,
     gd_pending_exit = None, gd_fault = False, gd_pending_fault = False, gd_term_applied = False,
     gd_escalation_applied = False, gd_escalation_reported = False\<rparr>"

definition guardian_id :: "guardian \<Rightarrow> u32" where
  "guardian_id g = (case gd_started g of None \<Rightarrow> 0 | Some values \<Rightarrow> values ! 0)"

section \<open>Requests and faults\<close>

definition guardian_request :: "guardian_kind \<Rightarrow> guardian \<Rightarrow> guardian" where
  "guardian_request kind g =
     (if (case gd_control g of None \<Rightarrow> True | Some current \<Rightarrow> kind_code kind > kind_code current)
      then g\<lparr>gd_control := Some kind\<rparr> else g)"

definition mark_fault :: "guardian \<Rightarrow> guardian" where
  "mark_fault g =
     guardian_request KAbort (if \<not> gd_fault g then g\<lparr>gd_fault := True, gd_pending_fault := True\<rparr> else g)"

definition channel_ended :: "nat \<Rightarrow> guardian \<Rightarrow> guardian" where
  "channel_ended index g =
     (let g = g\<lparr>gd_channels := (gd_channels g)[index := None]\<rparr> in
      if \<not> gd_retiring g ! index \<and> gd_start_error g = None then mark_fault g else g)"

section \<open>Records from the helper\<close>

definition receive_hello :: "nat \<Rightarrow> i32 list \<Rightarrow> guardian \<Rightarrow> guardian" where
  "receive_hello index values g =
     (if (case gd_hello g ! index of None \<Rightarrow> False | Some old \<Rightarrow> old \<noteq> values)
         \<or> (case gd_hello g ! (1 - index) of None \<Rightarrow> False | Some old \<Rightarrow> old \<noteq> values)
      then mark_fault g else g\<lparr>gd_hello := (gd_hello g)[index := Some values]\<rparr>)"

definition receive_started :: "guardian_kind \<Rightarrow> nat \<Rightarrow> i32 list \<Rightarrow> guardian \<Rightarrow> guardian" where
  "receive_started kind index values g =
     (if (kind = KStarted \<and> index \<noteq> 1) \<or> (kind = KAdmitted \<and> index \<noteq> 0)
         \<or> (case gd_started g of None \<Rightarrow> False | Some old \<Rightarrow> old \<noteq> values)
      then mark_fault g
      else
        let g = g\<lparr>gd_started := Some values\<rparr> in
        if kind = KAdmitted then g\<lparr>gd_admitted := True\<rparr> else g)"

definition receive_exit :: "i32 \<Rightarrow> guardian \<Rightarrow> guardian" where
  "receive_exit status g =
     (case gd_observed_exit g of
        Some old \<Rightarrow> if old \<noteq> status then mark_fault g else g
      | None \<Rightarrow> g\<lparr>gd_observed_exit := Some status, gd_pending_exit := Some status\<rparr>)"

definition guardian_receive :: "platform \<Rightarrow> nat \<Rightarrow> frame \<Rightarrow> guardian \<Rightarrow> guardian" where
  "guardian_receive os index f g =
     (let sid = gd_sid g; v = fr_values f; i = guardian_id g in
      case fr_kind f of
        KHello \<Rightarrow>
          if v ! 0 = sid \<and> 0 <s v ! 1 \<and> v ! 1 \<noteq> sid \<and> drop 2 v = [0, 0] then receive_hello index v g else mark_fault g
      | KStarted \<Rightarrow>
          if 0 <s v ! 0 \<and> v ! 0 \<noteq> sid \<and> v ! 0 \<noteq> v ! 1 \<and> drop 2 v = [sid, sid]
             \<and> (case gd_hello g ! index of None \<Rightarrow> False | Some hello \<Rightarrow> hello ! 1 = v ! 1)
          then receive_started KStarted index v g else mark_fault g
      | KAdmitted \<Rightarrow>
          if 0 <s v ! 0 \<and> v ! 0 \<noteq> sid \<and> v ! 0 \<noteq> v ! 1 \<and> drop 2 v = [sid, sid]
             \<and> (case gd_hello g ! index of None \<Rightarrow> False | Some hello \<Rightarrow> hello ! 1 = v ! 1)
          then receive_started KAdmitted index v g else mark_fault g
      | KWorkloadExit \<Rightarrow>
          if v ! 1 = i \<and> i \<noteq> 0 \<and> os_wait os (v ! 0) then receive_exit (v ! 0) g else mark_fault g
      | KStartFailed \<Rightarrow>
          if \<not> gd_admitted g then g\<lparr>gd_start_error := Some (creation_error (os_errno os (v ! 0)))\<rparr> else mark_fault g
      | KSignalApplied \<Rightarrow>
          if index = 1 \<and> i \<noteq> 0 \<and> gd_control g \<noteq> None \<and> v = [i, 15, 7, 0] then g\<lparr>gd_term_applied := True\<rparr> else mark_fault g
      | KEscalated \<Rightarrow>
          if index = 1 \<and> i \<noteq> 0 \<and> v = [i, 9, 0, 0]
          then (if \<not> gd_escalation_reported g then g\<lparr>gd_escalation_applied := True, gd_escalation_reported := True\<rparr> else g)
          else mark_fault g
      | KRetiring \<Rightarrow>
          if 0 <s v ! 0 \<and> v ! 0 \<noteq> i \<and> (index = 1 \<or> v ! 0 = sid) then g\<lparr>gd_retiring := (gd_retiring g)[index := True]\<rparr>
          else mark_fault g
      | KSuccessor \<Rightarrow>
          if 0 <s v ! 0 \<and> 0 <s v ! 1 \<and> v ! 2 = sid then g else mark_fault g
      | _ \<Rightarrow> mark_fault g)"

section \<open>One service round\<close>

datatype wait_answer = WaitExited | WaitRunning | WaitFailed

record service_answers =
  sv_write :: "nat \<Rightarrow> nat \<Rightarrow> write_answer"
  sv_read :: "nat \<Rightarrow> nat \<Rightarrow> read_answer"
  sv_wait :: wait_answer

definition send_control :: "service_answers \<Rightarrow> nat \<Rightarrow> guardian \<Rightarrow> guardian" where
  "send_control sv index g =
     (case gd_channels g ! index of
        None \<Rightarrow> g
      | Some ch \<Rightarrow>
          let (sent, ch) =
                (if gd_sent g ! index \<noteq> gd_control g then
                   case gd_control g of
                     None \<Rightarrow> (gd_sent g ! index, ch)
                   | Some kind \<Rightarrow>
                       (case channel_enqueue \<lparr>fr_kind = kind, fr_generation = gd_generation g, fr_values = [0, 0, 0, 0]\<rparr> ch of
                          (Ok _, ch) \<Rightarrow> (Some kind, ch)
                        | (Err _, ch) \<Rightarrow> (gd_sent g ! index, ch))
                 else (gd_sent g ! index, ch));
              (r, written, ch) = channel_flush (sv_write sv index) ch
          in g\<lparr>gd_sent := (gd_sent g)[index := sent], gd_channels := (gd_channels g)[index := Some ch]\<rparr>)"

fun receive_loop :: "platform \<Rightarrow> service_answers \<Rightarrow> nat \<Rightarrow> nat \<Rightarrow> guardian \<Rightarrow> guardian" where
  "receive_loop os sv index 0 g = g"
| "receive_loop os sv index (Suc n) g =
     (case gd_channels g ! index of
        None \<Rightarrow> g
      | Some ch \<Rightarrow>
          (case channel_receive (sv_read sv index n) ch of
             (r, ch) \<Rightarrow>
               let g = g\<lparr>gd_channels := (gd_channels g)[index := Some ch]\<rparr> in
               case r of
                 Ok (Some f) \<Rightarrow> receive_loop os sv index n (guardian_receive os index f g)
               | Ok None \<Rightarrow> if ch_eof ch then channel_ended index g else g
               | Err e \<Rightarrow> (if e \<noteq> IoInvalidData then channel_ended index (mark_fault g) else mark_fault g)))"

definition service_wait :: "wait_answer \<Rightarrow> guardian \<Rightarrow> guardian" where
  "service_wait answer g =
     (if gd_reaped g then g
      else case answer of
        WaitExited \<Rightarrow> g\<lparr>gd_reaped := True, gd_watch := False\<rparr>
      | WaitRunning \<Rightarrow> g
      | WaitFailed \<Rightarrow>
          let g = (mark_fault g)\<lparr>gd_watch := False\<rparr> in
          if list_all (\<lambda>c. c = None) (gd_channels g) then g\<lparr>gd_reaped := True\<rparr> else g)"

definition service_channel :: "platform \<Rightarrow> service_answers \<Rightarrow> nat \<Rightarrow> guardian \<Rightarrow> guardian" where
  "service_channel os sv index g = receive_loop os sv index 8 (send_control sv index g)"

definition guardian_service :: "platform \<Rightarrow> service_answers \<Rightarrow> guardian \<Rightarrow> guardian" where
  "guardian_service os sv g = service_wait (sv_wait sv) (service_channel os sv 1 (service_channel os sv 0 g))"

section \<open>What the owner asks\<close>

definition take_exit :: "guardian \<Rightarrow> i32 option \<times> guardian" where
  "take_exit g = (gd_pending_exit g, g\<lparr>gd_pending_exit := None\<rparr>)"

definition take_fault :: "guardian \<Rightarrow> bool \<times> guardian" where
  "take_fault g = (gd_pending_fault g, g\<lparr>gd_pending_fault := False\<rparr>)"

definition take_term_applied :: "guardian \<Rightarrow> bool \<times> guardian" where
  "take_term_applied g = (gd_term_applied g, g\<lparr>gd_term_applied := False\<rparr>)"

definition take_escalation_applied :: "guardian \<Rightarrow> bool \<times> guardian" where
  "take_escalation_applied g = (gd_escalation_applied g, g\<lparr>gd_escalation_applied := False\<rparr>)"

definition guardian_complete :: "guardian \<Rightarrow> bool" where
  "guardian_complete g \<longleftrightarrow> gd_reaped g \<and> list_all (\<lambda>c. c = None) (gd_channels g)"

definition cleanup_succeeded :: "guardian \<Rightarrow> bool" where
  "cleanup_succeeded g \<longleftrightarrow> guardian_complete g \<and> \<not> gd_fault g"

definition needs_poll :: "guardian \<Rightarrow> bool" where
  "needs_poll g \<longleftrightarrow> \<not> gd_reaped g \<and> \<not> gd_watch g"

text \<open>Whether the poll of a channel waits for room to write.\<close>

definition polls_write :: "guardian \<Rightarrow> nat \<Rightarrow> bool" where
  "polls_write g index =
     (case gd_channels g ! index of None \<Rightarrow> False | Some ch \<Rightarrow> wants_write ch \<or> gd_sent g ! index \<noteq> gd_control g)"

text \<open>One turn of \<open>admit\<close>: \<open>Some\<close> is the end of its loop.\<close>

definition grant_execution :: "guardian \<Rightarrow> guardian" where
  "grant_execution g =
     (let execute = \<lparr>fr_kind = KExecute, fr_generation = gd_generation g, fr_values = [0, 0, 0, 0]\<rparr>;
          results = map (map_option (channel_enqueue execute)) (gd_channels g)
      in g\<lparr>gd_channels := map (map_option snd) results,
           gd_start_error := (if \<exists>r\<in>set results. case r of Some (Err e, ch) \<Rightarrow> True | _ \<Rightarrow> False then Some PIo else gd_start_error g),
           gd_execution_granted := True\<rparr>)"

definition admit_turn :: "platform \<Rightarrow> service_answers \<Rightarrow> bool \<Rightarrow> guardian \<Rightarrow> (process_error, unit) result option \<times> guardian" where
  "admit_turn os sv expired g =
     (let g = guardian_service os sv g in
      case gd_start_error g of
        Some e \<Rightarrow> (Some (Err e), g)
      | None \<Rightarrow>
          if gd_fault g then (Some (Err PInternal), g)
          else if gd_admitted g then (Some (Ok ()), g)
          else if \<not> gd_execution_granted g \<and> list_all (\<lambda>h. h \<noteq> None) (gd_hello g) then (None, grant_execution g)
          else if expired then (Some (Err PTimeout), g)
          else (None, g))"

text \<open>Cleanup asks for the abort and serves until the helpers are gone, one answer per round.\<close>

fun cleanup_rounds :: "platform \<Rightarrow> service_answers list \<Rightarrow> guardian \<Rightarrow> guardian" where
  "cleanup_rounds os [] g = g"
| "cleanup_rounds os (sv # svs) g = (if guardian_complete g then g else cleanup_rounds os svs (guardian_service os sv g))"

definition guardian_cleanup :: "platform \<Rightarrow> service_answers list \<Rightarrow> guardian \<Rightarrow> guardian" where
  "guardian_cleanup os svs g = cleanup_rounds os svs (guardian_request KAbort g)"

fun guardian_admit :: "platform \<Rightarrow> service_answers list \<Rightarrow> (service_answers \<times> bool) list \<Rightarrow> guardian
    \<Rightarrow> (process_error, unit) result option \<times> guardian" where
  "guardian_admit os cleanup [] g = (None, g)"
| "guardian_admit os cleanup ((sv, expired) # turns) g =
     (case admit_turn os sv expired g of
        (None, g) \<Rightarrow> guardian_admit os cleanup turns g
      | (Some (Ok _), g) \<Rightarrow> (Some (Ok ()), g)
      | (Some (Err e), g) \<Rightarrow> (Some (Err e), guardian_cleanup os cleanup g))"

section \<open>The invariant\<close>

text \<open>
  \<open>exits\<close> and \<open>faults\<close> are what the owner has taken so far.  Controls only escalate and a fault means
  the abort is requested; what a channel was sent is never beyond the control; one exit and one
  fault at most are pending or taken; and the identities the helpers announced agree.
\<close>

definition owner_controls :: "guardian_kind set" where
  "owner_controls = {KTerminate, KKill, KRelease, KAbort}"

definition control_inv :: "guardian \<Rightarrow> bool" where
  "control_inv g \<longleftrightarrow> (\<forall>k. gd_control g = Some k \<longrightarrow> k \<in> owner_controls) \<and> (gd_fault g \<longrightarrow> gd_control g = Some KAbort)
     \<and> (\<forall>i<2. \<forall>k. gd_sent g ! i = Some k \<longrightarrow> (\<exists>c. gd_control g = Some c \<and> kind_code k \<le> kind_code c))"

definition report_inv :: "i32 list \<Rightarrow> nat \<Rightarrow> guardian \<Rightarrow> bool" where
  "report_inv exits faults g \<longleftrightarrow>
     exits @ (case gd_pending_exit g of None \<Rightarrow> [] | Some x \<Rightarrow> [x]) = (case gd_observed_exit g of None \<Rightarrow> [] | Some x \<Rightarrow> [x])
     \<and> faults + (if gd_pending_fault g then 1 else 0) = (if gd_fault g then 1 else 0)"

definition identity_inv :: "guardian \<Rightarrow> bool" where
  "identity_inv g \<longleftrightarrow>
     (\<forall>i<2. \<forall>j<2. \<forall>v w. gd_hello g ! i = Some v \<longrightarrow> gd_hello g ! j = Some w \<longrightarrow> v = w)
     \<and> (\<forall>v. gd_started g = Some v \<longrightarrow> 0 <s v ! 0 \<and> v ! 0 \<noteq> gd_sid g \<and> drop 2 v = [gd_sid g, gd_sid g]
          \<and> (\<exists>i<2. \<exists>h. gd_hello g ! i = Some h \<and> h ! 1 = v ! 1))
     \<and> (gd_admitted g \<longrightarrow> gd_started g \<noteq> None) \<and> (gd_observed_exit g \<noteq> None \<longrightarrow> gd_started g \<noteq> None)"

definition shape_inv :: "guardian \<Rightarrow> bool" where
  "shape_inv g \<longleftrightarrow> length (gd_channels g) = 2 \<and> length (gd_hello g) = 2 \<and> length (gd_sent g) = 2 \<and> length (gd_retiring g) = 2"

definition guardian_inv :: "i32 list \<Rightarrow> nat \<Rightarrow> guardian \<Rightarrow> bool" where
  "guardian_inv exits faults g \<longleftrightarrow> control_inv g \<and> report_inv exits faults g \<and> identity_inv g \<and> shape_inv g"

lemmas guardian_invs = guardian_inv_def control_inv_def report_inv_def identity_inv_def shape_inv_def

lemma guardian_inv_new: "guardian_inv [] 0 (guardian_new sid watch generation)"
  by (auto simp: guardian_invs guardian_new_def less_2_cases_iff)

lemma guardian_inv_request:
  assumes "guardian_inv exits faults g" "kind \<in> owner_controls"
  shows "guardian_inv exits faults (guardian_request kind g)"
proof (cases "gd_control g")
  case None
  then show ?thesis using assms by (auto simp: guardian_invs guardian_request_def)
next
  case (Some c)
  have "c \<in> owner_controls" "gd_fault g \<longrightarrow> c = KAbort" using assms(1) Some by (auto simp: guardian_invs)
  then have abort: "gd_fault g \<longrightarrow> \<not> kind_code kind > kind_code c" using assms(2) by (auto simp: owner_controls_def)
  show ?thesis
  proof (cases "kind_code kind > kind_code c")
    case True
    have sent: "\<forall>i<2. \<forall>k. gd_sent g ! i = Some k \<longrightarrow> kind_code k \<le> kind_code c"
      using assms(1) Some by (auto simp: guardian_invs)
    then have "\<forall>i<2. \<forall>k. gd_sent g ! i = Some k \<longrightarrow> kind_code k \<le> kind_code kind" using True by (meson order_trans less_imp_le)
    then show ?thesis using assms abort True Some by (auto simp: guardian_invs guardian_request_def)
  next
    case False
    then show ?thesis using assms(1) Some by (simp add: guardian_request_def)
  qed
qed

lemma guardian_inv_abort:
  assumes "control_inv g"
  shows "gd_control (guardian_request KAbort g) = Some KAbort"
  using assms by (auto simp: guardian_request_def control_inv_def owner_controls_def split: option.splits)

lemma guardian_inv_mark_fault:
  assumes "guardian_inv exits faults g"
  shows "guardian_inv exits faults (mark_fault g)"
proof -
  have "guardian_inv exits faults (guardian_request KAbort g)" "gd_control (guardian_request KAbort g) = Some KAbort"
    using guardian_inv_request [OF assms] guardian_inv_abort assms by (auto simp: owner_controls_def guardian_inv_def)
  moreover have "guardian_request KAbort (g\<lparr>gd_fault := True, gd_pending_fault := True\<rparr>)
      = (guardian_request KAbort g)\<lparr>gd_fault := True, gd_pending_fault := True\<rparr>"
    by (simp add: guardian_request_def)
  moreover have "gd_fault (guardian_request KAbort g) = gd_fault g" by (simp add: guardian_request_def)
  ultimately show ?thesis by (auto simp: mark_fault_def guardian_invs split: if_splits)
qed

lemma mark_fault_keeps [simp]:
  "gd_channels (mark_fault g) = gd_channels g" "gd_reaped (mark_fault g) = gd_reaped g"
  by (simp_all add: mark_fault_def guardian_request_def)

text \<open>Parts of the state the invariant does not look at.\<close>

lemma guardian_inv_upd [simp]:
  "length cs = length (gd_channels g) \<Longrightarrow> guardian_inv exits faults (g\<lparr>gd_channels := cs\<rparr>) = guardian_inv exits faults g"
  "guardian_inv exits faults (g\<lparr>gd_reaped := b\<rparr>) = guardian_inv exits faults g"
  "guardian_inv exits faults (g\<lparr>gd_watch := b\<rparr>) = guardian_inv exits faults g"
  "guardian_inv exits faults (g\<lparr>gd_start_error := e\<rparr>) = guardian_inv exits faults g"
  "guardian_inv exits faults (g\<lparr>gd_execution_granted := b\<rparr>) = guardian_inv exits faults g"
  "guardian_inv exits faults (g\<lparr>gd_term_applied := b\<rparr>) = guardian_inv exits faults g"
  "guardian_inv exits faults (g\<lparr>gd_escalation_applied := b\<rparr>) = guardian_inv exits faults g"
  "guardian_inv exits faults (g\<lparr>gd_escalation_reported := b\<rparr>) = guardian_inv exits faults g"
  "guardian_inv exits faults (g\<lparr>gd_retiring := (gd_retiring g)[i := b]\<rparr>) = guardian_inv exits faults g"
  by (simp_all add: guardian_invs)

lemma guardian_inv_channel_ended:
  "guardian_inv exits faults g \<Longrightarrow> guardian_inv exits faults (channel_ended index g)"
  by (simp add: channel_ended_def Let_def guardian_inv_mark_fault)

lemma guardian_inv_hello:
  assumes "guardian_inv exits faults g" "index < 2"
  shows "guardian_inv exits faults (receive_hello index values g)"
proof (cases "(case gd_hello g ! index of None \<Rightarrow> False | Some old \<Rightarrow> old \<noteq> values)
         \<or> (case gd_hello g ! (1 - index) of None \<Rightarrow> False | Some old \<Rightarrow> old \<noteq> values)")
  case True
  then show ?thesis using guardian_inv_mark_fault [OF assms(1)] by (simp add: receive_hello_def)
next
  case False
  have all: "\<forall>i<2. \<forall>v. gd_hello g ! i = Some v \<longrightarrow> v = values"
    using False assms(2) by (auto simp: less_2_cases_iff split: option.splits)
  let ?h = "(gd_hello g)[index := Some values]"
  have len: "length (gd_hello g) = 2" using assms(1) by (simp add: guardian_invs)
  have new: "\<forall>i<2. \<forall>v. ?h ! i = Some v \<longrightarrow> v = values"
    using all len by (metis nth_list_update_eq nth_list_update_neq option.inject)
  have keep: "\<exists>i<2. \<exists>h. ?h ! i = Some h \<and> h ! 1 = x" if "\<exists>i<2. \<exists>h. gd_hello g ! i = Some h \<and> h ! 1 = x" for x
    using that all len assms(2) by (metis nth_list_update_eq)
  have "identity_inv (g\<lparr>gd_hello := ?h\<rparr>)"
    using assms(1) new keep unfolding guardian_inv_def identity_inv_def by simp metis
  moreover have "receive_hello index values g = g\<lparr>gd_hello := ?h\<rparr>" using False unfolding receive_hello_def by (simp only: if_False)
  ultimately show ?thesis using assms(1) len by (simp add: guardian_inv_def control_inv_def report_inv_def shape_inv_def)
qed

lemma guardian_inv_started:
  assumes "guardian_inv exits faults g" "index < 2" "0 <s v ! 0" "v ! 0 \<noteq> gd_sid g" "drop 2 v = [gd_sid g, gd_sid g]"
    "case gd_hello g ! index of None \<Rightarrow> False | Some hello \<Rightarrow> hello ! 1 = v ! 1"
  shows "guardian_inv exits faults (receive_started kind index v g)"
proof -
  have "\<exists>i<2. \<exists>h. gd_hello g ! i = Some h \<and> h ! 1 = v ! 1" using assms(2,6) by (auto split: option.splits)
  then have "guardian_inv exits faults (g\<lparr>gd_started := Some v\<rparr>)" "guardian_inv exits faults (g\<lparr>gd_started := Some v, gd_admitted := True\<rparr>)"
    using assms(1,3-5) by (simp_all add: guardian_invs)
  then show ?thesis using guardian_inv_mark_fault [OF assms(1)] by (simp add: receive_started_def Let_def)
qed

lemma guardian_inv_exit:
  assumes "guardian_inv exits faults g" "guardian_id g \<noteq> 0"
  shows "guardian_inv exits faults (receive_exit status g)"
proof (cases "gd_observed_exit g")
  case None
  have "gd_started g \<noteq> None" using assms(2) by (auto simp: guardian_id_def split: option.splits)
  then show ?thesis using assms(1) None by (auto simp: receive_exit_def guardian_invs)
next
  case (Some old)
  then show ?thesis using assms(1) guardian_inv_mark_fault [OF assms(1)] by (simp add: receive_exit_def)
qed

lemma guardian_inv_receive:
  assumes "guardian_inv exits faults g" "index < 2"
  shows "guardian_inv exits faults (guardian_receive os index f g)"
proof -
  note fault = guardian_inv_mark_fault [OF assms(1)]
  show ?thesis
    using assms(1) fault guardian_inv_hello [OF assms] guardian_inv_started [OF assms] guardian_inv_exit [OF assms(1)]
    by (cases "fr_kind f") (simp_all add: guardian_receive_def Let_def)
qed

lemma send_control_cases:
  obtains "send_control sv index g = g"
  | sent ch where "send_control sv index g = g\<lparr>gd_sent := (gd_sent g)[index := sent], gd_channels := (gd_channels g)[index := Some ch]\<rparr>"
      "gd_channels g ! index \<noteq> None" "sent = gd_sent g ! index \<or> (sent \<noteq> None \<and> sent = gd_control g)"
proof (cases "gd_channels g ! index")
  case None
  then show ?thesis using that(1) by (simp add: send_control_def)
next
  case (Some ch)
  obtain sent ch1 where q: "(if gd_sent g ! index \<noteq> gd_control g then
                   case gd_control g of
                     None \<Rightarrow> (gd_sent g ! index, ch)
                   | Some kind \<Rightarrow>
                       (case channel_enqueue \<lparr>fr_kind = kind, fr_generation = gd_generation g, fr_values = [0, 0, 0, 0]\<rparr> ch of
                          (Ok _, ch) \<Rightarrow> (Some kind, ch)
                        | (Err _, ch) \<Rightarrow> (gd_sent g ! index, ch))
                 else (gd_sent g ! index, ch)) = (sent, ch1)" by force
  have sent: "sent = gd_sent g ! index \<or> (sent \<noteq> None \<and> sent = gd_control g)"
    using q by ((cases "gd_control g"; auto split: if_splits prod.splits sum.splits), metis)
  obtain r written ch2 where fl: "channel_flush (sv_write sv index) ch1 = (r, written, ch2)"
    by (cases "channel_flush (sv_write sv index) ch1") auto
  show ?thesis by (rule that(2) [of ch2 sent]) (use Some q fl sent in \<open>simp_all add: send_control_def\<close>)
qed

lemma guardian_inv_send_control:
  assumes "guardian_inv exits faults g" "index < 2"
  shows "guardian_inv exits faults (send_control sv index g)"
proof (cases rule: send_control_cases [of sv index g])
  case 1
  then show ?thesis using assms(1) by simp
next
  case (2 sent ch)
  have len: "length (gd_sent g) = 2" using assms(1) by (simp add: guardian_invs)
  have "\<exists>c. gd_control g = Some c \<and> kind_code k \<le> kind_code c" if "i < 2" "(gd_sent g)[index := sent] ! i = Some k" for i k
    using that assms 2(3) len unfolding guardian_inv_def control_inv_def
    by (cases "i = index") (metis nth_list_update_eq order_refl, metis nth_list_update_neq)
  then show ?thesis using assms(1) unfolding 2(1)
    by (simp add: guardian_inv_def control_inv_def report_inv_def identity_inv_def shape_inv_def)
qed

lemma guardian_inv_receive_loop:
  assumes "guardian_inv exits faults g" "index < 2"
  shows "guardian_inv exits faults (receive_loop os sv index n g)"
  using assms(1)
proof (induction n arbitrary: g)
  case (Suc n)
  show ?case
  proof (cases "gd_channels g ! index")
    case (Some ch)
    obtain r ch' where r: "channel_receive (sv_read sv index n) ch = (r, ch')" by force
    let ?g = "g\<lparr>gd_channels := (gd_channels g)[index := Some ch']\<rparr>"
    have g: "guardian_inv exits faults ?g" using Suc.prems by simp
    have "guardian_inv exits faults (receive_loop os sv index n (guardian_receive os index f ?g))" for f
      by (rule Suc.IH [OF guardian_inv_receive [OF g assms(2)]])
    then show ?thesis
      using Some r g guardian_inv_channel_ended [OF g] guardian_inv_mark_fault [OF g]
        guardian_inv_channel_ended [OF guardian_inv_mark_fault [OF g]]
      by (auto simp: Let_def split: sum.split option.split)
  qed (use Suc.prems in simp)
qed simp

lemma guardian_inv_service:
  assumes "guardian_inv exits faults g"
  shows "guardian_inv exits faults (guardian_service os sv g)"
proof -
  have ch: "guardian_inv exits faults (service_channel os sv i g)" if "guardian_inv exits faults g" "i < 2" for i g
    unfolding service_channel_def using guardian_inv_receive_loop guardian_inv_send_control that by blast
  have "guardian_inv exits faults (service_channel os sv 1 (service_channel os sv 0 g))" using ch assms by simp
  then show ?thesis using guardian_inv_mark_fault
    by (auto simp: guardian_service_def service_wait_def Let_def split: wait_answer.split)
qed

section \<open>The helpers are gone\<close>

text \<open>A channel that ended stays ended and a reaped child stays reaped, so completion is final.\<close>

definition goes_on :: "guardian \<Rightarrow> guardian \<Rightarrow> bool" where
  "goes_on g g' \<longleftrightarrow> (gd_reaped g \<longrightarrow> gd_reaped g') \<and> length (gd_channels g') = length (gd_channels g)
     \<and> (\<forall>i<length (gd_channels g). gd_channels g ! i = None \<longrightarrow> gd_channels g' ! i = None)"

lemma goes_on_refl [simp]: "goes_on g g"
  by (simp add: goes_on_def)

lemma goes_on_trans [trans]: "goes_on a b \<Longrightarrow> goes_on b c \<Longrightarrow> goes_on a c"
  by (simp add: goes_on_def)

lemma goes_on_same:
  "gd_channels g' = gd_channels g \<Longrightarrow> gd_reaped g' = gd_reaped g \<Longrightarrow> goes_on g g'"
  by (simp add: goes_on_def)

lemma receive_same:
  "gd_channels (guardian_receive os index f g) = gd_channels g" "gd_reaped (guardian_receive os index f g) = gd_reaped g"
  by (cases "fr_kind f"; simp add: guardian_receive_def receive_hello_def receive_started_def receive_exit_def Let_def split: option.split)+

lemma put_None:
  "xs ! i = None \<Longrightarrow> i < length xs \<Longrightarrow> c = None \<or> xs ! index \<noteq> None \<Longrightarrow> xs[index := c] ! i = None"
  by (cases "i = index") auto

lemma goes_on_ended: "goes_on g (channel_ended index g)"
  by (auto simp: goes_on_def channel_ended_def Let_def put_None)

lemma goes_on_put:
  assumes "gd_channels g ! index \<noteq> None"
  shows "goes_on g (g\<lparr>gd_channels := (gd_channels g)[index := c]\<rparr>)"
  using assms by (simp add: goes_on_def put_None)

lemma goes_on_receive_loop: "goes_on g (receive_loop os sv index n g)"
proof (induction n arbitrary: g)
  case (Suc n)
  show ?case
  proof (cases "gd_channels g ! index")
    case (Some ch)
    obtain r ch' where r: "channel_receive (sv_read sv index n) ch = (r, ch')" by force
    let ?g = "g\<lparr>gd_channels := (gd_channels g)[index := Some ch']\<rparr>"
    have put: "goes_on g ?g" using goes_on_put Some by simp
    have next_frame: "goes_on g (receive_loop os sv index n (guardian_receive os index f ?g))" for f
      using goes_on_trans [OF goes_on_trans [OF put goes_on_same [OF receive_same]] Suc.IH] .
    have "goes_on g (channel_ended index ?g)" "goes_on g (mark_fault ?g)" "goes_on g (channel_ended index (mark_fault ?g))"
      using goes_on_trans [OF put goes_on_ended] goes_on_trans [OF put goes_on_same [of "mark_fault ?g" ?g]]
        goes_on_trans [OF goes_on_trans [OF put goes_on_same [of "mark_fault ?g" ?g]] goes_on_ended] by simp_all
    then show ?thesis using Some r next_frame put by (auto simp: Let_def split: sum.split option.split)
  qed simp
qed simp

lemma goes_on_send_control: "goes_on g (send_control sv index g)"
  by (cases rule: send_control_cases [of sv index g]) (simp_all add: goes_on_def put_None)

lemma goes_on_service: "goes_on g (guardian_service os sv g)"
proof -
  have "goes_on g (service_channel os sv i g)" for i g
    unfolding service_channel_def by (rule goes_on_trans [OF goes_on_send_control goes_on_receive_loop])
  then have "goes_on g (service_channel os sv 1 (service_channel os sv 0 g))" by (meson goes_on_trans)
  moreover have "goes_on h (service_wait a h)" for h a
    by (auto simp: service_wait_def goes_on_def Let_def split: wait_answer.split)
  ultimately show ?thesis unfolding guardian_service_def by (meson goes_on_trans)
qed

lemma goes_on_complete: "goes_on g g' \<Longrightarrow> guardian_complete g \<Longrightarrow> guardian_complete g'"
  by (auto simp: goes_on_def guardian_complete_def list_all_length)

section \<open>The owner and the helpers\<close>

record guardian_sys =
  gs_guardian :: guardian
  gs_exits :: "i32 list"
  gs_faults :: nat

inductive guardian_step :: "platform \<Rightarrow> guardian_sys \<Rightarrow> guardian_sys \<Rightarrow> bool" for os where
  gu_request: "kind \<in> owner_controls \<Longrightarrow> guardian_step os s (s\<lparr>gs_guardian := guardian_request kind (gs_guardian s)\<rparr>)"
| gu_service: "guardian_step os s (s\<lparr>gs_guardian := guardian_service os sv (gs_guardian s)\<rparr>)"
| gu_grant: "guardian_step os s (s\<lparr>gs_guardian := grant_execution (gs_guardian s)\<rparr>)"
| gu_exit:
    "take_exit (gs_guardian s) = (x, g)
     \<Longrightarrow> guardian_step os s (s\<lparr>gs_guardian := g, gs_exits := gs_exits s @ (case x of None \<Rightarrow> [] | Some v \<Rightarrow> [v])\<rparr>)"
| gu_fault:
    "take_fault (gs_guardian s) = (b, g)
     \<Longrightarrow> guardian_step os s (s\<lparr>gs_guardian := g, gs_faults := gs_faults s + (if b then 1 else 0)\<rparr>)"
| gu_term: "guardian_step os s (s\<lparr>gs_guardian := snd (take_term_applied (gs_guardian s))\<rparr>)"
| gu_escalation: "guardian_step os s (s\<lparr>gs_guardian := snd (take_escalation_applied (gs_guardian s))\<rparr>)"

abbreviation guardian_steps :: "platform \<Rightarrow> guardian_sys \<Rightarrow> guardian_sys \<Rightarrow> bool" where
  "guardian_steps os \<equiv> (guardian_step os)\<^sup>*\<^sup>*"

definition guardian_sys_new :: "i32 \<Rightarrow> bool \<Rightarrow> u64 \<Rightarrow> guardian_sys" where
  "guardian_sys_new sid watch generation = \<lparr>gs_guardian = guardian_new sid watch generation, gs_exits = [], gs_faults = 0\<rparr>"

lemma guardian_step_inv:
  assumes "guardian_step os s s'" "guardian_inv (gs_exits s) (gs_faults s) (gs_guardian s)"
  shows "guardian_inv (gs_exits s') (gs_faults s') (gs_guardian s')"
  using assms
proof (induction rule: guardian_step.induct)
  case (gu_request kind s)
  then show ?case by (simp add: guardian_inv_request)
next
  case (gu_service s sv)
  then show ?case by (simp add: guardian_inv_service)
next
  case (gu_grant s)
  then show ?case by (simp add: grant_execution_def Let_def)
next
  case (gu_exit s x g)
  have "x = gd_pending_exit (gs_guardian s)" "g = (gs_guardian s)\<lparr>gd_pending_exit := None\<rparr>"
    using gu_exit.hyps by (auto simp: take_exit_def)
  then show ?case using gu_exit.prems by (simp add: guardian_inv_def control_inv_def identity_inv_def shape_inv_def report_inv_def)
next
  case (gu_fault s b g)
  have "b = gd_pending_fault (gs_guardian s)" "g = (gs_guardian s)\<lparr>gd_pending_fault := False\<rparr>"
    using gu_fault.hyps by (auto simp: take_fault_def)
  then show ?case using gu_fault.prems by (simp add: guardian_inv_def control_inv_def identity_inv_def shape_inv_def report_inv_def)
qed (simp_all add: take_term_applied_def take_escalation_applied_def)

lemma guardian_steps_inv:
  "guardian_steps os s s' \<Longrightarrow> guardian_inv (gs_exits s) (gs_faults s) (gs_guardian s)
    \<Longrightarrow> guardian_inv (gs_exits s') (gs_faults s') (gs_guardian s')"
  by (induction rule: rtranclp_induct) (auto intro: guardian_step_inv)

lemma grant_channels: "list_all (\<lambda>c. c = None) (gd_channels g) \<Longrightarrow> list_all (\<lambda>c. c = None) (gd_channels (grant_execution g))"
  by (simp add: grant_execution_def Let_def list_all_iff)

lemma guardian_step_complete:
  "guardian_step os s s' \<Longrightarrow> guardian_complete (gs_guardian s) \<Longrightarrow> guardian_complete (gs_guardian s')"
proof (induction rule: guardian_step.induct)
  case (gu_service s sv)
  then show ?case using goes_on_complete [OF goes_on_service] by simp
next
  case (gu_grant s)
  then show ?case using grant_channels by (simp add: guardian_complete_def) (simp add: grant_execution_def Let_def)
qed (auto simp: guardian_complete_def guardian_request_def take_exit_def take_fault_def take_term_applied_def take_escalation_applied_def)

lemma guardian_steps_complete:
  "guardian_steps os s s' \<Longrightarrow> guardian_complete (gs_guardian s) \<Longrightarrow> guardian_complete (gs_guardian s')"
  by (induction rule: rtranclp_induct) (auto intro: guardian_step_complete)

text \<open>\<open>admit\<close>, with the cleanup after a refusal, is a run of these steps.\<close>

lemma cleanup_rounds_steps: "guardian_steps os s (s\<lparr>gs_guardian := cleanup_rounds os svs (gs_guardian s)\<rparr>)"
proof (induction svs arbitrary: s)
  case (Cons sv svs)
  show ?case
  proof (cases "guardian_complete (gs_guardian s)")
    case False
    let ?t = "s\<lparr>gs_guardian := guardian_service os sv (gs_guardian s)\<rparr>"
    have "guardian_steps os s (?t\<lparr>gs_guardian := cleanup_rounds os svs (gs_guardian ?t)\<rparr>)"
      by (rule converse_rtranclp_into_rtranclp [of _ _ ?t]) (rule gu_service, rule Cons.IH)
    then show ?thesis using False by simp
  qed simp
qed simp

lemma guardian_cleanup_steps: "guardian_steps os s (s\<lparr>gs_guardian := guardian_cleanup os svs (gs_guardian s)\<rparr>)"
proof -
  let ?t = "s\<lparr>gs_guardian := guardian_request KAbort (gs_guardian s)\<rparr>"
  have "guardian_steps os s (?t\<lparr>gs_guardian := cleanup_rounds os svs (gs_guardian ?t)\<rparr>)"
    by (rule converse_rtranclp_into_rtranclp [of _ _ ?t]) (rule gu_request, simp add: owner_controls_def, rule cleanup_rounds_steps)
  then show ?thesis by (simp add: guardian_cleanup_def)
qed

lemma admit_turn_steps:
  assumes "admit_turn os sv expired (gs_guardian s) = (r, g)"
  shows "guardian_steps os s (s\<lparr>gs_guardian := g\<rparr>)"
proof -
  let ?t = "s\<lparr>gs_guardian := guardian_service os sv (gs_guardian s)\<rparr>"
  have service: "guardian_steps os s ?t" by (rule r_into_rtranclp, rule gu_service)
  have "g = gs_guardian ?t \<or> g = grant_execution (gs_guardian ?t)"
    using assms by (auto simp: admit_turn_def Let_def split: option.splits if_splits)
  moreover have "guardian_steps os s (?t\<lparr>gs_guardian := grant_execution (gs_guardian ?t)\<rparr>)"
    by (rule rtranclp.rtrancl_into_rtrancl [OF service], rule gu_grant)
  ultimately show ?thesis using service by auto
qed

lemma guardian_admit_steps:
  "guardian_admit os cleanup turns (gs_guardian s) = (r, g) \<Longrightarrow> guardian_steps os s (s\<lparr>gs_guardian := g\<rparr>)"
proof (induction turns arbitrary: s)
  case (Cons turn turns)
  obtain sv expired where turn: "turn = (sv, expired)" by force
  obtain q h where h: "admit_turn os sv expired (gs_guardian s) = (q, h)" by force
  let ?t = "s\<lparr>gs_guardian := h\<rparr>"
  have first: "guardian_steps os s ?t" by (rule admit_turn_steps [OF h])
  have clean: "guardian_steps os ?t (s\<lparr>gs_guardian := guardian_cleanup os cleanup h\<rparr>)"
    using guardian_cleanup_steps [of os ?t cleanup] by simp
  show ?case
  proof (cases q)
    case None
    then have "guardian_admit os cleanup turns (gs_guardian ?t) = (r, g)" using Cons.prems turn h by simp
    from rtranclp_trans [OF first Cons.IH [OF this]] show ?thesis by simp
  next
    case (Some answer)
    then show ?thesis using Cons.prems turn h first rtranclp_trans [OF first clean] by (cases answer) auto
  qed
qed auto

section \<open>Properties\<close>

text \<open>
  C11. The owner's view of its helpers is sound whatever they send and however the sockets cut it.
  At most one exit and at most one fault are ever reported, and the exit is the one observed; a
  process is admitted or its exit believed only for a workload that a helper already known by
  its announced identity has started; a fault always has the abort requested, controls are only
  those of the owner, and no channel was sent one beyond the current; and once the helpers are
  gone they stay gone.
\<close>

theorem guardian_reports_sound:
  assumes "guardian_steps os (guardian_sys_new sid watch generation) s"
  shows "length (gs_exits s) \<le> 1 \<and> gs_faults s \<le> 1
    \<and> (\<forall>x\<in>set (gs_exits s). gd_observed_exit (gs_guardian s) = Some x)
    \<and> (gd_admitted (gs_guardian s) \<or> gs_exits s \<noteq> [] \<longrightarrow> (\<exists>v. gd_started (gs_guardian s) = Some v \<and> 0 <s v ! 0
        \<and> (\<exists>i<2. \<exists>h. gd_hello (gs_guardian s) ! i = Some h \<and> h ! 1 = v ! 1)))
    \<and> (gd_fault (gs_guardian s) \<longrightarrow> gd_control (gs_guardian s) = Some KAbort)
    \<and> (\<forall>i<2. \<forall>k. gd_sent (gs_guardian s) ! i = Some k
        \<longrightarrow> (\<exists>c\<in>{KTerminate, KKill, KRelease, KAbort}. gd_control (gs_guardian s) = Some c \<and> kind_code k \<le> kind_code c))
    \<and> (\<forall>s'. guardian_complete (gs_guardian s) \<and> guardian_steps os s s' \<longrightarrow> guardian_complete (gs_guardian s'))"
proof -
  let ?g = "gs_guardian s"
  have inv: "control_inv ?g" "report_inv (gs_exits s) (gs_faults s) ?g" "identity_inv ?g"
    using guardian_steps_inv [OF assms] guardian_inv_new by (auto simp: guardian_sys_new_def guardian_inv_def)
  have exits: "length (gs_exits s) \<le> 1" "\<forall>x\<in>set (gs_exits s). gd_observed_exit ?g = Some x" "gs_exits s \<noteq> [] \<longrightarrow> gd_observed_exit ?g \<noteq> None"
    using inv(2) by (auto simp: report_inv_def append_eq_Cons_conv split: option.splits)
  have faults: "gs_faults s \<le> 1" using inv(2) by (auto simp: report_inv_def split: if_splits)
  have started: "\<exists>v. gd_started ?g = Some v \<and> 0 <s v ! 0 \<and> (\<exists>i<2. \<exists>h. gd_hello ?g ! i = Some h \<and> h ! 1 = v ! 1)"
    if "gd_admitted ?g \<or> gs_exits s \<noteq> []"
  proof -
    have "gd_started ?g \<noteq> None" using that exits(3) inv(3) unfolding identity_inv_def by blast
    then obtain v where "gd_started ?g = Some v" by blast
    then show ?thesis using inv(3) unfolding identity_inv_def by blast
  qed
  have sent: "\<exists>c\<in>{KTerminate, KKill, KRelease, KAbort}. gd_control ?g = Some c \<and> kind_code k \<le> kind_code c"
    if "i < 2" "gd_sent ?g ! i = Some k" for i k
    using inv(1) that unfolding control_inv_def owner_controls_def by blast
  have fault: "gd_fault ?g \<longrightarrow> gd_control ?g = Some KAbort" using inv(1) by (simp add: control_inv_def)
  show ?thesis using exits(1,2) faults started sent fault guardian_steps_complete by blast
qed

definition sample_platform :: platform where
  "sample_platform = \<lparr>os_wait = \<lambda>status. True, os_errno = \<lambda>e. \<lparr>of_errno = None, of_kind = KindOther\<rparr>\<rparr>"

definition sample_service :: service_answers where
  "sample_service = \<lparr>sv_write = \<lambda>i n. WriteWouldBlock, sv_read = \<lambda>i n. ReadReset, sv_wait = WaitExited\<rparr>"

theorem guardian_reports_sound_witness:
  "\<exists>s. guardian_steps sample_platform (guardian_sys_new 42 True 3) s \<and> gd_fault (gs_guardian s) \<and> gd_control (gs_guardian s) = Some KAbort
    \<and> guardian_complete (gs_guardian s)"
proof -
  let ?s = "guardian_sys_new 42 True 3" and ?g = "guardian_service sample_platform sample_service (guardian_new 42 True 3)"
  let ?t = "?s\<lparr>gs_guardian := ?g\<rparr>"
  have step: "guardian_steps sample_platform ?s ?t"
    using gu_service [of sample_platform ?s sample_service] by (simp add: guardian_sys_new_def r_into_rtranclp)
  have run: "gd_fault ?g \<and> guardian_complete ?g"
    by (simp add: guardian_service_def service_channel_def send_control_def guardian_new_def sample_service_def channel_flush_def
        QUEUE_RECORDS_def channel_new_def numeral_eq_Suc channel_receive_def finish_receive_def channel_ended_def service_wait_def
        mark_fault_def guardian_request_def guardian_complete_def channel_enqueue_def frame_encode_def Let_def)
  then show ?thesis using guardian_reports_sound [OF step] step by auto
qed

end
