(* ===== verification/Process_Owner.thy ===== *)
theory Process_Owner
  imports Guardian_Client
begin

text \<open>
  The supervisor's owner of one process (\<^verbatim>\<open>crates/infrastructure/src/process/lifecycle.rs\<close>): it reports
  the exit or the loss of supervision, escalates a cancellation after its grace period, stops the
  reader and releases the helpers.  \<open>reap\<close> and \<open>control\<close> are called in turn by the supervisor's loop;
  callers and the reader thread change the shared session in between.  Events, replies to writes
  and replies to resizes are part of the results; diagnostics and timings are not modelled.
\<close>

section \<open>State\<close>

datatype process_event = ProcExited exit_status | ProcSupervisionFailed process_error

record owned_process =
  ow_guardian :: guardian
  ow_session :: process_session
  ow_exit_at :: "duration option"
  ow_cancel_at :: "duration option"
  ow_killed :: bool
  ow_supervision_lost :: bool
  ow_discard_at :: "duration option"

definition owned_new :: "guardian \<Rightarrow> process_session \<Rightarrow> owned_process" where
  "owned_new g s = \<lparr>ow_guardian = g, ow_session = s, ow_exit_at = None, ow_cancel_at = None, ow_killed = False,
     ow_supervision_lost = False, ow_discard_at = None\<rparr>"

type_synonym resize_replies = "(reply_id \<times> (process_error, unit) result) list"

record owner_effects =
  ef_events :: "process_event list"
  ef_writes :: write_replies
  ef_resizes :: resize_replies

definition no_effects :: owner_effects where
  "no_effects = \<lparr>ef_events = [], ef_writes = [], ef_resizes = []\<rparr>"

definition effects_then :: "owner_effects \<Rightarrow> owner_effects \<Rightarrow> owner_effects" where
  "effects_then a b = \<lparr>ef_events = ef_events a @ ef_events b, ef_writes = ef_writes a @ ef_writes b, ef_resizes = ef_resizes a @ ef_resizes b\<rparr>"

section \<open>Reports\<close>

definition report_failure :: "owned_process \<Rightarrow> owner_effects \<times> owned_process" where
  "report_failure p =
     (if ow_supervision_lost p then (no_effects, p)
      else case finish_inputs PInternal (ow_session p) of
        (writes, resized, s) \<Rightarrow>
          (\<lparr>ef_events = [ProcSupervisionFailed PInternal], ef_writes = writes, ef_resizes = (case resized of None \<Rightarrow> [] | Some r \<Rightarrow> [r])\<rparr>,
           p\<lparr>ow_supervision_lost := True, ow_session := stop_reader s\<rparr>))"

text \<open>\<open>status_of\<close> is \<open>ExitStatus::code\<close>, then \<open>ExitStatus::signal\<close>, of a raw wait status.\<close>

definition owner_record_exit :: "(i32 \<Rightarrow> exit_status option) \<Rightarrow> duration \<Rightarrow> i32 \<Rightarrow> owned_process \<Rightarrow> owner_effects \<times> owned_process" where
  "owner_record_exit status_of now raw p =
     (if ow_exit_at p \<noteq> None then (no_effects, p)
      else case status_of raw of
        None \<Rightarrow> report_failure p
      | Some status \<Rightarrow>
          (case finish_inputs PClosed (note_workload_exit (ow_session p)) of
             (writes, resized, s) \<Rightarrow>
               (\<lparr>ef_events = [ProcExited status], ef_writes = writes, ef_resizes = (case resized of None \<Rightarrow> [] | Some r \<Rightarrow> [r])\<rparr>,
                p\<lparr>ow_exit_at := Some now, ow_session := s\<rparr>)))"

definition reap_exit :: "(i32 \<Rightarrow> exit_status option) \<Rightarrow> duration \<Rightarrow> owned_process \<Rightarrow> owner_effects \<times> owned_process" where
  "reap_exit status_of now p =
     (case take_exit (ow_guardian p) of
        (None, g) \<Rightarrow> (no_effects, p\<lparr>ow_guardian := g\<rparr>)
      | (Some raw, g) \<Rightarrow> owner_record_exit status_of now raw (p\<lparr>ow_guardian := g\<rparr>))"

definition reap_fault :: "owned_process \<Rightarrow> owner_effects \<times> owned_process" where
  "reap_fault p =
     (case take_fault (ow_guardian p) of
        (faulted, g) \<Rightarrow> if faulted then report_failure (p\<lparr>ow_guardian := g\<rparr>) else (no_effects, p\<lparr>ow_guardian := g\<rparr>))"

definition owner_reap :: "platform \<Rightarrow> (i32 \<Rightarrow> exit_status option) \<Rightarrow> service_answers \<Rightarrow> duration \<Rightarrow> owned_process
    \<Rightarrow> owner_effects \<times> owned_process" where
  "owner_reap os status_of sv now p =
     (let g = guardian_service os sv (ow_guardian p);
          g = snd (take_escalation_applied g);
          g = snd (take_term_applied g)
      in case reap_exit status_of now (p\<lparr>ow_guardian := g\<rparr>) of (a, p) \<Rightarrow>
         case reap_fault p of (b, p) \<Rightarrow> (effects_then a b, p))"

section \<open>Control\<close>

definition control_abort :: "bool \<Rightarrow> owned_process \<Rightarrow> owned_process" where
  "control_abort immediate p =
     (if immediate \<or> ow_supervision_lost p \<or> ps_reader_failed (ow_session p)
      then p\<lparr>ow_guardian := guardian_request KAbort (ow_guardian p), ow_killed := True\<rparr> else p)"

definition control_cancel :: "duration \<Rightarrow> bool \<Rightarrow> owned_process \<Rightarrow> owned_process" where
  "control_cancel now shutting p =
     (if \<not> ow_killed p \<and> (shutting \<or> ps_cancel (ow_session p)) then
        let p = (if ow_cancel_at p = None
                 then p\<lparr>ow_guardian := guardian_request KTerminate (ow_guardian p), ow_cancel_at := Some now\<rparr> else p)
        in (if (case ow_cancel_at p of None \<Rightarrow> False
                | Some start \<Rightarrow> now - start \<ge> pl_terminate_grace (ps_limits (ow_session p)))
            then p\<lparr>ow_guardian := guardian_request KKill (ow_guardian p), ow_killed := True\<rparr> else p)
      else p)"

definition control_resize :: "(process_error, unit) result \<Rightarrow> owned_process \<Rightarrow> resize_replies \<times> owned_process" where
  "control_resize answer p =
     (case ps_resize (ow_session p) of
        None \<Rightarrow> ([], p)
      | Some r \<Rightarrow> ([(rr_reply r, answer)], p\<lparr>ow_session := (ow_session p)\<lparr>ps_resize := None\<rparr>\<rparr>))"

definition control_live :: "duration \<Rightarrow> bool \<Rightarrow> (process_error, unit) result \<Rightarrow> owned_process \<Rightarrow> resize_replies \<times> owned_process" where
  "control_live now shutting answer p =
     (if ow_exit_at p = None \<and> \<not> ow_supervision_lost p then control_resize answer (control_cancel now shutting p) else ([], p))"

definition control_drain :: "duration \<Rightarrow> bool \<Rightarrow> owned_process \<Rightarrow> owned_process" where
  "control_drain now shutting p =
     (if shutting \<or> (case ow_exit_at p of None \<Rightarrow> False
                     | Some start \<Rightarrow> now - start \<ge> pl_drain_timeout (ps_limits (ow_session p)))
      then p\<lparr>ow_session := stop_reader (ow_session p)\<rparr> else p)"

definition control_release :: "duration \<Rightarrow> bool \<Rightarrow> owned_process \<Rightarrow> owned_process" where
  "control_release now shutting p =
     (if ps_reader_done (ow_session p) then
        let p = (if ow_exit_at p \<noteq> None \<or> ow_supervision_lost p \<or> shutting
                 then p\<lparr>ow_guardian := guardian_request KRelease (ow_guardian p)\<rparr> else p)
        in (if \<not> guardian_complete (ow_guardian p) \<and> (case ow_discard_at p of None \<Rightarrow> True | Some deadline \<Rightarrow> now \<ge> deadline)
            then p\<lparr>ow_discard_at := Some (now + from_millis 10)\<rparr> else p)
      else p)"

definition owner_control :: "duration \<Rightarrow> bool \<Rightarrow> bool \<Rightarrow> (process_error, unit) result \<Rightarrow> owned_process
    \<Rightarrow> resize_replies \<times> owned_process" where
  "owner_control now shutting immediate answer p =
     (case control_live now shutting answer (control_abort immediate p) of
        (replies, p) \<Rightarrow> (replies, control_release now shutting (control_drain now shutting p)))"

fun earliest :: "duration option list \<Rightarrow> duration option" where
  "earliest [] = None"
| "earliest (None # ds) = earliest ds"
| "earliest (Some d # ds) = Some (case earliest ds of None \<Rightarrow> d | Some e \<Rightarrow> min d e)"

text \<open>The next instant at which \<open>control\<close> has something to do; \<open>now\<close> is read for the fallback poll.\<close>

definition owner_deadline :: "duration \<Rightarrow> owned_process \<Rightarrow> duration option" where
  "owner_deadline now p =
     (let limits = ps_limits (ow_session p);
          cancel = (if ow_killed p then None else map_option (\<lambda>start. start + pl_terminate_grace limits) (ow_cancel_at p));
          drain = (if ps_stop_reader (ow_session p) then None else map_option (\<lambda>start. start + pl_drain_timeout limits) (ow_exit_at p));
          input = (case ps_input (ow_session p) of [] \<Rightarrow> None | i # rest \<Rightarrow> Some (in_deadline i));
          fallback = (if needs_poll (ow_guardian p) then Some (now + from_millis 10) else None)
      in earliest [cancel, drain, input, ow_discard_at p, fallback])"

text \<open>
  The owner's end: callers are refused, the reader is stopped and joined, the helpers are cleaned up
  in the rounds given, and the cleanup is counted as completed or failed.
\<close>

definition owner_drop :: "platform \<Rightarrow> service_answers list \<Rightarrow> owned_process \<Rightarrow> bool \<times> owner_effects \<times> owned_process" where
  "owner_drop os svs p =
     (case finish_inputs PClosed (stop_reader (ow_session p)) of
        (writes, resized, s) \<Rightarrow>
          let g = guardian_cleanup os svs (ow_guardian p)
          in (cleanup_succeeded g \<and> \<not> ow_supervision_lost p,
              \<lparr>ef_events = [], ef_writes = writes, ef_resizes = (case resized of None \<Rightarrow> [] | Some r \<Rightarrow> [r])\<rparr>,
              p\<lparr>ow_guardian := g, ow_session := s\<rparr>))"

section \<open>The owner, its callers and the reader\<close>

record owner_sys =
  os_process :: owned_process
  os_events :: "process_event list"
  os_time :: duration

inductive owner_step :: "platform \<Rightarrow> (i32 \<Rightarrow> exit_status option) \<Rightarrow> owner_sys \<Rightarrow> owner_sys \<Rightarrow> bool" for os status_of where
  os_reap:
    "os_time s \<le> now \<Longrightarrow> owner_reap os status_of sv now (os_process s) = (e, p)
     \<Longrightarrow> owner_step os status_of s (s\<lparr>os_process := p, os_events := os_events s @ ef_events e, os_time := now\<rparr>)"
| os_control:
    "os_time s \<le> now \<Longrightarrow> owner_control now shutting immediate answer (os_process s) = (replies, p)
     \<Longrightarrow> owner_step os status_of s (s\<lparr>os_process := p, os_time := now\<rparr>)"
| os_write:
    "write_reserved r bs now (ow_session (os_process s)) = (result, t)
     \<Longrightarrow> owner_step os status_of s (s\<lparr>os_process := (os_process s)\<lparr>ow_session := t\<rparr>\<rparr>)"
| os_cancel:
    "request_cancel (ow_session (os_process s)) = (result, t)
     \<Longrightarrow> owner_step os status_of s (s\<lparr>os_process := (os_process s)\<lparr>ow_session := t\<rparr>\<rparr>)"
| os_resize:
    "resize_timed r geometry (ow_session (os_process s)) = (result, t)
     \<Longrightarrow> owner_step os status_of s (s\<lparr>os_process := (os_process s)\<lparr>ow_session := t\<rparr>\<rparr>)"
| os_write_ready:
    "write_ready now answer (ow_session (os_process s)) = (took, replies, t)
     \<Longrightarrow> owner_step os status_of s (s\<lparr>os_process := (os_process s)\<lparr>ow_session := t\<rparr>\<rparr>)"
| os_reader_end:
    "reader_end result r (ow_session (os_process s)) = (outcome, r', t)
     \<Longrightarrow> owner_step os status_of s (s\<lparr>os_process := (os_process s)\<lparr>ow_session := t\<rparr>\<rparr>)"

abbreviation owner_steps :: "platform \<Rightarrow> (i32 \<Rightarrow> exit_status option) \<Rightarrow> owner_sys \<Rightarrow> owner_sys \<Rightarrow> bool" where
  "owner_steps os status_of \<equiv> (owner_step os status_of)\<^sup>*\<^sup>*"

definition owner_sys_new :: "guardian \<Rightarrow> process_limits \<Rightarrow> owner_sys" where
  "owner_sys_new g limits = \<lparr>os_process = owned_new g (process_session_new limits), os_events = [], os_time = 0\<rparr>"

fun is_exit :: "process_event \<Rightarrow> bool" where
  "is_exit (ProcExited _) = True"
| "is_exit _ = False"

text \<open>
  The invariant: one event for the exit and one for the loss of supervision, once each has
  happened; either closes the session to callers and the exit is known to the reader; and the
  workload is killed only under an abort or when the grace of a cancellation has passed.
\<close>

definition events_inv :: "process_event list \<Rightarrow> owned_process \<Rightarrow> bool" where
  "events_inv events p \<longleftrightarrow> length (filter is_exit events) = (if ow_exit_at p = None then 0 else 1)
     \<and> length (filter (\<lambda>e. \<not> is_exit e) events) = (if ow_supervision_lost p then 1 else 0)"

definition closed_inv :: "owned_process \<Rightarrow> bool" where
  "closed_inv p \<longleftrightarrow> (ow_exit_at p \<noteq> None \<or> ow_supervision_lost p \<longrightarrow> ps_closed (ow_session p) \<and> ps_input (ow_session p) = [])
     \<and> (ow_exit_at p \<noteq> None \<longrightarrow> ps_workload_exited (ow_session p))
     \<and> (ow_supervision_lost p \<longrightarrow> ps_stop_reader (ow_session p))"

definition requested :: "u16 \<Rightarrow> guardian \<Rightarrow> bool" where
  "requested code g \<longleftrightarrow> (case gd_control g of None \<Rightarrow> False | Some c \<Rightarrow> code \<le> kind_code c)"

definition killed_inv :: "process_limits \<Rightarrow> duration \<Rightarrow> owned_process \<Rightarrow> bool" where
  "killed_inv limits time p \<longleftrightarrow> ps_limits (ow_session p) = limits \<and> (\<forall>start. ow_cancel_at p = Some start \<longrightarrow> start \<le> time)
     \<and> (ow_cancel_at p \<noteq> None \<longrightarrow> requested (kind_code KTerminate) (ow_guardian p))
     \<and> (ow_killed p \<longrightarrow> requested (kind_code KKill) (ow_guardian p))
     \<and> (ow_killed p \<longrightarrow> requested (kind_code KAbort) (ow_guardian p)
          \<or> (\<exists>start. ow_cancel_at p = Some start \<and> start + pl_terminate_grace limits \<le> time))"

text \<open>A request is never withdrawn.\<close>

lemma requested_request: "requested code g \<Longrightarrow> requested code (guardian_request kind g)"
  by (auto simp: guardian_request_def requested_def split: option.splits)

lemma requested_self: "requested (kind_code kind) (guardian_request kind g)"
  by (auto simp: guardian_request_def requested_def split: option.splits)

lemma requested_less: "requested code g \<Longrightarrow> lower \<le> code \<Longrightarrow> requested lower g"
  by (auto simp: requested_def split: option.splits)

lemma requested_same: "gd_control g = gd_control h \<Longrightarrow> requested code g = requested code h"
  by (simp add: requested_def)

lemma mark_fault_requested: "requested code g \<Longrightarrow> requested code (mark_fault g)"
  unfolding mark_fault_def by (rule requested_request) (simp add: requested_def)

lemma channel_ended_requested: "requested code g \<Longrightarrow> requested code (channel_ended index g)"
  using mark_fault_requested [of code "g\<lparr>gd_channels := (gd_channels g)[index := None]\<rparr>"]
  by (simp add: channel_ended_def Let_def requested_same [of "g\<lparr>gd_channels := (gd_channels g)[index := None]\<rparr>" g])

lemma requested_updates [simp]:
  "requested code (g\<lparr>gd_channels := cs\<rparr>) = requested code g" "requested code (g\<lparr>gd_hello := hs\<rparr>) = requested code g"
  "requested code (g\<lparr>gd_started := v\<rparr>) = requested code g" "requested code (g\<lparr>gd_admitted := b\<rparr>) = requested code g"
  "requested code (g\<lparr>gd_observed_exit := x\<rparr>) = requested code g" "requested code (g\<lparr>gd_pending_exit := x\<rparr>) = requested code g"
  "requested code (g\<lparr>gd_start_error := e\<rparr>) = requested code g" "requested code (g\<lparr>gd_term_applied := b\<rparr>) = requested code g"
  "requested code (g\<lparr>gd_escalation_applied := b\<rparr>) = requested code g" "requested code (g\<lparr>gd_escalation_reported := b\<rparr>) = requested code g"
  "requested code (g\<lparr>gd_retiring := rs\<rparr>) = requested code g" "requested code (g\<lparr>gd_watch := b\<rparr>) = requested code g"
  "requested code (g\<lparr>gd_reaped := b\<rparr>) = requested code g" "requested code (g\<lparr>gd_sent := ks\<rparr>) = requested code g"
  by (simp_all add: requested_def)

lemma receive_requested: "requested code g \<Longrightarrow> requested code (guardian_receive os index f g)"
  by (cases "fr_kind f")
    (simp_all add: guardian_receive_def receive_hello_def receive_started_def receive_exit_def mark_fault_requested Let_def split: option.split)

lemma receive_loop_requested: "requested code g \<Longrightarrow> requested code (receive_loop os sv index n g)"
proof (induction n arbitrary: g)
  case (Suc n)
  show ?case
  proof (cases "gd_channels g ! index")
    case (Some ch)
    obtain r ch' where r: "channel_receive (sv_read sv index n) ch = (r, ch')" by force
    let ?g = "g\<lparr>gd_channels := (gd_channels g)[index := Some ch']\<rparr>"
    have g: "requested code ?g" using Suc.prems by simp
    have "requested code (receive_loop os sv index n (guardian_receive os index f ?g))" for f
      by (rule Suc.IH [OF receive_requested [OF g]])
    then show ?thesis
      using Some r g channel_ended_requested [OF g] mark_fault_requested [OF g] channel_ended_requested [OF mark_fault_requested [OF g]]
      by (auto simp: Let_def split: sum.split option.split)
  qed (use Suc.prems in simp)
qed simp

lemma service_requested: "requested code g \<Longrightarrow> requested code (guardian_service os sv g)"
proof -
  have send: "requested code (send_control sv i g) = requested code g" for i g
    by (cases rule: send_control_cases [of sv i g]) simp_all
  have wait: "requested code g \<Longrightarrow> requested code (service_wait a g)" for a g
    by (simp add: service_wait_def Let_def mark_fault_requested split: wait_answer.split)
  show "requested code g \<Longrightarrow> requested code (guardian_service os sv g)"
    by (simp add: guardian_service_def service_channel_def wait receive_loop_requested send)
qed

text \<open>Reports.\<close>

lemma finish_inputs_session:
  assumes "finish_inputs reason t = (writes, resized, u)"
  shows "u = t\<lparr>ps_closed := True, ps_input := [], ps_resize := None, ps_bytes := 0\<rparr>"
  using assms by (auto simp: finish_inputs_def finish_drain_def finish_publish_def)

lemma report_failure_cases:
  assumes "report_failure p = (e, p')"
  shows "ow_supervision_lost p \<and> e = no_effects \<and> p' = p
    \<or> \<not> ow_supervision_lost p \<and> ef_events e = [ProcSupervisionFailed PInternal]
      \<and> p' = p\<lparr>ow_supervision_lost := True,
          ow_session := (ow_session p)\<lparr>ps_closed := True, ps_input := [], ps_resize := None, ps_bytes := 0, ps_stop_reader := True\<rparr>\<rparr>"
  using assms
  by (auto simp: report_failure_def stop_reader_def split: if_splits prod.splits dest!: finish_inputs_session)

lemma record_exit_cases:
  assumes "owner_record_exit status_of now raw p = (e, p')"
  shows "ow_exit_at p \<noteq> None \<and> e = no_effects \<and> p' = p
    \<or> (\<exists>status. ow_exit_at p = None \<and> ef_events e = [ProcExited status]
        \<and> p' = p\<lparr>ow_exit_at := Some now,
            ow_session := (ow_session p)\<lparr>ps_workload_exited := True, ps_closed := True, ps_input := [], ps_resize := None, ps_bytes := 0\<rparr>\<rparr>)
    \<or> ow_exit_at p = None \<and> report_failure p = (e, p')"
  using assms
  by (auto simp: owner_record_exit_def note_workload_exit_def split: if_splits prod.splits option.splits dest!: finish_inputs_session)

lemma report_failure_inv:
  assumes "report_failure p = (e, p')" "events_inv events p" "closed_inv p" "killed_inv limits time p"
  shows "events_inv (events @ ef_events e) p'" "closed_inv p'" "killed_inv limits time p'" "ow_guardian p' = ow_guardian p"
proof -
  have "events_inv (events @ ef_events e) p' \<and> closed_inv p' \<and> killed_inv limits time p' \<and> ow_guardian p' = ow_guardian p"
  proof (cases "ow_supervision_lost p")
    case True
    then have "e = no_effects" "p' = p" using report_failure_cases [OF assms(1)] by blast+
    then show ?thesis using assms(2-4) by (simp add: no_effects_def)
  next
    case False
    then have e: "ef_events e = [ProcSupervisionFailed PInternal]" "p' = p\<lparr>ow_supervision_lost := True,
          ow_session := (ow_session p)\<lparr>ps_closed := True, ps_input := [], ps_resize := None, ps_bytes := 0, ps_stop_reader := True\<rparr>\<rparr>"
      using report_failure_cases [OF assms(1)] by blast+
    have "events_inv (events @ ef_events e) p'" using assms(2) e False by (simp add: events_inv_def)
    moreover have "closed_inv p'" using assms(3) e by (simp add: closed_inv_def)
    moreover have "killed_inv limits time p'" using assms(4) e by (simp add: killed_inv_def)
    ultimately show ?thesis using e by simp
  qed
  then show "events_inv (events @ ef_events e) p'" "closed_inv p'" "killed_inv limits time p'" "ow_guardian p' = ow_guardian p" by blast+
qed

lemma record_exit_inv:
  assumes "owner_record_exit status_of now raw p = (e, p')" "events_inv events p" "closed_inv p" "killed_inv limits time p"
  shows "events_inv (events @ ef_events e) p'" "closed_inv p'" "killed_inv limits time p'" "ow_guardian p' = ow_guardian p"
proof -
  consider (same) "e = no_effects" "p' = p" | (exit) status where "ow_exit_at p = None" "ef_events e = [ProcExited status]"
      "p' = p\<lparr>ow_exit_at := Some now,
            ow_session := (ow_session p)\<lparr>ps_workload_exited := True, ps_closed := True, ps_input := [], ps_resize := None, ps_bytes := 0\<rparr>\<rparr>"
    | (failed) "report_failure p = (e, p')"
    using record_exit_cases [OF assms(1)] by blast
  then have "events_inv (events @ ef_events e) p' \<and> closed_inv p' \<and> killed_inv limits time p' \<and> ow_guardian p' = ow_guardian p"
  proof cases
    case failed
    from report_failure_inv [OF this assms(2-4)] show ?thesis by blast
  qed (use assms(2-4) in \<open>auto simp: events_inv_def closed_inv_def killed_inv_def no_effects_def\<close>)
  then show "events_inv (events @ ef_events e) p'" "closed_inv p'" "killed_inv limits time p'" "ow_guardian p' = ow_guardian p" by blast+
qed

lemma killed_inv_later:
  assumes "killed_inv limits time p" "time \<le> now"
  shows "killed_inv limits now p"
  using assms by (fastforce simp: killed_inv_def)

text \<open>Replacing the guardian keeps the rest.\<close>

lemma guardian_replaced:
  assumes "events_inv events p" "closed_inv p" "killed_inv limits time p" "\<And>code. requested code (ow_guardian p) \<Longrightarrow> requested code g"
  shows "events_inv events (p\<lparr>ow_guardian := g\<rparr>)" "closed_inv (p\<lparr>ow_guardian := g\<rparr>)" "killed_inv limits time (p\<lparr>ow_guardian := g\<rparr>)"
  using assms by (auto simp: events_inv_def closed_inv_def killed_inv_def)

lemma guardian_inv_takes:
  assumes "guardian_inv exits faults g"
  shows "\<exists>exits' faults'. guardian_inv exits' faults' (snd (take_exit g))" "\<exists>exits' faults'. guardian_inv exits' faults' (snd (take_fault g))"
proof -
  have "guardian_step os (\<lparr>gs_guardian = g, gs_exits = exits, gs_faults = faults\<rparr>)
      (\<lparr>gs_guardian = snd (take_exit g), gs_exits = exits @ (case fst (take_exit g) of None \<Rightarrow> [] | Some v \<Rightarrow> [v]), gs_faults = faults\<rparr>)" for os
    using gu_exit [of "\<lparr>gs_guardian = g, gs_exits = exits, gs_faults = faults\<rparr>" "fst (take_exit g)" "snd (take_exit g)"] by simp
  from guardian_step_inv [OF this] assms show "\<exists>exits' faults'. guardian_inv exits' faults' (snd (take_exit g))" by fastforce
  have "guardian_step os (\<lparr>gs_guardian = g, gs_exits = exits, gs_faults = faults\<rparr>)
      (\<lparr>gs_guardian = snd (take_fault g), gs_exits = exits, gs_faults = faults + (if fst (take_fault g) then 1 else 0)\<rparr>)" for os
    using gu_fault [of "\<lparr>gs_guardian = g, gs_exits = exits, gs_faults = faults\<rparr>" "fst (take_fault g)" "snd (take_fault g)"] by simp
  from guardian_step_inv [OF this] assms show "\<exists>exits' faults'. guardian_inv exits' faults' (snd (take_fault g))" by fastforce
qed

lemma takes_control [simp]:
  "requested code (snd (take_exit g)) = requested code g" "requested code (snd (take_fault g)) = requested code g"
  "requested code (snd (take_term_applied g)) = requested code g" "requested code (snd (take_escalation_applied g)) = requested code g"
  by (simp_all add: requested_def take_exit_def take_fault_def take_term_applied_def take_escalation_applied_def)

lemma reap_exit_inv:
  assumes "reap_exit status_of now p = (e, p')" "events_inv events p" "closed_inv p" "killed_inv limits time p"
    "guardian_inv exits faults (ow_guardian p)"
  shows "events_inv (events @ ef_events e) p' \<and> closed_inv p' \<and> killed_inv limits time p'
    \<and> (\<exists>exits faults. guardian_inv exits faults (ow_guardian p'))"
proof -
  obtain x g where x: "take_exit (ow_guardian p) = (x, g)" by force
  then have g: "\<And>code. requested code (ow_guardian p) \<Longrightarrow> requested code g" "\<exists>exits faults. guardian_inv exits faults g"
    using takes_control(1) [of _ "ow_guardian p"] guardian_inv_takes(1) [OF assms(5)] by simp_all
  note base = guardian_replaced [OF assms(2-4) g(1)]
  show ?thesis
  proof (cases x)
    case None
    then have "e = no_effects" "p' = p\<lparr>ow_guardian := g\<rparr>" using assms(1) x by (simp_all add: reap_exit_def)
    then show ?thesis using base g by (simp add: no_effects_def)
  next
    case (Some raw)
    then have "owner_record_exit status_of now raw (p\<lparr>ow_guardian := g\<rparr>) = (e, p')" using assms(1) x by (simp add: reap_exit_def)
    from record_exit_inv [OF this base] g show ?thesis by simp
  qed
qed

lemma reap_fault_inv:
  assumes "reap_fault p = (e, p')" "events_inv events p" "closed_inv p" "killed_inv limits time p"
    "guardian_inv exits faults (ow_guardian p)"
  shows "events_inv (events @ ef_events e) p' \<and> closed_inv p' \<and> killed_inv limits time p'
    \<and> (\<exists>exits faults. guardian_inv exits faults (ow_guardian p'))"
proof -
  obtain x g where x: "take_fault (ow_guardian p) = (x, g)" by force
  then have g: "\<And>code. requested code (ow_guardian p) \<Longrightarrow> requested code g" "\<exists>exits faults. guardian_inv exits faults g"
    using takes_control(2) [of _ "ow_guardian p"] guardian_inv_takes(2) [OF assms(5)] by simp_all
  note base = guardian_replaced [OF assms(2-4) g(1)]
  show ?thesis
  proof (cases x)
    case False
    then have "e = no_effects" "p' = p\<lparr>ow_guardian := g\<rparr>" using assms(1) x by (simp_all add: reap_fault_def)
    then show ?thesis using base g by (simp add: no_effects_def)
  next
    case True
    then have "report_failure (p\<lparr>ow_guardian := g\<rparr>) = (e, p')" using assms(1) x by (simp add: reap_fault_def)
    from report_failure_inv [OF this base] g show ?thesis by simp
  qed
qed

lemma owner_reap_inv:
  assumes "owner_reap os status_of sv now p = (e, p')" "events_inv events p" "closed_inv p" "killed_inv limits time p"
    "guardian_inv exits faults (ow_guardian p)"
  shows "events_inv (events @ ef_events e) p' \<and> closed_inv p' \<and> killed_inv limits time p'
    \<and> (\<exists>exits faults. guardian_inv exits faults (ow_guardian p'))"
proof -
  define g where "g = snd (take_term_applied (snd (take_escalation_applied (guardian_service os sv (ow_guardian p)))))"
  have g: "guardian_inv exits faults g"
    using guardian_inv_service [OF assms(5)] by (simp add: g_def take_term_applied_def take_escalation_applied_def)
  have "requested code (ow_guardian p) \<Longrightarrow> requested code g" for code using service_requested by (simp add: g_def)
  note base = guardian_replaced [OF assms(2-4) this]
  obtain a q where q: "reap_exit status_of now (p\<lparr>ow_guardian := g\<rparr>) = (a, q)" by force
  obtain b r where r: "reap_fault q = (b, r)" by force
  have "ow_guardian (p\<lparr>ow_guardian := g\<rparr>) = g" by simp
  with reap_exit_inv [OF q base] g obtain exits' faults' where q_inv: "events_inv (events @ ef_events a) q" "closed_inv q"
    "killed_inv limits time q" "guardian_inv exits' faults' (ow_guardian q)" by metis
  have "e = effects_then a b" "p' = r" using assms(1) q r by (simp_all add: owner_reap_def g_def)
  then show ?thesis using reap_fault_inv [OF r q_inv] by (simp add: effects_then_def)
qed

text \<open>Control.\<close>

definition owner_keeps :: "process_event list \<Rightarrow> process_limits \<Rightarrow> duration \<Rightarrow> owned_process \<Rightarrow> bool" where
  "owner_keeps events limits now p \<longleftrightarrow> events_inv events p \<and> closed_inv p \<and> killed_inv limits now p
     \<and> (\<exists>exits faults. guardian_inv exits faults (ow_guardian p))"

lemma request_guardian:
  assumes "\<exists>exits faults. guardian_inv exits faults g" "kind \<in> owner_controls"
  shows "\<exists>exits faults. guardian_inv exits faults (guardian_request kind g)"
  using assms guardian_inv_request by blast

lemma request_keeps:
  assumes "owner_keeps events limits now p" "kind \<in> owner_controls"
  shows "owner_keeps events limits now (p\<lparr>ow_guardian := guardian_request kind (ow_guardian p)\<rparr>)"
  using assms request_guardian [OF _ assms(2)] guardian_replaced [OF _ _ _ requested_request, of events p limits now _ kind]
  by (simp add: owner_keeps_def)

lemma killed_keeps:
  assumes "owner_keeps events limits now p" "requested (kind_code KKill) (ow_guardian p)"
    "requested (kind_code KAbort) (ow_guardian p) \<or> (\<exists>start. ow_cancel_at p = Some start \<and> start + pl_terminate_grace limits \<le> now)"
  shows "owner_keeps events limits now (p\<lparr>ow_killed := True\<rparr>)"
  using assms by (simp add: owner_keeps_def events_inv_def closed_inv_def killed_inv_def)

lemma control_abort_keeps:
  assumes "owner_keeps events limits now p"
  shows "owner_keeps events limits now (control_abort immediate p)"
proof -
  let ?p = "p\<lparr>ow_guardian := guardian_request KAbort (ow_guardian p)\<rparr>"
  have "requested (kind_code KAbort) (ow_guardian ?p)" using requested_self [of KAbort] by simp
  moreover from requested_less [OF this] have "requested (kind_code KKill) (ow_guardian ?p)" by simp
  moreover have "owner_keeps events limits now ?p" by (rule request_keeps [OF assms]) (simp add: owner_controls_def)
  ultimately have "owner_keeps events limits now (?p\<lparr>ow_killed := True\<rparr>)" using killed_keeps by blast
  then show ?thesis using assms by (simp add: control_abort_def)
qed

lemma control_cancel_keeps:
  assumes "owner_keeps events limits now p"
  shows "owner_keeps events limits now (control_cancel now shutting p)"
proof -
  have begun: "owner_keeps events limits now (p\<lparr>ow_guardian := guardian_request KTerminate (ow_guardian p), ow_cancel_at := Some now\<rparr>)"
    if "\<not> ow_killed p"
    using request_keeps [OF assms, of KTerminate] that requested_self [of KTerminate "ow_guardian p"]
    by (simp add: owner_keeps_def owner_controls_def events_inv_def closed_inv_def killed_inv_def)
  have kill: "owner_keeps events limits now (q\<lparr>ow_guardian := guardian_request KKill (ow_guardian q), ow_killed := True\<rparr>)"
    if "owner_keeps events limits now q" "ow_cancel_at q = Some start" "pl_terminate_grace (ps_limits (ow_session q)) \<le> now - start" for q start
  proof -
    let ?q = "q\<lparr>ow_guardian := guardian_request KKill (ow_guardian q)\<rparr>"
    have "start \<le> now" "ps_limits (ow_session q) = limits" using that(1,2) by (auto simp: owner_keeps_def killed_inv_def)
    then have "start + pl_terminate_grace limits \<le> now" using that(3) by simp
    moreover have "requested (kind_code KKill) (ow_guardian ?q)" using requested_self [of KKill] by simp
    moreover have "owner_keeps events limits now ?q" by (rule request_keeps [OF that(1)]) (simp add: owner_controls_def)
    ultimately have "owner_keeps events limits now (?q\<lparr>ow_killed := True\<rparr>)" using killed_keeps [of events limits now ?q] that(2) by simp
    then show ?thesis by simp
  qed
  define q where "q = (if ow_cancel_at p = None
                 then p\<lparr>ow_guardian := guardian_request KTerminate (ow_guardian p), ow_cancel_at := Some now\<rparr> else p)"
  show ?thesis
  proof (cases "\<not> ow_killed p \<and> (shutting \<or> ps_cancel (ow_session p))")
    case False
    have "control_cancel now shutting p = p" unfolding control_cancel_def by (rule if_not_P [OF False])
    then show ?thesis using assms by simp
  next
    case True
    then have q: "owner_keeps events limits now q" using begun assms by (simp add: q_def)
    obtain start where start: "ow_cancel_at q = Some start" by (cases "ow_cancel_at p") (auto simp: q_def)
    have "control_cancel now shutting p = (if pl_terminate_grace (ps_limits (ow_session q)) \<le> now - start
        then q\<lparr>ow_guardian := guardian_request KKill (ow_guardian q), ow_killed := True\<rparr> else q)"
      unfolding control_cancel_def if_P [OF True] Let_def q_def [symmetric] by (simp add: start)
    then show ?thesis using q kill [OF q start] by simp
  qed
qed

lemma control_keeps:
  assumes "owner_keeps events limits now p" "owner_control now shutting immediate answer p = (replies, p')"
  shows "owner_keeps events limits now p'"
proof -
  have resize: "owner_keeps events limits now (snd (control_resize answer q))" if "owner_keeps events limits now q" for q
    using that by (cases "ps_resize (ow_session q)")
      (simp_all add: control_resize_def owner_keeps_def events_inv_def closed_inv_def killed_inv_def)
  have live: "owner_keeps events limits now (snd (control_live now shutting answer q))" if "owner_keeps events limits now q" for q
    using resize [OF control_cancel_keeps [OF that]] that by (simp add: control_live_def)
  have drain: "owner_keeps events limits now (control_drain now shutting q)" if "owner_keeps events limits now q" for q
    using that by (simp add: control_drain_def stop_reader_def owner_keeps_def events_inv_def closed_inv_def killed_inv_def)
  have discard: "owner_keeps events limits now (q\<lparr>ow_discard_at := d\<rparr>) = owner_keeps events limits now q" for q d
    by (simp add: owner_keeps_def events_inv_def closed_inv_def killed_inv_def)
  have release: "owner_keeps events limits now (control_release now shutting q)" if "owner_keeps events limits now q" for q
    using request_keeps [OF that, of KRelease] that by (simp add: control_release_def Let_def discard owner_controls_def)
  obtain r q where q: "control_live now shutting answer (control_abort immediate p) = (r, q)" by force
  have "owner_keeps events limits now q" using live [OF control_abort_keeps [OF assms(1)], of immediate] q by simp
  then show ?thesis using release [OF drain] assms(2) q by (auto simp: owner_control_def)
qed

lemma session_changed:
  assumes "owner_keeps events limits now p" "ps_limits t = ps_limits (ow_session p)" "ps_closed (ow_session p) \<longrightarrow> ps_closed t"
    "ps_closed (ow_session p) \<and> ps_input (ow_session p) = [] \<longrightarrow> ps_input t = []"
    "ps_workload_exited t = ps_workload_exited (ow_session p)" "ps_stop_reader t = ps_stop_reader (ow_session p)"
  shows "owner_keeps events limits now (p\<lparr>ow_session := t\<rparr>)"
  using assms by (auto simp: owner_keeps_def events_inv_def closed_inv_def killed_inv_def)

lemma owner_step_inv:
  assumes "owner_step os status_of s s'" "owner_keeps (os_events s) limits (os_time s) (os_process s)"
  shows "owner_keeps (os_events s') limits (os_time s') (os_process s')"
  using assms
proof (induction rule: owner_step.induct)
  case (os_reap s now sv e p)
  have k: "events_inv (os_events s) (os_process s)" "closed_inv (os_process s)" "killed_inv limits now (os_process s)"
    using os_reap.prems killed_inv_later [OF _ os_reap.hyps(1)] by (auto simp: owner_keeps_def)
  obtain exits faults where "guardian_inv exits faults (ow_guardian (os_process s))" using os_reap.prems by (auto simp: owner_keeps_def)
  from owner_reap_inv [OF os_reap.hyps(2) k this] show ?case by (simp add: owner_keeps_def)
next
  case (os_control s now shutting immediate answer replies p)
  have "owner_keeps (os_events s) limits now (os_process s)"
    using os_control.prems killed_inv_later [OF _ os_control.hyps(1)] by (auto simp: owner_keeps_def)
  from control_keeps [OF this os_control.hyps(2)] show ?case by simp
next
  case (os_write r bs now s result t)
  have "owner_keeps (os_events s) limits (os_time s) ((os_process s)\<lparr>ow_session := t\<rparr>)"
    by (rule session_changed [OF os_write.prems]) (use os_write.hyps in \<open>auto simp: write_reserved_def split: if_splits\<close>)
  then show ?case by simp
next
  case (os_cancel s result t)
  have "owner_keeps (os_events s) limits (os_time s) ((os_process s)\<lparr>ow_session := t\<rparr>)"
    by (rule session_changed [OF os_cancel.prems]) (use os_cancel.hyps in \<open>auto simp: request_cancel_def split: if_splits\<close>)
  then show ?case by simp
next
  case (os_resize r geometry s result t)
  have "owner_keeps (os_events s) limits (os_time s) ((os_process s)\<lparr>ow_session := t\<rparr>)"
    by (rule session_changed [OF os_resize.prems]) (use os_resize.hyps in \<open>auto simp: resize_timed_def split: if_splits\<close>)
  then show ?case by simp
next
  case (os_write_ready now answer s took replies t)
  have "owner_keeps (os_events s) limits (os_time s) ((os_process s)\<lparr>ow_session := t\<rparr>)"
    by (rule session_changed [OF os_write_ready.prems])
      (use os_write_ready.hyps in \<open>auto simp: write_ready_def split: list.splits prod.splits if_splits\<close>)
  then show ?case by simp
next
  case (os_reader_end result r s outcome r' t)
  have "owner_keeps (os_events s) limits (os_time s) ((os_process s)\<lparr>ow_session := t\<rparr>)"
    by (rule session_changed [OF os_reader_end.prems])
      (use os_reader_end.hyps in \<open>auto simp: reader_end_def Let_def split: option.splits drain_outcome.splits\<close>)
  then show ?case by simp
qed

lemma owner_keeps_new:
  assumes "guardian_inv exits faults g"
  shows "owner_keeps [] limits 0 (owned_new g (process_session_new limits))"
  using assms
  by (auto simp: owner_keeps_def events_inv_def closed_inv_def killed_inv_def owned_new_def process_session_new_def)

lemma owner_steps_inv:
  "owner_steps os status_of s s' \<Longrightarrow> owner_keeps (os_events s) limits (os_time s) (os_process s)
    \<Longrightarrow> owner_keeps (os_events s') limits (os_time s') (os_process s')"
  by (induction rule: rtranclp_induct) (auto intro: owner_step_inv)

lemma owner_reaches:
  assumes "guardian_steps os (guardian_sys_new sid watch generation) t" "owner_steps os status_of (owner_sys_new (gs_guardian t) limits) s"
  shows "owner_keeps (os_events s) limits (os_time s) (os_process s)"
proof -
  have "guardian_inv (gs_exits t) (gs_faults t) (gs_guardian t)"
    using guardian_steps_inv [OF assms(1)] guardian_inv_new by (simp add: guardian_sys_new_def)
  from owner_keeps_new [OF this] show ?thesis using owner_steps_inv [OF assms(2)] by (simp add: owner_sys_new_def)
qed

lemma requested_abort:
  assumes "requested (kind_code KAbort) g" "guardian_inv exits faults g"
  shows "gd_control g = Some KAbort"
  using assms by (auto simp: requested_def guardian_inv_def control_inv_def owner_controls_def split: option.splits)

text \<open>A cancellation is begun, keeps its start, and is escalated by the first turn after its grace.\<close>

lemma earliest_le: "Some d \<in> set ds \<Longrightarrow> \<exists>e. earliest ds = Some e \<and> e \<le> d"
  by (induction ds rule: earliest.induct) (auto split: option.splits)

lemma deadline_covers_cancel:
  assumes "\<not> ow_killed p" "ow_cancel_at p = Some start"
  shows "\<exists>d. owner_deadline now p = Some d \<and> d \<le> start + pl_terminate_grace (ps_limits (ow_session p))"
  unfolding owner_deadline_def Let_def by (rule earliest_le) (simp add: assms)

definition cancelled_live :: "owned_process \<Rightarrow> bool" where
  "cancelled_live p \<longleftrightarrow> ps_cancel (ow_session p) \<and> ow_exit_at p = None \<and> \<not> ow_supervision_lost p"

lemma control_cancel_escalates:
  assumes "ps_cancel (ow_session p)"
  shows "ow_killed (control_cancel now shutting p) \<or> (\<exists>start. ow_cancel_at (control_cancel now shutting p) = Some start
      \<and> now - start < pl_terminate_grace (ps_limits (ow_session p)) \<and> (ow_cancel_at p = None \<or> ow_cancel_at p = Some start))"
    "ow_session (control_cancel now shutting p) = ow_session p" "ow_exit_at (control_cancel now shutting p) = ow_exit_at p"
    "ow_supervision_lost (control_cancel now shutting p) = ow_supervision_lost p"
  using assms by (cases "ow_cancel_at p"; simp add: control_cancel_def Let_def)+

lemma control_escalates:
  assumes "owner_control now shutting immediate answer p = (replies, p')" "cancelled_live p"
  shows "ow_killed p' \<or> (\<exists>start. ow_cancel_at p' = Some start
      \<and> now - start < pl_terminate_grace (ps_limits (ow_session p)) \<and> (ow_cancel_at p = None \<or> ow_cancel_at p = Some start))"
    "cancelled_live p'" "ow_killed p \<Longrightarrow> ow_killed p'"
proof -
  define q where "q = control_abort immediate p"
  have q: "ow_session q = ow_session p" "ow_exit_at q = None" "\<not> ow_supervision_lost q" "ow_cancel_at q = ow_cancel_at p" "ow_killed p \<longrightarrow> ow_killed q"
    using assms(2) by (simp_all add: q_def control_abort_def cancelled_live_def)
  define c where "c = control_cancel now shutting q"
  have "ps_cancel (ow_session q)" using assms(2) q(1) by (simp add: cancelled_live_def)
  note c = control_cancel_escalates [OF this, of now shutting, folded c_def]
  have killed: "ow_killed q \<longrightarrow> ow_killed c" by (simp add: c_def control_cancel_def)
  have live: "control_live now shutting answer q = control_resize answer c" using q by (simp add: control_live_def c_def)
  obtain r d where d: "control_resize answer c = (r, d)" by force
  have d_same: "ow_killed d = ow_killed c" "ow_cancel_at d = ow_cancel_at c" "ow_exit_at d = ow_exit_at c"
      "ow_supervision_lost d = ow_supervision_lost c" "ps_cancel (ow_session d) = ps_cancel (ow_session c)"
    using d by (auto simp: control_resize_def split: option.splits)
  have p': "p' = control_release now shutting (control_drain now shutting d)"
    using assms(1) live d by (simp add: owner_control_def q_def)
  have p'_same: "ow_killed p' = ow_killed d" "ow_cancel_at p' = ow_cancel_at d" "ow_exit_at p' = ow_exit_at d"
      "ow_supervision_lost p' = ow_supervision_lost d" "ps_cancel (ow_session p') = ps_cancel (ow_session d)"
    by (simp_all add: p' control_release_def control_drain_def stop_reader_def Let_def)
  show "ow_killed p' \<or> (\<exists>start. ow_cancel_at p' = Some start
      \<and> now - start < pl_terminate_grace (ps_limits (ow_session p)) \<and> (ow_cancel_at p = None \<or> ow_cancel_at p = Some start))"
    using c(1) q(1,4) d_same(1,2) p'_same(1,2) by simp
  show "cancelled_live p'" using assms(2) q c d_same p'_same by (simp add: cancelled_live_def)
  show "ow_killed p \<Longrightarrow> ow_killed p'" using q(5) killed d_same(1) p'_same(1) by simp
qed

text \<open>Nothing the owner, its callers or the reader do withdraws a cancellation or a kill, or moves the
  instant at which the cancellation was begun.\<close>

definition cancel_kept :: "owned_process \<Rightarrow> owned_process \<Rightarrow> bool" where
  "cancel_kept p p' \<longleftrightarrow> (ps_cancel (ow_session p) \<longrightarrow> ps_cancel (ow_session p')) \<and> (ow_killed p \<longrightarrow> ow_killed p')
     \<and> (\<forall>start. ow_cancel_at p = Some start \<longrightarrow> ow_cancel_at p' = Some start)"

lemma cancel_kept_same:
  "ps_cancel (ow_session p) \<longrightarrow> ps_cancel (ow_session p') \<Longrightarrow> ow_killed p' = ow_killed p \<Longrightarrow> ow_cancel_at p' = ow_cancel_at p
    \<Longrightarrow> cancel_kept p p'"
  by (simp add: cancel_kept_def)

lemma cancel_kept_trans: "cancel_kept p q \<Longrightarrow> cancel_kept q r \<Longrightarrow> cancel_kept p r"
  by (simp add: cancel_kept_def)

lemma cancel_kept_guardian [simp]:
  "cancel_kept (p\<lparr>ow_guardian := g\<rparr>) q = cancel_kept p q" "cancel_kept p (q\<lparr>ow_guardian := g\<rparr>) = cancel_kept p q" "cancel_kept p p"
  by (simp_all add: cancel_kept_def)

lemma report_failure_kept: "report_failure p = (e, p') \<Longrightarrow> cancel_kept p p'"
  by (drule report_failure_cases) (auto simp: cancel_kept_def)

lemma record_exit_kept: "owner_record_exit status_of now raw p = (e, p') \<Longrightarrow> cancel_kept p p'"
  by (drule record_exit_cases) (auto simp: cancel_kept_def dest: report_failure_kept)

lemma reap_kept:
  assumes "owner_reap os status_of sv now p = (e, p')"
  shows "cancel_kept p p'"
proof -
  define g where "g = snd (take_term_applied (snd (take_escalation_applied (guardian_service os sv (ow_guardian p)))))"
  obtain a q where q: "reap_exit status_of now (p\<lparr>ow_guardian := g\<rparr>) = (a, q)" by force
  obtain b r where r: "reap_fault q = (b, r)" by force
  have "p' = r" using assms q r by (simp add: owner_reap_def g_def Let_def)
  have "cancel_kept p q"
    using q by (auto simp: reap_exit_def split: prod.splits option.splits dest!: record_exit_kept)
  moreover have "cancel_kept q r"
    using r by (auto simp: reap_fault_def split: prod.splits if_splits dest!: report_failure_kept)
  ultimately show ?thesis unfolding \<open>p' = r\<close> by (rule cancel_kept_trans)
qed

lemma control_kept:
  assumes "owner_control now shutting immediate answer p = (replies, p')"
  shows "cancel_kept p p'"
proof -
  have abort: "cancel_kept p (control_abort immediate p)" by (simp add: control_abort_def cancel_kept_def)
  have cancel: "cancel_kept q (control_cancel now shutting q)" for q
    by (cases "ow_cancel_at q") (simp_all add: control_cancel_def cancel_kept_def Let_def)
  have resize: "control_resize answer q = (r, d) \<Longrightarrow> cancel_kept q d" for q r d
    by (auto simp: control_resize_def cancel_kept_def split: option.splits)
  obtain r d where d: "control_live now shutting answer (control_abort immediate p) = (r, d)" by force
  have "cancel_kept (control_abort immediate p) d"
    using d resize [of "control_cancel now shutting (control_abort immediate p)" r d] cancel [of "control_abort immediate p"]
    unfolding control_live_def by (cases "ow_exit_at (control_abort immediate p) = None \<and> \<not> ow_supervision_lost (control_abort immediate p)")
      (simp, blast intro: cancel_kept_trans, simp)
  moreover have "p' = control_release now shutting (control_drain now shutting d)"
    using assms d by (simp add: owner_control_def)
  then have "cancel_kept d p'"
    by (simp add: control_release_def control_drain_def stop_reader_def cancel_kept_def Let_def)
  ultimately show ?thesis using abort by (blast intro: cancel_kept_trans)
qed

lemma owner_step_cancel_kept: "owner_step os status_of s s' \<Longrightarrow> cancel_kept (os_process s) (os_process s')"
proof (induction rule: owner_step.induct)
  case (os_write r bs now s result t)
  then show ?case by (auto simp: cancel_kept_def write_reserved_def split: if_splits)
next
  case (os_cancel s result t)
  then show ?case by (auto simp: cancel_kept_def request_cancel_def split: if_splits)
next
  case (os_resize r geometry s result t)
  then show ?case by (auto simp: cancel_kept_def resize_timed_def split: if_splits)
next
  case (os_write_ready now answer s took replies t)
  then show ?case by (auto simp: cancel_kept_def write_ready_def split: list.splits prod.splits if_splits)
next
  case (os_reader_end result r s outcome r' t)
  then show ?case by (auto simp: cancel_kept_def reader_end_def Let_def split: option.splits drain_outcome.splits)
qed (auto intro: reap_kept control_kept)

lemma owner_steps_cancel_kept: "owner_steps os status_of s s' \<Longrightarrow> cancel_kept (os_process s) (os_process s')"
  by (induction rule: rtranclp_induct) (auto simp: cancel_kept_same intro: cancel_kept_trans owner_step_cancel_kept)

section \<open>Properties\<close>

text \<open>
  C10. What the owner reports of a process is final and comes once, however its callers, the reader
  and the helpers interleave with it.  There is at most one exit event and at most one loss of
  supervision; after either, callers are refused and nothing is left queued; the reader knows of
  the exit and is stopped by the loss.  A workload is killed only under an abort or when the whole
  grace period has passed since its cancellation was begun.
\<close>

theorem owner_reports_once:
  assumes "guardian_steps os (guardian_sys_new sid watch generation) g"
    and "owner_steps os status_of (owner_sys_new (gs_guardian g) limits) s"
  shows "length (filter is_exit (os_events s)) = (if ow_exit_at (os_process s) = None then 0 else 1)
    \<and> length (filter (\<lambda>e. \<not> is_exit e) (os_events s)) = (if ow_supervision_lost (os_process s) then 1 else 0)
    \<and> (os_events s \<noteq> [] \<longrightarrow> ps_closed (ow_session (os_process s)) \<and> ps_input (ow_session (os_process s)) = [])
    \<and> (ow_exit_at (os_process s) \<noteq> None \<longrightarrow> ps_workload_exited (ow_session (os_process s)))
    \<and> (ow_supervision_lost (os_process s) \<longrightarrow> ps_stop_reader (ow_session (os_process s)))
    \<and> (ow_killed (os_process s) \<longrightarrow> gd_control (ow_guardian (os_process s)) = Some KAbort
        \<or> (\<exists>start. ow_cancel_at (os_process s) = Some start \<and> start + pl_terminate_grace limits \<le> os_time s))"
proof -
  let ?p = "os_process s"
  have inv: "events_inv (os_events s) ?p" "closed_inv ?p" "killed_inv limits (os_time s) ?p" "\<exists>exits faults. guardian_inv exits faults (ow_guardian ?p)"
    using owner_reaches [OF assms] by (auto simp: owner_keeps_def)
  have "ow_exit_at ?p \<noteq> None \<or> ow_supervision_lost ?p" if "os_events s \<noteq> []"
  proof (cases "is_exit (hd (os_events s))")
    case True
    then have "filter is_exit (os_events s) \<noteq> []" using that by (cases "os_events s") auto
    then show ?thesis using inv(1) by (auto simp: events_inv_def split: if_splits)
  next
    case False
    then have "filter (\<lambda>e. \<not> is_exit e) (os_events s) \<noteq> []" using that by (cases "os_events s") auto
    then show ?thesis using inv(1) by (auto simp: events_inv_def split: if_splits)
  qed
  moreover have "requested (kind_code KAbort) (ow_guardian ?p) \<Longrightarrow> gd_control (ow_guardian ?p) = Some KAbort"
    using requested_abort inv(4) by blast
  ultimately show ?thesis using inv(1-3) unfolding events_inv_def closed_inv_def killed_inv_def by blast
qed

definition sample_owner :: owner_sys where
  "sample_owner = owner_sys_new (gs_guardian (guardian_sys_new 42 True 3)) process_limits_default"

theorem owner_reports_once_witness:
  "\<exists>s. owner_steps sample_platform (\<lambda>raw. None) sample_owner s \<and> os_events s = [ProcSupervisionFailed PInternal]
    \<and> ps_closed (ow_session (os_process s)) \<and> ps_stop_reader (ow_session (os_process s))"
proof -
  let ?g = "guardian_service sample_platform sample_service (guardian_new 42 True 3)"
  have g: "gd_pending_exit ?g = None" "gd_pending_fault ?g"
    by (simp_all add: guardian_service_def service_channel_def send_control_def guardian_new_def sample_service_def channel_flush_def
        QUEUE_RECORDS_def channel_new_def numeral_eq_Suc channel_receive_def finish_receive_def channel_ended_def service_wait_def
        mark_fault_def guardian_request_def guardian_complete_def channel_enqueue_def frame_encode_def Let_def)
  obtain e p where e: "owner_reap sample_platform (\<lambda>raw. None) sample_service 0 (os_process sample_owner) = (e, p)" by force
  then have events: "ef_events e = [ProcSupervisionFailed PInternal]" "ow_supervision_lost p"
    using g by (auto simp: owner_reap_def reap_exit_def reap_fault_def take_exit_def take_fault_def take_term_applied_def
        take_escalation_applied_def sample_owner_def owner_sys_new_def guardian_sys_new_def owned_new_def report_failure_def finish_inputs_def finish_drain_def
        finish_publish_def effects_then_def no_effects_def Let_def)
  let ?s = "sample_owner\<lparr>os_process := p, os_events := os_events sample_owner @ ef_events e, os_time := 0\<rparr>"
  have step: "owner_steps sample_platform (\<lambda>raw. None) sample_owner ?s"
    using os_reap [OF _ e] by (simp add: sample_owner_def owner_sys_new_def r_into_rtranclp)
  from owner_reports_once [OF rtranclp.rtrancl_refl this [unfolded sample_owner_def], folded sample_owner_def] events
  show ?thesis using step by (intro exI [of _ ?s]) (simp add: sample_owner_def owner_sys_new_def)
qed

text \<open>
  C9. A cancellation always reaches the workload.  The first control turn after a caller's cancel
  asks the helpers to terminate and remembers when.  Whatever the owner, its callers and the
  reader do from then on, at any later times, that instant is kept; as long as the workload has
  not been killed the owner's deadline lies no later than the end of the grace period that began
  there, so the supervisor wakes in time; and the first control turn at or after that end, if the
  process has still neither exited nor been lost, kills it.
\<close>

theorem cancel_escalates:
  assumes "guardian_steps os (guardian_sys_new sid watch generation) g"
    and "owner_steps os status_of (owner_sys_new (gs_guardian g) limits) s"
    and "ps_cancel (ow_session (os_process s))" "ow_exit_at (os_process s) = None" "\<not> ow_supervision_lost (os_process s)"
    and "os_time s \<le> t" "owner_control t shutting immediate answer (os_process s) = (replies, p)"
    and "owner_steps os status_of (s\<lparr>os_process := p, os_time := t\<rparr>) s'"
  shows "(\<exists>c. gd_control (ow_guardian p) = Some c \<and> kind_code KTerminate \<le> kind_code c)
    \<and> (ow_killed (os_process s')
       \<or> (\<exists>start\<le>t. ow_cancel_at p = Some start \<and> ow_cancel_at (os_process s') = Some start
           \<and> (\<forall>now. \<exists>d. owner_deadline now (os_process s') = Some d \<and> d \<le> start + pl_terminate_grace limits)))
    \<and> (\<forall>u shutting' immediate' answer' replies' p'.
         ow_exit_at (os_process s') = None \<and> \<not> ow_supervision_lost (os_process s') \<and> os_time s' \<le> u
           \<and> t + pl_terminate_grace limits \<le> u
           \<and> owner_control u shutting' immediate' answer' (os_process s') = (replies', p')
         \<longrightarrow> ow_killed p' \<and> (\<exists>c. gd_control (ow_guardian p') = Some c \<and> kind_code KKill \<le> kind_code c))"
proof -
  let ?s1 = "s\<lparr>os_process := p, os_time := t\<rparr>" and ?p' = "os_process s'"
  note keeps = owner_reaches [OF assms(1)]
  have one: "owner_steps os status_of (owner_sys_new (gs_guardian g) limits) ?s1"
    using assms(2) os_control [OF assms(6,7)] by (rule rtranclp.rtrancl_into_rtrancl)
  have s1: "owner_keeps (os_events s) limits t p" using keeps [OF one] by simp
  have s': "owner_keeps (os_events s') limits (os_time s') ?p'" using keeps [OF rtranclp_trans [OF one assms(8)]] .
  have live: "cancelled_live (os_process s)" using assms(3-5) by (simp add: cancelled_live_def)
  note first = control_escalates [OF assms(7) live]
  have kept: "cancel_kept p ?p'" using owner_steps_cancel_kept [OF assms(8)] by simp
  have cancel: "ps_cancel (ow_session ?p')" using first(2) kept by (simp add: cancelled_live_def cancel_kept_def)
  have limits: "ps_limits (ow_session ?p') = limits" using s' by (simp add: owner_keeps_def killed_inv_def)
  have start: "ow_killed p \<or> (\<exists>start\<le>t. ow_cancel_at p = Some start)" using first(1) s1 by (auto simp: owner_keeps_def killed_inv_def)
  have later: "ow_killed ?p' \<or> (\<exists>start\<le>t. ow_cancel_at p = Some start \<and> ow_cancel_at ?p' = Some start)"
    using start kept by (auto simp: cancel_kept_def)
  have asked: "requested (kind_code KTerminate) (ow_guardian p)"
    using start s1 requested_less [of "kind_code KKill" "ow_guardian p" "kind_code KTerminate"]
    by (auto simp: owner_keeps_def killed_inv_def)
  have wakes: "\<exists>d. owner_deadline now ?p' = Some d \<and> d \<le> b + pl_terminate_grace limits"
    if "\<not> ow_killed ?p'" "ow_cancel_at ?p' = Some b" for now b
    using deadline_covers_cancel [OF that] limits by simp
  have "ow_killed p' \<and> requested (kind_code KKill) (ow_guardian p')"
    if l: "ow_exit_at ?p' = None" "\<not> ow_supervision_lost ?p'" "os_time s' \<le> u" and u: "t + pl_terminate_grace limits \<le> u"
      and c: "owner_control u shutting' immediate' answer' ?p' = (replies', p')" for u shutting' immediate' answer' replies' p'
  proof -
    have live': "cancelled_live ?p'" using l cancel by (simp add: cancelled_live_def)
    note second = control_escalates [OF c live']
    have killed: "ow_killed p'"
    proof (rule ccontr)
      assume alive: "\<not> ow_killed p'"
      then obtain b where b: "b \<le> t" "ow_cancel_at ?p' = Some b" using later second(3) by blast
      then have "u - b < pl_terminate_grace limits" using second(1) alive limits by auto
      then show False using b(1) u by simp
    qed
    have "owner_keeps (os_events s') limits u ?p'" using s' killed_inv_later [OF _ l(3)] by (auto simp: owner_keeps_def)
    from control_keeps [OF this c] killed show ?thesis by (simp add: owner_keeps_def killed_inv_def)
  qed
  then have end_grace: "\<forall>u shutting' immediate' answer' replies' p'.
         ow_exit_at ?p' = None \<and> \<not> ow_supervision_lost ?p' \<and> os_time s' \<le> u \<and> t + pl_terminate_grace limits \<le> u
           \<and> owner_control u shutting' immediate' answer' ?p' = (replies', p')
         \<longrightarrow> ow_killed p' \<and> requested (kind_code KKill) (ow_guardian p')" by blast
  have as_control: "requested code h \<longleftrightarrow> (\<exists>c. gd_control h = Some c \<and> code \<le> kind_code c)" for code h
    by (auto simp: requested_def split: option.splits)
  show ?thesis using asked later wakes end_grace unfolding as_control by blast
qed

text \<open>A cancellation begun at once, another control turn inside the grace, and the turn that ends it.\<close>

theorem cancel_escalates_witness:
  "\<exists>s p s'. owner_steps sample_platform (\<lambda>raw. None) sample_owner s
    \<and> snd (owner_control 0 False False (Ok ()) (os_process s)) = p \<and> \<not> ow_killed p
    \<and> owner_steps sample_platform (\<lambda>raw. None) (s\<lparr>os_process := p, os_time := 0\<rparr>) s' \<and> os_time s' = 1
    \<and> ow_cancel_at (os_process s') = Some 0
    \<and> ow_killed (snd (owner_control (pl_terminate_grace process_limits_default) False False (Ok ()) (os_process s')))"
proof -
  note ev = sample_owner_def owner_sys_new_def owned_new_def owner_control_def control_abort_def control_live_def
    control_cancel_def control_resize_def control_drain_def control_release_def process_session_new_def
    process_limits_default_def from_millis_def from_secs_def Let_def
  obtain r t where cancel: "request_cancel (ow_session (os_process sample_owner)) = (r, t)" by force
  let ?s = "sample_owner\<lparr>os_process := (os_process sample_owner)\<lparr>ow_session := t\<rparr>\<rparr>"
  have step: "owner_steps sample_platform (\<lambda>raw. None) sample_owner ?s" using os_cancel [OF cancel] by (rule r_into_rtranclp)
  have t: "t = (process_session_new process_limits_default)\<lparr>ps_cancel := True\<rparr>"
    using cancel by (simp add: request_cancel_def sample_owner_def owner_sys_new_def owned_new_def process_session_new_def)
  have s: "ps_cancel (ow_session (os_process ?s))" "ow_exit_at (os_process ?s) = None" "\<not> ow_supervision_lost (os_process ?s)" "os_time ?s \<le> 0"
    by (simp_all add: t sample_owner_def owner_sys_new_def owned_new_def)
  obtain replies p where p: "owner_control 0 False False (Ok ()) (os_process ?s) = (replies, p)" by force
  obtain replies1 p1 where p1: "owner_control 1 False False (Ok ()) p = (replies1, p1)" by force
  obtain replies' p' where p': "owner_control (pl_terminate_grace process_limits_default) False False (Ok ()) p1 = (replies', p')" by force
  let ?s1 = "?s\<lparr>os_process := p, os_time := 0\<rparr>" and ?s2 = "?s\<lparr>os_process := p1, os_time := 1\<rparr>"
  have step2: "owner_steps sample_platform (\<lambda>raw. None) ?s1 ?s2"
    using os_control [of ?s1 1 False False "Ok ()" replies1 p1] p1 by (intro r_into_rtranclp) simp
  have alive: "\<not> ow_killed p" "ow_cancel_at p = Some 0" using p by (auto simp: t ev)
  have live1: "\<not> ow_killed p1" "ow_exit_at p1 = None" "\<not> ow_supervision_lost p1" using p p1 by (auto simp: t ev)
  note esc = cancel_escalates [OF rtranclp.rtrancl_refl step [unfolded sample_owner_def] s [unfolded sample_owner_def]
      p [unfolded sample_owner_def] step2 [unfolded sample_owner_def]]
  have "ow_cancel_at p1 = Some 0" using conjunct1 [OF conjunct2 [OF esc]] alive live1 by simp
  moreover have "ow_killed p'"
    by (rule conjunct1 [OF conjunct2 [OF conjunct2 [OF esc], rule_format,
          of "pl_terminate_grace process_limits_default" False False "Ok ()" replies' p']])
      (use live1 p' in \<open>simp add: process_limits_default_def from_secs_def from_millis_def\<close>)
  ultimately have "ow_cancel_at p1 = Some 0 \<and> ow_killed p'" by simp
  then show ?thesis using step step2 p p' alive by (intro exI [of _ ?s] exI [of _ p] exI [of _ ?s2]) simp
qed

end
