(* ===== verification/Process_Backend.thy ===== *)
theory Process_Backend
  imports Process_Owner "HOL-Library.Multiset"
begin

text \<open>
  The backend that owns every process (\<^verbatim>\<open>crates/infrastructure/src/process/backend.rs\<close>, \<^verbatim>\<open>spawner.rs\<close>,
  \<^verbatim>\<open>registration.rs\<close> and \<^verbatim>\<open>supervisor.rs\<close>): a caller takes an admission, its request goes through a
  bounded channel to the spawner thread, a launched child through a second one to the supervisor
  thread, which answers the caller and owns the process until its helpers are gone.  The admission
  moves along and is returned where the request or the process is dropped.

  Launching a child and starting its reader answer through arguments.  A request is named by a
  number; an answer is what the waiting caller receives.  A reply channel that is dropped unanswered
  answers as the caller's \<open>recv\<close> does.  Panics of the two threads are not modelled.
\<close>

section \<open>State\<close>

record launch_request =
  lq_id :: nat
  lq_limits :: process_limits

datatype spawner_message = Launch launch_request | StopSpawner

datatype spawner_phase = SpawnWaiting | SpawnLaunching launch_request | SpawnDraining | SpawnClosing | SpawnEnded

record backend =
  bk_shutdown :: bool
  bk_immediate :: bool
  bk_spawn_stop :: bool
  bk_active :: usize
  bk_max :: usize
  bk_requests :: "spawner_message list"
  bk_spawner :: spawner_phase
  bk_ready :: "(launch_request \<times> guardian) list"
  bk_processes :: "(nat \<times> owned_process) list"
  bk_supervisor_ended :: bool

type_synonym backend_answers = "(nat \<times> (process_error, unit) result) list"

text \<open>\<open>host\<close> is the check of the host's signal dispositions, \<open>resources\<close> what roots, image, sockets and
  threads answered.\<close>

definition backend_build :: "(process_error, unit) result \<Rightarrow> (process_error, unit) result \<Rightarrow> usize \<Rightarrow> (process_error, backend) result" where
  "backend_build host resources maximum =
     bind_result host (\<lambda>_.
       if maximum = 0 \<or> maximum > 65536 then Err PCapacity
       else bind_result resources (\<lambda>_.
         Ok \<lparr>bk_shutdown = False, bk_immediate = False, bk_spawn_stop = False, bk_active = 0, bk_max = maximum,
             bk_requests = [], bk_spawner = SpawnWaiting, bk_ready = [], bk_processes = [], bk_supervisor_ended = False\<rparr>))"

section \<open>Callers\<close>

definition spawn_admit :: "process_limits \<Rightarrow> backend \<Rightarrow> (process_error, unit) result \<times> backend" where
  "spawn_admit limits b =
     (case process_limits_validate limits of
        Err e \<Rightarrow> (Err e, b)
      | Ok _ \<Rightarrow>
          if bk_shutdown b then (Err PClosed, b)
          else if bk_active b < bk_max b then (Ok (), b\<lparr>bk_active := bk_active b + 1\<rparr>)
          else (Err PCapacity, b))"

definition process_admission_drop :: "backend \<Rightarrow> backend" where
  "process_admission_drop b = b\<lparr>bk_active := bk_active b - 1\<rparr>"

definition requests_accept :: "backend \<Rightarrow> bool" where
  "requests_accept b \<longleftrightarrow> bk_spawner b \<noteq> SpawnEnded \<and> length (bk_requests b) < unat (bk_max b) + 1"

definition spawn_send :: "launch_request \<Rightarrow> backend \<Rightarrow> backend_answers \<times> backend" where
  "spawn_send r b =
     (if requests_accept b then ([], b\<lparr>bk_requests := bk_requests b @ [Launch r]\<rparr>)
      else ([(lq_id r, Err PClosed)], process_admission_drop b))"

definition disconnected :: "backend \<Rightarrow> (process_error, unit) result" where
  "disconnected b = Err (if bk_shutdown b then PClosed else PInternal)"

text \<open>\<open>stop\<close> stores two flags, claims the one message to the spawner and sends it.\<close>

definition stop_flags :: "bool \<Rightarrow> backend \<Rightarrow> backend" where
  "stop_flags immediate b = b\<lparr>bk_immediate := bk_immediate b \<or> immediate, bk_shutdown := True\<rparr>"

definition stop_claim :: "backend \<Rightarrow> bool \<times> backend" where
  "stop_claim b = (\<not> bk_spawn_stop b, b\<lparr>bk_spawn_stop := True\<rparr>)"

definition stop_send :: "backend \<Rightarrow> backend" where
  "stop_send b = (if requests_accept b then b\<lparr>bk_requests := bk_requests b @ [StopSpawner]\<rparr> else b)"

definition backend_stop :: "bool \<Rightarrow> backend \<Rightarrow> backend" where
  "backend_stop immediate b =
     (case stop_claim (stop_flags immediate b) of (first, b) \<Rightarrow> if first then stop_send b else b)"

section \<open>The spawner\<close>

definition reject :: "launch_request \<Rightarrow> process_error \<Rightarrow> backend \<Rightarrow> backend_answers \<times> backend" where
  "reject r e b = ([(lq_id r, Err e)], process_admission_drop b)"

definition spawner_receive :: "backend \<Rightarrow> backend_answers \<times> backend" where
  "spawner_receive b =
     (case bk_requests b of
        [] \<Rightarrow> ([], b)
      | StopSpawner # ms \<Rightarrow> ([], b\<lparr>bk_requests := ms, bk_spawner := SpawnDraining\<rparr>)
      | Launch r # ms \<Rightarrow>
          if bk_shutdown b then reject r PClosed (b\<lparr>bk_requests := ms\<rparr>)
          else ([], b\<lparr>bk_requests := ms, bk_spawner := SpawnLaunching r\<rparr>))"

definition spawner_launched :: "(process_error, guardian) result \<Rightarrow> launch_request \<Rightarrow> backend \<Rightarrow> backend_answers \<times> backend" where
  "spawner_launched answer r b =
     (let b = b\<lparr>bk_spawner := SpawnWaiting\<rparr> in
      case answer of
        Err e \<Rightarrow> reject r e b
      | Ok g \<Rightarrow>
          if bk_shutdown b then reject r PClosed b
          else if \<not> bk_supervisor_ended b \<and> length (bk_ready b) < unat (bk_max b)
          then ([], b\<lparr>bk_ready := bk_ready b @ [(r, g)]\<rparr>)
          else reject r PClosed b)"

definition spawner_drain :: "backend \<Rightarrow> backend_answers \<times> backend" where
  "spawner_drain b =
     (case bk_requests b of
        [] \<Rightarrow> ([], b\<lparr>bk_spawner := SpawnClosing\<rparr>)
      | StopSpawner # ms \<Rightarrow> ([], b\<lparr>bk_requests := ms\<rparr>)
      | Launch r # ms \<Rightarrow> reject r PClosed (b\<lparr>bk_requests := ms\<rparr>))"

text \<open>The receiving end is dropped with what came in after the last look.\<close>

fun queued_ids :: "spawner_message list \<Rightarrow> nat list" where
  "queued_ids [] = []"
| "queued_ids (Launch r # ms) = lq_id r # queued_ids ms"
| "queued_ids (StopSpawner # ms) = queued_ids ms"

definition drop_unanswered :: "nat list \<Rightarrow> backend \<Rightarrow> backend_answers \<times> backend" where
  "drop_unanswered ids b = (map (\<lambda>i. (i, disconnected b)) ids, (process_admission_drop ^^ length ids) b)"

definition spawner_close :: "backend \<Rightarrow> backend_answers \<times> backend" where
  "spawner_close b = drop_unanswered (queued_ids (bk_requests b)) (b\<lparr>bk_requests := [], bk_spawner := SpawnEnded\<rparr>)"

section \<open>The supervisor\<close>

record host_answers =
  ha_start :: "(process_error, unit) result"
  ha_service :: service_answers
  ha_resize :: "(process_error, unit) result"
  ha_polled :: bool
  ha_write :: host_write

definition registration_start :: "platform \<Rightarrow> (i32 \<Rightarrow> exit_status option) \<Rightarrow> duration \<Rightarrow> host_answers \<Rightarrow> launch_request \<Rightarrow> guardian
    \<Rightarrow> (process_error, owned_process) result" where
  "registration_start os status_of now h r g =
     bind_result (ha_start h) (\<lambda>_.
       Ok (snd (owner_reap os status_of (ha_service h) now (owned_new g (process_session_new (lq_limits r))))))"

definition supervisor_receive :: "platform \<Rightarrow> (i32 \<Rightarrow> exit_status option) \<Rightarrow> duration \<Rightarrow> host_answers \<Rightarrow> backend
    \<Rightarrow> backend_answers \<times> backend" where
  "supervisor_receive os status_of now h b =
     (case bk_ready b of
        [] \<Rightarrow> ([], b)
      | (r, g) # rest \<Rightarrow>
          let b = b\<lparr>bk_ready := rest\<rparr> in
          if bk_shutdown b then reject r PClosed b
          else case registration_start os status_of now h r g of
            Ok p \<Rightarrow> ([(lq_id r, Ok ())], b\<lparr>bk_processes := bk_processes b @ [(lq_id r, p)]\<rparr>)
          | Err e \<Rightarrow> reject r e b)"

text \<open>At most eight admissions a turn, one element of the answers for each.\<close>

fun supervisor_admit :: "platform \<Rightarrow> (i32 \<Rightarrow> exit_status option) \<Rightarrow> duration \<Rightarrow> host_answers list \<Rightarrow> backend
    \<Rightarrow> backend_answers \<times> backend" where
  "supervisor_admit os status_of now [] b = ([], b)"
| "supervisor_admit os status_of now (h # hs) b =
     (if bk_ready b = [] then ([], b)
      else case supervisor_receive os status_of now h b of (xs, b) \<Rightarrow>
        case supervisor_admit os status_of now hs b of (ys, b) \<Rightarrow> (xs @ ys, b))"

text \<open>\<open>immediate\<close> is what the flag said when it was loaded for that process.\<close>

definition supervisor_control :: "duration \<Rightarrow> bool \<Rightarrow> (nat \<Rightarrow> bool) \<Rightarrow> (nat \<Rightarrow> host_answers) \<Rightarrow> backend \<Rightarrow> backend" where
  "supervisor_control now shutting immediate h b =
     b\<lparr>bk_processes := map (\<lambda>(i, p). (i, snd (owner_control now shutting (immediate i) (ha_resize (h i)) p))) (bk_processes b)\<rparr>"

definition process_finished :: "owned_process \<Rightarrow> bool" where
  "process_finished p \<longleftrightarrow> guardian_complete (ow_guardian p) \<and> ps_reader_done (ow_session p)"

definition supervisor_retain :: "backend \<Rightarrow> backend" where
  "supervisor_retain b =
     (process_admission_drop ^^ length (filter (\<lambda>(i, p). process_finished p) (bk_processes b)))
       (b\<lparr>bk_processes := filter (\<lambda>(i, p). \<not> process_finished p) (bk_processes b)\<rparr>)"

definition supervisor_finish :: "bool \<Rightarrow> backend \<Rightarrow> backend_answers \<times> backend" where
  "supervisor_finish shutting b =
     (if shutting \<and> bk_processes b = []
      then drop_unanswered (map (lq_id \<circ> fst) (bk_ready b)) (b\<lparr>bk_ready := [], bk_supervisor_ended := True\<rparr>)
      else ([], b))"

text \<open>The poll waits for the earliest deadline in whole milliseconds, rounded up, or not at all when
  a full batch was admitted.\<close>

definition supervisor_timeout :: "bool \<Rightarrow> duration \<Rightarrow> backend \<Rightarrow> duration option" where
  "supervisor_timeout batch now b =
     earliest ((if batch then [Some 0] else []) @ map (\<lambda>(i, p). map_option (\<lambda>d. d - now) (owner_deadline now p)) (bk_processes b))"

definition poll_millis :: "duration option \<Rightarrow> int" where
  "poll_millis timeout = (case timeout of None \<Rightarrow> - 1 | Some d \<Rightarrow> min (int (d div from_millis 1) + 1) (2 ^ 31 - 1))"

definition serve_process :: "platform \<Rightarrow> (i32 \<Rightarrow> exit_status option) \<Rightarrow> duration \<Rightarrow> host_answers \<Rightarrow> owned_process \<Rightarrow> owned_process" where
  "serve_process os status_of now h p =
     (let p = (if ha_polled h \<or> needs_poll (ow_guardian p) then snd (owner_reap os status_of (ha_service h) now p) else p)
      in if ow_exit_at p = None then p\<lparr>ow_session := snd (snd (write_ready now (ha_write h) (ow_session p)))\<rparr> else p)"

definition supervisor_serve :: "platform \<Rightarrow> (i32 \<Rightarrow> exit_status option) \<Rightarrow> duration \<Rightarrow> bool \<Rightarrow> (nat \<Rightarrow> host_answers) \<Rightarrow> backend \<Rightarrow> backend" where
  "supervisor_serve os status_of now poll_failed h b =
     (let b = (if poll_failed then b\<lparr>bk_shutdown := True\<rparr> else b)
      in b\<lparr>bk_processes := map (\<lambda>(i, p). (i, serve_process os status_of now (h i) p)) (bk_processes b)\<rparr>)"

text \<open>One turn of the supervisor's loop; \<open>starts\<close> are the answers for new processes, \<open>h\<close> those for
  the processes owned.\<close>

definition supervisor_turn :: "platform \<Rightarrow> (i32 \<Rightarrow> exit_status option) \<Rightarrow> duration \<Rightarrow> host_answers list \<Rightarrow> (nat \<Rightarrow> bool) \<Rightarrow> bool
    \<Rightarrow> (nat \<Rightarrow> host_answers) \<Rightarrow> backend \<Rightarrow> backend_answers \<times> backend" where
  "supervisor_turn os status_of now starts immediate poll_failed h b =
     (case supervisor_admit os status_of now (take 8 starts) b of (xs, b) \<Rightarrow>
        let shutting = bk_shutdown b;
            b = supervisor_retain (supervisor_control now shutting immediate h b)
        in case supervisor_finish shutting b of (ys, b) \<Rightarrow>
             if bk_supervisor_ended b then (xs @ ys, b)
             else (xs @ ys, supervisor_serve os status_of now poll_failed h b))"

section \<open>Callers, spawner and supervisor, interleaved\<close>

record backend_sys =
  bs_backend :: backend
  bs_admitted :: nat
  bs_callers :: "launch_request list"
  bs_stopping :: bool
  bs_answers :: backend_answers

definition backend_sys_new :: "backend \<Rightarrow> backend_sys" where
  "backend_sys_new b = \<lparr>bs_backend = b, bs_admitted = 0, bs_callers = [], bs_stopping = False, bs_answers = []\<rparr>"

text \<open>What a thread did: its new state and the answers it sent.\<close>

definition did :: "backend_sys \<Rightarrow> backend_answers \<times> backend \<Rightarrow> backend_sys" where
  "did s r = s\<lparr>bs_backend := snd r, bs_answers := bs_answers s @ fst r\<rparr>"

inductive backend_step :: "platform \<Rightarrow> (i32 \<Rightarrow> exit_status option) \<Rightarrow> backend_sys \<Rightarrow> backend_sys \<Rightarrow> bool" for os status_of where
  bp_admit:
    "spawn_admit limits (bs_backend s) = (Inr (), b)
     \<Longrightarrow> backend_step os status_of s (s\<lparr>bs_backend := b, bs_callers := bs_callers s @ [\<lparr>lq_id = bs_admitted s, lq_limits = limits\<rparr>],
           bs_admitted := Suc (bs_admitted s)\<rparr>)"
| bp_send:
    "bs_callers s = rs @ r # rs'
     \<Longrightarrow> backend_step os status_of s (did (s\<lparr>bs_callers := rs @ rs'\<rparr>) (spawn_send r (bs_backend s)))"
| bp_flags: "backend_step os status_of s (s\<lparr>bs_backend := stop_flags immediate (bs_backend s)\<rparr>)"
| bp_claim:
    "bk_shutdown (bs_backend s) \<Longrightarrow> stop_claim (bs_backend s) = (first, b)
     \<Longrightarrow> backend_step os status_of s (s\<lparr>bs_backend := b, bs_stopping := bs_stopping s \<or> first\<rparr>)"
| bp_stop: "bs_stopping s \<Longrightarrow> backend_step os status_of s (s\<lparr>bs_backend := stop_send (bs_backend s), bs_stopping := False\<rparr>)"
| bp_receive:
    "bk_spawner (bs_backend s) = SpawnWaiting \<Longrightarrow> backend_step os status_of s (did s (spawner_receive (bs_backend s)))"
| bp_launched:
    "bk_spawner (bs_backend s) = SpawnLaunching r \<Longrightarrow> backend_step os status_of s (did s (spawner_launched answer r (bs_backend s)))"
| bp_drain:
    "bk_spawner (bs_backend s) = SpawnDraining \<Longrightarrow> backend_step os status_of s (did s (spawner_drain (bs_backend s)))"
| bp_close:
    "bk_spawner (bs_backend s) = SpawnClosing \<Longrightarrow> backend_step os status_of s (did s (spawner_close (bs_backend s)))"
| bp_register:
    "\<not> bk_supervisor_ended (bs_backend s) \<Longrightarrow> backend_step os status_of s (did s (supervisor_receive os status_of now h (bs_backend s)))"
| bp_control:
    "\<not> bk_supervisor_ended (bs_backend s)
     \<Longrightarrow> backend_step os status_of s (s\<lparr>bs_backend := supervisor_control now shutting immediate answers (bs_backend s)\<rparr>)"
| bp_retain:
    "\<not> bk_supervisor_ended (bs_backend s) \<Longrightarrow> backend_step os status_of s (s\<lparr>bs_backend := supervisor_retain (bs_backend s)\<rparr>)"
| bp_finish:
    "\<not> bk_supervisor_ended (bs_backend s) \<Longrightarrow> (shutting \<longrightarrow> bk_shutdown (bs_backend s))
     \<Longrightarrow> backend_step os status_of s (did s (supervisor_finish shutting (bs_backend s)))"
| bp_serve:
    "\<not> bk_supervisor_ended (bs_backend s)
     \<Longrightarrow> backend_step os status_of s (s\<lparr>bs_backend := supervisor_serve os status_of now poll_failed answers (bs_backend s)\<rparr>)"
| bp_session:
    "bk_processes (bs_backend s) = ps @ (i, p) # qs
     \<Longrightarrow> backend_step os status_of s (s\<lparr>bs_backend := (bs_backend s)\<lparr>bk_processes := ps @ (i, p\<lparr>ow_session := t\<rparr>) # qs\<rparr>\<rparr>)"

text \<open>Callers and the reader thread change the session shared with a process at any time (\<open>bp_session\<close>).\<close>

abbreviation backend_steps :: "platform \<Rightarrow> (i32 \<Rightarrow> exit_status option) \<Rightarrow> backend_sys \<Rightarrow> backend_sys \<Rightarrow> bool" where
  "backend_steps os status_of \<equiv> (backend_step os status_of)\<^sup>*\<^sup>*"

section \<open>The invariant\<close>

text \<open>
  The admissions held are those of requests on their way and of processes owned; requests answered
  and requests on their way are those admitted; a process owned was answered for; and the one
  message to the spawner is with its sender, in the channel, or received.
\<close>

fun launching_ids :: "spawner_phase \<Rightarrow> nat list" where
  "launching_ids (SpawnLaunching r) = [lq_id r]"
| "launching_ids _ = []"

fun spawner_stopped :: "spawner_phase \<Rightarrow> bool" where
  "spawner_stopped SpawnWaiting = False"
| "spawner_stopped (SpawnLaunching _) = False"
| "spawner_stopped _ = True"

fun stop_messages :: "spawner_message list \<Rightarrow> nat" where
  "stop_messages [] = 0"
| "stop_messages (Launch _ # ms) = stop_messages ms"
| "stop_messages (StopSpawner # ms) = Suc (stop_messages ms)"

definition requests_in_flight :: "backend_sys \<Rightarrow> nat list" where
  "requests_in_flight s = map lq_id (bs_callers s) @ queued_ids (bk_requests (bs_backend s)) @ launching_ids (bk_spawner (bs_backend s))
     @ map (lq_id \<circ> fst) (bk_ready (bs_backend s))"

definition held_inv :: "usize \<Rightarrow> backend_sys \<Rightarrow> bool" where
  "held_inv maximum s \<longleftrightarrow> bk_max (bs_backend s) = maximum \<and> bk_active (bs_backend s) \<le> maximum
     \<and> unat (bk_active (bs_backend s)) = length (requests_in_flight s) + length (bk_processes (bs_backend s))"

definition answered_inv :: "backend_sys \<Rightarrow> bool" where
  "answered_inv s \<longleftrightarrow> mset (map fst (bs_answers s)) + mset (requests_in_flight s) = mset [0..<bs_admitted s]"

definition running_inv :: "backend_sys \<Rightarrow> bool" where
  "running_inv s \<longleftrightarrow> distinct (map fst (bk_processes (bs_backend s)))
     \<and> (\<forall>i\<in>set (map fst (bk_processes (bs_backend s))). (i, Ok ()) \<in> set (bs_answers s))"

definition stop_inv :: "backend_sys \<Rightarrow> bool" where
  "stop_inv s \<longleftrightarrow> stop_messages (bk_requests (bs_backend s)) + of_bool (bs_stopping s) + of_bool (spawner_stopped (bk_spawner (bs_backend s)))
       = of_bool (bk_spawn_stop (bs_backend s))
     \<and> (bk_spawn_stop (bs_backend s) \<longrightarrow> bk_shutdown (bs_backend s))"

definition ended_inv :: "backend_sys \<Rightarrow> bool" where
  "ended_inv s \<longleftrightarrow> (bk_spawner (bs_backend s) = SpawnEnded \<longrightarrow> bk_requests (bs_backend s) = [])
     \<and> (bk_supervisor_ended (bs_backend s) \<longrightarrow> bk_ready (bs_backend s) = [] \<and> bk_processes (bs_backend s) = [] \<and> bk_shutdown (bs_backend s))"

lemma queued_ids_append [simp]: "queued_ids (ms @ ms') = queued_ids ms @ queued_ids ms'"
  by (induction ms rule: queued_ids.induct) simp_all

lemma stop_messages_append [simp]: "stop_messages (ms @ ms') = stop_messages ms + stop_messages ms'"
  by (induction ms rule: stop_messages.induct) simp_all

lemma requests_length: "length ms = length (queued_ids ms) + stop_messages ms"
  by (induction ms rule: queued_ids.induct) simp_all

lemma unat_dec: "unat (a :: usize) = Suc n \<Longrightarrow> unat (a - 1) = n"
proof -
  assume a: "unat a = Suc n"
  then have "1 \<le> a" by (simp add: word_le_nat_alt)
  then show ?thesis using a by (simp add: unat_sub_no_underflow)
qed

lemma drops_fields [simp]:
  "bk_shutdown ((process_admission_drop ^^ n) b) = bk_shutdown b" "bk_spawn_stop ((process_admission_drop ^^ n) b) = bk_spawn_stop b"
  "bk_max ((process_admission_drop ^^ n) b) = bk_max b" "bk_requests ((process_admission_drop ^^ n) b) = bk_requests b"
  "bk_spawner ((process_admission_drop ^^ n) b) = bk_spawner b" "bk_ready ((process_admission_drop ^^ n) b) = bk_ready b"
  "bk_processes ((process_admission_drop ^^ n) b) = bk_processes b" "bk_supervisor_ended ((process_admission_drop ^^ n) b) = bk_supervisor_ended b"
  by (induction n) (simp_all add: process_admission_drop_def)

lemma drop_fields [simp]:
  "bk_shutdown (process_admission_drop b) = bk_shutdown b" "bk_spawn_stop (process_admission_drop b) = bk_spawn_stop b"
  "bk_max (process_admission_drop b) = bk_max b" "bk_requests (process_admission_drop b) = bk_requests b"
  "bk_spawner (process_admission_drop b) = bk_spawner b" "bk_ready (process_admission_drop b) = bk_ready b"
  "bk_processes (process_admission_drop b) = bk_processes b" "bk_supervisor_ended (process_admission_drop b) = bk_supervisor_ended b"
  by (simp_all add: process_admission_drop_def)

lemma drops_active: "unat (bk_active b) = n + m \<Longrightarrow> unat (bk_active ((process_admission_drop ^^ n) b)) = m"
proof (induction n arbitrary: m)
  case (Suc n)
  have "unat (bk_active ((process_admission_drop ^^ n) b)) = Suc m" using Suc.IH [of "Suc m"] Suc.prems by simp
  from unat_dec [OF this] show ?case unfolding funpow.simps comp_apply by (subst process_admission_drop_def) simp
qed simp

lemma drop_active: "unat (bk_active b) = Suc m \<Longrightarrow> unat (bk_active (process_admission_drop b)) = m"
  using drops_active [of b 1 m] by simp

text \<open>
  Apart from an admission, a step moves requests along: what is no longer in flight was answered
  with it, and the admissions that are neither in flight nor owned any more were returned.
\<close>

definition moves :: "backend_sys \<Rightarrow> backend_answers \<Rightarrow> nat \<Rightarrow> backend_sys \<Rightarrow> bool" where
  "moves s xs gone s' \<longleftrightarrow> bs_admitted s' = bs_admitted s \<and> bs_answers s' = bs_answers s @ xs
     \<and> bk_max (bs_backend s') = bk_max (bs_backend s)
     \<and> bk_active (bs_backend s') = bk_active ((process_admission_drop ^^ gone) (bs_backend s))
     \<and> mset (requests_in_flight s) = mset (map fst xs) + mset (requests_in_flight s')
     \<and> length xs + length (bk_processes (bs_backend s)) = gone + length (bk_processes (bs_backend s'))"

lemma moves_answered:
  assumes "moves s xs gone s'" "answered_inv s"
  shows "answered_inv s'"
  using assms by (simp add: moves_def answered_inv_def ac_simps)

lemma moves_held:
  assumes "moves s xs gone s'" "held_inv maximum s"
  shows "held_inv maximum s'"
proof -
  have "length (requests_in_flight s) = length xs + length (requests_in_flight s')"
    using assms(1) unfolding moves_def by (metis length_map size_mset size_union)
  then have "unat (bk_active (bs_backend s)) = gone + (length (requests_in_flight s') + length (bk_processes (bs_backend s')))"
    using assms by (simp add: held_inv_def moves_def)
  from drops_active [OF this] have active: "unat (bk_active (bs_backend s')) = length (requests_in_flight s') + length (bk_processes (bs_backend s'))"
    using assms(1) by (simp add: moves_def)
  have "unat (bk_active (bs_backend s')) \<le> unat (bk_active (bs_backend s))"
    using active \<open>unat (bk_active (bs_backend s)) = _\<close> by simp
  then show ?thesis using assms active by (simp add: held_inv_def moves_def word_le_nat_alt)
qed

lemma moves_still: "requests_in_flight s' = requests_in_flight s \<Longrightarrow> bs_admitted s' = bs_admitted s \<Longrightarrow> bs_answers s' = bs_answers s
    \<Longrightarrow> bk_max (bs_backend s') = bk_max (bs_backend s) \<Longrightarrow> bk_active (bs_backend s') = bk_active (bs_backend s)
    \<Longrightarrow> length (bk_processes (bs_backend s')) = length (bk_processes (bs_backend s)) \<Longrightarrow> moves s [] 0 s'"
  by (simp add: moves_def)

lemmas backend_ops = spawn_send_def spawner_receive_def spawner_launched_def spawner_drain_def supervisor_receive_def reject_def
  requests_in_flight_def did_def Let_def

lemma admission_drop_same [simp]: "bk_active (process_admission_drop (b\<lparr>bk_requests := ms\<rparr>)) = bk_active (process_admission_drop b)"
  "bk_active (process_admission_drop (b\<lparr>bk_ready := rs\<rparr>)) = bk_active (process_admission_drop b)"
  "bk_active (process_admission_drop (b\<lparr>bk_spawner := ph\<rparr>)) = bk_active (process_admission_drop b)"
  by (simp_all add: process_admission_drop_def)

lemma drops_same [simp]:
  "bk_active ((process_admission_drop ^^ n) (b\<lparr>bk_requests := ms, bk_spawner := ph\<rparr>)) = bk_active ((process_admission_drop ^^ n) b)"
  "bk_active ((process_admission_drop ^^ n) (b\<lparr>bk_ready := rs, bk_supervisor_ended := e\<rparr>)) = bk_active ((process_admission_drop ^^ n) b)"
  "bk_active ((process_admission_drop ^^ n) (b\<lparr>bk_processes := ps\<rparr>)) = bk_active ((process_admission_drop ^^ n) b)"
  by (induction n) (simp_all add: process_admission_drop_def [of "(process_admission_drop ^^ m) c" for m c])

lemma send_moves:
  assumes "bs_callers s = rs @ r # rs'"
  shows "\<exists>xs gone. moves s xs gone (did (s\<lparr>bs_callers := rs @ rs'\<rparr>) (spawn_send r (bs_backend s)))"
proof (cases "requests_accept (bs_backend s)")
  case True
  then show ?thesis using assms by (intro exI [of _ "[]"] exI [of _ 0]) (simp add: moves_def backend_ops)
next
  case False
  then show ?thesis using assms by (intro exI [of _ "[(lq_id r, Err PClosed)]"] exI [of _ 1]) (simp add: moves_def backend_ops)
qed

lemma receive_moves:
  assumes "bk_spawner (bs_backend s) = SpawnWaiting"
  shows "\<exists>xs gone. moves s xs gone (did s (spawner_receive (bs_backend s)))"
proof (cases "bk_requests (bs_backend s)")
  case Nil
  then show ?thesis by (intro exI [of _ "[]"] exI [of _ 0]) (simp add: moves_def backend_ops)
next
  case (Cons m ms)
  show ?thesis
  proof (cases m)
    case (Launch r)
    then show ?thesis using Cons assms
      by (cases "bk_shutdown (bs_backend s)")
        (intro exI [of _ "[(lq_id r, Err PClosed)]"] exI [of _ 1], simp add: moves_def backend_ops,
         intro exI [of _ "[]"] exI [of _ 0], simp add: moves_def backend_ops)
  next
    case StopSpawner
    then show ?thesis using Cons assms by (intro exI [of _ "[]"] exI [of _ 0]) (simp add: moves_def backend_ops)
  qed
qed

lemma launched_moves:
  assumes "bk_spawner (bs_backend s) = SpawnLaunching r"
  shows "\<exists>xs gone. moves s xs gone (did s (spawner_launched answer r (bs_backend s)))"
proof -
  have rejected: "\<exists>xs gone. moves s xs gone (did s (reject r e ((bs_backend s)\<lparr>bk_spawner := SpawnWaiting\<rparr>)))" for e
    using assms by (intro exI [of _ "[(lq_id r, Err e)]"] exI [of _ 1]) (simp add: moves_def backend_ops)
  have passed: "\<exists>xs gone. moves s xs gone (did s ([], (bs_backend s)\<lparr>bk_spawner := SpawnWaiting, bk_ready := bk_ready (bs_backend s) @ [(r, g)]\<rparr>))" for g
    using assms by (intro exI [of _ "[]"] exI [of _ 0]) (simp add: moves_def backend_ops)
  show ?thesis using rejected passed by (simp add: spawner_launched_def Let_def split: sum.split)
qed

lemma drain_moves:
  assumes "bk_spawner (bs_backend s) = SpawnDraining"
  shows "\<exists>xs gone. moves s xs gone (did s (spawner_drain (bs_backend s)))"
proof (cases "bk_requests (bs_backend s)")
  case Nil
  then show ?thesis using assms by (intro exI [of _ "[]"] exI [of _ 0]) (simp add: moves_def backend_ops)
next
  case (Cons m ms)
  show ?thesis
  proof (cases m)
    case (Launch r)
    then show ?thesis using Cons by (intro exI [of _ "[(lq_id r, Err PClosed)]"] exI [of _ 1]) (simp add: moves_def backend_ops)
  next
    case StopSpawner
    then show ?thesis using Cons by (intro exI [of _ "[]"] exI [of _ 0]) (simp add: moves_def backend_ops)
  qed
qed

lemma close_moves:
  assumes "bk_spawner (bs_backend s) = SpawnClosing"
  shows "\<exists>xs gone. moves s xs gone (did s (spawner_close (bs_backend s)))"
  using assms
  by (intro exI [of _ "fst (spawner_close (bs_backend s))"] exI [of _ "length (queued_ids (bk_requests (bs_backend s)))"])
    (simp add: moves_def spawner_close_def drop_unanswered_def requests_in_flight_def did_def comp_def)

lemma register_moves: "\<exists>xs gone. moves s xs gone (did s (supervisor_receive os status_of now h (bs_backend s)))"
proof (cases "bk_ready (bs_backend s)")
  case Nil
  then show ?thesis by (intro exI [of _ "[]"] exI [of _ 0]) (simp add: moves_def backend_ops)
next
  case (Cons x rest)
  obtain r g where x: "x = (r, g)" by force
  have rejected: "\<exists>xs gone. moves s xs gone (did s (reject r e ((bs_backend s)\<lparr>bk_ready := rest\<rparr>)))" for e
    using Cons x by (intro exI [of _ "[(lq_id r, Err e)]"] exI [of _ 1]) (simp add: moves_def backend_ops)
  have started: "\<exists>xs gone. moves s xs gone (did s ([(lq_id r, Ok ())],
      (bs_backend s)\<lparr>bk_ready := rest, bk_processes := bk_processes (bs_backend s) @ [(lq_id r, p)]\<rparr>))" for p
    using Cons x by (intro exI [of _ "[(lq_id r, Ok ())]"] exI [of _ 0]) (simp add: moves_def backend_ops)
  show ?thesis using Cons x rejected started by (simp add: supervisor_receive_def Let_def split: sum.split)
qed

lemma retain_moves: "\<exists>xs gone. moves s xs gone (s\<lparr>bs_backend := supervisor_retain (bs_backend s)\<rparr>)"
proof -
  let ?f = "\<lambda>(i, p). process_finished p" and ?ps = "bk_processes (bs_backend s)"
  have "length ?ps = length (filter ?f ?ps) + length (filter (\<lambda>x. \<not> ?f x) ?ps)" using sum_length_filter_compl [of ?f ?ps] by simp
  then show ?thesis
    by (intro exI [of _ "[]"] exI [of _ "length (filter ?f ?ps)"])
      (simp add: moves_def supervisor_retain_def requests_in_flight_def case_prod_unfold)
qed

lemma finish_moves: "\<exists>xs gone. moves s xs gone (did s (supervisor_finish shutting (bs_backend s)))"
proof (cases "shutting \<and> bk_processes (bs_backend s) = []")
  case True
  then show ?thesis
    by (intro exI [of _ "fst (supervisor_finish shutting (bs_backend s))"] exI [of _ "length (bk_ready (bs_backend s))"])
      (simp add: moves_def supervisor_finish_def drop_unanswered_def requests_in_flight_def did_def comp_def)
next
  case False
  then have "did s (supervisor_finish shutting (bs_backend s)) = s" by (auto simp: supervisor_finish_def did_def)
  then show ?thesis using moves_still [of s s] by auto
qed

lemma step_moves:
  assumes "backend_step os status_of s s'"
  shows "(\<exists>limits b. spawn_admit limits (bs_backend s) = (Inr (), b) \<and> s' = s\<lparr>bs_backend := b,
      bs_callers := bs_callers s @ [\<lparr>lq_id = bs_admitted s, lq_limits = limits\<rparr>], bs_admitted := Suc (bs_admitted s)\<rparr>)
    \<or> (\<exists>xs gone. moves s xs gone s')"
  using assms
proof (induction rule: backend_step.induct)
  case (bp_send s rs r rs')
  from send_moves [OF this] show ?case by (rule disjI2)
next
  case (bp_receive s)
  from receive_moves [OF this] show ?case by (rule disjI2)
next
  case (bp_launched s r answer)
  from launched_moves [OF this] show ?case by (rule disjI2)
next
  case (bp_drain s)
  from drain_moves [OF this] show ?case by (rule disjI2)
next
  case (bp_close s)
  from close_moves [OF this] show ?case by (rule disjI2)
next
  case (bp_register s now h)
  show ?case by (rule disjI2) (rule register_moves)
next
  case (bp_retain s)
  show ?case by (rule disjI2) (rule retain_moves)
next
  case (bp_finish s shutting)
  show ?case by (rule disjI2) (rule finish_moves)
qed (blast, (rule disjI2, rule exI, rule exI, rule moves_still;
  auto simp: requests_in_flight_def stop_flags_def stop_claim_def stop_send_def supervisor_control_def supervisor_serve_def Let_def)+)

lemma admit_held:
  assumes "spawn_admit limits (bs_backend s) = (Inr (), b)" "held_inv maximum s"
  shows "held_inv maximum (s\<lparr>bs_backend := b, bs_callers := bs_callers s @ [r], bs_admitted := n\<rparr>)"
proof -
  have b: "bk_active (bs_backend s) < bk_max (bs_backend s)" "b = (bs_backend s)\<lparr>bk_active := bk_active (bs_backend s) + 1\<rparr>"
    using assms(1) by (auto simp: spawn_admit_def split: sum.splits if_splits)
  have "unat (bk_active (bs_backend s)) + unat (1 :: usize) < 2 ^ 64"
    using b(1) unat_u64_less [of "bk_max (bs_backend s)"] by (simp add: word_less_nat_alt)
  then have "unat (bk_active (bs_backend s) + 1) = Suc (unat (bk_active (bs_backend s)))" by (simp add: unat_add_no_overflow)
  then show ?thesis using assms(2) b by (simp add: held_inv_def requests_in_flight_def word_less_nat_alt word_le_nat_alt)
qed

lemma admit_answered:
  assumes "spawn_admit limits (bs_backend s) = (Inr (), b)" "answered_inv s"
  shows "answered_inv (s\<lparr>bs_backend := b, bs_callers := bs_callers s @ [\<lparr>lq_id = bs_admitted s, lq_limits = limits\<rparr>],
    bs_admitted := Suc (bs_admitted s)\<rparr>)"
proof -
  have "b = (bs_backend s)\<lparr>bk_active := bk_active (bs_backend s) + 1\<rparr>"
    using assms(1) by (auto simp: spawn_admit_def split: sum.splits if_splits)
  then show ?thesis using assms(2) by (simp add: answered_inv_def requests_in_flight_def)
qed

lemma step_held:
  assumes "backend_step os status_of s s'" "held_inv maximum s"
  shows "held_inv maximum s'"
  using step_moves [OF assms(1)] admit_held [OF _ assms(2)] moves_held [OF _ assms(2)] by auto

lemma step_answered:
  assumes "backend_step os status_of s s'" "answered_inv s"
  shows "answered_inv s'"
  using step_moves [OF assms(1)] admit_answered [OF _ assms(2)] moves_answered [OF _ assms(2)] by auto

text \<open>The processes owned change only by registration and removal.\<close>

definition keeps_processes :: "backend_sys \<Rightarrow> backend_sys \<Rightarrow> bool" where
  "keeps_processes s s' \<longleftrightarrow> (\<exists>P. map fst (bk_processes (bs_backend s')) = map fst (filter P (bk_processes (bs_backend s))))
     \<and> set (bs_answers s) \<subseteq> set (bs_answers s')"

lemma keeps_same: "map fst (bk_processes (bs_backend s')) = map fst (bk_processes (bs_backend s))
    \<Longrightarrow> set (bs_answers s) \<subseteq> set (bs_answers s') \<Longrightarrow> keeps_processes s s'"
  unfolding keeps_processes_def by (intro conjI exI [of _ "\<lambda>_. True"]) simp_all

lemma keeps_did: "bk_processes (snd r) = bk_processes (bs_backend s) \<Longrightarrow> keeps_processes s (did s r)"
  by (rule keeps_same) (auto simp: did_def)

lemma unchanged_processes:
  "bk_processes (snd (spawn_send r b)) = bk_processes b" "bk_processes (snd (reject r e b)) = bk_processes b"
  "bk_processes (snd (spawner_receive b)) = bk_processes b" "bk_processes (snd (spawner_launched answer r b)) = bk_processes b"
  "bk_processes (snd (spawner_drain b)) = bk_processes b" "bk_processes (snd (spawner_close b)) = bk_processes b"
  "bk_processes (snd (supervisor_finish shutting b)) = bk_processes b"
  by (simp_all add: spawn_send_def spawner_receive_def spawner_launched_def spawner_drain_def spawner_close_def supervisor_finish_def
      drop_unanswered_def reject_def Let_def split: list.split spawner_message.split sum.split)

lemma register_processes:
  "keeps_processes s (did s (supervisor_receive os status_of now h (bs_backend s)))
   \<or> (\<exists>r g rest. bk_ready (bs_backend s) = (r, g) # rest
       \<and> bs_answers (did s (supervisor_receive os status_of now h (bs_backend s))) = bs_answers s @ [(lq_id r, Ok ())]
       \<and> map fst (bk_processes (bs_backend (did s (supervisor_receive os status_of now h (bs_backend s)))))
         = map fst (bk_processes (bs_backend s)) @ [lq_id r])"
proof (cases "bk_ready (bs_backend s)")
  case Nil
  have "keeps_processes s (did s (supervisor_receive os status_of now h (bs_backend s)))"
    by (rule keeps_did) (simp add: supervisor_receive_def Nil)
  then show ?thesis by blast
next
  case (Cons x rest)
  obtain r g where x: "x = (r, g)" by force
  let ?b = "(bs_backend s)\<lparr>bk_ready := rest\<rparr>"
  have rejected: "keeps_processes s (did s (reject r e ?b))" for e by (rule keeps_did) (simp add: unchanged_processes)
  show ?thesis
  proof (cases "bk_shutdown (bs_backend s)")
    case True
    then have "supervisor_receive os status_of now h (bs_backend s) = reject r PClosed ?b" by (simp add: supervisor_receive_def Cons x)
    then show ?thesis using rejected by simp
  next
    case False
    show ?thesis
    proof (cases "registration_start os status_of now h r g")
      case (Inl e)
      then have "supervisor_receive os status_of now h (bs_backend s) = reject r e ?b" using False by (simp add: supervisor_receive_def Cons x)
      then show ?thesis using rejected by simp
    next
      case (Inr p)
      then show ?thesis using False Cons x by (simp add: supervisor_receive_def did_def)
    qed
  qed
qed

lemma step_processes:
  assumes "backend_step os status_of s s'"
  shows "keeps_processes s s'
    \<or> (\<exists>r g rest. bk_ready (bs_backend s) = (r, g) # rest \<and> bs_answers s' = bs_answers s @ [(lq_id r, Ok ())]
        \<and> map fst (bk_processes (bs_backend s')) = map fst (bk_processes (bs_backend s)) @ [lq_id r])"
  using assms
proof (induction rule: backend_step.induct)
  case (bp_admit limits s b)
  then show ?case by (intro disjI1 keeps_same) (auto simp: spawn_admit_def split: sum.splits if_splits)
next
  case (bp_send s rs r rs')
  show ?case by (intro disjI1 keeps_same) (auto simp: unchanged_processes did_def)
next
  case (bp_register s now h)
  show ?case by (rule register_processes)
next
  case (bp_retain s)
  have "keeps_processes s (s\<lparr>bs_backend := supervisor_retain (bs_backend s)\<rparr>)"
    unfolding keeps_processes_def supervisor_retain_def by auto
  then show ?case by blast
qed (rule disjI1, rule keeps_did keeps_same; auto simp: unchanged_processes stop_flags_def stop_claim_def stop_send_def
    supervisor_control_def supervisor_serve_def Let_def case_prod_unfold)+

lemma step_running:
  assumes "backend_step os status_of s s'" "running_inv s" "answered_inv s"
  shows "running_inv s'"
  using step_processes [OF assms(1)]
proof (elim disjE exE conjE)
  assume "keeps_processes s s'"
  then obtain P where P: "map fst (bk_processes (bs_backend s')) = map fst (filter P (bk_processes (bs_backend s)))"
    "set (bs_answers s) \<subseteq> set (bs_answers s')" unfolding keeps_processes_def by blast
  have "distinct (map fst (filter P (bk_processes (bs_backend s))))" using assms(2) by (simp add: running_inv_def distinct_map_filter)
  moreover have "set (map fst (filter P (bk_processes (bs_backend s)))) \<subseteq> set (map fst (bk_processes (bs_backend s)))" by auto
  ultimately show ?thesis using assms(2) P unfolding running_inv_def by (metis subsetD)
next
  fix r g rest
  assume r: "bk_ready (bs_backend s) = (r, g) # rest" "bs_answers s' = bs_answers s @ [(lq_id r, Ok ())]"
    "map fst (bk_processes (bs_backend s')) = map fst (bk_processes (bs_backend s)) @ [lq_id r]"
  have "distinct (map fst (bs_answers s) @ requests_in_flight s)"
    using assms(3) unfolding answered_inv_def by (metis distinct_upt mset_append mset_eq_imp_distinct_iff)
  moreover have "lq_id r \<in> set (requests_in_flight s)" using r(1) by (simp add: requests_in_flight_def)
  ultimately have "lq_id r \<notin> fst ` set (bs_answers s)" by auto
  then have "lq_id r \<notin> set (map fst (bk_processes (bs_backend s)))" using assms(2) unfolding running_inv_def by force
  then show ?thesis using assms(2) r(2,3) by (auto simp: running_inv_def)
qed

lemma unchanged_stop:
  "bk_spawn_stop (snd (reject r e b)) = bk_spawn_stop b" "bk_shutdown (snd (reject r e b)) = bk_shutdown b"
  "bk_requests (snd (reject r e b)) = bk_requests b" "bk_spawner (snd (reject r e b)) = bk_spawner b"
  by (simp_all add: reject_def)

lemma receive_stop: "stop_inv s \<Longrightarrow> bk_spawner (bs_backend s) = SpawnWaiting \<Longrightarrow> stop_inv (did s (spawner_receive (bs_backend s)))"
  by (cases "bk_spawn_stop (bs_backend s)"; cases "bs_stopping s")
    (auto simp: stop_inv_def did_def spawner_receive_def unchanged_stop split: list.split spawner_message.split)

lemma drain_stop: "stop_inv s \<Longrightarrow> bk_spawner (bs_backend s) = SpawnDraining \<Longrightarrow> stop_inv (did s (spawner_drain (bs_backend s)))"
  by (cases "bk_spawn_stop (bs_backend s)"; cases "bs_stopping s")
    (auto simp: stop_inv_def did_def spawner_drain_def unchanged_stop split: list.split spawner_message.split)

lemma launched_stop: "stop_inv s \<Longrightarrow> bk_spawner (bs_backend s) = SpawnLaunching r \<Longrightarrow> stop_inv (did s (spawner_launched answer r (bs_backend s)))"
  by (cases "bk_spawn_stop (bs_backend s)"; cases "bs_stopping s")
    (auto simp: stop_inv_def did_def spawner_launched_def unchanged_stop Let_def split: sum.split)

lemma register_stop: "stop_inv s \<Longrightarrow> stop_inv (did s (supervisor_receive os status_of now h (bs_backend s)))"
  by (cases "bk_spawn_stop (bs_backend s)"; cases "bs_stopping s")
    (auto simp: stop_inv_def did_def supervisor_receive_def unchanged_stop Let_def split: list.split sum.split)

lemma close_stop: "stop_inv s \<Longrightarrow> bk_spawner (bs_backend s) = SpawnClosing \<Longrightarrow> stop_inv (did s (spawner_close (bs_backend s)))"
  by (cases "bk_spawn_stop (bs_backend s)") (auto simp: stop_inv_def did_def spawner_close_def drop_unanswered_def)

text \<open>Neither channel is ever full for a sender that holds its place in it.\<close>

lemma requests_room:
  assumes "held_inv maximum s" "stop_inv s" "bs_callers s \<noteq> [] \<or> bs_stopping s" "bk_spawner (bs_backend s) \<noteq> SpawnEnded"
  shows "requests_accept (bs_backend s)"
proof -
  have "length (queued_ids (bk_requests (bs_backend s))) + length (bs_callers s) \<le> unat maximum"
    using assms(1) by (simp add: held_inv_def requests_in_flight_def word_le_nat_alt)
  moreover have "stop_messages (bk_requests (bs_backend s)) + of_bool (bs_stopping s) \<le> 1"
    using assms(2) by (cases "bk_spawn_stop (bs_backend s)") (auto simp: stop_inv_def)
  moreover have "1 \<le> length (bs_callers s) \<or> bs_stopping s" using assms(3) by (cases "bs_callers s") auto
  ultimately have "length (bk_requests (bs_backend s)) \<le> unat maximum"
    using requests_length [of "bk_requests (bs_backend s)"] by (cases "bs_stopping s") auto
  then show ?thesis using assms(1,4) by (simp add: requests_accept_def held_inv_def)
qed

lemma ready_room:
  assumes "held_inv maximum s" "bk_spawner (bs_backend s) = SpawnLaunching r"
  shows "length (bk_ready (bs_backend s)) < unat (bk_max (bs_backend s))"
  using assms by (simp add: held_inv_def requests_in_flight_def word_le_nat_alt)

lemma stop_sent:
  assumes "held_inv maximum s" "stop_inv s" "bs_stopping s"
  shows "stop_send (bs_backend s) = (bs_backend s)\<lparr>bk_requests := bk_requests (bs_backend s) @ [StopSpawner]\<rparr>"
proof -
  have "bk_spawner (bs_backend s) \<noteq> SpawnEnded"
    using assms(2,3) by (cases "bk_spawn_stop (bs_backend s)") (auto simp: stop_inv_def)
  then show ?thesis using requests_room [OF assms(1,2)] assms(3) by (simp add: stop_send_def)
qed

lemma step_stop:
  assumes "backend_step os status_of s s'" "stop_inv s" "held_inv maximum s"
  shows "stop_inv s'"
  using assms
proof (induction rule: backend_step.induct)
  case (bp_admit limits s b)
  then show ?case by (auto simp: stop_inv_def spawn_admit_def split: sum.splits if_splits)
next
  case (bp_send s rs r rs')
  then show ?case by (simp add: stop_inv_def did_def spawn_send_def)
next
  case (bp_claim s first b)
  then show ?case by (cases "bk_spawn_stop (bs_backend s)") (auto simp: stop_inv_def stop_claim_def)
next
  case (bp_stop s)
  then show ?case using stop_sent [OF bp_stop.prems(2,1) bp_stop.hyps] by (simp add: stop_inv_def)
next
  case (bp_receive s)
  then show ?case by (simp add: receive_stop)
next
  case (bp_launched s r answer)
  then show ?case by (simp add: launched_stop)
next
  case (bp_drain s)
  then show ?case by (simp add: drain_stop)
next
  case (bp_close s)
  then show ?case by (simp add: close_stop)
next
  case (bp_register s now h)
  then show ?case by (simp add: register_stop)
qed (simp_all add: stop_inv_def stop_flags_def supervisor_control_def supervisor_retain_def supervisor_finish_def drop_unanswered_def
    supervisor_serve_def did_def Let_def)

lemma step_ended:
  assumes "backend_step os status_of s s'" "ended_inv s" "stop_inv s"
  shows "ended_inv s'"
  using assms
proof (induction rule: backend_step.induct)
  case (bp_admit limits s b)
  then show ?case by (auto simp: ended_inv_def spawn_admit_def split: sum.splits if_splits)
next
  case (bp_send s rs r rs')
  then show ?case by (auto simp: ended_inv_def did_def spawn_send_def requests_accept_def)
next
  case (bp_stop s)
  then show ?case by (auto simp: ended_inv_def stop_send_def requests_accept_def)
next
  case (bp_receive s)
  then show ?case by (auto simp: ended_inv_def did_def spawner_receive_def reject_def split: list.split spawner_message.split)
next
  case (bp_launched s r answer)
  then show ?case by (auto simp: ended_inv_def did_def spawner_launched_def reject_def Let_def split: sum.split)
next
  case (bp_drain s)
  then show ?case by (auto simp: ended_inv_def did_def spawner_drain_def reject_def split: list.split spawner_message.split)
next
  case (bp_register s now h)
  then show ?case by (auto simp: ended_inv_def did_def supervisor_receive_def reject_def Let_def split: list.split sum.split)
next
  case (bp_session s ps i p qs t)
  then show ?case by (auto simp: ended_inv_def)
next
  case (bp_claim s first b)
  then show ?case by (auto simp: ended_inv_def stop_claim_def)
qed (simp_all add: ended_inv_def stop_flags_def stop_claim_def supervisor_control_def supervisor_retain_def supervisor_finish_def
    drop_unanswered_def supervisor_serve_def spawner_close_def did_def Let_def)

definition backend_inv :: "usize \<Rightarrow> backend_sys \<Rightarrow> bool" where
  "backend_inv maximum s \<longleftrightarrow> held_inv maximum s \<and> answered_inv s \<and> running_inv s \<and> stop_inv s \<and> ended_inv s"

lemma backend_steps_inv: "backend_steps os status_of s s' \<Longrightarrow> backend_inv maximum s \<Longrightarrow> backend_inv maximum s'"
proof (induction rule: rtranclp_induct)
  case (step s' s'')
  then show ?case unfolding backend_inv_def
    using step_held [OF step.hyps(2)] step_answered [OF step.hyps(2)] step_running [OF step.hyps(2)] step_stop [OF step.hyps(2)]
      step_ended [OF step.hyps(2)] by blast
qed

lemma backend_inv_new:
  assumes "backend_build host resources maximum = Ok b"
  shows "backend_inv maximum (backend_sys_new b)"
proof -
  have "b = \<lparr>bk_shutdown = False, bk_immediate = False, bk_spawn_stop = False, bk_active = 0, bk_max = maximum,
             bk_requests = [], bk_spawner = SpawnWaiting, bk_ready = [], bk_processes = [], bk_supervisor_ended = False\<rparr>"
    using assms by (auto simp: backend_build_def bind_result_Ok_iff split: if_splits)
  then show ?thesis
    by (simp add: backend_inv_def held_inv_def answered_inv_def running_inv_def stop_inv_def ended_inv_def backend_sys_new_def requests_in_flight_def)
qed

text \<open>A turn of the supervisor is a run of its steps.\<close>

lemma did_did: "did (did s r) r' = did s (fst r @ fst r', snd r')"
  by (simp add: did_def)

lemma did_backend [simp]: "bs_backend (did s r) = snd r"
  by (simp add: did_def)

lemma receive_keeps_supervisor: "bk_supervisor_ended (snd (supervisor_receive os status_of now h b)) = bk_supervisor_ended b"
  by (simp add: supervisor_receive_def reject_def Let_def split: list.split sum.split)

lemma admit_steps:
  assumes "\<not> bk_supervisor_ended (bs_backend s)"
  shows "backend_steps os status_of s (did s (supervisor_admit os status_of now hs (bs_backend s)))
    \<and> \<not> bk_supervisor_ended (snd (supervisor_admit os status_of now hs (bs_backend s)))"
  using assms
proof (induction hs arbitrary: s)
  case Nil
  then show ?case by (simp add: did_def)
next
  case (Cons h hs)
  show ?case
  proof (cases "bk_ready (bs_backend s) = []")
    case True
    then show ?thesis using Cons.prems by (simp add: did_def)
  next
    case False
    let ?r = "supervisor_receive os status_of now h (bs_backend s)"
    have step: "backend_step os status_of s (did s ?r)" by (rule bp_register [OF Cons.prems])
    have rest: "backend_steps os status_of (did s ?r) (did (did s ?r) (supervisor_admit os status_of now hs (snd ?r)))
        \<and> \<not> bk_supervisor_ended (snd (supervisor_admit os status_of now hs (snd ?r)))"
      using Cons.IH [of "did s ?r"] Cons.prems by (simp add: receive_keeps_supervisor)
    have "supervisor_admit os status_of now (h # hs) (bs_backend s)
        = (fst ?r @ fst (supervisor_admit os status_of now hs (snd ?r)), snd (supervisor_admit os status_of now hs (snd ?r)))"
      using False by (simp add: case_prod_unfold)
    moreover have "backend_steps os status_of s (did (did s ?r) (supervisor_admit os status_of now hs (snd ?r)))"
      using step rest by (meson converse_rtranclp_into_rtranclp)
    ultimately show ?thesis using rest by (simp add: did_did)
  qed
qed

lemma supervisor_turn_steps:
  assumes "\<not> bk_supervisor_ended (bs_backend s)"
  shows "backend_steps os status_of s (did s (supervisor_turn os status_of now starts immediate poll_failed h (bs_backend s)))"
proof -
  define a where "a = did s (supervisor_admit os status_of now (take 8 starts) (bs_backend s))"
  have a: "backend_steps os status_of s a" "\<not> bk_supervisor_ended (bs_backend a)"
    using admit_steps [OF assms, of os status_of now "take 8 starts"] by (simp_all add: a_def)
  define shutting where "shutting = bk_shutdown (bs_backend a)"
  define c where "c = a\<lparr>bs_backend := supervisor_control now shutting immediate h (bs_backend a)\<rparr>"
  have c: "backend_step os status_of a c" unfolding c_def by (rule bp_control [OF a(2)])
  have c_live: "\<not> bk_supervisor_ended (bs_backend c)" "bk_shutdown (bs_backend c) = shutting"
    using a(2) by (simp_all add: c_def supervisor_control_def shutting_def)
  define d where "d = c\<lparr>bs_backend := supervisor_retain (bs_backend c)\<rparr>"
  have d: "backend_step os status_of c d" unfolding d_def by (rule bp_retain [OF c_live(1)])
  have d_live: "\<not> bk_supervisor_ended (bs_backend d)" "shutting \<longrightarrow> bk_shutdown (bs_backend d)"
    using c_live by (simp_all add: d_def supervisor_retain_def)
  define e where "e = did d (supervisor_finish shutting (bs_backend d))"
  have e: "backend_step os status_of d e" unfolding e_def by (rule bp_finish [OF d_live])
  have to_e: "backend_steps os status_of s e" using a(1) c d e by (meson rtranclp.rtrancl_into_rtrancl)
  have turn: "did s (supervisor_turn os status_of now starts immediate poll_failed h (bs_backend s))
      = (if bk_supervisor_ended (bs_backend e) then e else e\<lparr>bs_backend := supervisor_serve os status_of now poll_failed h (bs_backend e)\<rparr>)"
    by (simp add: supervisor_turn_def e_def d_def c_def a_def shutting_def did_def Let_def case_prod_unfold)
  show ?thesis
  proof (cases "bk_supervisor_ended (bs_backend e)")
    case False
    have "backend_step os status_of e (e\<lparr>bs_backend := supervisor_serve os status_of now poll_failed h (bs_backend e)\<rparr>)"
      by (rule bp_serve [OF False])
    with to_e have "backend_steps os status_of s (e\<lparr>bs_backend := supervisor_serve os status_of now poll_failed h (bs_backend e)\<rparr>)"
      by (rule rtranclp.rtrancl_into_rtrancl)
    then show ?thesis using turn False by simp
  qed (use turn to_e in simp)
qed

text \<open>The poll ends after the deadline it waits for and less than a millisecond late.\<close>

lemma poll_millis_covers:
  assumes "d < (2 ^ 31 - 2) * from_millis 1"
  shows "0 < poll_millis (Some d)" "d < nat (poll_millis (Some d)) * from_millis 1" "nat (poll_millis (Some d)) * from_millis 1 \<le> d + from_millis 1"
proof -
  have pos: "0 < from_millis 1" by (simp add: from_millis_def)
  have "d div from_millis 1 < 2 ^ 31 - 2" using assms pos by (simp add: div_less_iff_less_mult)
  then have small: "int (d div from_millis 1) + 1 \<le> 2 ^ 31 - 1" by simp
  then have millis: "poll_millis (Some d) = int (d div from_millis 1) + 1" by (simp add: poll_millis_def)
  have nat: "nat (poll_millis (Some d)) = d div from_millis 1 + 1" by (simp add: millis nat_add_distrib)
  show "0 < poll_millis (Some d)" by (simp add: millis)
  show "d < nat (poll_millis (Some d)) * from_millis 1" using pos unfolding nat by (simp add: dividend_less_div_times)
  show "nat (poll_millis (Some d)) * from_millis 1 \<le> d + from_millis 1" unfolding nat by (simp add: algebra_simps)
qed

section \<open>Properties\<close>



end
