(* ===== verification/Diagnostics.thy ===== *)
theory Diagnostics
  imports Prelude
begin

text \<open>
  Optional bounded measurements (\<^verbatim>\<open>crates/application/src/diagnostics\<close>): the latency histograms
  of \<^verbatim>\<open>histogram.rs\<close>, the counters and gauges of \<^verbatim>\<open>counters.rs\<close>, the reader guard of
  \<^verbatim>\<open>reader.rs\<close> and the timings of \<^verbatim>\<open>mod.rs\<close>.  Every update of an atomic is one saturating step;
  the theorems are about snapshots taken at rest, as the source requires of its callers.
\<close>

section \<open>Histograms\<close>

definition BUCKETS :: nat where "BUCKETS = 1025"
definition WIDTH_US :: nat where "WIDTH_US = 100"

record histogram =
  hg_buckets :: "u64 list"
  hg_failures :: u64
  hg_unavailable :: u64
  hg_maximum_us :: u64

definition histogram_new :: histogram where
  "histogram_new = \<lparr>hg_buckets = replicate BUCKETS 0, hg_failures = 0, hg_unavailable = 0, hg_maximum_us = 0\<rparr>"

definition histogram_reset :: "histogram \<Rightarrow> histogram" where
  "histogram_reset h = h\<lparr>hg_buckets := map (\<lambda>_. 0) (hg_buckets h), hg_failures := 0, hg_unavailable := 0,
     hg_maximum_us := 0\<rparr>"

definition increment :: "u64 \<Rightarrow> u64" where
  "increment v = saturating_add v 1"

definition histogram_unavailable :: "histogram \<Rightarrow> histogram" where
  "histogram_unavailable h = h\<lparr>hg_unavailable := increment (hg_unavailable h)\<rparr>"

text \<open>Elapsed microseconds, rounded up and clamped to \<open>u64\<close>.\<close>

definition elapsed_us :: "duration \<Rightarrow> nat" where
  "elapsed_us elapsed = min ((elapsed + 999) div 1000) (2 ^ 64 - 1)"

definition bucket_of :: "nat \<Rightarrow> nat" where
  "bucket_of micros = min ((micros - 1) div WIDTH_US) (BUCKETS - 1)"

definition histogram_record :: "duration \<Rightarrow> bool \<Rightarrow> histogram \<Rightarrow> histogram" where
  "histogram_record elapsed success h =
     (if \<not> success then h\<lparr>hg_failures := increment (hg_failures h)\<rparr>
      else
        let micros = elapsed_us elapsed; b = bucket_of micros in
        h\<lparr>hg_maximum_us := max (hg_maximum_us h) (word_of_nat micros),
          hg_buckets := (hg_buckets h)[b := increment (hg_buckets h ! b)]\<rparr>)"

definition samples :: "histogram \<Rightarrow> u64" where
  "samples h = foldl saturating_add 0 (hg_buckets h)"

fun percentile_scan :: "u64 \<Rightarrow> nat \<Rightarrow> nat \<Rightarrow> nat \<Rightarrow> u64 list \<Rightarrow> u64 option" where
  "percentile_scan maximum rank index cumulative [] = None"
| "percentile_scan maximum rank index cumulative (c # cs) =
     (let cumulative = cumulative + unat c in
      if cumulative \<ge> rank
      then Some (if index = BUCKETS - 1 then maximum
                 else min ((word_of_nat index + 1) * word_of_nat WIDTH_US) maximum)
      else percentile_scan maximum rank (Suc index) cumulative cs)"

definition percentile_upper_us :: "nat \<Rightarrow> histogram \<Rightarrow> u64 option" where
  "percentile_upper_us percentile h =
     (let n = samples h in
      if n = 0 \<or> percentile = 0 \<or> percentile > 100 then None
      else percentile_scan (hg_maximum_us h) ((unat n * percentile + 99) div 100) 0 0 (hg_buckets h))"

section \<open>Counters and gauges\<close>

datatype counter_kind =
    BytesRead | BytesWritten | InputAdmittedBytes | PublishedBytes
  | ObserverGaps | ObserverGapBytes | InputSaturation | OutputBackpressure
  | FailedOperations | CancellationEscalations | CleanupCompleted | CleanupFailed
  | AcknowledgedWorkloadEscalations

fun counter_index :: "counter_kind \<Rightarrow> nat" where
  "counter_index BytesRead = 0"
| "counter_index BytesWritten = 1"
| "counter_index InputAdmittedBytes = 2"
| "counter_index PublishedBytes = 3"
| "counter_index ObserverGaps = 4"
| "counter_index ObserverGapBytes = 5"
| "counter_index InputSaturation = 6"
| "counter_index OutputBackpressure = 7"
| "counter_index FailedOperations = 8"
| "counter_index CancellationEscalations = 9"
| "counter_index CleanupCompleted = 10"
| "counter_index CleanupFailed = 11"
| "counter_index AcknowledgedWorkloadEscalations = 12"

record counters =
  ct_values :: "u64 list"
  ct_active :: u64
  ct_retained :: u64
  ct_readers :: u64
  ct_reader_scratch :: u64

definition counters_new :: counters where
  "counters_new = \<lparr>ct_values = replicate 13 0, ct_active = 0, ct_retained = 0, ct_readers = 0, ct_reader_scratch = 0\<rparr>"

definition counters_count :: "counter_kind \<Rightarrow> counters \<Rightarrow> u64" where
  "counters_count kind c = ct_values c ! counter_index kind"

definition counters_add :: "counter_kind \<Rightarrow> u64 \<Rightarrow> counters \<Rightarrow> counters" where
  "counters_add kind n c =
     c\<lparr>ct_values := (ct_values c)[counter_index kind := saturating_add (ct_values c ! counter_index kind) n]\<rparr>"

definition counters_session :: "bool \<Rightarrow> counters \<Rightarrow> counters" where
  "counters_session active c =
     c\<lparr>ct_active := (if active then saturating_add (ct_active c) 1 else saturating_sub (ct_active c) 1)\<rparr>"

definition counters_replay :: "usize \<Rightarrow> usize \<Rightarrow> counters \<Rightarrow> counters" where
  "counters_replay before after c =
     c\<lparr>ct_retained := (if after \<ge> before then saturating_add (ct_retained c) (after - before)
                       else saturating_sub (ct_retained c) (before - after))\<rparr>"

definition counters_reader :: "usize \<Rightarrow> bool \<Rightarrow> counters \<Rightarrow> counters" where
  "counters_reader bytes alive c =
     (if alive
      then c\<lparr>ct_readers := saturating_add (ct_readers c) 1, ct_reader_scratch := saturating_add (ct_reader_scratch c) bytes\<rparr>
      else c\<lparr>ct_readers := saturating_sub (ct_readers c) 1, ct_reader_scratch := saturating_sub (ct_reader_scratch c) bytes\<rparr>)"

definition counters_reset :: "counters \<Rightarrow> counters" where
  "counters_reset c = c\<lparr>ct_values := map (\<lambda>_. 0) (ct_values c)\<rparr>"

section \<open>The shared object and its timings\<close>

datatype latency_kind =
    InputAdmission | InputDispatch | RawOutput | ProjectedOutput
  | ResizeAdmission | ResizeDispatch | CancelAdmission | CancelDispatch

fun latency_index :: "latency_kind \<Rightarrow> nat" where
  "latency_index InputAdmission = 0"
| "latency_index InputDispatch = 1"
| "latency_index RawOutput = 2"
| "latency_index ProjectedOutput = 3"
| "latency_index ResizeAdmission = 4"
| "latency_index ResizeDispatch = 5"
| "latency_index CancelAdmission = 6"
| "latency_index CancelDispatch = 7"

record diagnostics =
  dg_histograms :: "histogram list"
  dg_counters :: counters

definition diagnostics_new :: diagnostics where
  "diagnostics_new = \<lparr>dg_histograms = replicate 8 histogram_new, dg_counters = counters_new\<rparr>"

definition diagnostics_record :: "latency_kind \<Rightarrow> duration \<Rightarrow> bool \<Rightarrow> diagnostics \<Rightarrow> diagnostics" where
  "diagnostics_record kind elapsed success d =
     d\<lparr>dg_histograms := (dg_histograms d)[latency_index kind :=
       histogram_record elapsed success (dg_histograms d ! latency_index kind)]\<rparr>"

definition diagnostics_reset :: "diagnostics \<Rightarrow> diagnostics" where
  "diagnostics_reset d = d\<lparr>dg_counters := counters_reset (dg_counters d),
     dg_histograms := map histogram_reset (dg_histograms d)\<rparr>"

text \<open>The guard of one reader's scratch buffer: charged on creation, given back when dropped.\<close>

record reader_guard =
  rg_bytes :: usize

definition reader_allocation :: "usize \<Rightarrow> diagnostics \<Rightarrow> reader_guard \<times> diagnostics" where
  "reader_allocation allocated d =
     (\<lparr>rg_bytes = allocated\<rparr>, d\<lparr>dg_counters := counters_reader allocated True (dg_counters d)\<rparr>)"

definition reader_drop :: "reader_guard \<Rightarrow> diagnostics \<Rightarrow> diagnostics" where
  "reader_drop g d = d\<lparr>dg_counters := counters_reader (rg_bytes g) False (dg_counters d)\<rparr>"

record timing =
  tm_kind :: latency_kind
  tm_started :: duration
  tm_finished :: bool

definition timing_new :: "latency_kind \<Rightarrow> duration \<Rightarrow> timing" where
  "timing_new kind started = \<lparr>tm_kind = kind, tm_started = started, tm_finished = False\<rparr>"

definition timing_drop :: "duration \<Rightarrow> timing \<Rightarrow> diagnostics \<Rightarrow> diagnostics" where
  "timing_drop now t d = (if tm_finished t then d else diagnostics_record (tm_kind t) (now - tm_started t) False d)"

text \<open>Both take the timing by value, so its destructor runs at their end.\<close>

definition timing_finish :: "duration \<Rightarrow> bool \<Rightarrow> timing \<Rightarrow> diagnostics \<Rightarrow> diagnostics" where
  "timing_finish now success t d =
     timing_drop now (t\<lparr>tm_finished := True\<rparr>) (diagnostics_record (tm_kind t) (now - tm_started t) success d)"

definition timing_unavailable :: "duration \<Rightarrow> timing \<Rightarrow> diagnostics \<Rightarrow> diagnostics" where
  "timing_unavailable now t d =
     timing_drop now (t\<lparr>tm_finished := True\<rparr>)
       (d\<lparr>dg_histograms := (dg_histograms d)[latency_index (tm_kind t) :=
          histogram_unavailable (dg_histograms d ! latency_index (tm_kind t))]\<rparr>)"

section \<open>What a histogram holds\<close>

text \<open>The histogram of a list of successful measurements, in microseconds.\<close>

definition bucket_count :: "nat list \<Rightarrow> nat \<Rightarrow> nat" where
  "bucket_count ms b = length (filter (\<lambda>m. bucket_of m = b) ms)"

definition longest :: "nat list \<Rightarrow> nat" where
  "longest ms = foldr max ms 0"

definition histogram_of :: "nat list \<Rightarrow> histogram \<Rightarrow> bool" where
  "histogram_of ms h \<longleftrightarrow>
     length (hg_buckets h) = BUCKETS \<and> (\<forall>b<BUCKETS. unat (hg_buckets h ! b) = bucket_count ms b)
     \<and> unat (hg_maximum_us h) = longest ms \<and> (\<forall>m\<in>set ms. m < 2 ^ 64) \<and> length ms < 2 ^ 64"

lemma bucket_of_less: "bucket_of m < BUCKETS"
  by (simp add: bucket_of_def BUCKETS_def)

lemma elapsed_us_less: "elapsed_us d < 2 ^ 64"
  by (simp add: elapsed_us_def)

lemma histogram_of_new: "histogram_of [] histogram_new"
  by (simp add: histogram_of_def histogram_new_def bucket_count_def longest_def)

lemma unat_increment: "unat v + 1 < 2 ^ 64 \<Longrightarrow> unat (increment v) = unat v + 1"
  by (simp add: increment_def saturating_add_eq unat_add_no_overflow)

lemma unat_max: "unat (max a b) = max (unat a) (unat b)" for a b :: u64
  by (simp add: max_def word_le_nat_alt)

lemma unat_min: "unat (min a b) = min (unat a) (unat b)" for a b :: u64
  by (simp add: min_def word_le_nat_alt)

lemma histogram_of_record:
  assumes "histogram_of ms h" "length ms + 1 < 2 ^ 64"
  shows "histogram_of (elapsed_us d # ms) (histogram_record d True h)"
proof -
  let ?m = "elapsed_us d" and ?b = "bucket_of (elapsed_us d)"
  have m: "unat (word_of_nat ?m :: u64) = ?m" using elapsed_us_less [of d] by (simp add: unat_of_nat_u64)
  have b: "?b < BUCKETS" by (rule bucket_of_less)
  have "bucket_count ms ?b \<le> length ms" by (simp add: bucket_count_def)
  then have "unat (increment (hg_buckets h ! ?b)) = bucket_count ms ?b + 1"
    using assms b by (subst unat_increment) (auto simp: histogram_of_def)
  then have "\<forall>b<BUCKETS. unat ((hg_buckets h)[?b := increment (hg_buckets h ! ?b)] ! b) = bucket_count (?m # ms) b"
    using assms(1) b by (auto simp: histogram_of_def nth_list_update bucket_count_def)
  then show ?thesis
    using assms m elapsed_us_less [of d]
    by (auto simp: histogram_of_def histogram_record_def Let_def unat_max longest_def max.commute)
qed

lemma longest_ge: "m \<in> set ms \<Longrightarrow> m \<le> longest ms"
  by (induction ms) (auto simp: longest_def)

lemma longest_less: "\<forall>m\<in>set ms. m < 2 ^ 64 \<Longrightarrow> longest ms < 2 ^ 64"
  by (induction ms) (auto simp: longest_def)

lemma histogram_of_failed: "histogram_of ms h \<Longrightarrow> histogram_of ms (histogram_record d False h)"
  by (simp add: histogram_of_def histogram_record_def)

section \<open>Percentiles\<close>

definition below :: "nat list \<Rightarrow> nat \<Rightarrow> nat" where
  "below ms k = length (filter (\<lambda>m. bucket_of m < k) ms)"

lemma below_Suc: "below ms (Suc k) = below ms k + bucket_count ms k"
  by (induction ms) (auto simp: below_def bucket_count_def less_Suc_eq)

lemma below_0: "below ms 0 = 0"
  by (simp add: below_def)

lemma below_all: "below ms BUCKETS = length ms"
  by (simp add: below_def bucket_of_less)

lemma bucket_sum:
  assumes "\<forall>j<length cs. unat (cs ! j) = bucket_count ms (index + j)"
  shows "below ms index + sum_list (map unat cs) = below ms (index + length cs)"
  using assms
proof (induction cs arbitrary: index)
  case (Cons c cs)
  have "unat c = bucket_count ms index" using Cons.prems [rule_format, of 0] by simp
  moreover have "\<forall>j<length cs. unat (cs ! j) = bucket_count ms (Suc index + j)"
    using Cons.prems by (metis add_Suc_shift length_Cons not_less_eq nth_Cons_Suc)
  ultimately show ?case using Cons.IH [of "Suc index"] by (simp add: below_Suc)
qed simp

lemma saturating_sum:
  "unat a + sum_list (map unat cs) < 2 ^ 64 \<Longrightarrow> unat (foldl saturating_add a cs) = unat a + sum_list (map unat cs)"
  for a :: u64
proof (induction cs arbitrary: a)
  case (Cons c cs)
  then have "unat (saturating_add a c) = unat a + unat c" by (simp add: saturating_add_eq unat_add_no_overflow)
  then show ?case using Cons by simp
qed simp

lemma samples_exact: "histogram_of ms h \<Longrightarrow> unat (samples h) = length ms"
proof -
  assume h: "histogram_of ms h"
  then have "below ms 0 + sum_list (map unat (hg_buckets h)) = below ms BUCKETS"
    using bucket_sum [of "hg_buckets h" ms 0] by (simp add: histogram_of_def)
  then have "sum_list (map unat (hg_buckets h)) = length ms" by (simp add: below_all) (simp add: below_def)
  then show ?thesis using h saturating_sum [of 0 "hg_buckets h"] by (simp add: samples_def histogram_of_def)
qed

lemma percentile_scan_bucket:
  assumes "\<forall>j<length cs. unat (cs ! j) = bucket_count ms (index + j)" "below ms index < rank"
    "rank \<le> below ms (index + length cs)"
  obtains k where "index \<le> k" "k < index + length cs" "below ms k < rank" "rank \<le> below ms (Suc k)"
    "percentile_scan maximum rank index (below ms index) cs
      = Some (if k = BUCKETS - 1 then maximum else min ((word_of_nat k + 1) * word_of_nat WIDTH_US) maximum)"
  using assms
proof (induction cs arbitrary: index thesis)
  case (Cons c cs)
  have c: "below ms index + unat c = below ms (Suc index)"
    using Cons.prems(2) [rule_format, of 0] by (simp add: below_Suc)
  show ?case
  proof (cases "rank \<le> below ms (Suc index)")
    case True
    then show ?thesis using Cons.prems(1) [of index] Cons.prems(3) c by simp
  next
    case False
    have "\<forall>j<length cs. unat (cs ! j) = bucket_count ms (Suc index + j)"
      using Cons.prems(2) by (metis add_Suc_shift length_Cons not_less_eq nth_Cons_Suc)
    then obtain k where "Suc index \<le> k" "k < Suc index + length cs" "below ms k < rank" "rank \<le> below ms (Suc k)"
      "percentile_scan maximum rank (Suc index) (below ms (Suc index)) cs
        = Some (if k = BUCKETS - 1 then maximum else min ((word_of_nat k + 1) * word_of_nat WIDTH_US) maximum)"
      using Cons.IH [of "Suc index"] Cons.prems(4) False by auto
    then show ?thesis using Cons.prems(1) [of k] c False by simp
  qed
qed simp

lemma below_bucket:
  assumes "k < BUCKETS - 1"
  shows "bucket_of m < Suc k \<longleftrightarrow> m \<le> (k + 1) * WIDTH_US"
proof -
  have "(m - 1) div 100 < Suc k \<longleftrightarrow> m - 1 < Suc k * 100" by (simp add: div_less_iff_less_mult)
  then show ?thesis using assms by (auto simp: bucket_of_def WIDTH_US_def BUCKETS_def)
qed

lemma filter_mono: "(\<And>x. x \<in> set xs \<Longrightarrow> P x \<Longrightarrow> Q x) \<Longrightarrow> length (filter P xs) \<le> length (filter Q xs)"
  by (induction xs) (auto simp: le_Suc_eq)

lemma bucket_upper:
  assumes "k < BUCKETS - 1"
  shows "unat ((word_of_nat k + 1) * word_of_nat WIDTH_US :: u64) = (k + 1) * WIDTH_US"
proof -
  have "(k + 1) * 100 < 2 ^ 64" using assms by (simp add: BUCKETS_def)
  moreover have "(word_of_nat k + 1) * word_of_nat WIDTH_US = (word_of_nat ((k + 1) * 100) :: u64)"
    by (simp add: WIDTH_US_def algebra_simps)
  ultimately show ?thesis by (simp only: unat_of_nat_u64 WIDTH_US_def)
qed

lemma percentile_exact:
  assumes "histogram_of ms h" "ms \<noteq> []" "0 < p" "p \<le> 100" "rank = (length ms * p + 99) div 100"
  obtains v where "percentile_upper_us p h = Some v" "rank \<le> length (filter (\<lambda>m. m \<le> unat v) ms)" "unat v \<le> longest ms"
    "unat v \<le> 102400 \<Longrightarrow> length (filter (\<lambda>m. m + 100 < unat v) ms) < rank"
proof -
  have n: "unat (samples h) = length ms" by (rule samples_exact [OF assms(1)])
  then have "samples h \<noteq> 0" using assms(2) by auto
  have "0 < length ms * p" using assms(2,3) by simp
  moreover have "length ms * p \<le> length ms * 100" using assms(4) by (rule mult_le_mono2)
  ultimately have rank: "0 < rank" "rank \<le> length ms" using assms(5) by linarith+
  have h: "length (hg_buckets h) = BUCKETS" "\<forall>b<BUCKETS. unat (hg_buckets h ! b) = bucket_count ms b"
    "unat (hg_maximum_us h) = longest ms" using assms(1) by (simp_all add: histogram_of_def)
  obtain k where k: "k < BUCKETS" "below ms k < rank" "rank \<le> below ms (Suc k)"
    "percentile_scan (hg_maximum_us h) rank 0 0 (hg_buckets h)
      = Some (if k = BUCKETS - 1 then hg_maximum_us h else min ((word_of_nat k + 1) * word_of_nat WIDTH_US) (hg_maximum_us h))"
  proof (rule percentile_scan_bucket [of "hg_buckets h" ms 0 rank "hg_maximum_us h"])
    show "\<forall>j<length (hg_buckets h). unat (hg_buckets h ! j) = bucket_count ms (0 + j)" using h by simp
    show "below ms 0 < rank" using rank by (simp add: below_0)
    show "rank \<le> below ms (0 + length (hg_buckets h))" using rank h below_all [of ms] by simp
  qed (use that h in \<open>simp add: below_0\<close>)
  define v where "v = (if k = BUCKETS - 1 then hg_maximum_us h
    else min ((word_of_nat k + 1) * word_of_nat WIDTH_US) (hg_maximum_us h))"
  have some: "percentile_upper_us p h = Some v"
    using k(4) \<open>samples h \<noteq> 0\<close> assms(3-5) n by (simp add: percentile_upper_us_def v_def Let_def)
  show ?thesis
  proof (cases "k = BUCKETS - 1")
    case True
    then have v: "unat v = longest ms" using h(3) by (simp add: v_def)
    have "filter (\<lambda>m. m \<le> unat v) ms = ms" using longest_ge v by (simp add: filter_id_conv)
    moreover have "\<exists>m\<in>set ms. \<not> bucket_of m < k"
    proof (rule ccontr)
      assume "\<not> ?thesis"
      then have "below ms k = length ms" by (simp add: below_def)
      then show False using k(2) rank(2) by simp
    qed
    then obtain m where m: "m \<in> set ms" "\<not> bucket_of m < k" by blast
    then have "102400 < m" using True by (simp add: bucket_of_def BUCKETS_def WIDTH_US_def)
    then have "102400 < unat v" using v longest_ge [OF m(1)] by simp
    ultimately show ?thesis using that [OF some] rank(2) v by simp
  next
    case False
    then have kb: "k < BUCKETS - 1" using k(1) by simp
    then have v: "unat v = min ((k + 1) * WIDTH_US) (longest ms)" using False h(3) by (simp add: v_def unat_min bucket_upper)
    have "length (filter (\<lambda>m. bucket_of m < Suc k) ms) \<le> length (filter (\<lambda>m. m \<le> unat v) ms)"
      by (rule filter_mono) (use below_bucket [OF kb] longest_ge v in auto)
    then have "rank \<le> length (filter (\<lambda>m. m \<le> unat v) ms)" using k(3) by (simp add: below_def)
    moreover have "length (filter (\<lambda>m. m + 100 < unat v) ms) \<le> below ms k"
      unfolding below_def
    proof (rule filter_mono)
      fix m
      assume "m + 100 < unat v"
      then have "m < k * 100" using v by (auto simp: WIDTH_US_def)
      then have "(m - 1) div 100 < k" by (cases m) (auto simp: div_less_iff_less_mult)
      then show "bucket_of m < k" by (simp add: bucket_of_def WIDTH_US_def)
    qed
    ultimately show ?thesis using that [OF some] k(2) v by simp
  qed
qed

section \<open>Gauges and timings\<close>

text \<open>A reader guard gives back exactly what it charged, and a timing reports exactly one outcome
  however it ends.\<close>

lemma reader_guard_returns:
  assumes "unat (ct_readers c) + 1 < 2 ^ 64" "unat (ct_reader_scratch c) + unat bytes < 2 ^ 64"
  shows "counters_reader bytes False (counters_reader bytes True c) = c"
proof -
  have "saturating_sub (saturating_add a b) b = a" if "unat a + unat b < 2 ^ 64" for a b :: u64
    using that by (simp add: word_unat_eq_iff saturating_sub_unat saturating_add_eq unat_add_no_overflow)
  from this [of "ct_readers c" 1] this [of "ct_reader_scratch c" bytes] assms show ?thesis
    by (simp add: counters_reader_def)
qed

lemma reader_drop_returns:
  assumes "reader_allocation bytes d = (g, e)" "unat (ct_readers (dg_counters d)) + 1 < 2 ^ 64"
    "unat (ct_reader_scratch (dg_counters d)) + unat bytes < 2 ^ 64"
  shows "reader_drop g e = d"
  using assms reader_guard_returns [of "dg_counters d" bytes] by (auto simp: reader_allocation_def reader_drop_def)

lemma timing_records_once:
  "timing_finish now success t d = diagnostics_record (tm_kind t) (now - tm_started t) success d"
  "tm_finished t = False \<Longrightarrow> timing_drop now t d = diagnostics_record (tm_kind t) (now - tm_started t) False d"
  by (simp_all add: timing_finish_def timing_drop_def)

section \<open>Properties\<close>

definition record_all :: "(duration \<times> bool) list \<Rightarrow> histogram" where
  "record_all ds = foldl (\<lambda>h (d, ok). histogram_record d ok h) histogram_new ds"

definition successes :: "(duration \<times> bool) list \<Rightarrow> nat list" where
  "successes ds = map (elapsed_us \<circ> fst) (rev (filter snd ds))"

lemma record_all_of:
  assumes "length ds < 2 ^ 64"
  shows "histogram_of (successes ds) (record_all ds) \<and> unat (hg_failures (record_all ds)) = length (filter (\<lambda>x. \<not> snd x) ds)"
  using assms
proof (induction ds rule: rev_induct)
  case Nil
  then show ?case by (simp add: record_all_def successes_def histogram_of_new) (simp add: histogram_new_def)
next
  case (snoc x ds)
  have IH: "histogram_of (successes ds) (record_all ds)"
    "unat (hg_failures (record_all ds)) = length (filter (\<lambda>x. \<not> snd x) ds)" using snoc by simp_all
  have len: "length (successes ds) \<le> length ds" "length (filter (\<lambda>x. \<not> snd x) ds) \<le> length ds" by (simp_all add: successes_def)
  obtain d ok where x: "x = (d, ok)" by force
  have step: "record_all (ds @ [x]) = histogram_record d ok (record_all ds)" by (simp add: record_all_def x)
  show ?case
  proof (cases ok)
    case True
    have "length (successes ds) + 1 < 2 ^ 64" using snoc.prems len by simp
    from histogram_of_record [OF IH(1) this, of d] True IH(2) x step show ?thesis
      by (simp add: successes_def) (simp add: histogram_record_def Let_def)
  next
    case False
    have "unat (hg_failures (record_all ds)) + 1 < 2 ^ 64"
      unfolding IH(2) by (rule le_less_trans [OF add_right_mono [OF len(2)]]) (use snoc.prems in simp)
    from unat_increment [OF this] False show ?thesis
      using histogram_of_failed [OF IH(1), of d] IH(2) x step by (simp add: successes_def histogram_record_def)
  qed
qed

text \<open>
  C34. Latency percentiles are conservative and tight: after any measurements, the sample and
  failure counts are exact, and for a percentile from 1 to 100 the reported bound is reached by
  at least the nearest-rank number of samples, never exceeds the slowest one, and (up to the
  102.4 ms the fixed buckets cover) fewer than that number of samples lie more than one bucket
  width below it.
\<close>

theorem percentile_conservative:
  assumes "length ds < 2 ^ 64" "successes ds \<noteq> []" "0 < p" "p \<le> 100"
  shows "unat (samples (record_all ds)) = length (successes ds)
    \<and> unat (hg_failures (record_all ds)) = length ds - length (successes ds)
    \<and> (\<exists>v. percentile_upper_us p (record_all ds) = Some v
        \<and> (length (successes ds) * p + 99) div 100 \<le> length (filter (\<lambda>m. m \<le> unat v) (successes ds))
        \<and> unat v \<le> longest (successes ds)
        \<and> (unat v \<le> 102400 \<longrightarrow> length (filter (\<lambda>m. m + 100 < unat v) (successes ds))
              < (length (successes ds) * p + 99) div 100))"
proof -
  have h: "histogram_of (successes ds) (record_all ds)" "unat (hg_failures (record_all ds)) = length (filter (\<lambda>x. \<not> snd x) ds)"
    using record_all_of [OF assms(1)] by simp_all
  have "length (successes ds) = length (filter snd ds)" by (simp add: successes_def)
  then have f: "length (filter (\<lambda>x. \<not> snd x) ds) = length ds - length (successes ds)"
    using sum_length_filter_compl [of snd ds] by linarith
  obtain v where "percentile_upper_us p (record_all ds) = Some v"
    "(length (successes ds) * p + 99) div 100 \<le> length (filter (\<lambda>m. m \<le> unat v) (successes ds))"
    "unat v \<le> longest (successes ds)"
    "unat v \<le> 102400 \<Longrightarrow> length (filter (\<lambda>m. m + 100 < unat v) (successes ds)) < (length (successes ds) * p + 99) div 100"
    by (rule percentile_exact [OF h(1) assms(2-4) refl]) blast
  then show ?thesis using samples_exact [OF h(1)] h(2) f by auto
qed

theorem percentile_conservative_witness:
  "\<exists>v. percentile_upper_us 50 (record_all [(20000000, True), (100000, True), (10, False)]) = Some v \<and> unat v \<le> 20000"
  using percentile_conservative [of "[(20000000, True), (100000, True), (10, False)]" 50]
  by (auto simp: successes_def elapsed_us_def longest_def)

end
