(* ===== verification/Client_Wire.thy ===== *)
theory Client_Wire
  imports Terminal_Values
begin

text \<open>
  The encoding of terminal views for the browser client (\<^verbatim>\<open>client/server/src/wire.rs\<close>): the
  finite style table and the rows of a scrollback read.  A hash map is an association list with
  distinct keys; JSON serialisation is not modelled.  The loop of \<open>encode_history\<close> may run
  forever, so it is a partial function and \<open>None\<close> means that it does not return.
\<close>

section \<open>Styles\<close>

type_synonym rgb = "u8 \<times> u8 \<times> u8"

record style_key =
  sk_fg :: "rgb option"
  sk_bg :: "rgb option"
  sk_bold :: bool
  sk_italic :: bool
  sk_faint :: bool
  sk_inverse :: bool
  sk_invisible :: bool
  sk_strikethrough :: bool
  sk_overline :: bool
  sk_underline :: string

text \<open>\<open>WireStyle\<close> is the identifier and the fields of the key.\<close>

record wire_style =
  wy_id :: u32
  wy_key :: style_key

definition style_key_default :: style_key where
  "style_key_default = \<lparr>sk_fg = None, sk_bg = None, sk_bold = False, sk_italic = False, sk_faint = False,
     sk_inverse = False, sk_invisible = False, sk_strikethrough = False, sk_overline = False, sk_underline = ''''\<rparr>"

fun wire_color :: "terminal_color \<Rightarrow> terminal_palette \<Rightarrow> rgb option" where
  "wire_color DefaultColor palette = None"
| "wire_color (Palette index) palette = Some (tp_indexed palette ! unat index)"
| "wire_color (Rgb r g b) palette = Some (r, g, b)"

fun wire_underline :: "underline \<Rightarrow> string" where
  "wire_underline UlNone = ''''"
| "wire_underline UlSingle = ''single''"
| "wire_underline UlDouble = ''double''"
| "wire_underline UlCurly = ''curly''"
| "wire_underline UlDotted = ''dotted''"
| "wire_underline UlDashed = ''dashed''"

definition style_key_of :: "terminal_style \<Rightarrow> terminal_palette \<Rightarrow> style_key" where
  "style_key_of s palette = \<lparr>sk_fg = wire_color (st_foreground s) palette, sk_bg = wire_color (st_background s) palette,
     sk_bold = st_bold s, sk_italic = st_italic s, sk_faint = st_faint s, sk_inverse = st_inverse s,
     sk_invisible = st_invisible s, sk_strikethrough = st_strikethrough s, sk_overline = st_overline s,
     sk_underline = wire_underline (st_underline s)\<rparr>"

section \<open>The style table\<close>

definition STYLE_CAP :: nat where "STYLE_CAP = 512"

record style_table =
  sb_ids :: "(style_key \<times> u32) list"
  sb_pending :: "wire_style list"
  sb_restarted :: bool
  sb_capped :: bool

definition style_table_default :: style_table where
  "style_table_default = \<lparr>sb_ids = [], sb_pending = [], sb_restarted = False, sb_capped = False\<rparr>"

definition begin_encode :: "style_table \<Rightarrow> style_table" where
  "begin_encode t = t\<lparr>sb_restarted := False, sb_capped := False\<rparr>"

definition take_restarted :: "style_table \<Rightarrow> bool \<times> style_table" where
  "take_restarted t = (sb_restarted t, t\<lparr>sb_restarted := False\<rparr>)"

definition take_pending :: "style_table \<Rightarrow> wire_style list \<times> style_table" where
  "take_pending t = (sb_pending t, t\<lparr>sb_pending := []\<rparr>)"

definition styles_clear :: "style_table \<Rightarrow> style_table" where
  "styles_clear t = t\<lparr>sb_ids := [], sb_pending := [], sb_restarted := False, sb_capped := False\<rparr>"

definition add_style :: "style_key \<Rightarrow> style_table \<Rightarrow> u32 \<times> style_table" where
  "add_style key t =
     (let i = word_of_nat (length (sb_ids t)) + 1 in
      (i, t\<lparr>sb_ids := sb_ids t @ [(key, i)], sb_pending := sb_pending t @ [\<lparr>wy_id = i, wy_key = key\<rparr>]\<rparr>))"

definition intern :: "terminal_style \<Rightarrow> terminal_palette \<Rightarrow> style_table \<Rightarrow> u32 \<times> style_table" where
  "intern style palette t =
     (let key = style_key_of style palette in
      if key = style_key_default then (0, t)
      else case map_of (sb_ids t) key of
        Some i \<Rightarrow> (i, t)
      | None \<Rightarrow>
          if length (sb_ids t) \<ge> STYLE_CAP then
            if sb_capped t then (0, t)
            else add_style key (t\<lparr>sb_ids := [], sb_pending := [], sb_restarted := True, sb_capped := True\<rparr>)
          else add_style key t)"

section \<open>Rows\<close>

record wire_row =
  wr_y :: u16
  wr_cells :: "(rust_str \<times> u8 \<times> u32) list"

fun encode_cells :: "terminal_palette \<Rightarrow> terminal_cell list \<Rightarrow> style_table
    \<Rightarrow> (rust_str \<times> u8 \<times> u32) list \<times> style_table" where
  "encode_cells palette [] t = ([], t)"
| "encode_cells palette (c # cs) t =
     (let (i, t) = intern (cell_style c) palette t; (rest, t) = encode_cells palette cs t
      in ((cell_text c, cell_width c, i) # rest, t))"

definition encode_row :: "terminal_cell list \<Rightarrow> terminal_palette \<Rightarrow> style_table \<Rightarrow> wire_row \<times> style_table" where
  "encode_row cells palette t =
     (case encode_cells palette cells t of (cs, t) \<Rightarrow> (\<lparr>wr_y = 0, wr_cells = cs\<rparr>, t))"

text \<open>\<open>chunks\<close> of a positive width; the last one may be short.\<close>

function cell_chunks :: "nat \<Rightarrow> 'a list \<Rightarrow> 'a list list" where
  "cell_chunks n xs = (if xs = [] \<or> n = 0 then [] else take n xs # cell_chunks n (drop n xs))"
  by auto
termination by (relation "measure (\<lambda>(n, xs). length xs)") auto

declare cell_chunks.simps [simp del]

fun encode_rows :: "terminal_palette \<Rightarrow> u64 \<Rightarrow> terminal_cell list list \<Rightarrow> style_table \<Rightarrow> wire_row list \<times> style_table" where
  "encode_rows palette y [] t = ([], t)"
| "encode_rows palette y (c # cs) t =
     (let (row, t) = encode_row c palette t;
          row = row\<lparr>wr_y := (if y \<le> 65535 then ucast y else 65535)\<rparr>;
          (rows, t) = encode_rows palette (y + 1) cs t
      in (row # rows, t))"

partial_function (option) history_loop ::
  "terminal_history \<Rightarrow> terminal_palette \<Rightarrow> bool \<Rightarrow> style_table \<Rightarrow> (wire_row list \<times> wire_style list \<times> bool \<times> style_table) option" where
  "history_loop h palette reset t =
     (let t = begin_encode t;
          (rows, t) = (if th_cols h > 0 then encode_rows palette (th_start h) (cell_chunks (unat (th_cols h)) (th_cells h)) t
                       else ([], t));
          (restarted, t) = take_restarted t
      in if \<not> restarted then (case take_pending t of (pending, t) \<Rightarrow> Some (rows, pending, reset, t))
         else history_loop h palette True (styles_clear t))"

definition encode_history :: "terminal_history \<Rightarrow> style_table \<Rightarrow> terminal_palette
    \<Rightarrow> (wire_row list \<times> wire_style list \<times> bool \<times> style_table) option" where
  "encode_history h t palette = history_loop h palette False t"

section \<open>One pass\<close>

definition table_ok :: "style_table \<Rightarrow> bool" where
  "table_ok t \<longleftrightarrow> length (sb_ids t) \<le> STYLE_CAP \<and> distinct (map fst (sb_ids t))
     \<and> map snd (sb_ids t) = map (\<lambda>i. word_of_nat i + 1) [0..<length (sb_ids t)]
     \<and> (sb_capped t \<longrightarrow> sb_restarted t)"

definition table_keys :: "style_table \<Rightarrow> style_key set" where
  "table_keys t = fst ` set (sb_ids t)"

text \<open>The styles a list of cells needs in the table.\<close>

definition cell_keys :: "terminal_palette \<Rightarrow> terminal_cell list \<Rightarrow> style_key set" where
  "cell_keys palette cs = (\<lambda>c. style_key_of (cell_style c) palette) ` set cs - {style_key_default}"

definition key_shown :: "style_key \<Rightarrow> u32 \<Rightarrow> style_table \<Rightarrow> bool" where
  "key_shown key i t \<longleftrightarrow> (if key = style_key_default then i = 0 else map_of (sb_ids t) key = Some i)"

definition cell_shown :: "terminal_palette \<Rightarrow> style_table \<Rightarrow> terminal_cell \<Rightarrow> rust_str \<times> u8 \<times> u32 \<Rightarrow> bool" where
  "cell_shown palette t c w \<longleftrightarrow>
     (case w of (text, width, i) \<Rightarrow> text = cell_text c \<and> width = cell_width c
        \<and> key_shown (style_key_of (cell_style c) palette) i t)"

definition styles_of :: "(style_key \<times> u32) list \<Rightarrow> wire_style list" where
  "styles_of xs = map (\<lambda>(k, i). \<lparr>wy_id = i, wy_key = k\<rparr>) xs"

text \<open>\<open>t'\<close> comes from \<open>t\<close> by adding the styles \<open>K\<close>, unless the table restarted on the way.\<close>

definition table_grows :: "style_key set \<Rightarrow> style_table \<Rightarrow> style_table \<Rightarrow> bool" where
  "table_grows K t t' \<longleftrightarrow> table_ok t' \<and> (sb_restarted t \<longrightarrow> sb_restarted t')
     \<and> (\<not> sb_restarted t' \<longrightarrow> (\<exists>added. sb_ids t' = sb_ids t @ added \<and> sb_pending t' = sb_pending t @ styles_of added
            \<and> table_keys t' = table_keys t \<union> K))
     \<and> (\<not> sb_restarted t \<longrightarrow> card (table_keys t \<union> K) \<le> STYLE_CAP \<longrightarrow> \<not> sb_restarted t')"

lemma table_keys_card: "table_ok t \<Longrightarrow> card (table_keys t) = length (sb_ids t)"
  unfolding table_ok_def table_keys_def by (metis distinct_card length_map set_map)

lemma finite_table_keys [simp]: "finite (table_keys t)"
  by (simp add: table_keys_def)

lemma finite_cell_keys [simp]: "finite (cell_keys palette cs)"
  by (simp add: cell_keys_def)

lemma table_grows_refl: "table_ok t \<Longrightarrow> table_grows {} t t"
  by (simp add: table_grows_def styles_of_def)

lemma table_grows_trans:
  assumes "table_grows A t u" "table_grows B u v" "finite A" "finite B"
  shows "table_grows (A \<union> B) t v"
proof -
  have one: "\<exists>added. sb_ids v = sb_ids t @ added \<and> sb_pending v = sb_pending t @ styles_of added
      \<and> table_keys v = table_keys t \<union> (A \<union> B)" if v: "\<not> sb_restarted v"
  proof -
    have u: "\<not> sb_restarted u" using assms(2) v by (auto simp: table_grows_def)
    obtain a where a: "sb_ids u = sb_ids t @ a" "sb_pending u = sb_pending t @ styles_of a" "table_keys u = table_keys t \<union> A"
      using assms(1) u by (auto simp: table_grows_def)
    obtain b where b: "sb_ids v = sb_ids u @ b" "sb_pending v = sb_pending u @ styles_of b" "table_keys v = table_keys u \<union> B"
      using assms(2) v by (auto simp: table_grows_def)
    show ?thesis by (rule exI [of _ "a @ b"]) (use a b in \<open>auto simp: styles_of_def\<close>)
  qed
  have two: "\<not> sb_restarted v" if t: "\<not> sb_restarted t" "card (table_keys t \<union> (A \<union> B)) \<le> STYLE_CAP"
  proof -
    have "card (table_keys t \<union> A) \<le> card (table_keys t \<union> (A \<union> B))" by (rule card_mono) (use assms in auto)
    then have u: "\<not> sb_restarted u" using assms(1) t by (simp add: table_grows_def)
    then have "table_keys u = table_keys t \<union> A" using assms(1) by (auto simp: table_grows_def)
    then have "card (table_keys u \<union> B) \<le> STYLE_CAP" using t(2) by (simp add: Un_assoc)
    then show ?thesis using assms(2) u by (simp add: table_grows_def)
  qed
  show ?thesis using assms(1,2) one two by (auto simp: table_grows_def)
qed

lemma add_style_ok:
  assumes "table_ok t" "key \<notin> table_keys t" "length (sb_ids t) < STYLE_CAP" "add_style key t = (i, t')"
  shows "table_grows {key} t t'" "map_of (sb_ids t') key = Some i"
proof -
  have t': "t' = t\<lparr>sb_ids := sb_ids t @ [(key, i)], sb_pending := sb_pending t @ [\<lparr>wy_id = i, wy_key = key\<rparr>]\<rparr>"
    "i = word_of_nat (length (sb_ids t)) + 1" using assms(4) by (auto simp: add_style_def Let_def)
  have ok: "table_ok t'" using assms(1-3) t' by (auto simp: table_ok_def table_keys_def)
  have "table_keys t' = table_keys t \<union> {key}" using t'(1) by (auto simp: table_keys_def)
  moreover have "\<exists>added. sb_ids t' = sb_ids t @ added \<and> sb_pending t' = sb_pending t @ styles_of added"
    by (rule exI [of _ "[(key, i)]"]) (use t' in \<open>simp add: styles_of_def\<close>)
  moreover have "sb_restarted t' = sb_restarted t" using t' by simp
  ultimately show "table_grows {key} t t'" using ok by (simp add: table_grows_def)
  have "map_of (sb_ids t) key = None" using assms(2) by (simp add: table_keys_def map_of_eq_None_iff)
  then show "map_of (sb_ids t') key = Some i" using t'(1) by (simp add: map_add_def)
qed

lemma intern_ok:
  assumes "table_ok t" "intern style palette t = (i, t')"
  shows "table_grows ({style_key_of style palette} - {style_key_default}) t t'"
    "\<not> sb_restarted t' \<Longrightarrow> key_shown (style_key_of style palette) i t'"
proof -
  let ?key = "style_key_of style palette"
  have "table_grows ({?key} - {style_key_default}) t t' \<and> (\<not> sb_restarted t' \<longrightarrow> key_shown ?key i t')"
  proof (cases "?key = style_key_default")
    case True
    then show ?thesis using assms table_grows_refl [of t] by (simp add: intern_def Let_def key_shown_def)
  next
    case False
    then have K: "{?key} - {style_key_default} = {?key}" by auto
    show ?thesis
    proof (cases "map_of (sb_ids t) ?key")
      case (Some j)
      then have "?key \<in> table_keys t" by (force simp: table_keys_def dest: map_of_SomeD)
      then have "table_grows {?key} t t"
        using table_grows_refl [OF assms(1)] by (simp add: table_grows_def insert_absorb)
      then show ?thesis using assms(2) False Some K by (simp add: intern_def Let_def key_shown_def)
    next
      case None
      then have new: "?key \<notin> table_keys t" by (simp add: table_keys_def map_of_eq_None_iff)
      show ?thesis
      proof (cases "length (sb_ids t) < STYLE_CAP")
        case True
        then have "add_style ?key t = (i, t')" using assms(2) False None by (simp add: intern_def Let_def)
        from add_style_ok [OF assms(1) new True this] show ?thesis using False K by (simp add: key_shown_def)
      next
        case full: False
        have "card (table_keys t \<union> {?key}) = length (sb_ids t) + 1"
          using new table_keys_card [OF assms(1)] by simp
        then have over: "\<not> card (table_keys t \<union> {?key}) \<le> STYLE_CAP" using full by simp
        show ?thesis
        proof (cases "sb_capped t")
          case True
          then have "t' = t" "sb_restarted t" using assms full False None by (simp_all add: intern_def Let_def table_ok_def)
          then show ?thesis using assms(1) K by (simp add: table_grows_def)
        next
          case notcapped: False
          let ?c = "t\<lparr>sb_ids := [], sb_pending := [], sb_restarted := True, sb_capped := True\<rparr>"
          have "add_style ?key ?c = (i, t')" using assms(2) full False None notcapped by (simp add: intern_def Let_def)
          moreover have "table_ok ?c" "?key \<notin> table_keys ?c" "length (sb_ids ?c) < STYLE_CAP"
            by (simp_all add: table_ok_def table_keys_def STYLE_CAP_def)
          ultimately have "table_grows {?key} ?c t'" using add_style_ok(1) by blast
          then have "sb_restarted t'" "table_ok t'" by (simp_all add: table_grows_def)
          then show ?thesis using over K by (simp add: table_grows_def)
        qed
      qed
    qed
  qed
  then show "table_grows ({?key} - {style_key_default}) t t'" "\<not> sb_restarted t' \<Longrightarrow> key_shown ?key i t'" by blast+
qed

lemma key_shown_grows:
  assumes "table_grows K t t'" "\<not> sb_restarted t'" "key_shown key i t"
  shows "key_shown key i t'"
  using assms by (auto simp: table_grows_def key_shown_def map_add_def split: if_splits option.splits)

lemma encode_cells_ok:
  assumes "table_ok t" "encode_cells palette cs t = (out, t')"
  shows "table_grows (cell_keys palette cs) t t' \<and> (\<not> sb_restarted t' \<longrightarrow> list_all2 (cell_shown palette t') cs out)"
  using assms
proof (induction cs arbitrary: t out t')
  case Nil
  then show ?case using table_grows_refl by (auto simp: cell_keys_def)
next
  case (Cons c cs)
  obtain i u where i: "intern (cell_style c) palette t = (i, u)" by force
  obtain rest where rest: "encode_cells palette cs u = (rest, t')" "out = (cell_text c, cell_width c, i) # rest"
    using Cons.prems(2) i by (auto simp: Let_def split: prod.splits)
  note one = intern_ok [OF Cons.prems(1) i]
  have u: "table_ok u" using one(1) by (simp add: table_grows_def)
  note two = Cons.IH [OF u rest(1)]
  have "{style_key_of (cell_style c) palette} - {style_key_default} \<union> cell_keys palette cs = cell_keys palette (c # cs)"
    by (auto simp: cell_keys_def)
  then have grows: "table_grows (cell_keys palette (c # cs)) t t'"
    using table_grows_trans [OF one(1) conjunct1 [OF two]] by simp
  have "key_shown (style_key_of (cell_style c) palette) i t'" if "\<not> sb_restarted t'"
  proof -
    have "\<not> sb_restarted u" using two that by (auto simp: table_grows_def)
    then show ?thesis using key_shown_grows [OF conjunct1 [OF two] that] one(2) by blast
  qed
  then show ?case using grows two rest(2) by (auto simp: cell_shown_def)
qed

lemma cell_shown_grows:
  assumes "table_grows K t t'" "\<not> sb_restarted t'" "list_all2 (cell_shown palette t) cs ws"
  shows "list_all2 (cell_shown palette t') cs ws"
  using assms(3) by (rule list_all2_mono) (auto simp: cell_shown_def intro: key_shown_grows [OF assms(1,2)])

definition rows_shown :: "terminal_palette \<Rightarrow> style_table \<Rightarrow> terminal_cell list list \<Rightarrow> wire_row list \<Rightarrow> bool" where
  "rows_shown palette t css rows \<longleftrightarrow> list_all2 (\<lambda>cs row. list_all2 (cell_shown palette t) cs (wr_cells row)) css rows"

lemma encode_rows_ok:
  assumes "table_ok t" "encode_rows palette y css t = (rows, t')"
  shows "table_grows (cell_keys palette (concat css)) t t' \<and> (\<not> sb_restarted t' \<longrightarrow> rows_shown palette t' css rows)"
  using assms
proof (induction css arbitrary: t y rows t')
  case Nil
  then show ?case using table_grows_refl by (auto simp: cell_keys_def rows_shown_def)
next
  case (Cons cs css)
  obtain ws u where w: "encode_cells palette cs t = (ws, u)" by force
  obtain more' where rest: "encode_rows palette (y + 1) css u = (more', t')"
    "rows = \<lparr>wr_y = (if y \<le> 65535 then ucast y else 65535), wr_cells = ws\<rparr> # more'"
    using Cons.prems(2) w by (auto simp: Let_def encode_row_def split: prod.splits)
  note one = encode_cells_ok [OF Cons.prems(1) w]
  have u: "table_ok u" using one by (simp add: table_grows_def)
  note two = Cons.IH [OF u rest(1)]
  have "cell_keys palette cs \<union> cell_keys palette (concat css) = cell_keys palette (concat (cs # css))"
    by (auto simp: cell_keys_def)
  then have grows: "table_grows (cell_keys palette (concat (cs # css))) t t'"
    using table_grows_trans [OF conjunct1 [OF one] conjunct1 [OF two]] by simp
  have "list_all2 (cell_shown palette t') cs ws" if "\<not> sb_restarted t'"
  proof -
    have "\<not> sb_restarted u" using two that by (auto simp: table_grows_def)
    then show ?thesis using cell_shown_grows [OF conjunct1 [OF two] that] one by blast
  qed
  then show ?case using grows two rest(2) by (auto simp: rows_shown_def)
qed

lemma concat_cell_chunks: "0 < n \<Longrightarrow> concat (cell_chunks n xs) = xs"
  by (induction n xs rule: cell_chunks.induct) (subst cell_chunks.simps, auto)

section \<open>Scrollback\<close>

text \<open>The rows and cells one pass encodes.\<close>

definition history_rows :: "terminal_history \<Rightarrow> terminal_cell list list" where
  "history_rows h = (if th_cols h > 0 then cell_chunks (unat (th_cols h)) (th_cells h) else [])"

definition history_pass :: "terminal_history \<Rightarrow> terminal_palette \<Rightarrow> style_table \<Rightarrow> wire_row list \<times> style_table" where
  "history_pass h palette t = encode_rows palette (th_start h) (history_rows h) (begin_encode t)"

lemma history_loop_step:
  "history_loop h palette reset t =
     (case history_pass h palette t of (rows, u) \<Rightarrow>
        if sb_restarted u then history_loop h palette True (styles_clear u)
        else Some (rows, sb_pending u, reset, u\<lparr>sb_restarted := False, sb_pending := []\<rparr>))"
proof -
  have clear: "styles_clear (u\<lparr>sb_restarted := False\<rparr>) = styles_clear u" for u by (simp add: styles_clear_def)
  show ?thesis
    by (subst history_loop.simps)
      (auto simp: history_pass_def history_rows_def take_restarted_def take_pending_def clear Let_def split: prod.splits)
qed

definition history_keys :: "terminal_history \<Rightarrow> terminal_palette \<Rightarrow> style_key set" where
  "history_keys h palette = cell_keys palette (concat (history_rows h))"

lemma begin_encode_ok:
  "table_ok t \<Longrightarrow> table_ok (begin_encode t)" "\<not> sb_restarted (begin_encode t)"
  "sb_ids (begin_encode t) = sb_ids t" "sb_pending (begin_encode t) = sb_pending t"
  "table_keys (begin_encode t) = table_keys t"
  by (simp_all add: table_ok_def begin_encode_def table_keys_def)

lemma styles_clear_ok: "table_ok (styles_clear t)" "table_keys (styles_clear t) = {}" "sb_pending (styles_clear t) = []"
  by (simp_all add: table_ok_def styles_clear_def table_keys_def)

lemma history_pass_ok:
  assumes "table_ok t" "history_pass h palette t = (rows, u)"
  shows "table_ok u" "card (table_keys t \<union> history_keys h palette) \<le> STYLE_CAP \<Longrightarrow> \<not> sb_restarted u"
    "\<not> sb_restarted u \<Longrightarrow> card (history_keys h palette) \<le> STYLE_CAP"
    "\<not> sb_restarted u \<Longrightarrow> \<exists>added. sb_ids u = sb_ids t @ added \<and> sb_pending u = sb_pending t @ styles_of added"
    "\<not> sb_restarted u \<Longrightarrow> rows_shown palette u (history_rows h) rows"
    "\<not> sb_restarted u \<Longrightarrow> table_keys u = table_keys t \<union> history_keys h palette"
proof -
  have p: "table_grows (history_keys h palette) (begin_encode t) u"
    "\<not> sb_restarted u \<longrightarrow> rows_shown palette u (history_rows h) rows"
    using encode_rows_ok [OF begin_encode_ok(1) [OF assms(1)] assms(2) [unfolded history_pass_def]]
    by (simp_all add: history_keys_def)
  then show ok: "table_ok u" and "card (table_keys t \<union> history_keys h palette) \<le> STYLE_CAP \<Longrightarrow> \<not> sb_restarted u"
    and "\<not> sb_restarted u \<Longrightarrow> rows_shown palette u (history_rows h) rows"
    by (simp_all add: table_grows_def begin_encode_ok)
  show "table_keys u = table_keys t \<union> history_keys h palette" if "\<not> sb_restarted u"
    using p(1) that by (auto simp: table_grows_def begin_encode_ok)
  show "\<exists>added. sb_ids u = sb_ids t @ added \<and> sb_pending u = sb_pending t @ styles_of added" if "\<not> sb_restarted u"
    using p(1) that by (auto simp: table_grows_def begin_encode_ok)
  show "card (history_keys h palette) \<le> STYLE_CAP" if "\<not> sb_restarted u"
  proof -
    have "history_keys h palette \<subseteq> table_keys u" using p(1) that by (auto simp: table_grows_def)
    then have "card (history_keys h palette) \<le> card (table_keys u)" by (intro card_mono) auto
    also have "\<dots> \<le> STYLE_CAP" using table_keys_card [OF ok] ok by (simp add: table_ok_def)
    finally show ?thesis .
  qed
qed

lemma history_loop_Some:
  assumes "history_loop h palette reset t = Some r"
  shows "table_ok t \<longrightarrow> card (history_keys h palette) \<le> STYLE_CAP"
proof (rule history_loop.raw_induct
    [where P = "\<lambda>h palette reset t y. table_ok t \<longrightarrow> card (history_keys h palette) \<le> STYLE_CAP", OF _ assms])
  fix loop :: "terminal_history \<Rightarrow> terminal_palette \<Rightarrow> bool \<Rightarrow> style_table
      \<Rightarrow> (wire_row list \<times> wire_style list \<times> bool \<times> style_table) option"
  fix h palette reset t y
  assume IH: "\<And>h palette reset t y. loop h palette reset t = Some y \<Longrightarrow> table_ok t \<longrightarrow> card (history_keys h palette) \<le> STYLE_CAP"
  assume body: "(let t = begin_encode t;
        (rows, t) = (if th_cols h > 0 then encode_rows palette (th_start h) (cell_chunks (unat (th_cols h)) (th_cells h)) t
                     else ([], t));
        (restarted, t) = take_restarted t
      in if \<not> restarted then (case take_pending t of (pending, t) \<Rightarrow> Some (rows, pending, reset, t))
         else loop h palette True (styles_clear t)) = Some y"
  obtain rows u where p: "history_pass h palette t = (rows, u)" by force
  have "styles_clear (u\<lparr>sb_restarted := False\<rparr>) = styles_clear u" by (simp add: styles_clear_def)
  then have "\<not> sb_restarted u \<or> loop h palette True (styles_clear u) = Some y"
    using body p
    by (auto simp: history_pass_def history_rows_def take_restarted_def Let_def split: if_splits)
  then show "table_ok t \<longrightarrow> card (history_keys h palette) \<le> STYLE_CAP"
    using IH history_pass_ok(3) [OF _ p] styles_clear_ok(1) by blast
qed

lemma history_loop_returns:
  assumes "table_ok t" "card (history_keys h palette) \<le> STYLE_CAP"
  shows "\<exists>r. history_loop h palette reset t = Some r"
proof -
  obtain rows u where p: "history_pass h palette t = (rows, u)" by force
  obtain rows' v where q: "history_pass h palette (styles_clear u) = (rows', v)" by force
  have "\<not> sb_restarted v" using history_pass_ok(2) [OF styles_clear_ok(1) q] assms(2) by (simp add: styles_clear_ok)
  then have "history_loop h palette True (styles_clear u)
      = Some (rows', sb_pending v, True, v\<lparr>sb_restarted := False, sb_pending := []\<rparr>)"
    by (subst history_loop_step) (simp add: q)
  then have "history_loop h palette reset t \<noteq> None" by (subst history_loop_step) (auto simp: p)
  then show ?thesis by blast
qed

section \<open>What the client shows\<close>

text \<open>The client keeps the styles it was sent by identifier and forgets them on \<open>ready\<close>.\<close>

type_synonym client_styles = "u32 \<Rightarrow> style_key option"

definition client_knows :: "client_styles \<Rightarrow> style_table \<Rightarrow> bool" where
  "client_knows c t \<longleftrightarrow> (\<forall>(k, i)\<in>set (sb_ids t). c i = Some k)"

definition client_after :: "client_styles \<Rightarrow> bool \<Rightarrow> wire_style list \<Rightarrow> client_styles" where
  "client_after c reset sent = (if reset then Map.empty else c) ++ map_of (map (\<lambda>w. (wy_id w, wy_key w)) sent)"

definition client_cell :: "client_styles \<Rightarrow> rust_str \<times> u8 \<times> u32 \<Rightarrow> rust_str \<times> u8 \<times> style_key option" where
  "client_cell c w = (case w of (text, width, i) \<Rightarrow> (text, width, if i = 0 then Some style_key_default else c i))"

definition shown_cell :: "terminal_palette \<Rightarrow> terminal_cell \<Rightarrow> rust_str \<times> u8 \<times> style_key option" where
  "shown_cell palette c = (cell_text c, cell_width c, Some (style_key_of (cell_style c) palette))"

lemma table_ids_distinct:
  assumes "table_ok t"
  shows "distinct (map snd (sb_ids t))" "0 \<notin> snd ` set (sb_ids t)"
proof -
  have n: "length (sb_ids t) \<le> 512" and ids: "map snd (sb_ids t) = map (\<lambda>i. word_of_nat i + 1) [0..<length (sb_ids t)]"
    using assms by (simp_all add: table_ok_def STYLE_CAP_def)
  have u: "unat (word_of_nat i + 1 :: u32) = i + 1" if "i < 512" for i
  proof -
    have "(word_of_nat i + 1 :: u32) = word_of_nat (i + 1)" by simp
    then show ?thesis using that by (simp only: unat_of_nat) (simp add: take_bit_nat_eq_self)
  qed
  show "distinct (map snd (sb_ids t))"
    unfolding ids distinct_map by (auto intro!: inj_onI dest: arg_cong [where f = unat] simp: u order.strict_trans2 [OF _ n])
  have "0 \<notin> set (map (\<lambda>i. word_of_nat i + 1 :: u32) [0..<length (sb_ids t)])"
    using u n by (auto dest!: arg_cong [where f = unat])
  then show "0 \<notin> snd ` set (sb_ids t)" using ids by (metis set_map)
qed

lemma client_knows_sent:
  assumes "table_ok u" "sb_ids u = ids @ added" "\<forall>(k, i)\<in>set ids. c i = Some k"
  shows "client_knows (c ++ map_of (map (\<lambda>w. (wy_id w, wy_key w)) (styles_of added))) u"
proof -
  let ?sent = "map (\<lambda>w. (wy_id w, wy_key w)) (styles_of added)"
  have sent: "?sent = map (\<lambda>(k, i). (i, k)) added" by (simp add: styles_of_def case_prod_beta)
  have d: "distinct (map snd ids @ map snd added)" using table_ids_distinct(1) [OF assms(1)] assms(2) by simp
  have fsts: "map fst (map (\<lambda>(k, i). (i, k)) added) = map snd added" by (simp add: case_prod_beta)
  have new: "map_of ?sent i = Some k" if "(k, i) \<in> set added" for k i
  proof -
    have "distinct (map fst (map (\<lambda>(k, i). (i, k)) added))" unfolding fsts using d by simp
    then show ?thesis unfolding sent by (rule map_of_is_SomeI) (use that in force)
  qed
  have old: "map_of ?sent i = None" if "(k, i) \<in> set ids" for k i
    unfolding sent map_of_eq_None_iff using that d by force
  show ?thesis
    unfolding client_knows_def using assms(2,3) new old by (auto simp: map_add_def)
qed

lemma cell_shown_client:
  assumes "table_ok t" "client_knows c t" "cell_shown palette t cell w"
  shows "client_cell c w = shown_cell palette cell"
proof -
  obtain words width i where w: "w = (words, width, i)" by (cases w) auto
  have shown: "words = cell_text cell" "width = cell_width cell" "key_shown (style_key_of (cell_style cell) palette) i t"
    using assms(3) by (simp_all add: w cell_shown_def)
  show ?thesis
  proof (cases "style_key_of (cell_style cell) palette = style_key_default")
    case True
    then show ?thesis using shown by (simp add: w client_cell_def shown_cell_def key_shown_def)
  next
    case False
    then have "(style_key_of (cell_style cell) palette, i) \<in> set (sb_ids t)"
      using shown(3) by (auto simp: key_shown_def dest: map_of_SomeD)
    then have "c i = Some (style_key_of (cell_style cell) palette)" "i \<noteq> 0"
      using assms(2) table_ids_distinct(2) [OF assms(1)] by (auto simp: client_knows_def image_iff)
    then show ?thesis using shown(1,2) by (simp add: w client_cell_def shown_cell_def)
  qed
qed

lemma cells_shown_client:
  assumes "table_ok t" "client_knows c t" "list_all2 (cell_shown palette t) cs ws"
  shows "map (client_cell c) ws = map (shown_cell palette) cs"
  using assms(3) by (induction rule: list_all2_induct) (simp_all add: cell_shown_client [OF assms(1,2)])

lemma rows_shown_client:
  assumes "table_ok t" "client_knows c t" "rows_shown palette t css rows"
  shows "map (\<lambda>r. map (client_cell c) (wr_cells r)) rows = map (map (shown_cell palette)) css"
  using assms(3) unfolding rows_shown_def
  by (induction rule: list_all2_induct) (simp_all add: cells_shown_client [OF assms(1,2)])

lemma history_loop_shows:
  assumes "table_ok t" "history_loop h palette reset t = Some (rows, sent, reset', t')"
  obtains u v where "history_pass h palette u = (rows, v)" "\<not> sb_restarted v" "sent = sb_pending v"
    "t' = v\<lparr>sb_restarted := False, sb_pending := []\<rparr>" "u = t \<and> reset' = reset \<or> table_keys u = {} \<and> sb_pending u = [] \<and> table_ok u \<and> reset'"
proof -
  obtain rows1 u where p: "history_pass h palette t = (rows1, u)" by force
  show ?thesis
  proof (cases "sb_restarted u")
    case False
    then have "history_loop h palette reset t = Some (rows1, sb_pending u, reset, u\<lparr>sb_restarted := False, sb_pending := []\<rparr>)"
      by (subst history_loop_step) (simp add: p)
    then have "rows = rows1" "sent = sb_pending u" "reset' = reset" "t' = u\<lparr>sb_restarted := False, sb_pending := []\<rparr>"
      using assms(2) by simp_all
    then show ?thesis by (intro that [of t u]) (use p False in simp_all)
  next
    case True
    obtain rows2 v where q: "history_pass h palette (styles_clear u) = (rows2, v)" by force
    have first: "history_loop h palette reset t = history_loop h palette True (styles_clear u)"
      by (subst history_loop_step) (simp add: p True)
    then have small: "card (history_keys h palette) \<le> STYLE_CAP"
      using history_loop_Some [OF assms(2)] assms(1) by blast
    then have v: "\<not> sb_restarted v" using history_pass_ok(2) [OF styles_clear_ok(1) q] by (simp add: styles_clear_ok)
    then have "history_loop h palette True (styles_clear u)
        = Some (rows2, sb_pending v, True, v\<lparr>sb_restarted := False, sb_pending := []\<rparr>)"
      by (subst history_loop_step) (simp add: q)
    then have r: "rows = rows2" "sent = sb_pending v" "reset'" "t' = v\<lparr>sb_restarted := False, sb_pending := []\<rparr>"
      using assms(2) first by simp_all
    show ?thesis
      by (rule that [of "styles_clear u" v]) (use q v r styles_clear_ok [of u] in simp_all)
  qed
qed

text \<open>What one read gives the client: the styles it needs, known under the identifiers of the
  table, and without a reset the table only grows.\<close>

lemma encode_history_client:
  assumes "table_ok t" "sb_pending t = []" "client_knows c t" "encode_history h t palette = Some (rows, sent, reset, t')"
  shows "table_ok t'" "sb_pending t' = []" "client_knows (client_after c reset sent) t'"
    "rows_shown palette t' (history_rows h) rows"
    "table_keys t' \<subseteq> table_keys t \<union> history_keys h palette"
    "\<not> reset \<Longrightarrow> \<exists>added. sb_ids t' = sb_ids t @ added"
proof -
  obtain u v where p: "history_pass h palette u = (rows, v)" "\<not> sb_restarted v" "sent = sb_pending v"
    "t' = v\<lparr>sb_restarted := False, sb_pending := []\<rparr>" and
    u: "u = t \<and> reset = False \<or> table_keys u = {} \<and> sb_pending u = [] \<and> table_ok u \<and> reset"
    by (rule history_loop_shows [OF assms(1) assms(4) [unfolded encode_history_def]])
  let ?c = "if reset then Map.empty else c"
  have uok: "table_ok u" "sb_pending u = []" and known: "\<forall>(k, i)\<in>set (sb_ids u). ?c i = Some k"
    using u assms(1-3) by (auto simp: client_knows_def table_keys_def)
  obtain added where a: "sb_ids v = sb_ids u @ added" "sent = styles_of added"
    using history_pass_ok(4) [OF uok(1) p(1,2)] p(3) uok(2) by auto
  have vok: "table_ok v" by (rule history_pass_ok(1) [OF uok(1) p(1)])
  have "client_knows (client_after c reset sent) v"
    unfolding client_after_def a(2) by (rule client_knows_sent [OF vok a(1) known])
  then show "client_knows (client_after c reset sent) t'" using p(4) by (simp add: client_knows_def)
  show "table_ok t'" using vok p(2,4) by (auto simp: table_ok_def)
  show "sb_pending t' = []" using p(4) by simp
  have same: "cell_shown palette t' = cell_shown palette v" using p(4) by (intro ext) (simp add: cell_shown_def key_shown_def)
  show "rows_shown palette t' (history_rows h) rows"
    using history_pass_ok(5) [OF uok(1) p(1,2)] by (simp add: rows_shown_def same)
  have "table_keys t' = table_keys u \<union> history_keys h palette"
    using history_pass_ok(6) [OF uok(1) p(1,2)] p(4) by (simp add: table_keys_def)
  then show "table_keys t' \<subseteq> table_keys t \<union> history_keys h palette" using u by auto
  show "\<exists>added. sb_ids t' = sb_ids t @ added" if "\<not> reset" using that u a(1) p(4) by auto
qed

text \<open>A read resets the table only when the styles of the table and of the rows do not fit together.\<close>

lemma encode_history_fits:
  assumes "table_ok t" "card (table_keys t \<union> history_keys h palette) \<le> STYLE_CAP"
  obtains rows sent t' where "encode_history h t palette = Some (rows, sent, False, t')"
proof -
  obtain rows u where p: "history_pass h palette t = (rows, u)" by force
  have "\<not> sb_restarted u" by (rule history_pass_ok(2) [OF assms(1) p assms(2)])
  then have "encode_history h t palette = Some (rows, sb_pending u, False, u\<lparr>sb_restarted := False, sb_pending := []\<rparr>)"
    unfolding encode_history_def by (subst history_loop_step) (simp add: p)
  then show ?thesis by (rule that)
qed

lemma encode_history_resets:
  assumes "table_ok t" "card (history_keys h palette) \<le> STYLE_CAP" "STYLE_CAP < card (table_keys t \<union> history_keys h palette)"
  obtains rows sent t' where "encode_history h t palette = Some (rows, sent, True, t')"
proof -
  obtain rows sent reset t' where e: "encode_history h t palette = Some (rows, sent, reset, t')"
    using history_loop_returns [OF assms(1,2), of False] by (force simp: encode_history_def)
  obtain u v where p: "history_pass h palette u = (rows, v)" "\<not> sb_restarted v" and
    u: "u = t \<and> reset = False \<or> table_keys u = {} \<and> sb_pending u = [] \<and> table_ok u \<and> reset"
    by (rule history_loop_shows [OF assms(1) e [unfolded encode_history_def]])
  have reset
  proof (rule ccontr)
    assume "\<not> reset"
    then have "table_ok v" "table_keys v = table_keys t \<union> history_keys h palette"
      using u history_pass_ok(1,6) [OF assms(1), of h palette rows v] p by auto
    then show False using assms(3) table_keys_card [of v] by (simp add: table_ok_def)
  qed
  with e show ?thesis using that by simp
qed

text \<open>The styles sent after a reset are those of the rows, and only those.\<close>

lemma reset_sends:
  assumes "table_ok t" "encode_history h t palette = Some (rows, sent, True, t')" "w \<in> set sent"
  shows "wy_key w \<in> history_keys h palette"
proof -
  obtain u v where p: "history_pass h palette u = (rows, v)" "\<not> sb_restarted v" "sent = sb_pending v"
    and u: "table_keys u = {}" "sb_pending u = []" "table_ok u"
    by (rule history_loop_shows [OF assms(1) assms(2) [unfolded encode_history_def]]) auto
  obtain added where a: "sb_ids v = sb_ids u @ added" "sb_pending v = styles_of added"
    using history_pass_ok(4) [OF u(3) p(1,2)] u(2) by auto
  have "wy_key w \<in> fst ` set added" using assms(3) p(3) a(2) by (force simp: styles_of_def)
  then show ?thesis using history_pass_ok(6) [OF u(3) p(1,2)] u(1) a(1) by (auto simp: table_keys_def)
qed

section \<open>Properties\<close>

definition sample_style :: "terminal_color \<Rightarrow> terminal_style" where
  "sample_style fg = \<lparr>st_foreground = fg, st_background = DefaultColor, st_underline_color = DefaultColor,
     st_underline = UlNone, st_bold = False, st_italic = False, st_faint = False, st_blink = False, st_inverse = False,
     st_invisible = False, st_strikethrough = False, st_overline = False\<rparr>"

definition sample_cell :: "nat \<Rightarrow> terminal_cell" where
  "sample_cell i = \<lparr>cell_text = [120], cell_width = 1,
     cell_style = sample_style (Rgb (word_of_nat (i mod 256)) (word_of_nat (i div 256)) 0)\<rparr>"

definition sample_palette :: terminal_palette where
  "sample_palette = \<lparr>tp_foreground = None, tp_background = None, tp_cursor = None, tp_indexed = replicate 256 (0, 0, 0)\<rparr>"

text \<open>A gradient of \<open>n\<close> colours, ten to a row.\<close>

definition gradient :: "nat \<Rightarrow> terminal_history" where
  "gradient n = \<lparr>th_start = 0, th_cols = 10, th_cells = map sample_cell [0..<n], th_total = 60, th_scrollback = 36\<rparr>"

definition sample_key :: "nat \<Rightarrow> style_key" where
  "sample_key i = style_key_of (cell_style (sample_cell i)) sample_palette"

lemma sample_key_fg: "sk_fg (sample_key i) = Some (word_of_nat (i mod 256), word_of_nat (i div 256), 0)"
  by (simp add: sample_key_def style_key_of_def sample_cell_def sample_style_def)

lemma sample_key_not_default: "sample_key i \<noteq> style_key_default"
  using sample_key_fg [of i] by (auto simp: style_key_default_def)

lemma sample_key_inj: "inj_on sample_key {0..<65536}"
proof (rule inj_onI)
  fix i j
  assume ij: "i \<in> {0..<65536}" "j \<in> {0..<65536}" "sample_key i = sample_key j"
  have u: "unat (word_of_nat x :: u8) = x" if "x < 256" for x
    using that by (simp add: unat_of_nat take_bit_nat_eq_self)
  have "i div 256 < 256" "j div 256 < 256" using ij(1,2) by auto
  moreover have "(word_of_nat (i mod 256) :: u8) = word_of_nat (j mod 256)" "(word_of_nat (i div 256) :: u8) = word_of_nat (j div 256)"
    using sample_key_fg [of i] sample_key_fg [of j] ij(3) by auto
  ultimately have "i mod 256 = j mod 256" "i div 256 = j div 256"
    using u by (metis mod_less_divisor zero_less_numeral)+
  then show "i = j" by (metis mod_mult_div_eq)
qed

lemma gradient_keys: "history_keys (gradient n) sample_palette = sample_key ` {0..<n}"
proof -
  have "concat (history_rows (gradient n)) = map sample_cell [0..<n]"
    by (simp add: history_rows_def gradient_def concat_cell_chunks)
  then show ?thesis
    using sample_key_not_default by (auto simp: history_keys_def cell_keys_def image_image sample_key_def)
qed

lemma gradient_keys_card:
  assumes "n \<le> 65536"
  shows "card (history_keys (gradient n) sample_palette) = n"
  using card_image [OF inj_on_subset [OF sample_key_inj, of "{0..<n}"]] assms by (simp add: gradient_keys)

lemma style_table_default_ok: "table_ok style_table_default"
  by (simp add: table_ok_def style_table_default_def)

text \<open>
  C22. Encoding scrollback for the client returns exactly when the rows use at most 512 distinct
  non-default styles.  With one more the style table restarts in every pass, its cap is lifted
  again before the next one, and the loop never ends.
\<close>

theorem encode_history_returns_iff:
  assumes "table_ok t"
  shows "(\<exists>r. encode_history h t palette = Some r) \<longleftrightarrow> card (history_keys h palette) \<le> 512"
  using history_loop_Some [of h palette False t] history_loop_returns [OF assms, of h palette False] assms
  by (auto simp: encode_history_def STYLE_CAP_def)

theorem encode_history_returns_iff_witness:
  "encode_history (gradient 513) style_table_default sample_palette = None
    \<and> encode_history (gradient 512) style_table_default sample_palette \<noteq> None"
proof -
  have "\<not> (\<exists>r. encode_history (gradient 513) style_table_default sample_palette = Some r)"
    unfolding encode_history_returns_iff [OF style_table_default_ok] by (simp add: gradient_keys_card)
  moreover have "\<exists>r. encode_history (gradient 512) style_table_default sample_palette = Some r"
    unfolding encode_history_returns_iff [OF style_table_default_ok] by (simp add: gradient_keys_card)
  ultimately show ?thesis by (metis not_Some_eq)
qed

text \<open>
  What the client paints is what the engine holds: when a scrollback read is encoded for a
  client that knows every style of the table, then after the announced reset and the sent
  styles every cell of the rows resolves to its text, width and style, and the client again
  knows every style of the table.
\<close>

theorem history_styles_resolve:
  assumes "table_ok t" "sb_pending t = []" "client_knows c t" "encode_history h t palette = Some (rows, sent, reset, t')"
  shows "map (\<lambda>r. map (client_cell (client_after c reset sent)) (wr_cells r)) rows
      = map (map (shown_cell palette)) (history_rows h)
    \<and> table_ok t' \<and> sb_pending t' = [] \<and> client_knows (client_after c reset sent) t'"
  using encode_history_client [OF assms] rows_shown_client by blast

theorem history_styles_resolve_witness:
  "\<exists>rows sent reset t'. encode_history (gradient 3) style_table_default sample_palette = Some (rows, sent, reset, t')
    \<and> client_knows (client_after Map.empty reset sent) t'"
proof -
  have "card (history_keys (gradient 3) sample_palette) \<le> STYLE_CAP" by (simp add: gradient_keys_card STYLE_CAP_def)
  then obtain rows sent reset t' where r: "encode_history (gradient 3) style_table_default sample_palette = Some (rows, sent, reset, t')"
    using history_loop_returns [OF style_table_default_ok, of "gradient 3" sample_palette False] unfolding encode_history_def by auto
  have "sb_pending style_table_default = []" "client_knows Map.empty style_table_default"
    by (simp_all add: style_table_default_def client_knows_def)
  from history_styles_resolve [OF style_table_default_ok this r] r show ?thesis by blast
qed

end
