(* ===== verification/Client_Frames.thy ===== *)
theory Client_Frames
  imports Client_Wire
begin

text \<open>
  Live frames for the browser client: \<open>Sent::diff\<close> of \<^verbatim>\<open>client/server/src/wire.rs\<close>, which sends
  only what changed since the last frame, and the client's side of the contract
  (\<^verbatim>\<open>client/web/terminal.js\<close>): \<open>ready\<close> forgets the styles, \<open>styles\<close> adds some, \<open>frame\<close> replaces
  whole rows, and a row keeps its style identifiers until it is painted.
\<close>

section \<open>Messages\<close>

type_synonym wire_cells = "(rust_str \<times> u8 \<times> u32) list"

record wire_cursor =
  wc_col :: u16
  wc_row :: u16
  wc_visible :: bool

text \<open>The messages of the server without their constant version; a palette is copied field by field.\<close>

datatype server_message =
    MsgReady u16 u16 terminal_palette
  | MsgStyles "wire_style list"
  | MsgModes bool bool bool string string
  | MsgFrame u64 wire_cursor "wire_row list" u64 u64
  | MsgHistory u64 "wire_row list" u64 u64
  | MsgExit "i32 option"
  | MsgError rust_str

fun wire_mouse :: "mouse_tracking \<Rightarrow> string" where
  "wire_mouse MtNone = ''none''"
| "wire_mouse MtPress = ''press''"
| "wire_mouse MtPressRelease = ''press_release''"
| "wire_mouse MtButtonMotion = ''button_motion''"
| "wire_mouse MtAnyMotion = ''any_motion''"

fun wire_mouse_encoding :: "mouse_encoding \<Rightarrow> string" where
  "wire_mouse_encoding MeLegacy = ''legacy''"
| "wire_mouse_encoding MeSgr = ''sgr''"

section \<open>What was sent\<close>

record sent =
  sn_rows :: "terminal_cell list list"
  sn_size :: "(u16 \<times> u16) option"
  sn_palette :: "terminal_palette option"
  sn_modes :: "terminal_modes option"
  sn_cursor :: "terminal_cursor option"
  sn_totals :: "(u64 \<times> u64) option"
  sn_seq :: u64

definition sent_default :: sent where
  "sent_default = \<lparr>sn_rows = [], sn_size = None, sn_palette = None, sn_modes = None, sn_cursor = None,
     sn_totals = None, sn_seq = 0\<rparr>"

text \<open>One pass over the rows \<open>ys\<close>: the changed rows, the rows now remembered, the table.\<close>

fun diff_rows :: "terminal_palette \<Rightarrow> nat \<Rightarrow> terminal_cell list \<Rightarrow> nat list \<Rightarrow> terminal_cell list list \<Rightarrow> style_table
    \<Rightarrow> wire_row list \<times> terminal_cell list list \<times> style_table" where
  "diff_rows palette cols cells [] kept t = ([], kept, t)"
| "diff_rows palette cols cells (y # ys) kept t =
     (if y * cols + cols > length cells then ([], kept, t)
      else
        let row = take cols (drop (y * cols) cells) in
        if kept ! y = row then diff_rows palette cols cells ys kept t
        else
          let (encoded, t) = encode_row row palette t;
              (rest, kept, t) = diff_rows palette cols cells ys (kept[y := row]) t
          in (encoded\<lparr>wr_y := word_of_nat y\<rparr> # rest, kept, t))"

partial_function (option) diff_loop ::
  "terminal_view \<Rightarrow> bool \<Rightarrow> terminal_cell list list \<Rightarrow> style_table
    \<Rightarrow> (wire_row list \<times> bool \<times> terminal_cell list list \<times> style_table) option" where
  "diff_loop v style_reset kept t =
     (let rows = unat (ts_rows (tv_size v)); cols = unat (ts_cols (tv_size v));
          (changed, kept, t) = diff_rows (tv_palette v) cols (tv_cells v) [0..<rows] kept (begin_encode t);
          (restarted, t) = take_restarted t
      in if \<not> restarted then Some (changed, style_reset, kept, t)
         else diff_loop v True (replicate rows []) (styles_clear t))"

text \<open>The part before the rows: geometry or palette changes announce a new \<open>ready\<close> and forget
  everything, then the modes.\<close>

definition diff_ready :: "terminal_view \<Rightarrow> sent \<Rightarrow> style_table \<Rightarrow> server_message list \<times> sent \<times> style_table" where
  "diff_ready v s t =
     (let size = (ts_cols (tv_size v), ts_rows (tv_size v)) in
      if sn_palette s \<noteq> Some (tv_palette v) \<or> sn_size s \<noteq> Some size
      then ([MsgReady (fst size) (snd size) (tv_palette v)],
            s\<lparr>sn_palette := Some (tv_palette v), sn_size := Some size, sn_rows := []\<rparr>, styles_clear t)
      else ([], s, t))"

definition diff_modes :: "terminal_view \<Rightarrow> sent \<Rightarrow> server_message list \<times> sent" where
  "diff_modes v s =
     (let m = tv_modes v in
      if sn_modes s \<noteq> Some m
      then ([MsgModes (tm_alternate_screen m) (tm_bracketed_paste m) (tm_application_cursor m)
              (wire_mouse (tm_mouse m)) (wire_mouse_encoding (tm_mouse_encoding m))], s\<lparr>sn_modes := Some m\<rparr>)
      else ([], s))"

definition diff_geometry :: "terminal_view \<Rightarrow> sent \<Rightarrow> sent" where
  "diff_geometry v s =
     (let rows = unat (ts_rows (tv_size v)); cols = unat (ts_cols (tv_size v)) in
      if length (sn_rows s) \<noteq> rows \<or> (sn_rows s \<noteq> [] \<and> length (hd (sn_rows s)) \<noteq> cols)
      then s\<lparr>sn_rows := replicate rows []\<rparr> else s)"

definition wire_cursor_of :: "terminal_cursor \<Rightarrow> wire_cursor" where
  "wire_cursor_of cursor = \<lparr>wc_col = cur_col cursor, wc_row = cur_row cursor, wc_visible = cur_visible cursor\<rparr>"

definition diff_frame :: "terminal_view \<Rightarrow> wire_row list \<Rightarrow> u64 \<Rightarrow> u64 \<Rightarrow> sent \<Rightarrow> server_message list \<times> sent" where
  "diff_frame v changed entire scrollback s =
     (let cursor = tv_cursor v;
          cursor_moved = sn_cursor s \<noteq> Some cursor;
          totals_moved = sn_totals s \<noteq> Some (entire, scrollback);
          s = s\<lparr>sn_cursor := Some cursor, sn_totals := Some (entire, scrollback)\<rparr>
      in if changed \<noteq> [] \<or> cursor_moved \<or> totals_moved \<or> sn_seq s = 0
         then ([MsgFrame (sn_seq s + 1) (wire_cursor_of cursor) changed entire scrollback], s\<lparr>sn_seq := sn_seq s + 1\<rparr>)
         else ([], s))"

definition sent_diff ::
  "terminal_view \<Rightarrow> style_table \<Rightarrow> u64 \<Rightarrow> u64 \<Rightarrow> sent \<Rightarrow> (server_message list \<times> sent \<times> style_table) option" where
  "sent_diff v t entire scrollback s =
     (case diff_ready v s t of (ready, s, t) \<Rightarrow>
      case diff_modes v s of (modes, s) \<Rightarrow>
      let s = diff_geometry v s in
      case diff_loop v False (sn_rows s) t of
        None \<Rightarrow> None
      | Some (changed, style_reset, kept, t) \<Rightarrow>
          let s = s\<lparr>sn_rows := kept\<rparr>;
              again = (if style_reset \<and> ready = []
                       then [MsgReady (ts_cols (tv_size v)) (ts_rows (tv_size v)) (tv_palette v)] else []) in
          case take_pending t of (pending, t) \<Rightarrow>
          case diff_frame v changed entire scrollback s of (frame, s) \<Rightarrow>
            Some (ready @ modes @ again @ (if pending = [] then [] else [MsgStyles pending]) @ frame, s, t))"

section \<open>The client\<close>

text \<open>
  What the page's script (\<^verbatim>\<open>client/web/terminal.js\<close>, \<open>socket.onmessage\<close> and \<open>adaptLines\<close>) keeps of
  the messages in order to paint: the style table, the grid and its size, the cursor and the
  totals.  A \<open>ready\<close> replaces the style table and, when it changes the size, cuts the grid to it.
  The scrollback overlay, the modes the keyboard uses, and the socket, which the script closes
  after an exit or an error, are not part of the picture.
\<close>

record browser =
  br_size :: "u16 \<times> u16"
  br_styles :: client_styles
  br_rows :: "nat \<Rightarrow> wire_cells"
  br_cursor :: "wire_cursor option"
  br_totals :: "(u64 \<times> u64) option"

fun put_rows :: "wire_row list \<Rightarrow> (nat \<Rightarrow> wire_cells) \<Rightarrow> nat \<Rightarrow> wire_cells" where
  "put_rows [] f = f"
| "put_rows (r # rs) f = put_rows rs (f(unat (wr_y r) := wr_cells r))"

definition adapt_lines :: "(nat \<Rightarrow> wire_cells) \<Rightarrow> u16 \<Rightarrow> u16 \<Rightarrow> nat \<Rightarrow> wire_cells" where
  "adapt_lines lines cols rows y = (if y < unat rows then take (unat cols) (lines y) else [])"

fun browser_message :: "browser \<Rightarrow> server_message \<Rightarrow> browser" where
  "browser_message b (MsgReady cols rows palette) =
     b\<lparr>br_styles := Map.empty, br_size := (cols, rows),
       br_rows := (if br_size b = (cols, rows) then br_rows b else adapt_lines (br_rows b) cols rows)\<rparr>"
| "browser_message b (MsgStyles styles) = b\<lparr>br_styles := client_after (br_styles b) False styles\<rparr>"
| "browser_message b (MsgModes _ _ _ _ _) = b"
| "browser_message b (MsgFrame seq cursor rows entire scrollback) =
     b\<lparr>br_cursor := Some cursor, br_totals := Some (entire, scrollback), br_rows := put_rows rows (br_rows b)\<rparr>"
| "browser_message b (MsgHistory start rows entire scrollback) = b\<lparr>br_totals := Some (entire, scrollback)\<rparr>"
| "browser_message b (MsgExit status) = b"
| "browser_message b (MsgError message) = b"

definition browser_run :: "browser \<Rightarrow> server_message list \<Rightarrow> browser" where
  "browser_run b ms = foldl browser_message b ms"

definition painted_row :: "browser \<Rightarrow> nat \<Rightarrow> (rust_str \<times> u8 \<times> style_key option) list" where
  "painted_row b y = map (client_cell (br_styles b)) (br_rows b y)"

definition view_row :: "terminal_view \<Rightarrow> nat \<Rightarrow> terminal_cell list" where
  "view_row v y = (let cols = unat (ts_cols (tv_size v)) in take cols (drop (y * cols) (tv_cells v)))"

section \<open>One pass over the screen\<close>

definition shown_rows :: "terminal_palette \<Rightarrow> style_table \<Rightarrow> terminal_cell list list \<Rightarrow> (nat \<Rightarrow> wire_cells) \<Rightarrow> bool" where
  "shown_rows palette t kept f \<longleftrightarrow>
     (\<forall>y<length kept. kept ! y \<noteq> [] \<longrightarrow> list_all2 (cell_shown palette t) (kept ! y) (f y))"

lemma shown_rows_grows:
  "table_grows K t t' \<Longrightarrow> \<not> sb_restarted t' \<Longrightarrow> shown_rows palette t kept f \<Longrightarrow> shown_rows palette t' kept f"
  by (auto simp: shown_rows_def intro: cell_shown_grows)

lemma shown_rows_cong: "sb_ids t = sb_ids u \<Longrightarrow> shown_rows palette t kept f = shown_rows palette u kept f"
proof -
  assume "sb_ids t = sb_ids u"
  then have "cell_shown palette t = cell_shown palette u" by (intro ext) (simp add: cell_shown_def key_shown_def)
  then show ?thesis by (simp add: shown_rows_def)
qed

lemma shown_rows_update:
  assumes "shown_rows palette t kept f" "list_all2 (cell_shown palette t) row ws"
  shows "shown_rows palette t (kept[y := row]) (f(y := ws))"
proof -
  have "list_all2 (cell_shown palette t) (kept[y := row] ! z) ((f(y := ws)) z)"
    if "z < length kept" "kept[y := row] ! z \<noteq> []" for z
    using that assms by (cases "z = y") (auto simp: shown_rows_def)
  then show ?thesis by (simp add: shown_rows_def)
qed

lemma shown_rows_empty [simp]: "shown_rows palette t (replicate n []) f" "shown_rows palette t [] f"
  by (simp_all add: shown_rows_def)

lemma cell_keys_mono: "set xs \<subseteq> set ys \<Longrightarrow> cell_keys palette xs \<subseteq> cell_keys palette ys"
  by (auto simp: cell_keys_def)

definition rows_fit :: "nat \<Rightarrow> terminal_cell list \<Rightarrow> nat list \<Rightarrow> terminal_cell list list \<Rightarrow> bool" where
  "rows_fit cols cells ys kept \<longleftrightarrow> distinct ys \<and> (\<forall>y\<in>set ys. y < length kept \<and> y < 65536 \<and> y * cols + cols \<le> length cells)"

definition pass_result ::
  "terminal_palette \<Rightarrow> nat \<Rightarrow> terminal_cell list \<Rightarrow> nat list \<Rightarrow> terminal_cell list list \<Rightarrow> style_table
    \<Rightarrow> wire_row list \<times> terminal_cell list list \<times> style_table \<Rightarrow> bool" where
  "pass_result palette cols cells ys kept t r \<longleftrightarrow>
     (case r of (changed, kept', t') \<Rightarrow>
        (\<exists>K. K \<subseteq> cell_keys palette cells \<and> table_grows K t t') \<and> length kept' = length kept
        \<and> (\<forall>y. y \<notin> set ys \<longrightarrow> kept' ! y = kept ! y)
        \<and> (\<forall>y\<in>set ys. kept' ! y = take cols (drop (y * cols) cells))
        \<and> (\<forall>f. \<not> sb_restarted t' \<longrightarrow> shown_rows palette t kept f \<longrightarrow> shown_rows palette t' kept' (put_rows changed f)))"

lemma pass_result_skip:
  assumes "pass_result palette cols cells ys kept t r" "kept ! y = take cols (drop (y * cols) cells)" "y \<notin> set ys"
  shows "pass_result palette cols cells (y # ys) kept t r"
  using assms unfolding pass_result_def by (cases r) auto

lemma pass_result_row:
  assumes "table_ok t" "encode_cells palette row t = (ws, u)" "row = take cols (drop (y * cols) cells)"
    "pass_result palette cols cells ys (kept[y := row]) u (changed, kept', t')" "y \<notin> set ys" "y < length kept" "y < 65536"
  shows "pass_result palette cols cells (y # ys) kept t (\<lparr>wr_y = word_of_nat y, wr_cells = ws\<rparr> # changed, kept', t')"
proof -
  note one = encode_cells_ok [OF assms(1,2)]
  obtain K where K: "K \<subseteq> cell_keys palette cells" "table_grows K u t'" using assms(4) by (auto simp: pass_result_def)
  have row: "cell_keys palette row \<subseteq> cell_keys palette cells"
    by (rule cell_keys_mono) (use assms(3) in \<open>auto dest: in_set_takeD in_set_dropD\<close>)
  have "finite K" using K(1) finite_cell_keys by (rule finite_subset)
  then have grows: "table_grows (cell_keys palette row \<union> K) t t'"
    using table_grows_trans [OF conjunct1 [OF one] K(2)] by simp
  have y: "unat (word_of_nat y :: u16) = y" using assms(7) by (simp add: unat_of_nat take_bit_nat_eq_self)
  have shown: "shown_rows palette t' kept' (put_rows changed (f(y := ws)))"
    if "\<not> sb_restarted t'" "shown_rows palette t kept f" for f
  proof -
    have u: "\<not> sb_restarted u" using K(2) that(1) by (auto simp: table_grows_def)
    have "shown_rows palette u kept f" by (rule shown_rows_grows [OF conjunct1 [OF one] u that(2)])
    then have "shown_rows palette u (kept[y := row]) (f(y := ws))" using one u by (auto intro: shown_rows_update)
    then show ?thesis using assms(4) that(1) by (auto simp: pass_result_def)
  qed
  have "\<exists>K. K \<subseteq> cell_keys palette cells \<and> table_grows K t t'"
    by (rule exI [of _ "cell_keys palette row \<union> K"]) (use grows row K(1) in simp)
  moreover have kept: "length kept' = length kept" "\<And>z. z \<notin> set ys \<Longrightarrow> kept' ! z = kept[y := row] ! z"
    "\<And>z. z \<in> set ys \<Longrightarrow> kept' ! z = take cols (drop (z * cols) cells)"
    using assms(4) by (simp_all add: pass_result_def)
  moreover have "kept' ! z = kept ! z" if "z \<notin> set (y # ys)" for z using kept(2) [of z] that by simp
  moreover have "kept' ! z = take cols (drop (z * cols) cells)" if "z \<in> set (y # ys)" for z
    using kept(2,3) [of z] that assms(3,5,6) by (cases "z = y") simp_all
  ultimately show ?thesis
    unfolding pass_result_def prod.case put_rows.simps wire_row.simps y using shown by blast
qed

lemma diff_rows_ok:
  assumes "table_ok t" "rows_fit cols cells ys kept"
  shows "pass_result palette cols cells ys kept t (diff_rows palette cols cells ys kept t)"
  using assms
proof (induction ys arbitrary: kept t)
  case Nil
  then show ?case using table_grows_refl [of t] by (auto simp: pass_result_def)
next
  case (Cons y ys)
  let ?row = "take cols (drop (y * cols) cells)"
  have fit: "y * cols + cols \<le> length cells" "y < length kept" "y < 65536" "y \<notin> set ys"
    "rows_fit cols cells ys kept" "rows_fit cols cells ys (kept[y := ?row])"
    using Cons.prems(2) by (auto simp: rows_fit_def)
  show ?case
  proof (cases "kept ! y = ?row")
    case True
    then show ?thesis using pass_result_skip [OF Cons.IH [OF Cons.prems(1) fit(5)] True fit(4)] fit(1) by simp
  next
    case False
    obtain ws u where w: "encode_cells palette ?row t = (ws, u)" by force
    have u: "table_ok u" using encode_cells_ok [OF Cons.prems(1) w] by (simp add: table_grows_def)
    obtain changed kept' t' where r: "diff_rows palette cols cells ys (kept[y := ?row]) u = (changed, kept', t')"
      by (cases "diff_rows palette cols cells ys (kept[y := ?row]) u") auto
    have "pass_result palette cols cells (y # ys) kept t (\<lparr>wr_y = word_of_nat y, wr_cells = ws\<rparr> # changed, kept', t')"
      by (rule pass_result_row [OF Cons.prems(1) w refl _ fit(4,2,3)]) (use Cons.IH [OF u fit(6)] r in simp)
    then show ?thesis using False fit(1) w r by (simp add: encode_row_def)
  qed
qed

section \<open>The loop\<close>

definition view_ok :: "terminal_view \<Rightarrow> bool" where
  "view_ok v \<longleftrightarrow> ts_cols (tv_size v) > 0
     \<and> length (tv_cells v) = unat (ts_rows (tv_size v)) * unat (ts_cols (tv_size v))"

definition screen_pass :: "terminal_view \<Rightarrow> terminal_cell list list \<Rightarrow> style_table
    \<Rightarrow> wire_row list \<times> terminal_cell list list \<times> style_table" where
  "screen_pass v kept t =
     diff_rows (tv_palette v) (unat (ts_cols (tv_size v))) (tv_cells v) [0..<unat (ts_rows (tv_size v))] kept (begin_encode t)"

definition screen_keys :: "terminal_view \<Rightarrow> style_key set" where
  "screen_keys v = cell_keys (tv_palette v) (tv_cells v)"

lemma diff_loop_step:
  "diff_loop v style_reset kept t =
     (case screen_pass v kept t of (changed, kept', u) \<Rightarrow>
        if sb_restarted u then diff_loop v True (replicate (unat (ts_rows (tv_size v))) []) (styles_clear u)
        else Some (changed, style_reset, kept', u\<lparr>sb_restarted := False\<rparr>))"
proof -
  have clear: "styles_clear (u\<lparr>sb_restarted := False\<rparr>) = styles_clear u" for u by (simp add: styles_clear_def)
  show ?thesis
    by (subst diff_loop.simps) (auto simp: screen_pass_def take_restarted_def clear Let_def split: prod.splits)
qed

lemma view_rows_fit:
  assumes "view_ok v" "length kept = unat (ts_rows (tv_size v))"
  shows "rows_fit (unat (ts_cols (tv_size v))) (tv_cells v) [0..<unat (ts_rows (tv_size v))] kept"
proof -
  let ?r = "unat (ts_rows (tv_size v))" and ?c = "unat (ts_cols (tv_size v))"
  have "?r < 65536" using unsigned_less [of "ts_rows (tv_size v)"] by simp
  moreover have "y * ?c + ?c \<le> ?r * ?c" if "y < ?r" for y
  proof -
    have "Suc y * ?c \<le> ?r * ?c" using that by (intro mult_le_mono1) simp
    then show ?thesis by simp
  qed
  ultimately show ?thesis using assms by (auto simp: rows_fit_def view_ok_def)
qed

lemma screen_pass_ok:
  assumes "view_ok v" "length kept = unat (ts_rows (tv_size v))" "table_ok t" "screen_pass v kept t = (changed, kept', u)"
  shows "table_ok u" "length kept' = length kept" "\<And>y. y < length kept \<Longrightarrow> kept' ! y = view_row v y"
    "card (table_keys t \<union> screen_keys v) \<le> STYLE_CAP \<Longrightarrow> \<not> sb_restarted u"
    "\<not> sb_restarted u \<Longrightarrow> \<exists>added. sb_ids u = sb_ids t @ added \<and> sb_pending u = sb_pending t @ styles_of added"
    "\<not> sb_restarted u \<Longrightarrow> shown_rows (tv_palette v) t kept f \<Longrightarrow> shown_rows (tv_palette v) u kept' (put_rows changed f)"
    "\<not> sb_restarted u \<Longrightarrow> table_keys u \<subseteq> table_keys t \<union> screen_keys v"
proof -
  let ?c = "unat (ts_cols (tv_size v))"
  have r: "pass_result (tv_palette v) ?c (tv_cells v) [0..<unat (ts_rows (tv_size v))] kept (begin_encode t) (changed, kept', u)"
    using diff_rows_ok [OF begin_encode_ok(1) [OF assms(3)] view_rows_fit [OF assms(1,2)], of "tv_palette v"] assms(4)
    by (simp add: screen_pass_def)
  then obtain K where K: "K \<subseteq> screen_keys v" "table_grows K (begin_encode t) u"
    by (auto simp: pass_result_def screen_keys_def)
  show "table_ok u" using K(2) by (simp add: table_grows_def)
  show "length kept' = length kept" "\<And>y. y < length kept \<Longrightarrow> kept' ! y = view_row v y"
    using r assms(2) by (auto simp: pass_result_def view_row_def Let_def)
  show "\<not> sb_restarted u" if "card (table_keys t \<union> screen_keys v) \<le> STYLE_CAP"
  proof -
    have "card (table_keys t \<union> K) \<le> card (table_keys t \<union> screen_keys v)"
      by (rule card_mono) (use K(1) in \<open>auto simp: screen_keys_def\<close>)
    then show ?thesis using K(2) that by (simp add: table_grows_def begin_encode_ok)
  qed
  show "\<exists>added. sb_ids u = sb_ids t @ added \<and> sb_pending u = sb_pending t @ styles_of added" if "\<not> sb_restarted u"
    using K(2) that by (auto simp: table_grows_def begin_encode_ok)
  show "table_keys u \<subseteq> table_keys t \<union> screen_keys v" if "\<not> sb_restarted u"
    using K that by (auto simp: table_grows_def begin_encode_ok)
  show "shown_rows (tv_palette v) u kept' (put_rows changed f)"
    if "\<not> sb_restarted u" "shown_rows (tv_palette v) t kept f"
  proof -
    have "shown_rows (tv_palette v) (begin_encode t) kept f"
      using that(2) shown_rows_cong [OF begin_encode_ok(3)] by simp
    then show ?thesis using r that(1) by (auto simp: pass_result_def)
  qed
qed

text \<open>The loop ends after one pass, or after a second one from an empty table.\<close>

lemma diff_loop_returns:
  assumes "view_ok v" "length kept = unat (ts_rows (tv_size v))" "table_ok t" "card (screen_keys v) \<le> STYLE_CAP"
  obtains changed reset kept' u t0 kept0 where
    "diff_loop v False kept t = Some (changed, reset, kept', u\<lparr>sb_restarted := False\<rparr>)"
    "screen_pass v kept0 t0 = (changed, kept', u)" "\<not> sb_restarted u" "table_ok t0" "length kept0 = length kept"
    "if reset then sb_ids t0 = [] \<and> sb_pending t0 = [] \<and> kept0 = replicate (length kept) [] else t0 = t \<and> kept0 = kept"
proof -
  obtain changed kept' u where p: "screen_pass v kept t = (changed, kept', u)" by (cases "screen_pass v kept t") auto
  show ?thesis
  proof (cases "sb_restarted u")
    case False
    then have "diff_loop v False kept t = Some (changed, False, kept', u\<lparr>sb_restarted := False\<rparr>)"
      by (subst diff_loop_step) (simp add: p)
    then show ?thesis by (rule that [of changed False kept' u kept t]) (use p False assms(3) in simp_all)
  next
    case True
    let ?empty = "replicate (unat (ts_rows (tv_size v))) []"
    obtain changed' kept'' w where q: "screen_pass v ?empty (styles_clear u) = (changed', kept'', w)"
      by (cases "screen_pass v ?empty (styles_clear u)") auto
    have "\<not> sb_restarted w"
      by (rule screen_pass_ok(4) [OF assms(1) _ styles_clear_ok(1) q]) (use assms(4) styles_clear_ok(2) in simp_all)
    moreover from this have "diff_loop v True ?empty (styles_clear u) = Some (changed', True, kept'', w\<lparr>sb_restarted := False\<rparr>)"
      by (subst diff_loop_step) (simp add: q)
    then have "diff_loop v False kept t = Some (changed', True, kept'', w\<lparr>sb_restarted := False\<rparr>)"
      by (subst diff_loop_step) (simp add: p True)
    ultimately show ?thesis
      by (intro that [of changed' True kept'' w ?empty "styles_clear u"])
        (use q assms(2) styles_clear_ok(1) in \<open>simp_all add: styles_clear_def\<close>)
  qed
qed

section \<open>Client and server in step\<close>

definition synced :: "browser \<Rightarrow> sent \<Rightarrow> style_table \<Rightarrow> bool" where
  "synced b s t \<longleftrightarrow> table_ok t \<and> sb_pending t = [] \<and> client_knows (br_styles b) t
     \<and> (\<forall>p. sn_palette s = Some p \<longrightarrow> shown_rows p t (sn_rows s) (br_rows b)) \<and> (sn_palette s = None \<longrightarrow> sn_rows s = [])
     \<and> (\<forall>c. sn_cursor s = Some c \<longrightarrow> br_cursor b = Some (wire_cursor_of c)) \<and> (\<forall>z. sn_size s = Some z \<longrightarrow> br_size b = z)"

lemma browser_run_simps [simp]:
  "browser_run b [] = b" "browser_run b (m # ms) = browser_run (browser_message b m) ms"
  "browser_run b (ms @ ns) = browser_run (browser_run b ms) ns"
  by (simp_all add: browser_run_def)

lemma diff_ready_synced:
  assumes "synced b s t" "diff_ready v s t = (ready, s', t')"
  shows "synced (browser_run b ready) s' t'" "sn_palette s' = Some (tv_palette v)"
    "ready = [] \<or> br_styles (browser_run b ready) = Map.empty"
    "sn_size s' = Some (ts_cols (tv_size v), ts_rows (tv_size v))" "table_keys t' \<subseteq> table_keys t"
proof -
  let ?size = "(ts_cols (tv_size v), ts_rows (tv_size v))"
  let ?s = "s\<lparr>sn_palette := Some (tv_palette v), sn_size := Some ?size, sn_rows := []\<rparr>"
  have "synced (browser_run b ready) s' t' \<and> sn_palette s' = Some (tv_palette v)
    \<and> (ready = [] \<or> br_styles (browser_run b ready) = Map.empty)
    \<and> sn_size s' = Some ?size \<and> table_keys t' \<subseteq> table_keys t"
  proof (cases "sn_palette s \<noteq> Some (tv_palette v) \<or> sn_size s \<noteq> Some ?size")
    case True
    then have r: "ready = [MsgReady (fst ?size) (snd ?size) (tv_palette v)]" "s' = ?s" "t' = styles_clear t"
      using assms(2) by (simp_all add: diff_ready_def Let_def)
    have "client_knows Map.empty (styles_clear t)" by (simp add: client_knows_def styles_clear_def)
    then show ?thesis using assms(1) styles_clear_ok [of t] by (simp add: r synced_def)
  next
    case False
    then have "ready = []" "s' = s" "t' = t" using assms(2) by (simp_all add: diff_ready_def Let_def)
    then show ?thesis using assms(1) False by simp
  qed
  then show "synced (browser_run b ready) s' t'" "sn_palette s' = Some (tv_palette v)"
    "ready = [] \<or> br_styles (browser_run b ready) = Map.empty"
    "sn_size s' = Some ?size" "table_keys t' \<subseteq> table_keys t" by blast+
qed

lemma diff_modes_synced:
  assumes "synced b s t" "diff_modes v s = (modes, s')"
  shows "synced b s' t" "browser_run b modes = b" "sn_palette s' = sn_palette s" "sn_size s' = sn_size s"
proof -
  have m: "s' = s \<and> modes = [] \<or> s' = s\<lparr>sn_modes := Some (tv_modes v)\<rparr> \<and> browser_run b modes = b"
    using assms(2) by (auto simp: diff_modes_def Let_def split: if_splits)
  have "synced b (s\<lparr>sn_modes := x\<rparr>) t = synced b s t" for x by (simp add: synced_def)
  with m assms(1) show "synced b s' t" "browser_run b modes = b" "sn_palette s' = sn_palette s" "sn_size s' = sn_size s" by auto
qed

lemma diff_geometry_synced:
  assumes "synced b s t" "sn_palette s = Some p"
  shows "synced b (diff_geometry v s) t" "length (sn_rows (diff_geometry v s)) = unat (ts_rows (tv_size v))"
    "sn_palette (diff_geometry v s) = Some p" "sn_size (diff_geometry v s) = sn_size s"
  using assms by (simp_all add: diff_geometry_def synced_def Let_def)

lemma diff_frame_synced:
  assumes "diff_frame v changed entire scrollback s = (frame, s')"
    "\<forall>c. sn_cursor s = Some c \<longrightarrow> br_cursor b = Some (wire_cursor_of c)"
  shows "br_styles (browser_run b frame) = br_styles b" "br_rows (browser_run b frame) = put_rows changed (br_rows b)"
    "br_cursor (browser_run b frame) = Some (wire_cursor_of (tv_cursor v))" "br_size (browser_run b frame) = br_size b"
    "sn_cursor s' = Some (tv_cursor v)" "sn_rows s' = sn_rows s" "sn_palette s' = sn_palette s" "sn_size s' = sn_size s"
  using assms by (auto simp: diff_frame_def Let_def split: if_splits)

text \<open>The loop, as the client sees it: once it has forgotten its styles when it was told to, the
  pending styles complete what it knows and the changed rows complete what it shows.\<close>

lemma screen_update:
  assumes "synced b s t" "sn_palette s = Some (tv_palette v)" "length (sn_rows s) = unat (ts_rows (tv_size v))"
    "view_ok v" "card (screen_keys v) \<le> STYLE_CAP"
  obtains changed reset kept u where "diff_loop v False (sn_rows s) t = Some (changed, reset, kept, u)" "table_ok u"
    "client_knows (client_after (br_styles b) reset (sb_pending u)) u"
    "shown_rows (tv_palette v) u kept (put_rows changed (br_rows b))"
    "length kept = length (sn_rows s)" "\<And>y. y < length (sn_rows s) \<Longrightarrow> kept ! y = view_row v y"
    "table_keys u \<subseteq> table_keys t \<union> screen_keys v"
proof -
  have t: "table_ok t" "sb_pending t = []" "client_knows (br_styles b) t" "shown_rows (tv_palette v) t (sn_rows s) (br_rows b)"
    using assms(1,2) by (simp_all add: synced_def)
  obtain changed reset kept u t0 kept0 where l: "diff_loop v False (sn_rows s) t = Some (changed, reset, kept, u\<lparr>sb_restarted := False\<rparr>)"
    "screen_pass v kept0 t0 = (changed, kept, u)" "\<not> sb_restarted u" "table_ok t0" "length kept0 = length (sn_rows s)"
    "if reset then sb_ids t0 = [] \<and> sb_pending t0 = [] \<and> kept0 = replicate (length (sn_rows s)) [] else t0 = t \<and> kept0 = sn_rows s"
    by (rule diff_loop_returns [OF assms(4,3) t(1) assms(5)])
  note pass = screen_pass_ok [OF assms(4) l(5) [unfolded assms(3)] l(4) l(2)]
  let ?u = "u\<lparr>sb_restarted := False\<rparr>"
  obtain added where a: "sb_ids u = sb_ids t0 @ added" "sb_pending u = styles_of added"
    using pass(5) [OF l(3)] l(6) t(2) by (auto split: if_splits)
  have "\<forall>(k, i)\<in>set (sb_ids t0). (if reset then Map.empty else br_styles b) i = Some k"
    using l(6) t(3) by (auto simp: client_knows_def split: if_splits)
  then have "client_knows (client_after (br_styles b) reset (sb_pending u)) u"
    unfolding client_after_def a(2) by (rule client_knows_sent [OF pass(1) a(1)])
  then have known: "client_knows (client_after (br_styles b) reset (sb_pending ?u)) ?u" by (simp add: client_knows_def)
  have "shown_rows (tv_palette v) t0 kept0 (br_rows b)" using l(6) t(4) by (auto split: if_splits)
  then have "shown_rows (tv_palette v) u kept (put_rows changed (br_rows b))" by (rule pass(6) [OF l(3)])
  then have shown: "shown_rows (tv_palette v) ?u kept (put_rows changed (br_rows b))" using shown_rows_cong [of ?u u] by simp
  have "table_keys ?u \<subseteq> table_keys t \<union> screen_keys v"
    using pass(7) [OF l(3)] l(6) by (auto simp: table_keys_def split: if_splits)
  moreover have "table_ok ?u" using pass(1) l(3) by (auto simp: table_ok_def)
  ultimately show ?thesis by (intro that [OF l(1) _ known shown]) (use pass(2,3) l(5) in simp_all)
qed

lemma view_row_not_Nil:
  assumes "view_ok v" "y < unat (ts_rows (tv_size v))"
  shows "view_row v y \<noteq> []"
proof -
  have c: "0 < unat (ts_cols (tv_size v))" using assms(1) by (simp add: view_ok_def word_less_nat_alt)
  have "Suc y * unat (ts_cols (tv_size v)) \<le> length (tv_cells v)"
    using assms unfolding view_ok_def by (metis Suc_leI mult_le_mono1)
  then show ?thesis using c by (simp add: view_row_def Let_def)
qed

lemma rows_painted:
  assumes "table_ok t" "client_knows (br_styles b) t" "shown_rows (tv_palette v) t kept (br_rows b)" "y < length kept"
    "kept ! y = view_row v y" "view_row v y \<noteq> []"
  shows "painted_row b y = map (shown_cell (tv_palette v)) (view_row v y)"
proof -
  have "list_all2 (cell_shown (tv_palette v) t) (view_row v y) (br_rows b y)" using assms(3-6) by (auto simp: shown_rows_def)
  then show ?thesis unfolding painted_row_def by (rule cells_shown_client [OF assms(1,2)])
qed

section \<open>One frame\<close>

text \<open>The client shows the view \<open>v\<close>: the two sides are in step and the rows remembered are the view's.\<close>

definition in_view :: "browser \<Rightarrow> sent \<Rightarrow> style_table \<Rightarrow> terminal_view \<Rightarrow> bool" where
  "in_view b s t v \<longleftrightarrow> synced b s t \<and> view_ok v \<and> sn_palette s = Some (tv_palette v)
     \<and> sn_size s = Some (ts_cols (tv_size v), ts_rows (tv_size v)) \<and> sn_cursor s = Some (tv_cursor v)
     \<and> sn_rows s = map (view_row v) [0..<unat (ts_rows (tv_size v))]"

definition screen_painted :: "browser \<Rightarrow> terminal_view \<Rightarrow> bool" where
  "screen_painted b v \<longleftrightarrow>
     (\<forall>y<unat (ts_rows (tv_size v)). painted_row b y = map (shown_cell (tv_palette v)) (view_row v y))
     \<and> br_cursor b = Some (wire_cursor_of (tv_cursor v))"

lemma in_view_painted:
  assumes "in_view b s t v"
  shows "screen_painted b v"
proof -
  have i: "synced b s t" "view_ok v" "sn_palette s = Some (tv_palette v)" "sn_cursor s = Some (tv_cursor v)"
    and r: "sn_rows s = map (view_row v) [0..<unat (ts_rows (tv_size v))]"
    using assms by (simp_all add: in_view_def)
  then have t: "table_ok t" "client_knows (br_styles b) t" "shown_rows (tv_palette v) t (sn_rows s) (br_rows b)"
    by (simp_all add: synced_def)
  have "painted_row b y = map (shown_cell (tv_palette v)) (view_row v y)" if "y < unat (ts_rows (tv_size v))" for y
    by (rule rows_painted [OF t _ _ view_row_not_Nil [OF i(2) that]]) (use r that in simp_all)
  then show ?thesis using i(1,4) by (simp add: screen_painted_def synced_def)
qed

text \<open>Every cell on screen has its style in the table, under the identifier the client was given.\<close>

lemma in_view_cell_at:
  assumes "in_view b s t v" "y < unat (ts_rows (tv_size v))" "j < length (view_row v y)"
    "style_key_of (cell_style (view_row v y ! j)) (tv_palette v) \<noteq> style_key_default"
  obtains words width i where "length (br_rows b y) = length (view_row v y)"
    "br_rows b y ! j = (words, width, i)" "(style_key_of (cell_style (view_row v y ! j)) (tv_palette v), i) \<in> set (sb_ids t)" "i \<noteq> 0"
proof -
  have sync: "synced b s t" "sn_palette s = Some (tv_palette v)" "view_ok v"
    "sn_rows s = map (view_row v) [0..<unat (ts_rows (tv_size v))]" using assms(1) by (simp_all add: in_view_def)
  then have t: "table_ok t" "shown_rows (tv_palette v) t (sn_rows s) (br_rows b)" by (simp_all add: synced_def)
  have "sn_rows s ! y = view_row v y" "y < length (sn_rows s)" using sync(4) assms(2) by simp_all
  then have row: "list_all2 (cell_shown (tv_palette v) t) (view_row v y) (br_rows b y)"
    using t(2) view_row_not_Nil [OF sync(3) assms(2)] by (auto simp: shown_rows_def)
  obtain words width i where w: "br_rows b y ! j = (words, width, i)" by (cases "br_rows b y ! j") auto
  have "key_shown (style_key_of (cell_style (view_row v y ! j)) (tv_palette v)) i t"
    using list_all2_nthD [OF row assms(3)] w by (simp add: cell_shown_def)
  then have mem: "(style_key_of (cell_style (view_row v y ! j)) (tv_palette v), i) \<in> set (sb_ids t)"
    using assms(4) by (auto simp: key_shown_def dest: map_of_SomeD)
  then have "i \<noteq> 0" using table_ids_distinct(2) [OF t(1)] by (auto simp: image_iff)
  with that [OF list_all2_lengthD [OF row, symmetric] w mem] show ?thesis .
qed

lemma in_view_cell:
  assumes "in_view b s t v" "y < unat (ts_rows (tv_size v))" "c \<in> set (view_row v y)"
    "style_key_of (cell_style c) (tv_palette v) \<noteq> style_key_default"
  obtains i where "(style_key_of (cell_style c) (tv_palette v), i) \<in> set (sb_ids t)" "i \<noteq> 0"
proof -
  obtain j where j: "j < length (view_row v y)" "view_row v y ! j = c" using assms(3) by (auto simp: in_set_conv_nth)
  show thesis by (rule in_view_cell_at [OF assms(1,2) j(1)]) (use assms(4) j(2) that in auto)
qed

text \<open>
  One frame brings the client to the view: \<open>diff\<close> returns as long as the view uses at most 512
  distinct styles, and its messages leave client and server in step on it.
\<close>

lemma sent_diff_shows:
  assumes "synced b s t" "view_ok v" "card (screen_keys v) \<le> STYLE_CAP"
  obtains ms s' t' where "sent_diff v t entire scrollback s = Some (ms, s', t')" "in_view (browser_run b ms) s' t' v"
    "table_keys t' \<subseteq> table_keys t \<union> screen_keys v"
proof -
  obtain ready s1 t1 where r: "diff_ready v s t = (ready, s1, t1)" by (cases "diff_ready v s t") auto
  let ?b = "browser_run b ready"
  note one = diff_ready_synced [OF assms(1) r]
  obtain modes s2 where m: "diff_modes v s1 = (modes, s2)" by force
  note two = diff_modes_synced [OF one(1) m]
  define s3 where "s3 = diff_geometry v s2"
  have s3: "synced ?b s3 t1" "length (sn_rows s3) = unat (ts_rows (tv_size v))" "sn_palette s3 = Some (tv_palette v)"
    "sn_size s3 = Some (ts_cols (tv_size v), ts_rows (tv_size v))"
    using diff_geometry_synced [OF two(1), of "tv_palette v" v] two(3,4) one(2,4) by (simp_all add: s3_def)
  obtain changed reset kept u where l: "diff_loop v False (sn_rows s3) t1 = Some (changed, reset, kept, u)" "table_ok u"
    "client_knows (client_after (br_styles ?b) reset (sb_pending u)) u"
    "shown_rows (tv_palette v) u kept (put_rows changed (br_rows ?b))"
    "length kept = length (sn_rows s3)" "\<And>y. y < length (sn_rows s3) \<Longrightarrow> kept ! y = view_row v y"
    "table_keys u \<subseteq> table_keys t1 \<union> screen_keys v"
    by (rule screen_update [OF s3(1,3,2) assms(2,3)]) blast
  let ?again = "if reset \<and> ready = [] then [MsgReady (ts_cols (tv_size v)) (ts_rows (tv_size v)) (tv_palette v)] else []"
  let ?styles = "if sb_pending u = [] then [] else [MsgStyles (sb_pending u)]"
  let ?b3 = "browser_run (browser_run ?b ?again) ?styles"
  have b3: "br_rows ?b3 = br_rows ?b" "br_styles ?b3 = client_after (br_styles ?b) reset (sb_pending u)"
    "\<forall>c. sn_cursor s3 = Some c \<longrightarrow> br_cursor ?b3 = Some (wire_cursor_of c)"
    "br_size ?b3 = (ts_cols (tv_size v), ts_rows (tv_size v))"
    using one(3) s3(1,4) by (auto simp: client_after_def synced_def)
  obtain frame s4 where f: "diff_frame v changed entire scrollback (s3\<lparr>sn_rows := kept\<rparr>) = (frame, s4)" by force
  have fr: "br_styles (browser_run ?b3 frame) = br_styles ?b3" "br_rows (browser_run ?b3 frame) = put_rows changed (br_rows ?b3)"
    "br_cursor (browser_run ?b3 frame) = Some (wire_cursor_of (tv_cursor v))"
    "br_size (browser_run ?b3 frame) = (ts_cols (tv_size v), ts_rows (tv_size v))"
    "sn_cursor s4 = Some (tv_cursor v)" "sn_rows s4 = kept" "sn_palette s4 = Some (tv_palette v)"
    "sn_size s4 = Some (ts_cols (tv_size v), ts_rows (tv_size v))"
    using diff_frame_synced [OF f, of ?b3] b3(3,4) s3(3,4) by simp_all
  let ?t = "u\<lparr>sb_pending := []\<rparr>" and ?ms = "ready @ modes @ ?again @ ?styles @ frame"
  have run: "browser_run b ?ms = browser_run ?b3 frame" using two(2) by simp
  have t: "table_ok ?t" "client_knows (br_styles (browser_run ?b3 frame)) ?t"
    "shown_rows (tv_palette v) ?t kept (br_rows (browser_run ?b3 frame))"
    using l(2-4) fr(1,2) b3(1,2) shown_rows_cong [of ?t u] by (auto simp: table_ok_def client_knows_def)
  then have synced: "synced (browser_run ?b3 frame) s4 ?t" using fr(3-8) by (simp add: synced_def)
  have kept: "kept = map (view_row v) [0..<unat (ts_rows (tv_size v))]"
    using l(5,6) s3(2) by (intro nth_equalityI) simp_all
  show ?thesis
  proof (rule that)
    show "sent_diff v t entire scrollback s = Some (?ms, s4, ?t)"
      using r m l(1) f by (simp add: sent_diff_def s3_def take_pending_def Let_def)
    show "in_view (browser_run b ?ms) s4 ?t v"
      unfolding in_view_def run using synced assms(2) fr(5-8) kept by simp
    show "table_keys ?t \<subseteq> table_keys t \<union> screen_keys v"
      using l(7) one(5) by (auto simp: table_keys_def)
  qed
qed

text \<open>A scrollback read that does not reset the table keeps the client in step.\<close>

lemma history_keeps_view:
  assumes "synced b s t" "encode_history h t palette = Some (rows, styles, False, t')"
    "br_styles b' = client_after (br_styles b) False styles" "br_rows b' = br_rows b" "br_cursor b' = br_cursor b"
    "br_size b' = br_size b"
  shows "synced b' s t'" "in_view b s t v \<Longrightarrow> in_view b' s t' v"
proof -
  have t: "table_ok t" "sb_pending t = []" "client_knows (br_styles b) t" using assms(1) by (simp_all add: synced_def)
  note c = encode_history_client [OF t assms(2)]
  obtain added where ids: "sb_ids t' = sb_ids t @ added" using c(6) by auto
  have key: "key_shown k i t'" if "key_shown k i t" for k i
    using that ids by (auto simp: key_shown_def map_add_def)
  have "list_all2 (cell_shown p t') cs ws" if "list_all2 (cell_shown p t) cs ws" for p cs ws
    by (rule list_all2_mono [OF that]) (auto simp: cell_shown_def intro: key)
  then have "shown_rows p t' kept f" if "shown_rows p t kept f" for p kept f using that by (auto simp: shown_rows_def)
  then show synced: "synced b' s t'" using assms c(1-3) by (auto simp: synced_def)
  show "in_view b' s t' v" if "in_view b s t v" using that synced by (simp add: in_view_def)
qed

section \<open>A scrollback read that resets the table\<close>

lemma diff_rows_same:
  "\<forall>y\<in>set ys. kept ! y = take cols (drop (y * cols) cells) \<Longrightarrow> diff_rows palette cols cells ys kept t = ([], kept, t)"
  by (induction ys) auto

lemma sent_diff_same:
  assumes "sn_palette s = Some (tv_palette v)" "sn_size s = Some (ts_cols (tv_size v), ts_rows (tv_size v))"
    "sn_rows s = map (view_row v) [0..<unat (ts_rows (tv_size v))]" "view_ok v" "sb_pending t = []"
  shows "\<exists>ms s'. sent_diff v t entire scrollback s = Some (ms, s', begin_encode t)
    \<and> br_styles (browser_run b ms) = br_styles b \<and> br_rows (browser_run b ms) = br_rows b"
proof -
  obtain modes s1 where m: "diff_modes v s = (modes, s1)" by force
  have s1: "sn_rows s1 = sn_rows s" "browser_run b modes = b" using m by (auto simp: diff_modes_def Let_def split: if_splits)
  have "length (view_row v 0) = unat (ts_cols (tv_size v))" if "0 < unat (ts_rows (tv_size v))"
    using assms(4) that by (cases "unat (ts_rows (tv_size v))") (auto simp: view_row_def view_ok_def Let_def)
  moreover have "length (sn_rows s1) = unat (ts_rows (tv_size v))" using assms(3) s1(1) by simp
  moreover have "hd (sn_rows s1) = view_row v 0" if "0 < unat (ts_rows (tv_size v))"
    using assms(3) s1(1) that by (simp add: hd_map)
  ultimately have g: "diff_geometry v s1 = s1" by (cases "sn_rows s1") (simp_all add: diff_geometry_def Let_def)
  have "diff_rows (tv_palette v) (unat (ts_cols (tv_size v))) (tv_cells v) [0..<unat (ts_rows (tv_size v))] (sn_rows s1) (begin_encode t)
      = ([], sn_rows s1, begin_encode t)"
    by (rule diff_rows_same) (use assms(3) s1(1) in \<open>auto simp: view_row_def Let_def\<close>)
  moreover have "(begin_encode t)\<lparr>sb_restarted := False\<rparr> = begin_encode t" "(begin_encode t)\<lparr>sb_pending := []\<rparr> = begin_encode t"
    using assms(5) by (simp_all add: begin_encode_def)
  ultimately have l: "diff_loop v False (sn_rows s1) t = Some ([], False, sn_rows s1, begin_encode t)"
    by (subst diff_loop_step) (simp add: screen_pass_def begin_encode_ok)
  obtain frame s2 where f: "diff_frame v [] entire scrollback (s1\<lparr>sn_rows := sn_rows s1\<rparr>) = (frame, s2)" by force
  have "br_styles (browser_run b frame) = br_styles b" "br_rows (browser_run b frame) = br_rows b"
    using f by (auto simp: diff_frame_def Let_def split: if_splits)
  then show ?thesis
    using m g l f s1(2) assms(1,2,5) \<open>(begin_encode t)\<lparr>sb_pending := []\<rparr> = begin_encode t\<close>
    by (simp add: sent_diff_def diff_ready_def take_pending_def begin_encode_ok)
qed

text \<open>
  After a scrollback read that restarts the style table the live screen is painted with the
  wrong styles, and the next frame does not repair it: the client was told to forget its
  styles, was sent only those of the scrollback, and the rows on screen still carry the old
  identifiers, which the server believes to be shown correctly.
\<close>

definition sample_view :: terminal_view where
  "sample_view = \<lparr>tv_size = \<lparr>ts_cols = 2, ts_rows = 1\<rparr>,
     tv_cursor = \<lparr>cur_col = 1, cur_row = 0, cur_visible = True, cur_pending_wrap = False\<rparr>,
     tv_modes = \<lparr>tm_alternate_screen = False, tm_bracketed_paste = False, tm_application_cursor = False,
       tm_mouse = MtNone, tm_mouse_encoding = MeLegacy\<rparr>,
     tv_palette = sample_palette, tv_cells = [sample_cell 600, sample_cell 601]\<rparr>"

definition sample_browser :: browser where
  "sample_browser = \<lparr>br_size = (0, 0), br_styles = Map.empty, br_rows = \<lambda>_. [], br_cursor = None, br_totals = None\<rparr>"

lemma sample_view_keys: "screen_keys sample_view = {sample_key 600, sample_key 601}"
  using sample_key_not_default by (auto simp: screen_keys_def cell_keys_def sample_view_def sample_key_def)

lemma sample_view_ok: "view_ok sample_view" "card (screen_keys sample_view) \<le> STYLE_CAP"
  by (simp_all add: view_ok_def sample_view_def sample_view_keys [unfolded sample_view_def] STYLE_CAP_def card_insert_if)

lemma sample_synced: "synced sample_browser sent_default style_table_default"
proof -
  have "client_knows (br_styles sample_browser) style_table_default" "sb_pending style_table_default = []"
    by (simp_all add: client_knows_def style_table_default_def)
  then show ?thesis by (simp add: synced_def style_table_default_ok sent_default_def)
qed



end
