(* ===== verification/Client_Session.thy ===== *)
theory Client_Session
  imports Client_Frames Session_Values
begin

text \<open>
  One browser's session (\<^verbatim>\<open>client/server/src/session.rs\<close>): the loop that takes client commands, keeps
  one write to the process in flight, feeds the process's output to a terminal of its own and
  projects that terminal to the browser.

  The terminal is a record of functions on an abstract state, as in the coordinator.  One turn of
  the loop asks its environment for the next command, the outcome of the write and of the resize
  in flight, whether the process accepts a new one, the output that has arrived and the time;
  these answers are the fields of \<open>turn\<close>.  The channel to the browser refuses every message once
  its receiver is gone, which may happen after any message: \<open>ob_left\<close> is the number of messages
  it still takes.  The loops of \<open>encode_history\<close> and \<open>diff\<close> may not end, so a turn returns an option.
\<close>

section \<open>State\<close>

datatype client_command = CcInput bytes | CcResize u16 u16 | CcHistory u64 u16

datatype inbound = InCommand client_command | InEmpty | InDisconnected

record 'm screen =
  sg_feed :: "bytes \<Rightarrow> 'm \<Rightarrow> (terminal_error, bytes) result \<times> 'm"
  sg_resize :: "terminal_size \<Rightarrow> u64 \<Rightarrow> 'm \<Rightarrow> (terminal_error, unit) result \<times> 'm"
  sg_view :: "'m \<Rightarrow> (terminal_error, terminal_view) result \<times> 'm"
  sg_history :: "u64 \<Rightarrow> u16 \<Rightarrow> 'm \<Rightarrow> (terminal_error, terminal_history) result \<times> 'm"

record outbound =
  ob_sent :: "server_message list"
  ob_left :: nat

record 'm client_session =
  cs_size :: terminal_size
  cs_input_chunk :: nat
  cs_terminal :: 'm
  cs_sent :: sent
  cs_styles :: style_table
  cs_palette :: terminal_palette
  cs_pending_input :: bytes
  cs_writing :: "bytes option"
  cs_resizing :: bool
  cs_generation :: u64
  cs_next_frame :: duration
  cs_dirty :: bool
  cs_exited :: "i32 option option"
  cs_outbound :: outbound

record turn =
  tn_inbound :: inbound
  tn_resize :: "(runtime_error, unit) result"
  tn_written :: "write_outcome option"
  tn_write :: "(runtime_error, unit) result"
  tn_resized :: bool
  tn_output :: "(runtime_error, output_event) result list"
  tn_now :: duration

text \<open>What a step of the loop does next: go on, or leave the loop and release the session.\<close>

datatype 's flow = Go 's | Leave 's

fun flow_state :: "'s flow \<Rightarrow> 's" where
  "flow_state (Go s) = s"
| "flow_state (Leave s) = s"

fun flow_then :: "'s flow \<Rightarrow> ('s \<Rightarrow> 's flow option) \<Rightarrow> 's flow option" where
  "flow_then (Go s) f = f s"
| "flow_then (Leave s) f = Some (Leave s)"

definition FRAME_INTERVAL :: duration where "FRAME_INTERVAL = 16000000"

definition blank_palette :: terminal_palette where
  "blank_palette = \<lparr>tp_foreground = None, tp_background = None, tp_cursor = None, tp_indexed = replicate 256 (0, 0, 0)\<rparr>"

definition session_begin :: "terminal_size \<Rightarrow> nat \<Rightarrow> 'm \<Rightarrow> duration \<Rightarrow> outbound \<Rightarrow> 'm client_session" where
  "session_begin geometry chunk terminal now out =
     \<lparr>cs_size = geometry, cs_input_chunk = chunk, cs_terminal = terminal, cs_sent = sent_default,
      cs_styles = style_table_default, cs_palette = blank_palette,
      cs_pending_input = [], cs_writing = None, cs_resizing = False, cs_generation = 0, cs_next_frame = now,
      cs_dirty = True, cs_exited = None, cs_outbound = out\<rparr>"

section \<open>The channel to the browser\<close>

definition blocking_send :: "server_message \<Rightarrow> outbound \<Rightarrow> bool \<times> outbound" where
  "blocking_send m out =
     (if ob_left out = 0 then (False, out)
      else (True, out\<lparr>ob_sent := ob_sent out @ [m], ob_left := ob_left out - 1\<rparr>))"

definition session_send :: "server_message \<Rightarrow> 'm client_session \<Rightarrow> bool \<times> 'm client_session" where
  "session_send m s = (case blocking_send m (cs_outbound s) of (ok, out) \<Rightarrow> (ok, s\<lparr>cs_outbound := out\<rparr>))"

text \<open>\<open>fail\<close> reports and ignores whether anyone is listening.  The message is the constant part of
  its text; the error printed after it is not kept.\<close>

definition fail :: "string \<Rightarrow> 'm client_session \<Rightarrow> 'm client_session" where
  "fail message s = snd (session_send (MsgError (bstr message)) s)"

fun send_all :: "server_message list \<Rightarrow> 'm client_session \<Rightarrow> 'm client_session flow" where
  "send_all [] s = Go s"
| "send_all (m # ms) s =
     (case session_send m s of (ok, s) \<Rightarrow> if ok then send_all ms s else Leave s)"

section \<open>Commands\<close>

definition history_command :: "'m screen \<Rightarrow> u64 \<Rightarrow> u16 \<Rightarrow> 'm client_session \<Rightarrow> 'm client_session flow option" where
  "history_command sg start n s =
     (case sg_history sg start (min n 500) (cs_terminal s) of
        (Err e, m) \<Rightarrow> Some (Go (fail ''history unavailable: '' (s\<lparr>cs_terminal := m\<rparr>)))
      | (Ok h, m) \<Rightarrow>
          let s = s\<lparr>cs_terminal := m\<rparr> in
          (case encode_history h (cs_styles s) (cs_palette s) of
             None \<Rightarrow> None
           | Some (rows, pending, reset, t) \<Rightarrow>
               let s = s\<lparr>cs_styles := t\<rparr>;
                   s = (if reset then snd (session_send (MsgReady (ts_cols (cs_size s)) (ts_rows (cs_size s)) (cs_palette s)) s) else s);
                   s = (if pending \<noteq> [] then snd (session_send (MsgStyles pending) s) else s)
               in (case session_send (MsgHistory (th_start h) rows (th_total h) (th_scrollback h)) s of
                     (ok, s) \<Rightarrow> Some (if ok then Go s else Leave s))))"

definition resize_command ::
  "'m screen \<Rightarrow> (runtime_error, unit) result \<Rightarrow> u16 \<Rightarrow> u16 \<Rightarrow> 'm client_session \<Rightarrow> 'm client_session flow" where
  "resize_command sg answer cols rows s =
     (case terminal_size_new cols rows of
        Err e \<Rightarrow> Go s
      | Ok geometry \<Rightarrow>
          let s = s\<lparr>cs_generation := cs_generation s + 1\<rparr> in
          (case sg_resize sg geometry (cs_generation s) (cs_terminal s) of
             (Err e, m) \<Rightarrow> Leave (fail ''terminal resize failed'' (s\<lparr>cs_terminal := m\<rparr>))
           | (Ok _, m) \<Rightarrow>
               let s = s\<lparr>cs_terminal := m\<rparr> in
               (case answer of
                  Err e \<Rightarrow> Leave (fail ''session resize failed: '' s)
                | Ok _ \<Rightarrow> Go (s\<lparr>cs_resizing := True, cs_dirty := True\<rparr>))))"

fun take_command :: "'m screen \<Rightarrow> turn \<Rightarrow> 'm client_session \<Rightarrow> 'm client_session flow option" where
  "take_command sg tn s =
     (case tn_inbound tn of
        InCommand (CcInput bs) \<Rightarrow> Some (Go (s\<lparr>cs_pending_input := cs_pending_input s @ bs\<rparr>))
      | InCommand (CcResize cols rows) \<Rightarrow> Some (resize_command sg (tn_resize tn) cols rows s)
      | InCommand (CcHistory start n) \<Rightarrow> history_command sg start n s
      | InEmpty \<Rightarrow> Some (Go s)
      | InDisconnected \<Rightarrow> Some (Leave s))"

section \<open>Input to the process\<close>

definition settle_write :: "turn \<Rightarrow> 'm client_session \<Rightarrow> 'm client_session flow" where
  "settle_write tn s =
     (case (cs_writing s, tn_written tn) of
        (Some chunk, Some outcome) \<Rightarrow>
          let accepted = min (unat (wo_written outcome)) (length chunk);
              s = s\<lparr>cs_writing := None, cs_pending_input := drop accepted chunk @ cs_pending_input s\<rparr>
          in (case wo_error outcome of None \<Rightarrow> Go s | Some e \<Rightarrow> Leave (fail ''write failed: '' s))
      | _ \<Rightarrow> Go s)"

definition start_write :: "turn \<Rightarrow> 'm client_session \<Rightarrow> 'm client_session flow" where
  "start_write tn s =
     (if cs_writing s = None \<and> cs_pending_input s \<noteq> [] then
        let n = min (length (cs_pending_input s)) (cs_input_chunk s);
            bs = take n (cs_pending_input s);
            s = s\<lparr>cs_pending_input := drop n (cs_pending_input s)\<rparr>
        in (case tn_write tn of
              Ok _ \<Rightarrow> Go (s\<lparr>cs_writing := Some bs\<rparr>)
            | Err e \<Rightarrow> Leave (fail ''write failed: '' s))
      else Go s)"

definition settle_resize :: "turn \<Rightarrow> 'm client_session \<Rightarrow> 'm client_session" where
  "settle_resize tn s = (if cs_resizing s \<and> tn_resized tn then s\<lparr>cs_resizing := False\<rparr> else s)"

section \<open>Output of the process\<close>

fun feed_chunks :: "'m screen \<Rightarrow> bytes list \<Rightarrow> 'm client_session \<Rightarrow> 'm client_session flow" where
  "feed_chunks sg [] s = Go s"
| "feed_chunks sg (c # cs) s =
     (case sg_feed sg c (cs_terminal s) of
        (Ok effects, m) \<Rightarrow>
          feed_chunks sg cs (s\<lparr>cs_terminal := m, cs_pending_input := cs_pending_input s @ effects\<rparr>)
      | (Err e, m) \<Rightarrow> Leave (fail ''terminal rejected output'' (s\<lparr>cs_terminal := m\<rparr>)))"

text \<open>The answers of \<open>try_next\<close> until there is nothing more; the flag is \<open>fed\<close>.\<close>

fun take_output ::
  "'m screen \<Rightarrow> (runtime_error, output_event) result list \<Rightarrow> bool \<Rightarrow> 'm client_session \<Rightarrow> bool \<times> 'm client_session flow" where
  "take_output sg [] fed s = (fed, Go s)"
| "take_output sg (Inr (EvReplay (PageBytes f n bs)) # es) fed s =
     (case feed_chunks sg (cell_chunks 4096 bs) s of
        Leave s \<Rightarrow> (fed, Leave s)
      | Go s \<Rightarrow> take_output sg es True s)"
| "take_output sg (Inr (EvReplay (Gap f t)) # es) fed s =
     (fed, Leave (fail ''display fell behind the replay window'' s))"
| "take_output sg (Inr (EvComplete (Completion status)) # es) fed s =
     (fed, Go (s\<lparr>cs_exited := Some (case ss_exit status of Some (Code code) \<Rightarrow> Some code | _ \<Rightarrow> None)\<rparr>))"
| "take_output sg (Inr (EvReplay Pending) # es) fed s = (fed, Go s)"
| "take_output sg (Inl e # es) fed s = (fed, Leave (fail ''output failed: '' s))"

section \<open>Frames\<close>

definition project :: "'m screen \<Rightarrow> turn \<Rightarrow> 'm client_session \<Rightarrow> 'm client_session flow option" where
  "project sg tn s =
     (if cs_exited s \<noteq> None \<or> (cs_dirty s \<and> cs_next_frame s \<le> tn_now tn) then
        let s = s\<lparr>cs_next_frame := tn_now tn + FRAME_INTERVAL\<rparr> in
        case sg_view sg (cs_terminal s) of
          (Err e, m) \<Rightarrow> Some (Leave (fail ''projection failed: '' (s\<lparr>cs_terminal := m\<rparr>)))
        | (Ok view, m) \<Rightarrow>
            let s = s\<lparr>cs_dirty := False, cs_palette := tv_palette view\<rparr> in
            case sg_history sg (- 1) 0 m of (r, m) \<Rightarrow>
            let (entire, scrollback) = (case r of Ok counts \<Rightarrow> (th_total counts, th_scrollback counts) | Err e \<Rightarrow> (0, 0));
                s = s\<lparr>cs_terminal := m\<rparr> in
            (case sent_diff view (cs_styles s) entire scrollback (cs_sent s) of
               None \<Rightarrow> None
             | Some (ms, sent, t) \<Rightarrow> Some (send_all ms (s\<lparr>cs_sent := sent, cs_styles := t\<rparr>)))
      else Some (Go s))"

definition finish_turn :: "'m client_session \<Rightarrow> 'm client_session flow" where
  "finish_turn s =
     (case cs_exited s of
        Some status \<Rightarrow> Leave (snd (session_send (MsgExit status) s))
      | None \<Rightarrow> Go s)"

text \<open>One turn of the loop.\<close>

definition session_turn :: "'m screen \<Rightarrow> turn \<Rightarrow> 'm client_session \<Rightarrow> 'm client_session flow option" where
  "session_turn sg tn s =
     (case take_command sg tn s of
        None \<Rightarrow> None
      | Some f \<Rightarrow> flow_then f (\<lambda>s. flow_then (settle_write tn s) (\<lambda>s. flow_then (start_write tn s) (\<lambda>s.
          case take_output sg (tn_output tn) False (settle_resize tn s) of
            (fed, f) \<Rightarrow> flow_then f (\<lambda>s.
              case project sg tn (s\<lparr>cs_dirty := cs_dirty s \<or> fed\<rparr>) of
                None \<Rightarrow> None
              | Some f \<Rightarrow> flow_then f (\<lambda>s. Some (finish_turn s)))))))"

fun session_turns :: "'m screen \<Rightarrow> turn list \<Rightarrow> 'm client_session \<Rightarrow> 'm client_session flow option" where
  "session_turns sg [] s = Some (Go s)"
| "session_turns sg (tn # tns) s =
     (case session_turn sg tn s of
        None \<Rightarrow> None
      | Some f \<Rightarrow> flow_then f (session_turns sg tns))"

section \<open>The input stream\<close>

text \<open>What the server still owes the process: the chunk whose write is in flight, then the queue.\<close>

fun in_flight :: "bytes option \<Rightarrow> bytes" where
  "in_flight None = []"
| "in_flight (Some chunk) = chunk"

definition owed :: "'m client_session \<Rightarrow> bytes" where
  "owed s = in_flight (cs_writing s) @ cs_pending_input s"

lemma owed_upd [simp]: "owed (s\<lparr>cs_dirty := d\<rparr>) = owed s" "owed (s\<lparr>cs_resizing := d\<rparr>) = owed s"
  by (simp_all add: owed_def)

definition accepted :: "turn \<Rightarrow> 'm client_session \<Rightarrow> bytes" where
  "accepted tn s =
     (case (cs_writing s, tn_written tn) of
        (Some chunk, Some outcome) \<Rightarrow> take (unat (wo_written outcome)) chunk
      | _ \<Rightarrow> [])"

definition typed :: "turn \<Rightarrow> bytes" where
  "typed tn = (case tn_inbound tn of InCommand (CcInput bs) \<Rightarrow> bs | _ \<Rightarrow> [])"

text \<open>The terminal's own answers to the output it is fed.\<close>

fun chunk_replies :: "'m screen \<Rightarrow> bytes list \<Rightarrow> 'm \<Rightarrow> bytes \<times> 'm" where
  "chunk_replies sg [] m = ([], m)"
| "chunk_replies sg (c # cs) m =
     (case sg_feed sg c m of
        (Ok effects, m) \<Rightarrow> (case chunk_replies sg cs m of (bs, m) \<Rightarrow> (effects @ bs, m))
      | (Err e, m) \<Rightarrow> ([], m))"

fun output_replies :: "'m screen \<Rightarrow> (runtime_error, output_event) result list \<Rightarrow> 'm \<Rightarrow> bytes" where
  "output_replies sg (Inr (EvReplay (PageBytes f n bs)) # es) m =
     (case chunk_replies sg (cell_chunks 4096 bs) m of (out, m) \<Rightarrow> out @ output_replies sg es m)"
| "output_replies sg es m = []"

definition turn_replies :: "'m screen \<Rightarrow> turn \<Rightarrow> 'm client_session \<Rightarrow> bytes" where
  "turn_replies sg tn s =
     (case take_command sg tn s of Some (Go s) \<Rightarrow> output_replies sg (tn_output tn) (cs_terminal s) | _ \<Rightarrow> [])"

fun accepted_run :: "'m screen \<Rightarrow> turn list \<Rightarrow> 'm client_session \<Rightarrow> bytes" where
  "accepted_run sg [] s = []"
| "accepted_run sg (tn # tns) s =
     accepted tn s @ (case session_turn sg tn s of Some (Go s) \<Rightarrow> accepted_run sg tns s | _ \<Rightarrow> [])"

fun offered_run :: "'m screen \<Rightarrow> turn list \<Rightarrow> 'm client_session \<Rightarrow> bytes" where
  "offered_run sg [] s = []"
| "offered_run sg (tn # tns) s =
     typed tn @ turn_replies sg tn s @ (case session_turn sg tn s of Some (Go s) \<Rightarrow> offered_run sg tns s | _ \<Rightarrow> [])"

text \<open>Sending to the browser touches nothing else.\<close>

lemma session_send_same:
  assumes "session_send m s = (ok, s')"
  obtains out where "s' = s\<lparr>cs_outbound := out\<rparr>" "blocking_send m (cs_outbound s) = (ok, out)"
  using assms by (auto simp: session_send_def split: prod.splits)

lemma session_send_keeps [simp]:
  "cs_writing (snd (session_send m s)) = cs_writing s" "cs_pending_input (snd (session_send m s)) = cs_pending_input s"
  "cs_terminal (snd (session_send m s)) = cs_terminal s" "cs_input_chunk (snd (session_send m s)) = cs_input_chunk s"
  by (simp_all add: session_send_def split: prod.split)

lemma fail_keeps [simp]:
  "cs_writing (fail message s) = cs_writing s" "cs_pending_input (fail message s) = cs_pending_input s"
  "cs_terminal (fail message s) = cs_terminal s" "cs_input_chunk (fail message s) = cs_input_chunk s"
  by (simp_all add: fail_def)

lemma send_all_keeps:
  "send_all ms s = Go s' \<Longrightarrow> cs_writing s' = cs_writing s \<and> cs_pending_input s' = cs_pending_input s
     \<and> cs_terminal s' = cs_terminal s \<and> cs_input_chunk s' = cs_input_chunk s"
proof (induction ms arbitrary: s)
  case (Cons m ms)
  obtain ok t where t: "session_send m s = (ok, t)" by force
  then have "send_all ms t = Go s'" using Cons.prems by (simp split: if_splits)
  from Cons.IH [OF this] session_send_keeps [of m s] t show ?case by simp
qed simp

lemma history_command_keeps:
  assumes "history_command sg start n s = Some (Go s')"
  shows "cs_writing s' = cs_writing s" "cs_pending_input s' = cs_pending_input s" "cs_input_chunk s' = cs_input_chunk s"
  using assms session_send_keeps
  by (auto simp: history_command_def session_send_def Let_def split: prod.splits sum.splits option.splits if_splits)

lemma resize_command_keeps:
  assumes "resize_command sg answer cols rows s = Go s'"
  shows "cs_writing s' = cs_writing s" "cs_pending_input s' = cs_pending_input s" "cs_input_chunk s' = cs_input_chunk s"
  using assms by (auto simp: resize_command_def Let_def split: prod.splits sum.splits)

lemma take_command_input:
  assumes "take_command sg tn s = Some (Go s')"
  shows "cs_writing s' = cs_writing s \<and> owed s' = owed s @ typed tn \<and> cs_input_chunk s' = cs_input_chunk s"
  using assms
  by (auto simp: owed_def typed_def history_command_keeps resize_command_keeps split: inbound.splits client_command.splits)

lemma settle_write_input:
  assumes "settle_write tn s = Go s'"
  shows "accepted tn s @ owed s' = owed s" "cs_terminal s' = cs_terminal s" "cs_input_chunk s' = cs_input_chunk s"
    "cs_writing s' = None \<or> cs_writing s' = cs_writing s"
  using assms by (auto simp: settle_write_def accepted_def owed_def Let_def min_def split: option.splits)

lemma start_write_input:
  assumes "start_write tn s = Go s'"
  shows "owed s' = owed s" "cs_terminal s' = cs_terminal s" "cs_input_chunk s' = cs_input_chunk s"
    "cs_writing s' = cs_writing s \<or> (\<exists>bs. cs_writing s' = Some bs \<and> length bs \<le> cs_input_chunk s)"
  using assms by (auto simp: start_write_def owed_def Let_def split: if_splits sum.splits)

lemma feed_chunks_input:
  assumes "feed_chunks sg cs s = Go s'"
  shows "cs_pending_input s' = cs_pending_input s @ fst (chunk_replies sg cs (cs_terminal s))
    \<and> cs_terminal s' = snd (chunk_replies sg cs (cs_terminal s))
    \<and> cs_writing s' = cs_writing s \<and> cs_input_chunk s' = cs_input_chunk s"
  using assms
proof (induction cs arbitrary: s)
  case (Cons c cs)
  obtain r m where f: "sg_feed sg c (cs_terminal s) = (r, m)" by force
  then obtain effects where r: "r = Ok effects" using Cons.prems by (cases r) auto
  have "feed_chunks sg cs (s\<lparr>cs_terminal := m, cs_pending_input := cs_pending_input s @ effects\<rparr>) = Go s'"
    using Cons.prems f r by simp
  from Cons.IH [OF this] show ?case by (simp add: f r split: prod.split)
qed simp

lemma take_output_input:
  assumes "take_output sg es fed s = (fed', Go s')"
  shows "owed s' = owed s @ output_replies sg es (cs_terminal s) \<and> cs_writing s' = cs_writing s
    \<and> cs_input_chunk s' = cs_input_chunk s"
  using assms
proof (induction sg es fed s rule: take_output.induct)
  case (2 sg f n bs es fed s)
  obtain u where u: "feed_chunks sg (cell_chunks 4096 bs) s = Go u" using "2.prems" by (auto split: flow.splits)
  have "owed s' = owed u @ output_replies sg es (cs_terminal u) \<and> cs_writing s' = cs_writing u \<and> cs_input_chunk s' = cs_input_chunk u"
    using "2.IH" [OF u] "2.prems" u by simp
  moreover have "owed u = owed s @ fst (chunk_replies sg (cell_chunks 4096 bs) (cs_terminal s))"
    using feed_chunks_input [OF u] by (simp add: owed_def)
  ultimately show ?case using feed_chunks_input [OF u] by (simp add: case_prod_beta)
qed (auto simp: owed_def)

lemma project_input:
  assumes "project sg tn s = Some (Go s')"
  shows "owed s' = owed s" "cs_writing s' = cs_writing s" "cs_input_chunk s' = cs_input_chunk s"
  using assms
  by (auto simp: project_def owed_def Let_def split: if_splits prod.splits sum.splits option.splits dest!: send_all_keeps)

text \<open>One turn that goes on, taken apart.\<close>

lemma session_turn_Go:
  assumes "session_turn sg tn s = Some (Go s')"
  obtains s1 s2 s3 fed s4 s5 where "take_command sg tn s = Some (Go s1)" "settle_write tn s1 = Go s2" "start_write tn s2 = Go s3"
    "take_output sg (tn_output tn) False (settle_resize tn s3) = (fed, Go s4)"
    "project sg tn (s4\<lparr>cs_dirty := cs_dirty s4 \<or> fed\<rparr>) = Some (Go s5)" "finish_turn s5 = Go s'"
proof -
  have then_Go: "\<exists>t. f = Go t \<and> k t = Some (Go u)" if "flow_then f k = Some (Go u)" for f :: "'a client_session flow" and k u
    using that by (cases f) auto
  obtain f where f: "take_command sg tn s = Some f" using assms by (auto simp: session_turn_def split: option.splits)
  note a = assms [unfolded session_turn_def f option.case]
  obtain s1 where s1: "f = Go s1" using then_Go [OF a] by blast
  obtain s2 where s2: "settle_write tn s1 = Go s2" using a by (cases "settle_write tn s1") (auto simp: s1)
  obtain s3 where s3: "start_write tn s2 = Go s3" using a by (cases "start_write tn s2") (auto simp: s1 s2)
  obtain fed g where g: "take_output sg (tn_output tn) False (settle_resize tn s3) = (fed, g)" by force
  obtain s4 where s4: "g = Go s4" using a by (cases g) (auto simp: s1 s2 s3 g)
  obtain k where k: "project sg tn (s4\<lparr>cs_dirty := cs_dirty s4 \<or> fed\<rparr>) = Some k"
    using a by (auto simp: s1 s2 s3 g s4 split: option.splits)
  obtain s5 where s5: "k = Go s5" using a by (cases k) (auto simp: s1 s2 s3 g s4 k)
  show ?thesis by (rule that) (use f s1 s2 s3 g s4 k s5 a in auto)
qed

lemma session_turn_input:
  assumes "session_turn sg tn s = Some (Go s')" "\<forall>c. cs_writing s = Some c \<longrightarrow> length c \<le> cs_input_chunk s"
  shows "accepted tn s @ owed s' = owed s @ typed tn @ turn_replies sg tn s"
    "\<forall>c. cs_writing s' = Some c \<longrightarrow> length c \<le> cs_input_chunk s'" "cs_input_chunk s' = cs_input_chunk s"
proof -
  obtain s1 s2 s3 fed s4 s5 where st: "take_command sg tn s = Some (Go s1)" "settle_write tn s1 = Go s2" "start_write tn s2 = Go s3"
    "take_output sg (tn_output tn) False (settle_resize tn s3) = (fed, Go s4)"
    "project sg tn (s4\<lparr>cs_dirty := cs_dirty s4 \<or> fed\<rparr>) = Some (Go s5)" "finish_turn s5 = Go s'"
    by (rule session_turn_Go [OF assms(1)])
  note c1 = take_command_input [OF st(1)] and c2 = settle_write_input [OF st(2)] and c3 = start_write_input [OF st(3)]
    and c4 = take_output_input [OF st(4)] and c5 = project_input [OF st(5)]
  have s': "s' = s5" using st(6) by (simp add: finish_turn_def split: option.splits)
  have r: "settle_resize tn s3 = s3 \<or> settle_resize tn s3 = s3\<lparr>cs_resizing := False\<rparr>" by (simp add: settle_resize_def)
  then have r3: "owed (settle_resize tn s3) = owed s3" "cs_terminal (settle_resize tn s3) = cs_terminal s3"
    "cs_writing (settle_resize tn s3) = cs_writing s3" "cs_input_chunk (settle_resize tn s3) = cs_input_chunk s3"
    by (auto simp: owed_def)
  have "owed s' = owed s3 @ output_replies sg (tn_output tn) (cs_terminal s1)"
    using c4 c5(1) r3(1,2) c3(2) c2(2) by (simp add: s' owed_upd)
  moreover have "turn_replies sg tn s = output_replies sg (tn_output tn) (cs_terminal s1)"
    using st(1) by (simp add: turn_replies_def)
  moreover have "accepted tn s = accepted tn s1" using c1 by (simp add: accepted_def)
  ultimately show "accepted tn s @ owed s' = owed s @ typed tn @ turn_replies sg tn s"
    using c1 c2(1) c3(1) by (metis append.assoc)
  show chunk: "cs_input_chunk s' = cs_input_chunk s" using c1 c2(3) c3(3) c4 c5(3) r3(4) by (simp add: s')
  have "\<forall>c. cs_writing s3 = Some c \<longrightarrow> length c \<le> cs_input_chunk s"
    using assms(2) c1 c2(3,4) c3(4) by auto
  then show "\<forall>c. cs_writing s' = Some c \<longrightarrow> length c \<le> cs_input_chunk s'"
    using c4 c5(2) r3(3) chunk by (simp add: s')
qed

lemma session_turns_input:
  assumes "session_turns sg tns s = Some (Go s')" "\<forall>c. cs_writing s = Some c \<longrightarrow> length c \<le> cs_input_chunk s"
  shows "accepted_run sg tns s @ owed s' = owed s @ offered_run sg tns s
    \<and> (\<forall>c. cs_writing s' = Some c \<longrightarrow> length c \<le> cs_input_chunk s)"
  using assms
proof (induction tns arbitrary: s)
  case (Cons tn tns)
  obtain u where u: "session_turn sg tn s = Some (Go u)" "session_turns sg tns u = Some (Go s')"
    using Cons.prems(1) by (auto split: option.splits elim!: flow_then.elims)
  note t = session_turn_input [OF u(1) Cons.prems(2)]
  have ih: "accepted_run sg tns u @ owed s' = owed u @ offered_run sg tns u"
    "\<forall>c. cs_writing s' = Some c \<longrightarrow> length c \<le> cs_input_chunk u"
    using Cons.IH [OF u(2) t(2)] by simp_all
  have "(accepted tn s @ accepted_run sg tns u) @ owed s' = (accepted tn s @ owed u) @ offered_run sg tns u" using ih(1) by simp
  also have "\<dots> = owed s @ typed tn @ turn_replies sg tn s @ offered_run sg tns u" unfolding t(1) by simp
  finally show ?case using ih(2) t(3) u(1) by simp
qed simp

section \<open>The screen\<close>

text \<open>
  What is relied on of the terminal, with \<open>shown\<close> the view of a terminal state and \<open>K\<close> the styles
  it ever uses: a view copies the whole grid and changes nothing of it, a scrollback read disturbs
  no reader, and at most 512 styles are in use.
\<close>

definition screen_laws :: "'m screen \<Rightarrow> ('m \<Rightarrow> terminal_view) \<Rightarrow> style_key set \<Rightarrow> bool" where
  "screen_laws sg shown K \<longleftrightarrow> finite K \<and> card K \<le> 512
     \<and> (\<forall>m. view_ok (shown m) \<and> screen_keys (shown m) \<subseteq> K)
     \<and> (\<forall>m v m'. sg_view sg m = (Ok v, m') \<longrightarrow> v = shown m \<and> shown m' = shown m)
     \<and> (\<forall>start n m r m'. sg_history sg start n m = (r, m') \<longrightarrow> shown m' = shown m)
     \<and> (\<forall>start n m h m' p. sg_history sg start n m = (Ok h, m')
          \<longrightarrow> p \<in> insert blank_palette (range (tv_palette \<circ> shown)) \<longrightarrow> history_keys h p \<subseteq> K)"

definition receives :: "browser \<Rightarrow> 'm client_session \<Rightarrow> browser" where
  "receives b s = browser_run b (ob_sent (cs_outbound s))"

definition no_exit :: "'m client_session \<Rightarrow> bool" where
  "no_exit s \<longleftrightarrow> (\<forall>status. MsgExit status \<notin> set (ob_sent (cs_outbound s)))"

definition session_synced :: "browser \<Rightarrow> ('m \<Rightarrow> terminal_view) \<Rightarrow> style_key set \<Rightarrow> 'm client_session \<Rightarrow> bool" where
  "session_synced b shown K s \<longleftrightarrow> synced (receives b s) (cs_sent s) (cs_styles s) \<and> table_keys (cs_styles s) \<subseteq> K
     \<and> cs_palette s \<in> insert blank_palette (range (tv_palette \<circ> shown)) \<and> no_exit s"

definition session_current :: "browser \<Rightarrow> ('m \<Rightarrow> terminal_view) \<Rightarrow> 'm client_session \<Rightarrow> bool" where
  "session_current b shown s \<longleftrightarrow> in_view (receives b s) (cs_sent s) (cs_styles s) (shown (cs_terminal s))"

text \<open>The invariant of the loop: in step, and on the terminal's view unless a frame is owed.\<close>

definition session_ok :: "browser \<Rightarrow> ('m \<Rightarrow> terminal_view) \<Rightarrow> style_key set \<Rightarrow> bool \<Rightarrow> 'm client_session \<Rightarrow> bool" where
  "session_ok b shown K fed s \<longleftrightarrow> session_synced b shown K s \<and> (\<not> cs_dirty s \<and> \<not> fed \<longrightarrow> session_current b shown s)"

fun flow_ok :: "('s \<Rightarrow> bool) \<Rightarrow> ('s \<Rightarrow> bool) \<Rightarrow> 's flow \<Rightarrow> bool" where
  "flow_ok P Q (Go s) = P s"
| "flow_ok P Q (Leave s) = Q s"

lemma session_ok_cong:
  assumes "cs_outbound s' = cs_outbound s" "cs_sent s' = cs_sent s" "cs_styles s' = cs_styles s" "cs_palette s' = cs_palette s"
    "cs_terminal s' = cs_terminal s" "cs_dirty s' = cs_dirty s"
  shows "session_ok b shown K fed s' = session_ok b shown K fed s" "session_synced b shown K s' = session_synced b shown K s"
    "no_exit s' = no_exit s"
  using assms by (simp_all add: session_ok_def session_synced_def session_current_def receives_def no_exit_def)

lemma session_send_sent:
  assumes "session_send m s = (ok, s')"
  shows "ok \<Longrightarrow> ob_sent (cs_outbound s') = ob_sent (cs_outbound s) @ [m]" "\<not> ok \<Longrightarrow> s' = s" "ok \<longleftrightarrow> ob_left (cs_outbound s) \<noteq> 0"
    "cs_sent s' = cs_sent s" "cs_styles s' = cs_styles s" "cs_palette s' = cs_palette s" "cs_terminal s' = cs_terminal s"
    "cs_dirty s' = cs_dirty s" "cs_exited s' = cs_exited s"
  using assms by (auto simp: session_send_def blocking_send_def split: if_splits)

lemma fail_ok:
  "no_exit (fail message s) = no_exit s" "session_ok b shown K fed (fail message s) = session_ok b shown K fed s"
proof -
  obtain ok s' where f: "session_send (MsgError (bstr message)) s = (ok, s')" by force
  have r: "receives b s' = receives b s" "no_exit s' = no_exit s"
    using session_send_sent(1,2) [OF f] by (cases ok; auto simp: receives_def no_exit_def)+
  show "no_exit (fail message s) = no_exit s" "session_ok b shown K fed (fail message s) = session_ok b shown K fed s"
    using r session_send_sent(4-8) [OF f] by (simp_all add: fail_def f session_ok_def session_synced_def session_current_def)
qed

lemma send_all_sent:
  "send_all ms s = Go s' \<Longrightarrow> ob_sent (cs_outbound s') = ob_sent (cs_outbound s) @ ms
     \<and> cs_sent s' = cs_sent s \<and> cs_styles s' = cs_styles s \<and> cs_palette s' = cs_palette s \<and> cs_terminal s' = cs_terminal s
     \<and> cs_dirty s' = cs_dirty s \<and> cs_exited s' = cs_exited s"
  "send_all ms s = Leave s' \<Longrightarrow> no_exit s \<Longrightarrow> \<forall>status. MsgExit status \<notin> set ms \<Longrightarrow> no_exit s'"
proof (induction ms arbitrary: s)
  case (Cons m ms)
  {
    case 1
    obtain ok t where t: "session_send m s = (ok, t)" by force
    then have "ok" "send_all ms t = Go s'" using 1 by (simp_all split: if_splits)
    with Cons.IH(1) session_send_sent [OF t] show ?case by simp
  next
    case 2
    obtain ok t where t: "session_send m s = (ok, t)" by force
    then have "no_exit t" using session_send_sent(1,2) [OF t] 2(2,3) by (cases ok) (auto simp: no_exit_def)
    with 2(1,3) t Cons.IH(2) [of t] show ?case by (auto split: if_splits)
  }
qed simp_all

lemma diff_no_exit:
  assumes "sent_diff v t entire scrollback s = Some (ms, s', t')"
  shows "MsgExit status \<notin> set ms"
  using assms
  by (auto simp: sent_diff_def diff_ready_def diff_modes_def diff_frame_def Let_def split: prod.splits option.splits if_splits)

lemma screen_lawsD:
  assumes "screen_laws sg shown K"
  shows "view_ok (shown m)" "screen_keys (shown m) \<subseteq> K" "card K \<le> STYLE_CAP" "finite K"
    "sg_view sg m = (Ok v, m') \<Longrightarrow> v = shown m \<and> shown m' = shown m"
    "sg_history sg start n m = (r, m') \<Longrightarrow> shown m' = shown m"
    "sg_history sg start n m = (Ok h, m') \<Longrightarrow> p \<in> insert blank_palette (range (tv_palette \<circ> shown)) \<Longrightarrow> history_keys h p \<subseteq> K"
  using assms unfolding screen_laws_def STYLE_CAP_def by (blast+)

lemma session_ok_terminal:
  assumes "session_ok b shown K fed s" "shown m = shown (cs_terminal s)"
  shows "session_ok b shown K fed (s\<lparr>cs_terminal := m\<rparr>)"
  using assms by (simp add: session_ok_def session_synced_def session_current_def receives_def no_exit_def)

lemma history_sends_ok:
  assumes "session_ok b shown K False s" "encode_history h (cs_styles s) (cs_palette s) = Some (rows, styles, False, t)"
    "table_keys t \<subseteq> K" "s1 = s\<lparr>cs_styles := t\<rparr>"
    "s2 = (if styles \<noteq> [] then snd (session_send (MsgStyles styles) s1) else s1)"
    "session_send (MsgHistory start rows entire scrollback) s2 = (ok, s3)"
  shows "flow_ok (session_ok b shown K False) no_exit (if ok then Go s3 else Leave s3)"
proof -
  obtain ok2 s2' where two: "session_send (MsgStyles styles) s1 = (ok2, s2')" by force
  have exit1: "no_exit s1" using assms(1,4) by (simp add: session_ok_def session_synced_def no_exit_def)
  have exit2: "no_exit s2" using exit1 session_send_sent(1,2) [OF two] two assms(5)
    by (cases ok2) (auto simp: no_exit_def split: if_splits)
  show ?thesis
  proof (cases ok)
    case False
    then show ?thesis using session_send_sent(2) [OF assms(6)] exit2 by simp
  next
    case True
    then have left: "ob_left (cs_outbound s2) \<noteq> 0" using session_send_sent(3) [OF assms(6)] by simp
    have sent2: "ob_sent (cs_outbound s2) = ob_sent (cs_outbound s) @ (if styles \<noteq> [] then [MsgStyles styles] else [])"
    proof (cases "styles = []")
      case True then show ?thesis using assms(4,5) by simp
    next
      case False
      have "ok2"
      proof (rule ccontr)
        assume "\<not> ok2"
        then have "s2 = s1" "ob_left (cs_outbound s1) = 0"
          using session_send_sent(2,3) [OF two] two assms(5) False by auto
        then show False using left by simp
      qed
      then show ?thesis using session_send_sent(1) [OF two] two assms(4,5) False by simp
    qed
    have same: "cs_sent s3 = cs_sent s" "cs_styles s3 = t" "cs_palette s3 = cs_palette s" "cs_terminal s3 = cs_terminal s"
      "cs_dirty s3 = cs_dirty s"
      using session_send_sent(4-8) [OF assms(6)] session_send_sent(4-8) [OF two] two assms(4,5) by auto
    have sent3: "ob_sent (cs_outbound s3) = ob_sent (cs_outbound s2) @ [MsgHistory start rows entire scrollback]"
      using session_send_sent(1) [OF assms(6)] True by simp
    let ?b = "receives b s" and ?b' = "receives b s3"
    have b': "br_styles ?b' = client_after (br_styles ?b) False styles" "br_rows ?b' = br_rows ?b" "br_cursor ?b' = br_cursor ?b" "br_size ?b' = br_size ?b"
      by (auto simp: receives_def sent3 sent2 client_after_def)
    have "synced ?b (cs_sent s) (cs_styles s)" using assms(1) by (simp add: session_ok_def session_synced_def)
    note keep = history_keeps_view [OF this assms(2) b']
    have "no_exit s3" using exit2 sent3 by (auto simp: no_exit_def)
    then have "session_ok b shown K False s3"
      using assms(1,3) keep same by (simp add: session_ok_def session_synced_def session_current_def)
    then show ?thesis using True by simp
  qed
qed

lemma history_command_ok:
  assumes "screen_laws sg shown K" "session_ok b shown K False s"
  shows "\<exists>f. history_command sg start n s = Some f \<and> flow_ok (session_ok b shown K False) no_exit f"
proof -
  note laws = screen_lawsD [OF assms(1)]
  obtain r m where h: "sg_history sg start (min n 500) (cs_terminal s) = (r, m)" by force
  let ?s = "s\<lparr>cs_terminal := m\<rparr>"
  have ok: "session_ok b shown K False ?s" by (rule session_ok_terminal [OF assms(2) laws(6) [OF h]])
  show ?thesis
  proof (cases r)
    case (Inl e)
    then show ?thesis using ok by (simp add: history_command_def h fail_ok)
  next
    case (Inr hist)
    have c: "synced (receives b s) (cs_sent s) (cs_styles s)" "table_keys (cs_styles s) \<subseteq> K"
      "cs_palette s \<in> insert blank_palette (range (tv_palette \<circ> shown))"
      using assms(2) by (simp_all add: session_ok_def session_synced_def)
    have keys: "history_keys hist (cs_palette s) \<subseteq> K" using laws(7) [OF h [unfolded Inr] c(3)] .
    have t: "table_ok (cs_styles s)" "sb_pending (cs_styles s) = []" "client_knows (br_styles (receives b s)) (cs_styles s)"
      using c(1) by (simp_all add: synced_def)
    have "card (table_keys (cs_styles s) \<union> history_keys hist (cs_palette s)) \<le> card K"
      using c(2) keys laws(4) by (intro card_mono) auto
    then obtain rows styles t' where e: "encode_history hist (cs_styles s) (cs_palette s) = Some (rows, styles, False, t')"
      using encode_history_fits [OF t(1)] laws(3) by (metis order_trans)
    have keys': "table_keys t' \<subseteq> K" using encode_history_client(5) [OF t e] c(2) keys by blast
    define s1 where "s1 = ?s\<lparr>cs_styles := t'\<rparr>"
    define s2 where "s2 = (if styles \<noteq> [] then snd (session_send (MsgStyles styles) s1) else s1)"
    obtain sent s3 where s3: "session_send (MsgHistory (th_start hist) rows (th_total hist) (th_scrollback hist)) s2 = (sent, s3)" by force
    have "history_command sg start n s = Some (if sent then Go s3 else Leave s3)"
      using e s3 by (simp add: history_command_def h Inr s1_def s2_def cong: if_cong)
    moreover have "flow_ok (session_ok b shown K False) no_exit (if sent then Go s3 else Leave s3)"
      by (rule history_sends_ok [OF ok _ keys' s1_def s2_def s3]) (use e in simp)
    ultimately show ?thesis by blast
  qed
qed

lemma resize_command_ok:
  assumes "session_ok b shown K False s"
  shows "flow_ok (session_ok b shown K False) no_exit (resize_command sg answer cols rows s)"
proof -
  have "session_synced b shown K s" using assms by (simp add: session_ok_def)
  then show ?thesis using assms
    by (auto simp: resize_command_def session_ok_def session_synced_def receives_def no_exit_def Let_def fail_ok(1) [unfolded no_exit_def]
        split: prod.splits sum.splits)
qed

lemma take_command_ok:
  assumes "screen_laws sg shown K" "session_ok b shown K False s"
  shows "\<exists>f. take_command sg tn s = Some f \<and> flow_ok (session_ok b shown K False) no_exit f"
proof -
  have "no_exit s" using assms(2) by (simp add: session_ok_def session_synced_def)
  then show ?thesis
    using assms(2) history_command_ok [OF assms] resize_command_ok [OF assms(2)] session_ok_cong [of "s\<lparr>cs_pending_input := x\<rparr>" s for x]
    by (auto split: inbound.split client_command.split)
qed

lemma settle_write_ok:
  assumes "session_ok b shown K False s"
  shows "flow_ok (session_ok b shown K False) no_exit (settle_write tn s)"
proof -
  have "session_ok b shown K False (s\<lparr>cs_writing := w, cs_pending_input := p\<rparr>)"
    "no_exit (s\<lparr>cs_writing := w, cs_pending_input := p\<rparr>)" for w p
    using assms by (simp_all add: session_ok_cong [of "s\<lparr>cs_writing := w, cs_pending_input := p\<rparr>" s])
      (simp add: session_ok_def session_synced_def)
  then show ?thesis using assms by (auto simp: settle_write_def Let_def fail_ok split: option.split)
qed

lemma start_write_ok:
  assumes "session_ok b shown K False s"
  shows "flow_ok (session_ok b shown K False) no_exit (start_write tn s)"
proof -
  have "session_ok b shown K False (s\<lparr>cs_pending_input := p, cs_writing := w\<rparr>)" "no_exit (s\<lparr>cs_pending_input := p\<rparr>)" for w p
    using assms by (simp_all add: session_ok_cong [of "s\<lparr>cs_pending_input := p, cs_writing := w\<rparr>" s] session_ok_cong [of "s\<lparr>cs_pending_input := p\<rparr>" s])
      (simp add: session_ok_def session_synced_def)
  then show ?thesis using assms by (auto simp: start_write_def Let_def fail_ok split: sum.split)
qed

lemma feed_chunks_synced:
  assumes "session_synced b shown K s"
  shows "flow_ok (session_synced b shown K) no_exit (feed_chunks sg cs s)"
  using assms
proof (induction cs arbitrary: s)
  case (Cons c cs)
  obtain r m where f: "sg_feed sg c (cs_terminal s) = (r, m)" by force
  have "session_synced b shown K (s\<lparr>cs_terminal := m, cs_pending_input := x\<rparr>)" "no_exit (s\<lparr>cs_terminal := m\<rparr>)" for x
    using Cons.prems by (simp_all add: session_synced_def receives_def no_exit_def)
  then show ?case using Cons.IH by (cases r) (simp_all add: f fail_ok)
qed simp

lemma take_output_ok:
  assumes "session_ok b shown K fed s"
  shows "flow_ok (session_ok b shown K (fst (take_output sg es fed s))) no_exit (snd (take_output sg es fed s))"
  using assms
proof (induction sg es fed s rule: take_output.induct)
  case (2 sg f n bs es fed s)
  have "flow_ok (session_synced b shown K) no_exit (feed_chunks sg (cell_chunks 4096 bs) s)"
    by (rule feed_chunks_synced) (use "2.prems" in \<open>simp add: session_ok_def\<close>)
  then show ?case using "2.IH" by (cases "feed_chunks sg (cell_chunks 4096 bs) s") (auto simp: session_ok_def)
next
  case (4 sg status es fed s)
  then show ?case using session_ok_cong [of "s\<lparr>cs_exited := x\<rparr>" s for x] by simp
qed (auto simp: fail_ok session_ok_def session_synced_def)

lemma project_ok:
  assumes "screen_laws sg shown K" "session_ok b shown K False s"
  shows "\<exists>f. project sg tn s = Some f
    \<and> flow_ok (\<lambda>s'. session_ok b shown K False s' \<and> (cs_exited s' \<noteq> None \<longrightarrow> session_current b shown s')) no_exit f"
proof (cases "cs_exited s \<noteq> None \<or> (cs_dirty s \<and> cs_next_frame s \<le> tn_now tn)")
  case False
  then have "project sg tn s = Some (Go s)" by (auto simp: project_def)
  then show ?thesis using assms(2) False by simp
next
  case True
  note laws = screen_lawsD [OF assms(1)]
  have sync: "synced (receives b s) (cs_sent s) (cs_styles s)" "table_keys (cs_styles s) \<subseteq> K" "no_exit s"
    using assms(2) by (simp_all add: session_ok_def session_synced_def)
  obtain r m where v: "sg_view sg (cs_terminal s) = (r, m)" by force
  show ?thesis
  proof (cases r)
    case (Inl e)
    then show ?thesis using True sync(3) by (simp add: project_def v fail_ok) (simp add: no_exit_def)
  next
    case (Inr view)
    have view: "view = shown (cs_terminal s)" "shown m = shown (cs_terminal s)" using laws(5) v Inr by blast+
    obtain c m2 where c: "sg_history sg (- 1) 0 m = (c, m2)" by force
    have m2: "shown m2 = view" using laws(6) [OF c] view by simp
    obtain entire scrollback where counts: "(case c of Ok counts \<Rightarrow> (th_total counts, th_scrollback counts) | Err e \<Rightarrow> (0, 0)) = (entire, scrollback)"
      by (cases c) auto
    have "card (screen_keys view) \<le> card K" unfolding view(1) by (rule card_mono) (use laws(2,4) in auto)
    then have card: "card (screen_keys view) \<le> STYLE_CAP" using laws(3) by simp
    have ok: "view_ok view" using laws(1) view(1) by simp
    obtain ms sent t where d: "sent_diff view (cs_styles s) entire scrollback (cs_sent s) = Some (ms, sent, t)"
      and vw: "in_view (browser_run (receives b s) ms) sent t view" and keys: "table_keys t \<subseteq> table_keys (cs_styles s) \<union> screen_keys view"
      by (rule sent_diff_shows [OF sync(1) ok card, where entire = entire and scrollback = scrollback])
    let ?s = "s\<lparr>cs_next_frame := tn_now tn + FRAME_INTERVAL, cs_dirty := False, cs_palette := tv_palette view, cs_terminal := m2,
      cs_sent := sent, cs_styles := t\<rparr>"
    have p: "project sg tn s = Some (send_all ms ?s)"
      using True d by (simp add: project_def v Inr c counts)
    have exit: "no_exit ?s" using sync(3) by (simp add: no_exit_def)
    have "flow_ok (\<lambda>s'. session_ok b shown K False s' \<and> (cs_exited s' \<noteq> None \<longrightarrow> session_current b shown s')) no_exit (send_all ms ?s)"
    proof (cases "send_all ms ?s")
      case (Leave s')
      then show ?thesis using send_all_sent(2) [OF Leave exit] diff_no_exit [OF d] by simp
    next
      case (Go s')
      note g = send_all_sent(1) [OF Go]
      have r': "receives b s' = browser_run (receives b s) ms" using g by (simp add: receives_def)
      have "session_current b shown s'" unfolding session_current_def r' using g m2 vw by simp
      moreover have "no_exit s'" using g exit diff_no_exit [OF d] by (auto simp: no_exit_def)
      moreover have "table_keys t \<subseteq> K" using keys sync(2) laws(2) view(1) by blast
      moreover have "synced (receives b s') (cs_sent s') (cs_styles s')" using g vw r' by (simp add: in_view_def)
      moreover have "tv_palette view \<in> range (tv_palette \<circ> shown)" using view(1) by auto
      ultimately show ?thesis using Go g by (simp add: session_ok_def session_synced_def)
    qed
    with p show ?thesis by blast
  qed
qed

text \<open>What the browser has been told when the session ends.\<close>

definition ends_current :: "browser \<Rightarrow> ('m \<Rightarrow> terminal_view) \<Rightarrow> 'm client_session \<Rightarrow> bool" where
  "ends_current b shown s \<longleftrightarrow>
     (\<forall>ms status. ob_sent (cs_outbound s) = ms @ [MsgExit status] \<longrightarrow> screen_painted (receives b s) (shown (cs_terminal s)))"

lemma no_exit_ends: "no_exit s \<Longrightarrow> ends_current b shown s"
  by (auto simp: no_exit_def ends_current_def)

lemma finish_turn_ok:
  assumes "session_ok b shown K False s" "cs_exited s \<noteq> None \<longrightarrow> session_current b shown s"
  shows "flow_ok (session_ok b shown K False) (ends_current b shown) (finish_turn s)"
proof (cases "cs_exited s")
  case None
  then show ?thesis using assms(1) by (simp add: finish_turn_def)
next
  case (Some status)
  obtain ok s' where f: "session_send (MsgExit status) s = (ok, s')" by force
  have exit: "no_exit s" using assms(1) by (simp add: session_ok_def session_synced_def)
  have "ends_current b shown s'"
  proof (cases ok)
    case False
    then show ?thesis using session_send_sent(2) [OF f] no_exit_ends [OF exit] by simp
  next
    case True
    have "screen_painted (receives b s) (shown (cs_terminal s))"
      using assms(2) Some in_view_painted by (auto simp: session_current_def)
    moreover have "receives b s' = receives b s" using session_send_sent(1) [OF f True] by (simp add: receives_def)
    ultimately show ?thesis using session_send_sent(7) [OF f] by (simp add: ends_current_def)
  qed
  then show ?thesis by (simp add: finish_turn_def Some f)
qed

lemma flow_then_ok:
  assumes "flow_ok P Q f" "\<And>s. P s \<Longrightarrow> \<exists>g. k s = Some g \<and> flow_ok P' Q' g" "\<And>s. Q s \<Longrightarrow> Q' s"
  shows "\<exists>g. flow_then f k = Some g \<and> flow_ok P' Q' g"
  using assms by (cases f) auto

lemma session_turn_ok:
  assumes "screen_laws sg shown K" "session_ok b shown K False s"
  shows "\<exists>f. session_turn sg tn s = Some f \<and> flow_ok (session_ok b shown K False) (ends_current b shown) f"
proof -
  let ?ok = "session_ok b shown K False"
  have last: "\<exists>g. Some (finish_turn s) = Some g \<and> flow_ok ?ok (ends_current b shown) g"
    if "?ok s \<and> (cs_exited s \<noteq> None \<longrightarrow> session_current b shown s)" for s :: "'a client_session"
    using finish_turn_ok that by blast
  have projects: "\<exists>g. (case project sg tn (s\<lparr>cs_dirty := cs_dirty s \<or> fed\<rparr>) of None \<Rightarrow> None | Some f \<Rightarrow> flow_then f (\<lambda>s. Some (finish_turn s))) = Some g
      \<and> flow_ok ?ok (ends_current b shown) g" if "session_ok b shown K fed s" for s :: "'a client_session" and fed
  proof -
    have "?ok (s\<lparr>cs_dirty := cs_dirty s \<or> fed\<rparr>)"
      using that by (auto simp: session_ok_def session_synced_def session_current_def receives_def no_exit_def)
    from project_ok [OF assms(1) this, of tn] obtain f where "project sg tn (s\<lparr>cs_dirty := cs_dirty s \<or> fed\<rparr>) = Some f"
      "flow_ok (\<lambda>s'. ?ok s' \<and> (cs_exited s' \<noteq> None \<longrightarrow> session_current b shown s')) no_exit f" by blast
    with flow_then_ok [OF this(2) last no_exit_ends] show ?thesis by simp
  qed
  have outputs: "\<exists>g. (case take_output sg (tn_output tn) False (settle_resize tn s) of (fed, f) \<Rightarrow> flow_then f (\<lambda>s.
        case project sg tn (s\<lparr>cs_dirty := cs_dirty s \<or> fed\<rparr>) of None \<Rightarrow> None | Some f \<Rightarrow> flow_then f (\<lambda>s. Some (finish_turn s)))) = Some g
      \<and> flow_ok ?ok (ends_current b shown) g" if "?ok s" for s :: "'a client_session"
  proof -
    have "?ok (settle_resize tn s)" using that session_ok_cong [of "settle_resize tn s" s] by (simp add: settle_resize_def)
    from take_output_ok [OF this, of sg "tn_output tn"] obtain fed f where
      "take_output sg (tn_output tn) False (settle_resize tn s) = (fed, f)" "flow_ok (session_ok b shown K fed) no_exit f"
      by (cases "take_output sg (tn_output tn) False (settle_resize tn s)") auto
    with flow_then_ok [OF this(2) projects no_exit_ends] show ?thesis by simp
  qed
  obtain f where f: "take_command sg tn s = Some f" "flow_ok ?ok no_exit f" using take_command_ok [OF assms] by blast
  show ?thesis unfolding session_turn_def f(1) option.case
    by (intro flow_then_ok [OF f(2)] flow_then_ok [OF settle_write_ok] flow_then_ok [OF start_write_ok] outputs no_exit_ends)
qed

lemma session_turns_ok:
  assumes "screen_laws sg shown K" "session_ok b shown K False s"
  shows "\<exists>f. session_turns sg tns s = Some f \<and> flow_ok (session_ok b shown K False) (ends_current b shown) f"
  using assms(2)
proof (induction tns arbitrary: s)
  case (Cons tn tns)
  obtain f where f: "session_turn sg tn s = Some f" "flow_ok (session_ok b shown K False) (ends_current b shown) f"
    using session_turn_ok [OF assms(1) Cons.prems] by blast
  show ?case using flow_then_ok [OF f(2) Cons.IH] f(1) by simp
qed simp

section \<open>Properties\<close>

lemma session_begin_input: "owed (session_begin geometry chunk m now out) = []"
  by (simp add: session_begin_def owed_def)

text \<open>
  C5. Nothing typed is lost, repeated or reordered.  At any moment of a session, the bytes the
  process has accepted, followed by the chunk in flight and the queue, are exactly the bytes the
  client typed and the terminal answered, in the order they came, whatever part of each write the
  operating system took; and no write is larger than the input chunk of the session.
\<close>

theorem client_input_exact:
  assumes "session_turns sg tns (session_begin geometry chunk m now out) = Some (Go s)"
  shows "accepted_run sg tns (session_begin geometry chunk m now out) @ owed s
      = offered_run sg tns (session_begin geometry chunk m now out)
    \<and> (\<forall>c. cs_writing s = Some c \<longrightarrow> length c \<le> chunk)"
  using session_turns_input [OF assms] session_begin_input [of geometry chunk m now out]
  by (simp add: session_begin_def)

definition sample_screen :: "unit screen" where
  "sample_screen = \<lparr>sg_feed = \<lambda>bs m. (Ok [], m), sg_resize = \<lambda>geometry g m. (Ok (), m),
     sg_view = \<lambda>m. (Ok sample_view, m), sg_history = \<lambda>start n m. (Err TUnsupported, m)\<rparr>"

definition sample_turn :: "inbound \<Rightarrow> write_outcome option \<Rightarrow> turn" where
  "sample_turn command written = \<lparr>tn_inbound = command, tn_resize = Ok (), tn_written = written, tn_write = Ok (),
     tn_resized = False, tn_output = [], tn_now = 0\<rparr>"

definition sample_session :: "duration \<Rightarrow> unit client_session" where
  "sample_session now = session_begin \<lparr>ts_cols = 2, ts_rows = 1\<rparr> 2 () now \<lparr>ob_sent = [], ob_left = 10\<rparr>"

theorem client_input_exact_witness:
  "\<exists>s. session_turns sample_screen [sample_turn (InCommand (CcInput [104, 105, 33])) None,
        sample_turn InEmpty (Some \<lparr>wo_written = 1, wo_error = None\<rparr>)] (sample_session 1) = Some (Go s)
     \<and> accepted_run sample_screen [sample_turn (InCommand (CcInput [104, 105, 33])) None,
        sample_turn InEmpty (Some \<lparr>wo_written = 1, wo_error = None\<rparr>)] (sample_session 1) @ owed s = [104, 105, 33]"
proof -
  let ?tns = "[sample_turn (InCommand (CcInput [104, 105, 33])) None, sample_turn InEmpty (Some \<lparr>wo_written = 1, wo_error = None\<rparr>)]"
  note ev = sample_turn_def sample_session_def session_begin_def session_turn_def settle_write_def start_write_def settle_resize_def
    project_def finish_turn_def typed_def turn_replies_def
  obtain s where s: "session_turns sample_screen ?tns (sample_session 1) = Some (Go s)"
    by (simp add: ev)
  have "offered_run sample_screen ?tns (sample_session 1) = [104, 105, 33]" by (simp add: ev)
  then show ?thesis using client_input_exact [OF s [unfolded sample_session_def]] s by (simp add: sample_session_def)
qed

lemma session_begin_ok:
  assumes "synced b sent_default style_table_default"
  shows "session_ok b shown K False (session_begin geometry chunk m now \<lparr>ob_sent = [], ob_left = left\<rparr>)"
  using assms
  by (simp add: session_begin_def session_ok_def session_synced_def receives_def no_exit_def table_keys_def style_table_default_def)

text \<open>
  C4. The browser shows the terminal.  For a terminal that uses at most 512 styles, no turn of the
  session hangs; whenever no frame is owed (nothing arrived since the last one), a browser that
  started empty and took the messages sent paints exactly the terminal's current screen, text,
  widths, styles and cursor, scrollback reads in between included; and when the exit of the
  process is the last thing the browser hears, it already shows the terminal's final screen.
\<close>

theorem client_screen_current:
  assumes "screen_laws sg shown K" "br_styles b = Map.empty"
  shows "\<exists>f. session_turns sg tns (session_begin geometry chunk m now \<lparr>ob_sent = [], ob_left = left\<rparr>) = Some f
    \<and> (\<forall>s. f = Go s \<and> \<not> cs_dirty s \<longrightarrow> screen_painted (browser_run b (ob_sent (cs_outbound s))) (shown (cs_terminal s)))
    \<and> (\<forall>s ms status. f = Leave s \<and> ob_sent (cs_outbound s) = ms @ [MsgExit status]
         \<longrightarrow> screen_painted (browser_run b (ob_sent (cs_outbound s))) (shown (cs_terminal s)))"
proof -
  let ?s = "session_begin geometry chunk m now \<lparr>ob_sent = [], ob_left = left\<rparr>"
  have "client_knows (br_styles b) style_table_default" "sb_pending style_table_default = []"
    by (simp_all add: client_knows_def style_table_default_def)
  then have "synced b sent_default style_table_default" by (simp add: synced_def style_table_default_ok sent_default_def)
  then have "session_ok b shown K False ?s" by (rule session_begin_ok)
  then obtain f where f: "session_turns sg tns ?s = Some f" "flow_ok (session_ok b shown K False) (ends_current b shown) f"
    using session_turns_ok [OF assms(1)] by blast
  have "screen_painted (browser_run b (ob_sent (cs_outbound s))) (shown (cs_terminal s))" if "f = Go s" "\<not> cs_dirty s" for s
    using f(2) that in_view_painted by (auto simp: session_ok_def session_current_def receives_def)
  moreover have "screen_painted (browser_run b (ob_sent (cs_outbound s))) (shown (cs_terminal s))"
    if "f = Leave s" "ob_sent (cs_outbound s) = ms @ [MsgExit status]" for s ms status
    using f(2) that(1) that(2) unfolding that(1) flow_ok.simps ends_current_def receives_def by blast
  ultimately show ?thesis using f(1) by blast
qed

text \<open>A frame is at most five messages.\<close>

lemma diff_messages_few:
  assumes "sent_diff v t entire scrollback s = Some (ms, s', t')"
  shows "length ms \<le> 5"
  using assms
  by (auto simp: sent_diff_def diff_ready_def diff_modes_def diff_frame_def Let_def split: prod.splits option.splits if_splits)

lemma send_all_room: "length ms \<le> ob_left (cs_outbound s) \<Longrightarrow> \<exists>s'. send_all ms s = Go s'"
proof (induction ms arbitrary: s)
  case (Cons m ms)
  then show ?case
    using Cons.IH [of "snd (session_send m s)"] by (simp add: session_send_def blocking_send_def)
qed simp

lemma sample_screen_laws: "screen_laws sample_screen (\<lambda>_. sample_view) {sample_key 600, sample_key 601}"
  using sample_view_ok by (simp add: screen_laws_def sample_screen_def sample_view_keys card_insert_if)

theorem client_screen_current_witness:
  "\<exists>s. session_turns sample_screen [sample_turn InEmpty None] (sample_session 0) = Some (Go s) \<and> \<not> cs_dirty s
     \<and> screen_painted (browser_run sample_browser (ob_sent (cs_outbound s))) sample_view"
proof -
  let ?s = "session_begin \<lparr>ts_cols = 2, ts_rows = 1\<rparr> 2 () 0 \<lparr>ob_sent = [], ob_left = 10\<rparr> :: unit client_session"
  have "br_styles sample_browser = Map.empty" by (simp add: sample_browser_def)
  note current = client_screen_current [OF sample_screen_laws this, where tns = "[sample_turn InEmpty None]"
      and geometry = "\<lparr>ts_cols = 2, ts_rows = 1\<rparr>" and chunk = 2 and m = "()" and now = 0 and left = 10]
  obtain ms sent t where d: "sent_diff sample_view style_table_default 0 0 sent_default = Some (ms, sent, t)"
    by (rule sent_diff_shows [OF sample_synced sample_view_ok, of 0 0])
  define u where "u = (sample_session 0)\<lparr>cs_next_frame := FRAME_INTERVAL, cs_dirty := False, cs_palette := tv_palette sample_view,
    cs_terminal := (), cs_sent := sent, cs_styles := t\<rparr>"
  have "length ms \<le> ob_left (cs_outbound u)"
    using diff_messages_few [OF d] by (simp add: u_def sample_session_def session_begin_def)
  then obtain s where s: "send_all ms u = Go s" using send_all_room by blast
  have "session_turns sample_screen [sample_turn InEmpty None] (sample_session 0) = Some (Go s)"
    using d s send_all_sent(1) [OF s]
    by (simp add: session_turn_def sample_turn_def settle_write_def start_write_def settle_resize_def project_def finish_turn_def
        sample_screen_def sample_session_def session_begin_def u_def)
  moreover have "\<not> cs_dirty s" using send_all_sent(1) [OF s] by (simp add: u_def)
  ultimately show ?thesis using current by (auto simp: sample_session_def)
qed

end
