(* ===== verification/Spec2Isabelle.thy ===== *)
theory Spec2Isabelle
  imports Budgets Projection_Inventory Publisher Coordinator_Refinement Blocking_Pool Process_Backend Diagnostics Client_Session
begin

text \<open>
  Verification of the PTY runtime: a library that owns pseudoterminal sessions, retains their
  output for replay, and keeps for a projected session a terminal that can be parked in an
  encrypted checkpoint and restored.

  \<^bold>\<open>How the parts interact.\<close>  The runtime owner admits a session, spawns its process through a
  backend and registers it.  Output of the process goes to the session context, which appends it
  to the replay buffer under a quota, wakes the attached observers and, for a projected session,
  hands it to the coordinator.  The coordinator admits commands (output, resizes, views,
  snapshots) into a bounded queue; a worker of the scheduler pool runs it, feeds the terminal
  engine, appends to the continuation journal that transfers read, decides with the residency
  policy when to park, and leaves encryption and file access to the blocking pool, one job at a
  time.  An event publisher turns what an attachment reads into records for an external sink, and
  a demonstration server renders a session for a browser.

  \<^bold>\<open>Domain\<close> (\<^verbatim>\<open>crates/domain/src\<close>).
  \<^item> \<open>Identity\<close>: \<^verbatim>\<open>identity.rs\<close>.  \<open>Process_Values\<close>: \<^verbatim>\<open>process/\<close>.  \<open>Terminal_Values\<close>: \<^verbatim>\<open>terminal/mod.rs\<close>,
    \<^verbatim>\<open>view.rs\<close>, \<^verbatim>\<open>checkpoint.rs\<close> and \<^verbatim>\<open>checkpoint/\<close>.  \<open>Projection_Values\<close>: \<^verbatim>\<open>projection/mod.rs\<close> and
    \<^verbatim>\<open>options.rs\<close>.  \<open>Session_Values\<close>: \<^verbatim>\<open>session/mod.rs\<close>.  Validated values, their constructors with every
    refusal, and the lifecycle facts of a session.
  \<^item> \<open>Replay\<close>: \<^verbatim>\<open>replay.rs\<close>.  The buffer refines the byte stream produced so far: what is read at a
    cursor is the stream from there, after an explicit gap when it was evicted.  The locale
    \<open>retained_stream\<close> states that contract and gives the reader that follows a stream to its end.
  \<^item> \<open>Status_Report\<close>, \<open>Status_Scanner\<close>, \<open>Status_Store\<close>: \<^verbatim>\<open>terminal/program_status/\<close>.  The scanner does
    not depend on how output is cut into chunks, the parser accepts only bounded text, the store
    stays within its bounds and refuses a plan that is no longer current.
  \<^item> \<open>Projection_Policy\<close>: \<^verbatim>\<open>projection/policy.rs\<close>, the residency state machine.  \<open>Transfer_Order\<close>:
    \<^verbatim>\<open>projection/transfer.rs\<close>, the order and the retained floor of the continuation stream.

  \<^bold>\<open>Application\<close> (\<^verbatim>\<open>crates/application/src\<close>).
  \<^item> \<open>Quota\<close>, \<open>Budgets\<close>: \<^verbatim>\<open>runtime/quota.rs\<close>, \<^verbatim>\<open>projection/budgets.rs\<close> and \<^verbatim>\<open>crates/atomic_update.rs\<close>.  The
    compare-exchange loop under interference never overcommits a quota.
  \<^item> \<open>Journal\<close>: \<^verbatim>\<open>projection/journal.rs\<close> and \<^verbatim>\<open>transfer.rs\<close>.  The locale \<open>continuation_log\<close> is what a
    transfer relies on; a consumer that starts from a snapshot and follows the journal reaches the
    producer's state.
  \<^item> \<open>Session_Context\<close>: \<^verbatim>\<open>runtime/context.rs\<close>, \<^verbatim>\<open>attachment.rs\<close>, \<^verbatim>\<open>session.rs\<close>.  \<open>Runtime_Owner\<close>:
    \<^verbatim>\<open>runtime/owner.rs\<close>, \<^verbatim>\<open>lifecycle.rs\<close> and the registry.  \<open>Projection_Inventory\<close>: \<^verbatim>\<open>runtime/projected.rs\<close>.
    Delivery and charging of output, attachments, spawn with rollback, slots that are neither lost
    nor shared.
  \<^item> \<open>Ticket\<close>: \<^verbatim>\<open>projection/observation.rs\<close>.  \<open>Admission_Queue\<close>: \<^verbatim>\<open>projection/queue.rs\<close>, with the
    interleavings of callers and worker as the step relation \<open>queue_step\<close>.  \<open>Source_Reaper\<close>:
    \<^verbatim>\<open>projection/reaper.rs\<close> and \<^verbatim>\<open>inflight.rs\<close>.  \<open>Coordinator\<close>: \<^verbatim>\<open>coordinator.rs\<close>, \<^verbatim>\<open>admission.rs\<close>,
    \<^verbatim>\<open>worker.rs\<close>, \<^verbatim>\<open>native.rs\<close>, \<^verbatim>\<open>output.rs\<close>, \<^verbatim>\<open>io.rs\<close>.  \<open>Coordinator_Refinement\<close> shows that every operation
    of the coordinator is a sequence of steps of the queue and that the bytes fed to the engine and
    those still held are, in order, the bytes admitted.
  \<^item> \<open>Diagnostics\<close>: \<^verbatim>\<open>diagnostics/\<close>.  A percentile is an upper bound of the measured one and at most one
    bucket too large.

  \<^bold>\<open>Infrastructure\<close> (\<^verbatim>\<open>crates/infrastructure/src\<close>).
  \<^item> \<open>Scheduler\<close>, \<open>Blocking_Pool\<close>: \<^verbatim>\<open>scheduling/\<close>.  Workers and callers interleave one critical section at
    a time (\<open>sched_step\<close>, \<open>pool_step\<close>): no registration runs twice at once, a wake is served after at
    most one run of every other registration, accepted jobs all run before shutdown ends.
  \<^item> \<open>Checkpoint_Store\<close>, \<open>Checkpoint_Protector\<close>: \<^verbatim>\<open>checkpoint/file.rs\<close>, \<^verbatim>\<open>protector.rs\<close>.  The locale
    \<open>checkpoint_provider\<close> is the contract of \<open>ICheckpointStore\<close>, interpreted on the file store; a
    committed checkpoint is read back, and the quota is the sum of what is stored.
  \<^item> \<open>Process_Session\<close>: \<^verbatim>\<open>process/session.rs\<close>, \<^verbatim>\<open>io.rs\<close>, \<^verbatim>\<open>mod.rs\<close>.  \<open>Guardian_Client\<close>: \<^verbatim>\<open>process/guardian.rs\<close>.
    \<open>Process_Owner\<close>: \<^verbatim>\<open>process/lifecycle.rs\<close>.  \<open>Process_Backend\<close>: \<^verbatim>\<open>process/backend.rs\<close>, \<^verbatim>\<open>spawner.rs\<close>,
    \<^verbatim>\<open>registration.rs\<close>, \<^verbatim>\<open>supervisor.rs\<close>.  Writes reach the pseudoterminal in order and each reply says how
    much; the reader hands on exactly what it read; helpers cannot make the owner report twice or
    believe an unknown workload; a cancellation is escalated when its grace has passed; every launch
    is answered once and its admission returned.
  \<^item> \<open>Event_Codec\<close>, \<open>Publisher\<close>: \<^verbatim>\<open>event_stream/\<close>.  Records round-trip and every observation reaches the
    sink once, in order, with the retries of an unanswered send.

  \<^bold>\<open>Other programs.\<close>
  \<^item> \<open>Guardian_Protocol\<close>: \<^verbatim>\<open>scripts/guardian/protocol.rs\<close>.  The records between the runtime and its helper
    arrive complete, in order and unchanged over any partial reads and writes.
  \<^item> \<open>Client_Wire\<close>, \<open>Client_Frames\<close>, \<open>Client_Session\<close>: \<^verbatim>\<open>client/server/src/wire.rs\<close> and \<^verbatim>\<open>session.rs\<close>.  The
    browser paints the terminal's screen whenever no frame is owed, and what is typed reaches the
    process exactly once and in order.

  \<open>Prelude\<close> holds the machine integers, the result type and shared lemmas; \<open>Text\<close> the part of Rust's
  text types the sources use.

  \<^bold>\<open>Conventions.\<close>  A mutex-protected operation is a function from state to result and state; an
  operation split by lock releases or awaits is split into its critical sections, and a step
  relation composes them.  Errors are values of the source's enums in a sum type.  What is outside
  the sources (terminal engine, operating system, files, sockets, clock, allocator, the AEAD and its
  random source) answers through arguments, over which the theorems quantify; what is relied on is
  a named hypothesis, and each such theorem has a witness with a concrete instance.  Durations are
  nanoseconds as natural numbers.

  \<^bold>\<open>Loops.\<close>  Loops that end are structural or carry a measure.  \<open>follow\<close>, \<open>attachment_drain\<close> and
  \<open>catch_up\<close> describe a client that reads until nothing is left: the theorems give a fuel that is
  enough, the length of the stream still to read.  \<open>close_wait\<close> polls; its fuel only has to exceed the
  number of polls until an outcome is there.  One coordinator run serves at most 32 chunks or
  256 KiB, as the code does, so \<open>serve\<close> needs no fuel.  \<open>guardian_admit\<close> and \<open>guardian_cleanup\<close> poll until
  the helpers answer: they recurse over the list of answers, and nothing is claimed of one too short.  \<open>history_loop\<close> and \<open>diff_loop\<close> are partial
  functions because the source's loops can run forever: \<open>encode_history_returns_iff\<close> says exactly when.

  \<^bold>\<open>Not modelled.\<close>  Operating-system work without decisions of its own: process creation, signals,
  pseudoterminals and the helper image (\<^verbatim>\<open>process/spawn.rs\<close>, \<^verbatim>\<open>endpoints.rs\<close>, \<^verbatim>\<open>image.rs\<close>, \<^verbatim>\<open>signals.rs\<close>,
  \<^verbatim>\<open>watch.rs\<close>), the helper program itself (\<^verbatim>\<open>helpers/guardian\<close>), directory
  locking and file calls (\<^verbatim>\<open>checkpoint/filesystem.rs\<close>, \<^verbatim>\<open>inventory.rs\<close>), the foreign-function binding of
  the terminal engine, sockets, HTTP and JSON of the demonstration server.  Ports without state
  (traits, forwarding methods, constructors).  Inside the modelled parts: the waking of tasks beyond
  which watchers are woken, mutex poisoning, panics of wakers and destructors, memory leases beyond
  the amounts charged, and the latency measurements taken along the way.  Examples and experiments
  are not part of the library.
\<close>

end
